(* ===== verification/Prelude.thy ===== *)
theory Prelude
  imports Main "HOL-Library.Word"
begin

text \<open>
  Shared vocabulary of the development: the machine types of \<^verbatim>\<open>StackLib/defs.h\<close> on the
  LP64 target the CMake build selects (GCC, x86\_64 Linux), the big-endian byte order of the
  intermediate language, memory blocks as lists of bytes, and the general lemmas on lists and
  words that several components use.

  On LP64 the type \<^verbatim>\<open>uint32\<close> of \<^verbatim>\<open>defs.h\<close> is \<^verbatim>\<open>unsigned long\<close>, hence 64 bits
  wide; \<^verbatim>\<open>uint16\<close>, \<^verbatim>\<open>WORD\<close>, \<^verbatim>\<open>uint8\<close>, \<^verbatim>\<open>uchar\<close> and \<^verbatim>\<open>BYTE\<close> have
  the widths their names say.
\<close>

unbundle bit_operations_syntax

section \<open>Machine types\<close>

type_synonym u8 = "8 word"
type_synonym u16 = "16 word"
type_synonym u64 = "64 word"
type_synonym addr = nat

named_theorems wf_intros \<open>preservation of the component invariants\<close>
named_theorems code_facts \<open>unfolding rules for evaluating the model on closed terms\<close>

section \<open>Runtime errors of the C program\<close>

text \<open>
  An operation of the C program that the language leaves undefined (a read through a null
  pointer, an access outside an array, the use of a value that was never set) is an error value of the model.
\<close>

datatype c_error = Null_Deref | Out_Of_Bounds | Undefined_Value

type_synonym 'a result = "c_error + 'a"

definition bind_r :: "'a result \<Rightarrow> ('a \<Rightarrow> 'b result) \<Rightarrow> 'b result" where
  "bind_r r f = (case r of Inl e \<Rightarrow> Inl e | Inr x \<Rightarrow> f x)"

lemma bind_r_simps [simp]:
  "bind_r (Inl e) f = Inl e"
  "bind_r (Inr x) f = f x"
  by (simp_all add: bind_r_def)

lemma bind_r_Inr_iff: "bind_r r f = Inr y \<longleftrightarrow> (\<exists>x. r = Inr x \<and> f x = Inr y)"
  by (cases r) auto

text \<open>An operation that may not return is \<^term>\<open>None\<close> then, and an error or a value otherwise.\<close>

definition bind_o :: "'a result option \<Rightarrow> ('a \<Rightarrow> 'b result option) \<Rightarrow> 'b result option" where
  "bind_o r f = Option.bind r (\<lambda>x. case x of Inl e \<Rightarrow> Some (Inl e) | Inr y \<Rightarrow> f y)"

lemma bind_o_simps [simp]:
  "bind_o None f = None" "bind_o (Some (Inl e)) f = Some (Inl e)" "bind_o (Some (Inr x)) f = f x"
  by (simp_all add: bind_o_def)

section \<open>Lists\<close>

lemma sum_list_append_map: "sum_list (map f (xs @ ys)) = sum_list (map f xs) + (sum_list (map f ys) :: nat)"
  by simp

lemma take_drop_split: "n \<le> length xs \<Longrightarrow> take n xs @ drop n xs = xs"
  by simp

end
