(* ===== verification/Midgard.thy ===== *)
theory Midgard
  imports Prelude "HOL-Library.Multiset"
begin

text \<open>
  The heap manager of the virtual machine: \<^verbatim>\<open>StackVM/midgard_apis.c\<close> and the chunk
  iterators of \<^verbatim>\<open>StackVM/midgard.c\<close>, in the configuration of \<^verbatim>\<open>config.h\<close>
  (\<^verbatim>\<open>MIDGARD_LOW_OVERHEAD\<close>: no \<^verbatim>\<open>prev\<close> links; \<^verbatim>\<open>MEMORY_WIDTH\<close> 32 bit mode).

  A heap is one block of memory that holds a chain of chunk headers in increasing address
  order. Headers live in the block itself; the model keeps them in a typed store, a function
  from addresses to headers, beside the payload bytes. Pointers are natural numbers, 0 is NULL.
  Sizes are \<^verbatim>\<open>unsigned long\<close> (\<^verbatim>\<open>uint32\<close> of \<^verbatim>\<open>defs.h\<close>), 64 bits on LP64: every
  sum in which the requested size takes part is written with its wrap-around, and so are the sums of
  \<^verbatim>\<open>m_get_allocated_space\<close>. A well-formed heap lies in the lower half of the address
  space, so the addresses of its chunks never wrap.
\<close>

section \<open>State\<close>

record alloc_chain =
  ac_size :: nat
  ac_next :: addr

record heap_manager =
  hm_root :: addr
  hm_size :: nat
  hm_chain :: "addr \<Rightarrow> alloc_chain"
  hm_bytes :: "addr \<Rightarrow> u8"

text \<open>\<^verbatim>\<open>sizeof(alloc_chain)\<close> and \<^verbatim>\<open>sizeof(heap_manager)\<close> on LP64.\<close>

definition sz_chain :: nat where "sz_chain = 16"
definition sz_manager :: nat where "sz_manager = 16"

definition chunk_size :: "heap_manager \<Rightarrow> addr \<Rightarrow> nat" where
  "chunk_size h p = ac_size (hm_chain h p)"

definition chunk_next :: "heap_manager \<Rightarrow> addr \<Rightarrow> addr" where
  "chunk_next h p = ac_next (hm_chain h p)"

definition set_header :: "addr \<Rightarrow> nat \<Rightarrow> addr \<Rightarrow> heap_manager \<Rightarrow> heap_manager" where
  "set_header p sz nx h = h\<lparr>hm_chain := (hm_chain h)(p := \<lparr>ac_size = sz, ac_next = nx\<rparr>)\<rparr>"

definition set_next :: "addr \<Rightarrow> addr \<Rightarrow> heap_manager \<Rightarrow> heap_manager" where
  "set_next p nx h = set_header p (chunk_size h p) nx h"

section \<open>Operations\<close>

text \<open>
  \<^verbatim>\<open>m_heap_create\<close>: \<open>raw\<close> is what \<^verbatim>\<open>malloc\<close> returned together with the
  contents of the fresh block, \<^term>\<open>None\<close> when it failed.
\<close>

definition m_heap_create ::
  "(addr \<times> (addr \<Rightarrow> alloc_chain) \<times> (addr \<Rightarrow> u8)) option \<Rightarrow> nat \<Rightarrow> heap_manager option" where
  "m_heap_create raw sz =
     (case raw of None \<Rightarrow> None
      | Some (h, hdrs, bytes) \<Rightarrow>
          Some \<lparr>hm_root = h + sz_manager, hm_size = sz, hm_chain = hdrs, hm_bytes = bytes\<rparr>)"

text \<open>
  \<^verbatim>\<open>m_init_alloc\<close> writes the root header and the \<^verbatim>\<open>next\<close> field of the second
  header. The size field of the second header keeps what the memory held.
\<close>

definition m_init_alloc :: "heap_manager \<Rightarrow> heap_manager" where
  "m_init_alloc h =
     (let r = hm_root h; s = r + (sz_chain + sz_chain mod 4);
          h1 = set_header r 0 s h
      in set_next s 0 h1)"

text \<open>
  The loop of \<^verbatim>\<open>m_alloc\<close>; the result is the returned pointer (0 for NULL). The size sum of the gap
  test is computed in \<^verbatim>\<open>unsigned long\<close> before it is added to the pointer.
\<close>

definition wrap64 :: "nat \<Rightarrow> nat" where "wrap64 n = n mod 2 ^ 64"

partial_function (option) m_alloc_loop ::
  "heap_manager \<Rightarrow> nat \<Rightarrow> addr \<Rightarrow> (addr \<times> heap_manager) option" where
  "m_alloc_loop h sz p =
     (if chunk_next h p = 0 then
        (if wrap64 (p + sz + (sz_chain + sz_chain)) \<ge> wrap64 (hm_root h + hm_size h) then Some (0, h)
         else
           let t = wrap64 (p + (sz_chain + sz));
               h1 = set_header p sz t h;
               h2 = set_header t 0 0 h1
           in Some (p + sz_chain, h2))
      else
        let q = chunk_next h p in
        if q \<ge> wrap64 (p + wrap64 (chunk_size h p + (sz_chain + sz_chain) + sz)) then
          let c = wrap64 (p + wrap64 (chunk_size h p + sz_chain));
              h1 = set_next p c h;
              h2 = set_header c sz q h1
          in Some (c + sz_chain, h2)
        else m_alloc_loop h sz q)"

definition m_alloc :: "heap_manager \<Rightarrow> nat \<Rightarrow> (addr \<times> heap_manager) option" where
  "m_alloc h sz = m_alloc_loop h sz (hm_root h)"

text \<open>The loop of \<^verbatim>\<open>m_get_allocated_space\<close>.\<close>

partial_function (option) m_space_loop :: "heap_manager \<Rightarrow> addr \<Rightarrow> nat \<Rightarrow> nat option" where
  "m_space_loop h p acc =
     (if chunk_next h p = 0 then Some (wrap64 (acc + wrap64 (chunk_size h p + sz_chain)))
      else m_space_loop h (chunk_next h p) (wrap64 (acc + chunk_size h p)))"

definition m_get_allocated_space :: "heap_manager \<Rightarrow> nat option" where
  "m_get_allocated_space h = m_space_loop h (hm_root h) 0"

text \<open>
  The loop of \<^verbatim>\<open>m_free\<close>. The first statement of the body unlinks an empty chunk after
  an empty chunk; the second unlinks the chunk that holds \<open>ptr\<close>, moving the end of the
  heap when that chunk was the last header, and clears its header.
\<close>

definition m_free_compact :: "heap_manager \<Rightarrow> addr \<Rightarrow> heap_manager" where
  "m_free_compact h p =
     (if chunk_size h p = 0 \<and> chunk_next h p \<noteq> 0 \<and> chunk_size h (chunk_next h p) = 0
      then set_next p (chunk_next h (chunk_next h p)) h else h)"

definition m_free_unlink :: "heap_manager \<Rightarrow> addr \<Rightarrow> heap_manager" where
  "m_free_unlink h p =
     (let t = chunk_next h p; h1 = set_next p (chunk_next h t) h in
      if chunk_next h1 p = 0 then
        let e = p + (chunk_size h1 p + sz_chain); h2 = set_next p e h1
        in set_header e 0 0 h2
      else set_header t 0 0 h1)"

partial_function (option) m_free_loop :: "heap_manager \<Rightarrow> addr \<Rightarrow> addr \<Rightarrow> heap_manager option" where
  "m_free_loop h ptr p =
     (if p = 0 then Some h
      else
        let h1 = m_free_compact h p in
        if int (chunk_next h1 p) = int ptr - int sz_chain then Some (m_free_unlink h1 p)
        else m_free_loop h1 ptr (chunk_next h1 p))"

definition m_free :: "heap_manager \<Rightarrow> addr \<Rightarrow> heap_manager option" where
  "m_free h ptr = m_free_loop h ptr (hm_root h)"

text \<open>Chunk iterators of \<^verbatim>\<open>midgard.c\<close>; \<open>chunk\<close> is a payload address.\<close>

definition m_first_chunk :: "heap_manager \<Rightarrow> addr" where
  "m_first_chunk h = hm_root h + sz_chain"

definition m_next_chunk :: "heap_manager \<Rightarrow> addr \<Rightarrow> addr result" where
  "m_next_chunk h chunk =
     (let p = chunk_next h (chunk - sz_chain) in
      if p = 0 then Inl Null_Deref
      else if chunk_size h p = 0 then Inr 0 else Inr (p + sz_chain))"

definition m_size_chunk :: "heap_manager \<Rightarrow> addr \<Rightarrow> nat" where
  "m_size_chunk h chunk = chunk_size h (chunk - sz_chain)"

text \<open>
  \<^verbatim>\<open>m_shift_next_chunk\<close> moves the header and the payload of the following chunk down to
  the end of this one; the copied bytes are those of a \<^verbatim>\<open>memcpy\<close> from the lower end.
  The gap is unsigned, so the test is that the next chunk does not start at the end of this one.
\<close>

definition m_shift_next_chunk :: "heap_manager \<Rightarrow> addr \<Rightarrow> (addr \<times> heap_manager) result" where
  "m_shift_next_chunk h chunk =
     (if chunk = 0 then Inr (0, h)
      else
        let p = chunk - sz_chain;
            n = chunk_next h p;
            e = p + sz_chain + chunk_size h p
        in
        if n = 0 then Inl Null_Deref
        else
          let (n', h') =
              (if n \<noteq> e then
                 let h1 = set_next p e h;
                     hd = hm_chain h1 n;
                     h2 = h1\<lparr>hm_chain := (hm_chain h1)(e := hd),
                             hm_bytes := (\<lambda>a. if e + sz_chain \<le> a \<and> a < e + sz_chain + ac_size hd
                                              then hm_bytes h1 (a - e + n) else hm_bytes h1 a)\<rparr>
                 in (e, h2)
               else (n, h))
          in if chunk_size h' n' = 0 then Inr (0, h') else Inr (n' + sz_chain, h'))"

section \<open>Chains of chunks\<close>

text \<open>
  \<open>m_walk\<close> lists the headers from \<open>p\<close> to the end marker. A heap is well formed when the
  walk from the root ends, every chunk lies before the next one and inside the block, every
  chunk between the root and the end marker has a payload, and the block lies in the lower half of the
  address space, where \<^verbatim>\<open>malloc\<close> places it. The root is an empty chunk after
  \<^verbatim>\<open>m_init_alloc\<close>; it can itself become the end marker and then a block (see
  \<^verbatim>\<open>m_free\<close>).
\<close>

partial_function (option) m_walk :: "heap_manager \<Rightarrow> addr \<Rightarrow> addr list option" where
  "m_walk h p =
     (if chunk_next h p = 0 then Some [p]
      else Option.bind (m_walk h (chunk_next h p)) (\<lambda>ps. Some (p # ps)))"

definition linked :: "heap_manager \<Rightarrow> addr \<Rightarrow> addr \<Rightarrow> bool" where
  "linked h p q \<longleftrightarrow> chunk_next h p = q \<and> p + sz_chain + chunk_size h p \<le> q"

definition is_chain :: "heap_manager \<Rightarrow> addr list \<Rightarrow> bool" where
  "is_chain h ps \<longleftrightarrow>
     ps \<noteq> [] \<and> 0 < hd ps \<and> successively (linked h) ps \<and> chunk_next h (last ps) = 0"

definition heap_shape :: "heap_manager \<Rightarrow> addr list \<Rightarrow> addr \<Rightarrow> bool" where
  "heap_shape h bs e \<longleftrightarrow>
     is_chain h (bs @ [e]) \<and> hd (bs @ [e]) = hm_root h \<and>
     (\<forall>p \<in> set (tl bs). 0 < chunk_size h p) \<and> e + sz_chain \<le> hm_root h + hm_size h \<and>
     hm_root h + hm_size h \<le> 2 ^ 63"

text \<open>The requests that the heap serves: not empty, and with room for two headers below \<open>2 ^ 63\<close>.\<close>

definition request_ok :: "nat \<Rightarrow> bool" where
  "request_ok n \<longleftrightarrow> 0 < n \<and> n + 2 * sz_chain \<le> 2 ^ 63"

definition heap_ok :: "heap_manager \<Rightarrow> bool" where
  "heap_ok h \<longleftrightarrow>
     (case m_walk h (hm_root h) of None \<Rightarrow> False
      | Some ps \<Rightarrow> heap_shape h (butlast ps) (last ps))"

text \<open>The live blocks: payload address and size of every non-empty chunk before the end.\<close>

definition blocks_of :: "heap_manager \<Rightarrow> addr list \<Rightarrow> (addr \<times> nat) list" where
  "blocks_of h bs = map (\<lambda>p. (p + sz_chain, chunk_size h p)) (filter (\<lambda>p. 0 < chunk_size h p) bs)"

definition live :: "heap_manager \<Rightarrow> (addr \<times> nat) multiset" where
  "live h = (case m_walk h (hm_root h) of None \<Rightarrow> {#} | Some ps \<Rightarrow> mset (blocks_of h (butlast ps)))"

text \<open>
  The reference for \<^verbatim>\<open>m_alloc\<close>: the first pair of neighbours with enough room between
  them for a header and the payload.
\<close>

fun first_gap :: "heap_manager \<Rightarrow> nat \<Rightarrow> addr list \<Rightarrow> (addr \<times> addr) option" where
  "first_gap h sz (p # q # ps) =
     (if p + chunk_size h p + sz_chain + sz_chain + sz \<le> q then Some (p, q)
      else first_gap h sz (q # ps))"
| "first_gap h sz _ = None"

section \<open>Lemmas on chains\<close>

lemma header_simps [simp]:
  "hm_root (set_header p s n h) = hm_root h"
  "hm_size (set_header p s n h) = hm_size h"
  "hm_bytes (set_header p s n h) = hm_bytes h"
  "chunk_size (set_header p s n h) q = (if q = p then s else chunk_size h q)"
  "chunk_next (set_header p s n h) q = (if q = p then n else chunk_next h q)"
  by (simp_all add: set_header_def chunk_size_def chunk_next_def)

lemma set_next_simps [simp]:
  "hm_root (set_next p n h) = hm_root h"
  "hm_size (set_next p n h) = hm_size h"
  "hm_bytes (set_next p n h) = hm_bytes h"
  "chunk_size (set_next p n h) q = chunk_size h q"
  "chunk_next (set_next p n h) q = (if q = p then n else chunk_next h q)"
  by (simp_all add: set_next_def)

lemma sz_chain_pos [simp]: "0 < sz_chain"
  by (simp add: sz_chain_def)

lemma linked_less: "linked h p q \<Longrightarrow> p < q"
  by (simp add: linked_def sz_chain_def)

lemma is_chain_sorted: "is_chain h ps \<Longrightarrow> sorted_wrt (<) ps"
proof -
  assume "is_chain h ps"
  then have "successively (<) ps"
    by (auto simp: is_chain_def intro: successively_mono linked_less)
  then show ?thesis by (simp add: successively_conv_sorted_wrt)
qed

lemma is_chain_distinct: "is_chain h ps \<Longrightarrow> distinct ps"
  using is_chain_sorted strict_sorted_iff by blast

lemma is_chain_Cons:
  "is_chain h (p # q # ps) \<longleftrightarrow> 0 < p \<and> linked h p q \<and> is_chain h (q # ps)"
  by (auto simp: is_chain_def dest: linked_less)

lemma is_chain_single: "is_chain h [p] \<longleftrightarrow> 0 < p \<and> chunk_next h p = 0"
  by (simp add: is_chain_def)

lemma is_chain_append:
  "is_chain h (xs @ p # ys) \<longleftrightarrow>
     0 < hd (xs @ [p]) \<and> successively (linked h) (xs @ [p]) \<and> is_chain h (p # ys)"
proof -
  have "0 < hd (xs @ [p]) \<Longrightarrow> successively (linked h) (xs @ [p]) \<Longrightarrow> 0 < p"
  proof -
    assume a: "0 < hd (xs @ [p])" "successively (linked h) (xs @ [p])"
    then have "sorted_wrt (<) (xs @ [p])"
      using successively_mono [OF a(2), of "(<)"] linked_less
      by (auto simp: successively_conv_sorted_wrt)
    with a(1) show "0 < p" by (cases xs) (auto simp: sorted_wrt_append)
  qed
  then show ?thesis
    by (auto simp: is_chain_def successively_append_iff hd_append)
qed

lemma is_chain_cong:
  assumes "\<And>p. p \<in> set ps \<Longrightarrow> chunk_size h' p = chunk_size h p \<and> chunk_next h' p = chunk_next h p"
  shows "is_chain h' ps = is_chain h ps"
proof -
  have "successively (linked h') ps = successively (linked h) ps"
    by (rule successively_cong) (auto simp: linked_def assms)
  moreover have "ps \<noteq> [] \<Longrightarrow> chunk_next h' (last ps) = chunk_next h (last ps)"
    using assms by simp
  ultimately show ?thesis by (auto simp: is_chain_def)
qed

lemma m_walk_chain: "is_chain h ps \<Longrightarrow> m_walk h (hd ps) = Some ps"
proof (induction ps rule: induct_list012)
  case (3 p q ps)
  then show ?case
    by (simp add: is_chain_Cons linked_def m_walk.simps [of h p] is_chain_def)
qed (simp_all add: is_chain_def m_walk.simps)

lemma heap_shape_walk: "heap_shape h bs e \<Longrightarrow> m_walk h (hm_root h) = Some (bs @ [e])"
  by (metis heap_shape_def m_walk_chain)

lemma heap_ok_iff: "heap_ok h \<longleftrightarrow> (\<exists>bs e. heap_shape h bs e)"
  by (auto simp: heap_ok_def heap_shape_walk split: option.splits)

lemma live_shape: "heap_shape h bs e \<Longrightarrow> live h = mset (blocks_of h bs)"
  by (simp add: live_def heap_shape_walk)

lemma shape_distinct: "heap_shape h bs e \<Longrightarrow> distinct (bs @ [e])"
  unfolding heap_shape_def by (blast intro: is_chain_distinct)

lemma blocks_of_append: "blocks_of h (xs @ ys) = blocks_of h xs @ blocks_of h ys"
  by (simp add: blocks_of_def)

lemma blocks_of_cong:
  "(\<And>p. p \<in> set bs \<Longrightarrow> chunk_size h' p = chunk_size h p) \<Longrightarrow> blocks_of h' bs = blocks_of h bs"
  by (induction bs) (auto simp: blocks_of_def)

section \<open>Allocation\<close>

lemma wrap64_id: "n < 2 ^ 64 \<Longrightarrow> wrap64 n = n"
  by (simp add: wrap64_def)

text \<open>Below \<open>2 ^ 63\<close> none of the sums wraps.\<close>

lemma m_alloc_loop_no_wrap:
  assumes "hm_root h + hm_size h \<le> 2 ^ 63" "sz + 2 * sz_chain \<le> 2 ^ 63" "p + sz_chain + chunk_size h p < 2 ^ 63 \<or> chunk_next h p = 0" "p < 2 ^ 63"
  shows "m_alloc_loop h sz p =
     (if chunk_next h p = 0 then
        (if p + sz + (sz_chain + sz_chain) \<ge> hm_root h + hm_size h then Some (0, h)
         else Some (p + sz_chain, set_header (p + (sz_chain + sz)) 0 0 (set_header p sz (p + (sz_chain + sz)) h)))
      else if chunk_next h p \<ge> p + chunk_size h p + sz_chain + sz_chain + sz then
        Some (p + (chunk_size h p + sz_chain) + sz_chain,
          set_header (p + (chunk_size h p + sz_chain)) sz (chunk_next h p) (set_next p (p + (chunk_size h p + sz_chain)) h))
      else m_alloc_loop h sz (chunk_next h p))"
proof (cases "chunk_next h p = 0")
  case True
  have "wrap64 (p + sz + (sz_chain + sz_chain)) = p + sz + (sz_chain + sz_chain)"
    "wrap64 (p + (sz_chain + sz)) = p + (sz_chain + sz)" "wrap64 (hm_root h + hm_size h) = hm_root h + hm_size h"
    by (rule wrap64_id; use assms in simp)+
  with True show ?thesis by (simp add: m_alloc_loop.simps [of h sz p] Let_def)
next
  case False
  with assms(3) have b: "p + sz_chain + chunk_size h p < 2 ^ 63" by simp
  have "wrap64 (p + wrap64 (chunk_size h p + (sz_chain + sz_chain) + sz)) = p + (chunk_size h p + (sz_chain + sz_chain) + sz)"
    "wrap64 (p + wrap64 (chunk_size h p + sz_chain)) = p + (chunk_size h p + sz_chain)"
    using b assms(2) by (simp_all add: wrap64_def)
  with False show ?thesis by (simp add: m_alloc_loop.simps [of h sz p] Let_def add.assoc)
qed

lemma m_alloc_loop_eq:
  assumes "is_chain h ps" and "hm_root h + hm_size h \<le> 2 ^ 63" "sz + 2 * sz_chain \<le> 2 ^ 63" "last ps < 2 ^ 63"
  shows "m_alloc_loop h sz (hd ps) =
    (case first_gap h sz ps of
       Some (a, b) \<Rightarrow>
         let c = a + (chunk_size h a + sz_chain)
         in Some (c + sz_chain, set_header c sz b (set_next a c h))
     | None \<Rightarrow>
         let e = last ps; t = e + (sz_chain + sz) in
         if e + sz + (sz_chain + sz_chain) \<ge> hm_root h + hm_size h then Some (0, h)
         else Some (e + sz_chain, set_header t 0 0 (set_header e sz t h)))"
  using assms
proof (induction ps rule: induct_list012)
  case (2 p)
  then show ?case by (simp add: is_chain_single m_alloc_loop_no_wrap Let_def)
next
  case (3 p q ps)
  then have c: "chunk_next h p = q" "0 < q" "is_chain h (q # ps)" "p + sz_chain + chunk_size h p \<le> q"
    by (auto simp: is_chain_Cons linked_def is_chain_def [of h "q # ps"])
  have "q < 2 ^ 63"
    using is_chain_sorted [OF c(3)] "3.prems"(4) by (cases "ps = []") (auto dest: bspec [OF _ last_in_set])
  with c "3.prems"(2,3) have loop: "m_alloc_loop h sz p =
      (if p + chunk_size h p + sz_chain + sz_chain + sz \<le> q
       then Some (p + (chunk_size h p + sz_chain) + sz_chain,
         set_header (p + (chunk_size h p + sz_chain)) sz q (set_next p (p + (chunk_size h p + sz_chain)) h))
       else m_alloc_loop h sz q)"
    by (subst m_alloc_loop_no_wrap) simp_all
  show ?case
  proof (cases "p + chunk_size h p + sz_chain + sz_chain + sz \<le> q")
    case True
    with loop show ?thesis by (simp add: Let_def)
  next
    case False
    with loop "3.IH"(2) "3.prems" c(3) show ?thesis by (simp add: Let_def split: option.split)
  qed
qed (simp add: is_chain_def)

lemma first_gap_split:
  assumes "first_gap h sz (bs @ [e]) = Some (a, b)"
  shows "\<exists>b1 b2. bs = b1 @ b2 \<and> b1 \<noteq> [] \<and> a = last b1 \<and> b = hd (b2 @ [e]) \<and>
           a + chunk_size h a + sz_chain + sz_chain + sz \<le> b"
  using assms
proof (induction bs rule: induct_list012)
  case (2 p)
  then show ?case by (intro exI [of _ "[p]"] exI [of _ "[]"]) (auto split: if_splits)
next
  case (3 p q bs)
  show ?case
  proof (cases "p + chunk_size h p + sz_chain + sz_chain + sz \<le> q")
    case True
    with "3.prems" show ?thesis by (intro exI [of _ "[p]"] exI [of _ "q # bs"]) auto
  next
    case False
    with "3.prems" "3.IH"(2) obtain b1 b2 where "q # bs = b1 @ b2" "b1 \<noteq> []" "a = last b1"
      "b = hd (b2 @ [e])" "a + chunk_size h a + sz_chain + sz_chain + sz \<le> b" by auto
    then show ?thesis by (intro exI [of _ "p # b1"] exI [of _ b2]) auto
  qed
qed simp

text \<open>
  A chain splits anywhere into linked headers and a chain; both halves survive a header
  update that does not touch them.
\<close>

lemma linked_frame:
  assumes "\<And>p. p \<in> set ps \<Longrightarrow> chunk_size h' p = chunk_size h p \<and> chunk_next h' p = chunk_next h p"
  shows "successively (linked h') (ps @ [q]) = successively (linked h) (ps @ [q])"
proof -
  have "linked h' x y = linked h x y" if "x \<in> set ps" for x y
    using that assms by (auto simp: linked_def)
  then have "successively (linked h') ps = successively (linked h) ps"
    and "ps \<noteq> [] \<Longrightarrow> linked h' (last ps) q = linked h (last ps) q"
    by (auto intro: successively_cong)
  then show ?thesis by (auto simp: successively_append_iff)
qed

lemma chain_insert:
  assumes ch: "is_chain h (xs @ a # b # ys)"
    and c: "a + sz_chain + chunk_size h a \<le> c" "c + sz_chain + sz \<le> b"
  shows "is_chain (set_header c sz b (set_next a c h)) (xs @ a # c # b # ys)" (is "is_chain ?h _")
proof -
  have ac: "a < c" "c < b" using c sz_chain_pos by linarith+
  have ord: "\<forall>p\<in>set xs. p < a" "\<forall>p\<in>set (b # ys). c < p"
    using is_chain_sorted [OF ch] ac by (auto simp: sorted_wrt_append)
  from ch have "0 < a" "0 < hd (xs @ [a])" "is_chain h (b # ys)" "successively (linked h) (xs @ [a])"
    by (auto simp: is_chain_append is_chain_Cons)
  moreover have "is_chain ?h (b # ys) = is_chain h (b # ys)"
    by (rule is_chain_cong) (use ord ac in auto)
  moreover have "successively (linked ?h) (xs @ [a]) = successively (linked h) (xs @ [a])"
    by (rule linked_frame) (use ord ac in auto)
  ultimately show ?thesis
    using c ac by (auto simp: is_chain_append [of ?h xs] is_chain_Cons linked_def)
qed

lemma chain_extend:
  assumes ch: "is_chain h (xs @ [e])" and t: "t = e + (sz_chain + sz)"
  shows "is_chain (set_header t 0 0 (set_header e sz t h)) (xs @ [e, t])" (is "is_chain ?h _")
proof -
  have et: "e < t" using t sz_chain_pos by linarith
  have ord: "\<forall>p\<in>set xs. p < e" using is_chain_sorted [OF ch] by (auto simp: sorted_wrt_append)
  from ch have "0 < e" "0 < hd (xs @ [e])" "successively (linked h) (xs @ [e])"
    by (auto simp: is_chain_append is_chain_single)
  moreover have "successively (linked ?h) (xs @ [e]) = successively (linked h) (xs @ [e])"
    by (rule linked_frame) (use ord et in auto)
  moreover have "is_chain ?h [e, t]"
    using t et \<open>0 < e\<close> by (auto simp: is_chain_Cons is_chain_single linked_def)
  ultimately show ?thesis by (simp add: is_chain_append [of ?h xs])
qed

lemma chain_remove:
  assumes ch: "is_chain h (xs @ a # c # b # ys)"
  shows "is_chain (set_header c 0 0 (set_next a b h)) (xs @ a # b # ys)" (is "is_chain ?h _")
proof -
  from ch have lk: "linked h a c" "linked h c b" by (auto simp: is_chain_append is_chain_Cons)
  then have acb: "a < c" "c < b" by (auto dest: linked_less)
  have ord: "\<forall>p\<in>set xs. p < a" "\<forall>p\<in>set (b # ys). c < p"
    using is_chain_sorted [OF ch] acb by (auto simp: sorted_wrt_append)
  from ch have "0 < a" "0 < hd (xs @ [a])" "is_chain h (b # ys)" "successively (linked h) (xs @ [a])"
    by (auto simp: is_chain_append is_chain_Cons)
  moreover have "is_chain ?h (b # ys) = is_chain h (b # ys)"
    by (rule is_chain_cong) (use ord acb in auto)
  moreover have "successively (linked ?h) (xs @ [a]) = successively (linked h) (xs @ [a])"
    by (rule linked_frame) (use ord acb in auto)
  ultimately show ?thesis
    using lk acb by (auto simp: is_chain_append [of ?h xs] is_chain_Cons linked_def)
qed

section \<open>Shapes of the heap after allocation and release\<close>

lemma split_last_hd: "b1 \<noteq> [] \<Longrightarrow> \<exists>xs ys. b1 = xs @ [last b1] \<and> b2 @ [e] = hd (b2 @ [e]) # ys"
  by (metis append_butlast_last_id append_is_Nil_conv list.collapse list.discI)

lemma shape_insert:
  assumes hs: "heap_shape h (b1 @ b2) e" and sz: "0 < sz" and b1: "b1 \<noteq> []"
    and a: "a = last b1" and b: "b = hd (b2 @ [e])"
    and c: "c = a + (chunk_size h a + sz_chain)" and gap: "c + sz_chain + sz \<le> b"
  defines "h' \<equiv> set_header c sz b (set_next a c h)"
  shows "heap_shape h' (b1 @ c # b2) e \<and> chunk_size h' c = sz \<and>
         (\<forall>p\<in>set (b1 @ b2). chunk_size h' p = chunk_size h p)"
proof -
  obtain xs ys where xs: "b1 = xs @ [a]" and ys: "b2 @ [e] = b # ys"
    using split_last_hd [OF b1] a b by metis
  have eq: "(b1 @ b2) @ [e] = xs @ a # b # ys" using xs ys by simp
  have "is_chain h' ((xs @ [a]) @ c # b # ys)"
    using chain_insert [of h xs a b ys c sz] hs gap unfolding heap_shape_def eq h'_def c by simp
  then have 1: "is_chain h' ((b1 @ c # b2) @ [e])"
    unfolding xs [symmetric] ys [symmetric] by simp
  have "c \<notin> set (b1 @ b2)" using is_chain_distinct [OF 1] by auto
  with 1 hs sz b1 show ?thesis
    by (auto simp: heap_shape_def h'_def dest: list.set_sel(2))
qed

lemma shape_extend:
  assumes hs: "heap_shape h bs e" and sz: "0 < sz" and t: "t = e + (sz_chain + sz)"
    and room: "e + sz + (sz_chain + sz_chain) < hm_root h + hm_size h"
  defines "h' \<equiv> set_header t 0 0 (set_header e sz t h)"
  shows "heap_shape h' (bs @ [e]) t \<and> chunk_size h' e = sz \<and>
         (\<forall>p\<in>set bs. chunk_size h' p = chunk_size h p)"
proof -
  have 1: "is_chain h' ((bs @ [e]) @ [t])"
    using chain_extend [of h bs e t sz] hs t by (simp add: heap_shape_def h'_def)
  have "distinct ((bs @ [e]) @ [t])" by (rule is_chain_distinct [OF 1])
  with 1 hs sz room t show ?thesis
    by (cases bs) (auto simp: heap_shape_def h'_def)
qed

lemma shape_remove:
  assumes hs: "heap_shape h (b1 @ c # b2) e" and b1: "b1 \<noteq> []"
    and a: "a = last b1" and b: "b = hd (b2 @ [e])"
  defines "h' \<equiv> set_header c 0 0 (set_next a b h)"
  shows "heap_shape h' (b1 @ b2) e \<and> (\<forall>p\<in>set (b1 @ b2). chunk_size h' p = chunk_size h p)"
proof -
  obtain xs ys where xs: "b1 = xs @ [a]" and ys: "b2 @ [e] = b # ys"
    using split_last_hd [OF b1] a b by metis
  have eq: "(b1 @ c # b2) @ [e] = xs @ a # c # b # ys" using xs ys by simp
  from hs have ch: "is_chain h ((b1 @ c # b2) @ [e])" by (simp add: heap_shape_def)
  then have "is_chain h' ((xs @ [a]) @ b # ys)"
    using chain_remove [of h xs a c b ys] unfolding eq h'_def by simp
  then have "is_chain h' ((b1 @ b2) @ [e])"
    unfolding xs [symmetric] ys [symmetric] by simp
  moreover have "distinct ((b1 @ c # b2) @ [e])" by (rule is_chain_distinct [OF ch])
  ultimately show ?thesis using hs b1 by (auto simp: heap_shape_def h'_def dest: list.set_sel(2))
qed

text \<open>Moving the end marker down to the end of the last chunk.\<close>

lemma shape_shift_end:
  assumes hs: "heap_shape h bs e" and bs: "bs \<noteq> []" and a: "a = last bs"
    and e': "e' = a + (chunk_size h a + sz_chain)"
  defines "h' \<equiv> set_header e' 0 0 (set_next a e' (set_next a 0 h))"
  shows "heap_shape h' bs e' \<and> (\<forall>p\<in>set bs. chunk_size h' p = chunk_size h p)"
proof -
  obtain xs where xs: "bs = xs @ [a]" using bs a by (metis append_butlast_last_id)
  have ch: "is_chain h (xs @ a # [e])" using hs by (simp add: heap_shape_def xs)
  then have le: "a + (chunk_size h a + sz_chain) \<le> e" "0 < a" and ae: "a < e'"
    using e' sz_chain_pos by (auto simp: is_chain_append is_chain_Cons linked_def)
  have ord: "\<forall>p\<in>set xs. p < a" using is_chain_sorted [OF ch] by (auto simp: sorted_wrt_append)
  have "successively (linked h') (xs @ [a]) = successively (linked h) (xs @ [a])"
    by (rule linked_frame) (use ord ae in \<open>auto simp: h'_def\<close>)
  moreover have "is_chain h' [a, e']"
    using le ae e' by (auto simp: is_chain_Cons is_chain_single linked_def h'_def)
  ultimately have "is_chain h' (xs @ a # [e'])"
    using ch by (simp add: is_chain_append)
  moreover have "\<forall>p\<in>set bs. p \<noteq> e'" using ord ae by (auto simp: xs)
  ultimately show ?thesis
    using hs le e' by (cases xs) (auto simp: heap_shape_def xs h'_def)
qed


text \<open>
  What \<^verbatim>\<open>m_alloc\<close> does to a well-formed heap: it fails and changes nothing, or it adds
  one chunk to the chain.
\<close>

lemma m_alloc_eq:
  assumes hs: "heap_shape h bs e" and "sz + 2 * sz_chain \<le> 2 ^ 63"
  shows "m_alloc h sz = (case first_gap h sz (bs @ [e]) of
       Some (a, b) \<Rightarrow> let c = a + (chunk_size h a + sz_chain)
         in Some (c + sz_chain, set_header c sz b (set_next a c h))
     | None \<Rightarrow> let t = e + (sz_chain + sz) in
         if hm_root h + hm_size h \<le> e + sz + (sz_chain + sz_chain) then Some (0, h)
         else Some (e + sz_chain, set_header t 0 0 (set_header e sz t h)))"
proof -
  have "is_chain h (bs @ [e])" "hm_root h + hm_size h \<le> 2 ^ 63" "last (bs @ [e]) < 2 ^ 63" "hd (bs @ [e]) = hm_root h"
    using hs by (auto simp: heap_shape_def sz_chain_def)
  from m_alloc_loop_eq [OF this(1,2) assms(2) this(3)] this(4) show ?thesis
    by (simp add: m_alloc_def Let_def split: option.split)
qed

lemma m_alloc_shape:
  assumes hs: "heap_shape h bs e" and rq: "request_ok sz"
  shows "(first_gap h sz (bs @ [e]) = None \<and>
          hm_root h + hm_size h \<le> e + sz + (sz_chain + sz_chain) \<and> m_alloc h sz = Some (0, h)) \<or>
    (\<exists>c h' b1 b2 e'. m_alloc h sz = Some (c + sz_chain, h') \<and> heap_shape h' (b1 @ c # b2) e' \<and>
       bs = b1 @ b2 \<and> chunk_size h' c = sz \<and> hm_root h' = hm_root h \<and> hm_size h' = hm_size h \<and>
       hm_bytes h' = hm_bytes h \<and> (\<forall>p\<in>set bs. chunk_size h' p = chunk_size h p) \<and> e' \<le> e + sz_chain + sz \<and>
       (chunk_size h e = 0 \<longrightarrow> chunk_size h' e' = 0) \<and> (\<forall>w. w = c \<or> chunk_size h' w \<in> {0, chunk_size h w}))"
proof -
  have sz: "0 < sz" and eq: "sz + 2 * sz_chain \<le> 2 ^ 63" using rq by (simp_all add: request_ok_def)
  show ?thesis
  proof (cases "first_gap h sz (bs @ [e])")
    case None
    show ?thesis
    proof (cases "hm_root h + hm_size h \<le> e + sz + (sz_chain + sz_chain)")
      case True
      with None show ?thesis by (simp add: m_alloc_eq [OF hs eq])
    next
      case False
      then have room: "e + sz + (sz_chain + sz_chain) < hm_root h + hm_size h" by simp
      let ?h = "set_header (e + (sz_chain + sz)) 0 0 (set_header e sz (e + (sz_chain + sz)) h)"
      have "m_alloc h sz = Some (e + sz_chain, ?h)" using None False by (simp add: m_alloc_eq [OF hs eq] Let_def)
      moreover have "heap_shape ?h (bs @ e # []) (e + (sz_chain + sz))" "chunk_size ?h e = sz"
        "\<forall>p\<in>set bs. chunk_size ?h p = chunk_size h p"
        using shape_extend [OF hs sz refl room] by simp_all
      moreover have "hm_root ?h = hm_root h" "hm_size ?h = hm_size h" "hm_bytes ?h = hm_bytes h" "bs = bs @ []"
        "e + (sz_chain + sz) \<le> e + sz_chain + sz" "chunk_size h e = 0 \<longrightarrow> chunk_size ?h (e + (sz_chain + sz)) = 0"
        "\<forall>w. w = e \<or> chunk_size ?h w \<in> {0, chunk_size h w}" by simp_all
      ultimately show ?thesis
        by (intro disjI2 exI [of _ e] exI [of _ ?h] exI [of _ bs] exI [of _ "[]"] exI [of _ "e + (sz_chain + sz)"] conjI)
    qed
  next
    case (Some ab)
    then obtain a b where fg: "first_gap h sz (bs @ [e]) = Some (a, b)"
      by (cases ab) auto
    from first_gap_split [OF this] obtain b1 b2 where m: "bs = b1 @ b2" "b1 \<noteq> []"
      and ab: "a = last b1" "b = hd (b2 @ [e])"
      and gap: "a + (chunk_size h a + sz_chain) + sz_chain + sz \<le> b" by (auto simp: ac_simps)
    let ?c = "a + (chunk_size h a + sz_chain)"
    let ?h = "set_header ?c sz b (set_next a ?c h)"
    have "m_alloc h sz = Some (?c + sz_chain, ?h)" using fg by (simp add: m_alloc_eq [OF hs eq] Let_def)
    moreover have shape: "heap_shape ?h (b1 @ ?c # b2) e" and "chunk_size ?h ?c = sz" "\<forall>p\<in>set bs. chunk_size ?h p = chunk_size h p"
      using shape_insert [OF hs [unfolded m(1)] sz m(2) ab refl gap] m(1) by simp_all
    moreover have "e \<noteq> ?c"
      using shape is_chain_distinct [of ?h "(b1 @ ?c # b2) @ [e]"] by (simp add: heap_shape_def)
    then have "chunk_size h e = 0 \<longrightarrow> chunk_size ?h e = 0" by simp
    moreover have "hm_root ?h = hm_root h" "hm_size ?h = hm_size h" "hm_bytes ?h = hm_bytes h" "e \<le> e + sz_chain + sz"
      "\<forall>w. w = ?c \<or> chunk_size ?h w \<in> {0, chunk_size h w}"
      by simp_all
    ultimately show ?thesis using m(1)
      by (intro disjI2 exI [of _ ?c] exI [of _ ?h] exI [of _ b1] exI [of _ b2] exI [of _ e] conjI)
  qed
qed

section \<open>Release\<close>

text \<open>The loop of \<^verbatim>\<open>m_free\<close> walks over chunks that neither match nor are compacted.\<close>

lemma m_free_loop_skip:
  assumes "is_chain h (xs @ a # ys)" and "\<forall>q\<in>set (tl (xs @ [a])). 0 < chunk_size h q"
    and "\<forall>q\<in>set (tl (xs @ [a])). q + sz_chain \<noteq> ptr"
  shows "m_free_loop h ptr (hd (xs @ [a])) = m_free_loop h ptr a"
  using assms
proof (induction xs)
  case (Cons p xs)
  define q where "q = hd (xs @ [a])"
  have pq: "linked h p q" "0 < p" and ch: "is_chain h (xs @ a # ys)"
    using Cons.prems(1) by (cases xs; cases ys; simp add: is_chain_Cons q_def)+
  have "q \<in> set (xs @ [a])" unfolding q_def by (rule list.set_sel(1)) simp
  with Cons.prems have qc: "q + sz_chain \<noteq> ptr" "0 < chunk_size h q" by auto
  have comp: "m_free_compact h p = h"
    using pq qc by (auto simp: m_free_compact_def linked_def)
  have "m_free_loop h ptr q = m_free_loop h ptr a"
    using Cons.IH ch Cons.prems(2,3) by (cases xs) (auto simp: q_def)
  with pq qc comp show ?case
    by (auto simp: m_free_loop.simps [of h _ p] linked_def Let_def)
qed simp

lemma m_free_loop_hit:
  assumes "linked h a c" "0 < a" "0 < chunk_size h c \<or> 0 < chunk_size h a"
  shows "m_free_loop h (c + sz_chain) a = Some (m_free_unlink h a)"
proof -
  have "m_free_compact h a = h" using assms by (auto simp: m_free_compact_def linked_def)
  with assms show ?thesis by (simp add: m_free_loop.simps [of h _ a] linked_def Let_def)
qed

text \<open>Releasing a chunk other than the first removes exactly that chunk.\<close>

lemma m_free_live:
  assumes hs: "heap_shape h (b1 @ c # b2) e" and b1: "b1 \<noteq> []"
  shows "\<exists>h'. m_free h (c + sz_chain) = Some h' \<and> heap_shape h' (b1 @ b2) e \<and>
    (\<forall>p\<in>set (b1 @ b2). chunk_size h' p = chunk_size h p) \<and>
    (\<forall>p. p \<noteq> c \<longrightarrow> chunk_size h' p = chunk_size h p) \<and> chunk_size h' c = 0"
proof -
  define a b where "a = last b1" and "b = hd (b2 @ [e])"
  obtain xs ys where xs: "b1 = xs @ [a]" and ys: "b2 @ [e] = b # ys"
    using split_last_hd [OF b1] a_def b_def by metis
  have eq: "(b1 @ c # b2) @ [e] = xs @ a # c # b # ys" using xs ys by simp
  from hs have ch: "is_chain h (xs @ a # c # b # ys)"
    unfolding heap_shape_def eq by blast
  have root: "hd (xs @ [a]) = hm_root h"
    using hs xs by (cases xs) (simp_all add: heap_shape_def)
  have pos: "\<forall>q\<in>set (tl (xs @ [a])). 0 < chunk_size h q" "0 < chunk_size h c"
    using hs xs by (cases xs; simp add: heap_shape_def)+
  from ch have lk: "linked h a c" "linked h c b" "0 < a" "0 < b"
    by (auto simp: is_chain_append is_chain_Cons dest: linked_less)
  have "\<forall>q\<in>set (tl (xs @ [a])). q + sz_chain \<noteq> c + sz_chain"
    using is_chain_distinct [OF ch] by (cases xs) auto
  with m_free_loop_skip [OF ch pos(1)] m_free_loop_hit [OF lk(1,3)] pos(2) root
  have "m_free h (c + sz_chain) = Some (m_free_unlink h a)" by (simp add: m_free_def)
  moreover have "m_free_unlink h a = set_header c 0 0 (set_next a b h)"
    using lk by (simp add: m_free_unlink_def linked_def Let_def)
  ultimately show ?thesis using shape_remove [OF hs b1 a_def b_def] by auto
qed

text \<open>Shifting the chunk behind \<open>p\<close> down to the end of \<open>p\<close>.\<close>

lemma chain_shift:
  assumes ch: "is_chain h (xs @ a # c # b # ys)" and c': "c' = a + sz_chain + chunk_size h a"
    and h': "\<And>x. x \<noteq> a \<Longrightarrow> x \<noteq> c' \<Longrightarrow> chunk_size h' x = chunk_size h x \<and> chunk_next h' x = chunk_next h x"
      "chunk_size h' a = chunk_size h a" "chunk_next h' a = c'"
      "chunk_size h' c' = chunk_size h c" "chunk_next h' c' = chunk_next h c"
  shows "is_chain h' (xs @ a # c' # b # ys)"
proof -
  from ch have lk: "linked h a c" "linked h c b" by (auto simp: is_chain_append is_chain_Cons)
  then have acb: "a < c'" "c' \<le> c" "c < b" using c' by (auto simp: linked_def sz_chain_def)
  have ord: "\<forall>p\<in>set xs. p < a" "\<forall>p\<in>set (b # ys). c < p"
    using is_chain_sorted [OF ch] acb by (auto simp: sorted_wrt_append)
  from ch have "0 < a" "0 < hd (xs @ [a])" "is_chain h (b # ys)" "successively (linked h) (xs @ [a])"
    by (auto simp: is_chain_append is_chain_Cons)
  moreover have "is_chain h' (b # ys) = is_chain h (b # ys)"
  proof (rule is_chain_cong)
    fix p assume "p \<in> set (b # ys)"
    with ord have "c < p" by blast
    with acb show "chunk_size h' p = chunk_size h p \<and> chunk_next h' p = chunk_next h p" by (intro h') auto
  qed
  moreover have "successively (linked h') (xs @ [a]) = successively (linked h) (xs @ [a])"
  proof (rule linked_frame)
    fix p assume "p \<in> set xs"
    with ord have "p < a" by blast
    with acb show "chunk_size h' p = chunk_size h p \<and> chunk_next h' p = chunk_next h p" by (intro h') auto
  qed
  moreover have "linked h' a c'" "linked h' c' b" using lk c' acb h' by (auto simp: linked_def)
  moreover have "0 < c'" using acb by simp
  ultimately show ?thesis by (simp add: is_chain_append [of h' xs] is_chain_Cons)
qed

lemma m_shift_shape:
  assumes hs: "heap_shape h (b1 @ a # c # b2) e" and c': "c' = a + sz_chain + chunk_size h a"
  shows "\<exists>h'. m_shift_next_chunk h (a + sz_chain) = Inr (c' + sz_chain, h') \<and>
    heap_shape h' (b1 @ a # c' # b2) e \<and> chunk_size h' c' = chunk_size h c \<and>
    (\<forall>p. p \<noteq> c' \<longrightarrow> chunk_size h' p = chunk_size h p) \<and> (c' = c \<longrightarrow> h' = h)"
proof -
  obtain b ys where ys: "b2 @ [e] = b # ys" by (cases b2) auto
  have ch: "is_chain h (b1 @ a # c # b # ys)" using hs ys by (simp add: heap_shape_def)
  then have lk: "linked h a c" "0 < a" by (auto simp: is_chain_append is_chain_Cons)
  have pos: "0 < chunk_size h c" using hs by (cases b1) (auto simp: heap_shape_def)
  have cn: "chunk_next h a = c" "c' \<le> c" "a < c'" "0 < c" using lk c' by (auto simp: linked_def sz_chain_def)
  define h1 where "h1 = set_next a c' h"
  define h2 where "h2 = h1\<lparr>hm_chain := (hm_chain h1)(c' := hm_chain h1 c),
      hm_bytes := (\<lambda>x. if c' + sz_chain \<le> x \<and> x < c' + sz_chain + ac_size (hm_chain h1 c)
                       then hm_bytes h1 (x - c' + c) else hm_bytes h1 x)\<rparr>"
  define h' where "h' = (if c \<noteq> c' then h2 else h)"
  have sz: "chunk_size h' p = (if p = c' then chunk_size h c else chunk_size h p)" for p
    using cn by (auto simp: h'_def h2_def h1_def chunk_size_def set_next_def set_header_def chunk_next_def)
  have nx: "chunk_next h' p = (if p = a then c' else if p = c' then chunk_next h c else chunk_next h p)" for p
    using cn by (auto simp: h'_def h2_def h1_def chunk_next_def set_next_def set_header_def)
  have rt: "hm_root h' = hm_root h" "hm_size h' = hm_size h"
    by (auto simp: h'_def h2_def h1_def)
  have "is_chain h' (b1 @ a # c' # b # ys)"
    using cn by (intro chain_shift [OF ch c']) (auto simp: sz nx)
  then have "is_chain h' ((b1 @ a # c' # b2) @ [e])" by (simp add: ys)
  moreover have "hd ((b1 @ a # c' # b2) @ [e]) = hm_root h'"
    using hs by (cases b1) (auto simp: heap_shape_def rt)
  moreover have "\<forall>p\<in>set (tl (b1 @ a # c' # b2)). 0 < chunk_size h' p"
    using hs pos by (cases b1) (auto simp: heap_shape_def sz)
  ultimately have shape: "heap_shape h' (b1 @ a # c' # b2) e"
    using hs by (simp add: heap_shape_def rt)
  have "m_shift_next_chunk h (a + sz_chain) = Inr (c' + sz_chain, h')"
  proof (cases "c = c'")
    case True
    with cn pos lk(2) show ?thesis by (simp add: m_shift_next_chunk_def h'_def flip: c')
  next
    case False
    have "chunk_size h2 c' \<noteq> 0" using sz [of c'] False pos by (simp add: h'_def)
    with False cn lk(2) have "m_shift_next_chunk h (a + sz_chain) = Inr (c' + sz_chain, h2)"
      unfolding h2_def h1_def m_shift_next_chunk_def Let_def add_diff_cancel_right' c' [symmetric] cn(1)
      by simp
    with False show ?thesis by (simp add: h'_def)
  qed
  with shape sz show ?thesis by (auto simp: h'_def)
qed

text \<open>The last header of the chain ends the loop.\<close>

lemma m_free_loop_end:
  "0 < e \<Longrightarrow> chunk_next h e = 0 \<Longrightarrow> ptr \<noteq> sz_chain \<Longrightarrow> m_free_loop h ptr e = Some h"
  by (auto simp: m_free_loop.simps [of h ptr e] m_free_loop.simps [of h ptr 0] m_free_compact_def Let_def)

lemma m_free_to_last:
  assumes hs: "heap_shape h bs e" and bs: "bs \<noteq> []"
    and nc: "\<forall>c\<in>set (tl bs). ptr \<noteq> c + sz_chain"
  shows "m_free h ptr = m_free_loop h ptr (last bs) \<and> linked h (last bs) e \<and> 0 < last bs \<and>
         0 < e \<and> chunk_next h e = 0"
proof -
  obtain xs where xs: "bs = xs @ [last bs]" using bs by (metis append_butlast_last_id)
  have ch: "is_chain h (xs @ last bs # [e])" and pos: "\<forall>q\<in>set (tl (xs @ [last bs])). 0 < chunk_size h q"
    and root: "hd (xs @ [last bs]) = hm_root h"
    using hs unfolding heap_shape_def by (metis append.assoc append_Cons append_Nil xs,
      metis xs, metis bs hd_append2 xs)
  have "\<forall>q\<in>set (tl (xs @ [last bs])). q + sz_chain \<noteq> ptr" using nc xs by metis
  from m_free_loop_skip [OF ch pos this] root ch show ?thesis
    by (auto simp: m_free_def is_chain_append is_chain_Cons is_chain_single dest: linked_less)
qed

lemma m_free_other:
  assumes hs: "heap_shape h bs e" and nc: "\<forall>c\<in>set (tl bs). ptr \<noteq> c + sz_chain"
    and np: "ptr \<noteq> sz_chain"
  shows "\<exists>h' bs' e'. m_free h ptr = Some h' \<and> heap_shape h' bs' e' \<and> blocks_of h' bs' = blocks_of h bs \<and> e' \<le> e"
proof (cases "bs = []")
  case True
  with hs np have "m_free h ptr = Some h"
    by (auto simp: heap_shape_def m_free_def is_chain_single intro: m_free_loop_end)
  with hs show ?thesis by blast
next
  case False
  define a where "a = last bs"
  from m_free_to_last [OF hs False nc] have free: "m_free h ptr = m_free_loop h ptr a"
    and lk: "linked h a e" "0 < a" "0 < e" "chunk_next h e = 0" by (auto simp: a_def)
  have single: "chunk_size h a = 0 \<Longrightarrow> bs = [a]"
    using hs False by (cases bs) (auto simp: heap_shape_def a_def split: if_splits, metis last_in_set less_irrefl)
  show ?thesis
  proof (cases "chunk_size h a = 0 \<and> chunk_size h e = 0")
    case True
    then have "m_free_compact h a = set_next a 0 h" using lk by (simp add: m_free_compact_def linked_def)
    then have "m_free h ptr = Some (set_next a 0 h)"
      using lk np by (auto simp: free m_free_loop.simps [of h ptr a] m_free_loop.simps [of _ ptr 0] Let_def)
    moreover have "heap_shape (set_next a 0 h) [] a"
      using hs single True lk by (auto simp: heap_shape_def is_chain_single dest: linked_less)
    moreover have "blocks_of h bs = []" using single True by (simp add: blocks_of_def)
    moreover have "a \<le> e" using lk by (auto dest: linked_less)
    ultimately show ?thesis
      unfolding blocks_of_def by (metis filter.simps(1) list.simps(8))
  next
    case nz: False
    show ?thesis
    proof (cases "ptr = e + sz_chain")
      case True
      from nz m_free_loop_hit [OF lk(1,2)]
      have "m_free_loop h (e + sz_chain) a = Some (m_free_unlink h a)" by auto
      with True free have "m_free h ptr = Some (m_free_unlink h a)" by simp
      moreover have "m_free_unlink h a = set_header (a + (chunk_size h a + sz_chain)) 0 0
          (set_next a (a + (chunk_size h a + sz_chain)) (set_next a 0 h))"
        using lk by (simp add: m_free_unlink_def linked_def Let_def)
      moreover have "a + (chunk_size h a + sz_chain) \<le> e" using lk by (simp add: linked_def)
      ultimately show ?thesis
        using shape_shift_end [OF hs False a_def refl] by (auto intro!: exI intro: blocks_of_cong)
    next
      case False
      have "m_free_compact h a = h" using nz lk by (auto simp: m_free_compact_def linked_def)
      with False lk np have "m_free h ptr = Some h"
        by (simp add: free m_free_loop.simps [of h ptr a] linked_def Let_def m_free_loop_end)
      with hs show ?thesis by blast
    qed
  qed
qed


section \<open>Disjointness\<close>

lemma shape_separated:
  assumes "heap_shape h bs e"
  shows "sorted_wrt (\<lambda>p q. p + sz_chain + chunk_size h p \<le> q) (bs @ [e])"
proof -
  have "successively (\<lambda>p q. p + sz_chain + chunk_size h p \<le> q) (bs @ [e])"
    using assms by (auto simp: heap_shape_def is_chain_def linked_def elim: successively_mono)
  moreover have "transp (\<lambda>p q. p + sz_chain + chunk_size h p \<le> q)"
    by (rule transpI) simp
  ultimately show ?thesis by (simp add: successively_conv_sorted_wrt)
qed

lemma live_memD:
  assumes hs: "heap_shape h bs e" and "(a, n) \<in># live h"
  shows "\<exists>p\<in>set bs. a = p + sz_chain \<and> n = chunk_size h p \<and> 0 < n \<and>
           hm_root h \<le> p \<and> p + sz_chain + n \<le> e"
proof -
  from assms obtain p where p: "p \<in> set bs" "a = p + sz_chain" "n = chunk_size h p" "0 < n"
    by (auto simp: live_shape [OF hs] blocks_of_def)
  moreover have "p + sz_chain + n \<le> e"
    using shape_separated [OF hs] p by (auto simp: sorted_wrt_append)
  moreover have "hm_root h \<le> p"
  proof (cases bs)
    case (Cons b bs')
    with hs have "b = hm_root h" by (simp add: heap_shape_def)
    moreover have "sorted_wrt (<) (bs @ [e])"
      using hs unfolding heap_shape_def by (blast intro: is_chain_sorted)
    ultimately show ?thesis using Cons p by auto
  qed (use p in simp)
  ultimately show ?thesis by blast
qed

lemma shape_blocks_apart:
  assumes hs: "heap_shape h bs e" and "(a, n) \<in># live h" "(b, m) \<in># live h" "a \<noteq> b"
  shows "a + n + sz_chain \<le> b \<or> b + m + sz_chain \<le> a"
proof -
  obtain p q where p: "p \<in> set bs" "a = p + sz_chain" "n = chunk_size h p"
    and q: "q \<in> set bs" "b = q + sz_chain" "m = chunk_size h q"
    using live_memD [OF hs] assms(2,3) by meson
  then obtain i j where ij: "i < length bs" "bs ! i = p" "j < length bs" "bs ! j = q"
    by (auto simp: in_set_conv_nth)
  have "sorted_wrt (\<lambda>p q. p + sz_chain + chunk_size h p \<le> q) bs"
    using shape_separated [OF hs] by (simp add: sorted_wrt_append)
  then have "i < j \<Longrightarrow> p + sz_chain + n \<le> q" "j < i \<Longrightarrow> q + sz_chain + m \<le> p"
    using ij p q by (auto simp: sorted_wrt_iff_nth_less)
  moreover have "i \<noteq> j" using ij p q assms(4) by auto
  ultimately show ?thesis using p q by (cases i j rule: linorder_cases) auto
qed

section \<open>The allocator interface\<close>

text \<open>
  The contract the virtual machine relies on: allocation and release always return, keep the
  invariant, and add or remove one block; live blocks are non-empty and do not overlap.
  \<open>pinned\<close> is the address of a block that release leaves in place.
\<close>

locale allocator =
  fixes alloc :: "'h \<Rightarrow> nat \<Rightarrow> (addr \<times> 'h) option"
    and release :: "'h \<Rightarrow> addr \<Rightarrow> 'h option"
    and inv :: "'h \<Rightarrow> bool"
    and blocks :: "'h \<Rightarrow> (addr \<times> nat) multiset"
    and pinned :: "'h \<Rightarrow> addr"
    and request :: "nat \<Rightarrow> bool"
  assumes alloc_spec: "inv h \<Longrightarrow> request n \<Longrightarrow> \<exists>r h'. alloc h n = Some (r, h') \<and> inv h' \<and>
      pinned h' = pinned h \<and> blocks h' = (if r = 0 then blocks h else add_mset (r, n) (blocks h))"
    and release_live: "inv h \<Longrightarrow> (r, n) \<in># blocks h \<Longrightarrow> r \<noteq> pinned h \<Longrightarrow>
      \<exists>h'. release h r = Some h' \<and> inv h' \<and> pinned h' = pinned h \<and> blocks h' = blocks h - {#(r, n)#}"
    and blocks_apart: "inv h \<Longrightarrow> (a, n) \<in># blocks h \<Longrightarrow> (b, m) \<in># blocks h \<Longrightarrow> a \<noteq> b \<Longrightarrow>
      a + n \<le> b \<or> b + m \<le> a"
    and block_pos: "inv h \<Longrightarrow> (a, n) \<in># blocks h \<Longrightarrow> 0 < a \<and> 0 < n"
    and block_unique: "inv h \<Longrightarrow> count (blocks h) (a, n) \<le> 1"
begin

lemma alloc_fresh:
  assumes "inv h" "request n" "alloc h n = Some (r, h')" "r \<noteq> 0" "(a, m) \<in># blocks h" "a \<noteq> r"
  shows "r + n \<le> a \<or> a + m \<le> r"
proof -
  have "inv h'" "blocks h' = add_mset (r, n) (blocks h)"
    using alloc_spec [OF assms(1,2)] assms(3,4) by auto
  then show ?thesis using blocks_apart [of h' r n a m] assms by auto
qed

lemma alloc_release:
  assumes "inv h" "request n" "alloc h n = Some (r, h')" "r \<noteq> 0" "r \<noteq> pinned h"
  shows "\<exists>h''. release h' r = Some h'' \<and> inv h'' \<and> blocks h'' = blocks h"
proof -
  have h': "inv h'" "blocks h' = add_mset (r, n) (blocks h)" "pinned h' = pinned h"
    using alloc_spec [OF assms(1,2)] assms(3,4) by auto
  then obtain h'' where "release h' r = Some h''" "inv h''" "blocks h'' = blocks h' - {#(r, n)#}"
    using release_live [of h' r n] assms(5) by auto
  then show ?thesis using h' by auto
qed

end

lemma blocks_of_pos_insert:
  assumes "\<forall>p\<in>set (b1 @ b2). chunk_size h' p = chunk_size h p" "chunk_size h' c = n" "0 < n"
  shows "mset (blocks_of h' (b1 @ c # b2)) = add_mset (c + sz_chain, n) (mset (blocks_of h (b1 @ b2)))"
  using assms blocks_of_cong [of b1 h' h] blocks_of_cong [of b2 h' h]
  by (auto simp: blocks_of_def)

lemma shape_pos: "heap_shape h bs e \<Longrightarrow> 0 < hm_root h"
  by (auto simp: heap_shape_def is_chain_def)

lemma live_count: "heap_shape h bs e \<Longrightarrow> count (live h) x \<le> 1"
proof -
  assume hs: "heap_shape h bs e"
  then have "distinct bs" using is_chain_distinct by (fastforce simp: heap_shape_def)
  then have "distinct (blocks_of h bs)"
    by (auto simp: blocks_of_def distinct_map inj_on_def)
  then show ?thesis by (cases x) (simp add: live_shape [OF hs] distinct_count_atmost_1)
qed


lemma m_alloc_spec:
  assumes "heap_ok h" "request_ok n"
  shows "\<exists>r h'. m_alloc h n = Some (r, h') \<and> heap_ok h' \<and> hm_root h' = hm_root h \<and>
    live h' = (if r = 0 then live h else add_mset (r, n) (live h))"
proof -
  obtain bs e where hs: "heap_shape h bs e" using assms(1) by (auto simp: heap_ok_iff)
  from m_alloc_shape [OF hs assms(2)] show ?thesis
  proof (elim disjE exE conjE)
    fix c h' b1 b2 e'
    assume a: "m_alloc h n = Some (c + sz_chain, h')" "heap_shape h' (b1 @ c # b2) e'"
      "bs = b1 @ b2" "chunk_size h' c = n" "hm_root h' = hm_root h"
      "\<forall>p\<in>set bs. chunk_size h' p = chunk_size h p"
    have "live h' = add_mset (c + sz_chain, n) (live h)"
      using blocks_of_pos_insert [of b1 b2 h' h c n] a assms(2) live_shape [OF a(2)] live_shape [OF hs]
      by (simp add: request_ok_def)
    with a show ?thesis by (auto simp: heap_ok_iff)
  qed (use assms in auto)
qed

lemma m_free_spec:
  assumes "heap_ok h" "(r, n) \<in># live h" "r \<noteq> hm_root h + sz_chain"
  shows "\<exists>h'. m_free h r = Some h' \<and> heap_ok h' \<and> hm_root h' = hm_root h \<and> live h' = live h - {#(r, n)#}"
proof -
  obtain bs e where hs: "heap_shape h bs e" using assms(1) by (auto simp: heap_ok_iff)
  obtain c where c: "c \<in> set bs" "r = c + sz_chain" "n = chunk_size h c" "0 < n"
    using live_memD [OF hs assms(2)] by blast
  then obtain b1 b2 where bs: "bs = b1 @ c # b2" by (meson split_list)
  with hs assms(3) c have b1: "b1 \<noteq> []" by (auto simp: heap_shape_def)
  obtain h' where h': "m_free h r = Some h'" "heap_shape h' (b1 @ b2) e"
    "\<forall>p\<in>set (b1 @ b2). chunk_size h' p = chunk_size h p"
    using m_free_live [OF hs [unfolded bs] b1] c by auto
  have "live h = add_mset (r, n) (live h')"
    using blocks_of_pos_insert [of b1 b2 h h' c n] h'(3) c live_shape [OF hs] live_shape [OF h'(2)] bs
    by simp
  moreover have "hm_root h' = hm_root h" using hs h'(2) b1 bs by (simp add: heap_shape_def)
  ultimately show ?thesis using h' by (auto simp: heap_ok_iff)
qed

interpretation mg: allocator m_alloc m_free heap_ok live "\<lambda>h. hm_root h + sz_chain" request_ok
proof unfold_locales
  fix h :: heap_manager and n :: nat
  assume "heap_ok h" "request_ok n"
  from m_alloc_spec [OF this] show "\<exists>r h'. m_alloc h n = Some (r, h') \<and> heap_ok h' \<and>
      hm_root h' + sz_chain = hm_root h + sz_chain \<and>
      live h' = (if r = 0 then live h else add_mset (r, n) (live h))" by auto
next
  fix h :: heap_manager and r n :: nat
  assume "heap_ok h" "(r, n) \<in># live h" "r \<noteq> hm_root h + sz_chain"
  from m_free_spec [OF this] show "\<exists>h'. m_free h r = Some h' \<and> heap_ok h' \<and>
      hm_root h' + sz_chain = hm_root h + sz_chain \<and> live h' = live h - {#(r, n)#}" by auto
next
  fix h :: heap_manager and a n b m :: nat
  assume "heap_ok h" "(a, n) \<in># live h" "(b, m) \<in># live h" "a \<noteq> b"
  then show "a + n \<le> b \<or> b + m \<le> a"
    using shape_blocks_apart [of h _ _ a n b m] by (fastforce simp: heap_ok_iff)
next
  fix h :: heap_manager and a n :: nat
  assume "heap_ok h" "(a, n) \<in># live h"
  then show "0 < a \<and> 0 < n"
    using live_memD [of h _ _ a n] by (metis heap_ok_iff add_gr_0 sz_chain_pos)
next
  fix h :: heap_manager and a n :: nat
  assume "heap_ok h"
  then show "count (live h) (a, n) \<le> 1" unfolding heap_ok_iff using live_count by blast
qed


section \<open>Reachable heaps\<close>

text \<open>
  A heap as the virtual machine uses it: initialised once, then any sequence of allocations and
  releases, where a released pointer is a live block or any other pointer that does not lie
  inside the first 16 bytes of the address space.
\<close>

inductive heap_step :: "heap_manager \<Rightarrow> heap_manager \<Rightarrow> bool" where
  step_alloc: "request_ok n \<Longrightarrow> m_alloc h n = Some (r, h') \<Longrightarrow> heap_step h h'"
| step_free: "ptr \<noteq> sz_chain \<Longrightarrow> m_free h ptr = Some h' \<Longrightarrow> heap_step h h'"

inductive heap_reachable :: "heap_manager \<Rightarrow> bool" where
  reach_init: "m_heap_create (Some (p, hdrs, bytes)) n = Some h \<Longrightarrow> 2 * sz_chain \<le> n \<Longrightarrow>
     p + (sz_manager + n) \<le> 2 ^ 63 \<Longrightarrow> heap_reachable (m_init_alloc h)"
| reach_step: "heap_reachable h \<Longrightarrow> heap_step h h' \<Longrightarrow> heap_reachable h'"

inductive_cases heap_stepE: "heap_step h h'"

lemma m_init_ok: "0 < hm_root h \<Longrightarrow> 2 * sz_chain \<le> hm_size h \<Longrightarrow> hm_root h + hm_size h \<le> 2 ^ 63 \<Longrightarrow>
  heap_shape (m_init_alloc h) [hm_root h] (hm_root h + sz_chain)"
  by (simp add: m_init_alloc_def heap_shape_def is_chain_Cons is_chain_single linked_def sz_chain_def Let_def)

lemma m_free_any:
  assumes "heap_ok h" "ptr \<noteq> sz_chain"
  shows "\<exists>h'. m_free h ptr = Some h' \<and> heap_ok h' \<and>
    (live h' = live h \<or> (\<exists>n. (ptr, n) \<in># live h \<and> live h' = live h - {#(ptr, n)#}))"
proof -
  obtain bs e where hs: "heap_shape h bs e" using assms(1) by (auto simp: heap_ok_iff)
  show ?thesis
  proof (cases "\<exists>c\<in>set (tl bs). ptr = c + sz_chain")
    case True
    then obtain c where c: "c \<in> set (tl bs)" "ptr = c + sz_chain" by blast
    have "0 < chunk_size h c" "c \<noteq> hm_root h"
      using hs c is_chain_distinct [of h "bs @ [e]"] by (cases bs; auto simp: heap_shape_def)+
    moreover have "c \<in> set bs" using c(1) by (cases bs) auto
    then have "(ptr, chunk_size h c) \<in># live h"
      using c(2) \<open>0 < chunk_size h c\<close> by (auto simp: live_shape [OF hs] blocks_of_def)
    ultimately show ?thesis
      using m_free_spec [OF assms(1), of ptr "chunk_size h c"] c by auto
  next
    case False
    with m_free_other [OF hs _ assms(2)] obtain h' bs' e' where
      "m_free h ptr = Some h'" "heap_shape h' bs' e'" "blocks_of h' bs' = blocks_of h bs" by blast
    then show ?thesis using live_shape hs by (auto simp: heap_ok_iff)
  qed
qed

text \<open>Neither operation moves or resizes the heap.\<close>

lemma m_alloc_loop_frame:
  assumes "m_alloc_loop h sz p = Some y"
  shows "hm_root (snd y) = hm_root h \<and> hm_size (snd y) = hm_size h"
proof (rule m_alloc_loop.raw_induct
    [where P = "\<lambda>h sz p y. hm_root (snd y) = hm_root h \<and> hm_size (snd y) = hm_size h", OF _ assms])
  fix f h sz p and y :: "addr \<times> heap_manager"
  assume ih: "\<And>h sz p y. f h sz p = Some y \<Longrightarrow> hm_root (snd y) = hm_root h \<and> hm_size (snd y) = hm_size h"
    and "(if chunk_next h p = 0 then
        (if wrap64 (p + sz + (sz_chain + sz_chain)) \<ge> wrap64 (hm_root h + hm_size h) then Some (0, h)
         else
           let t = wrap64 (p + (sz_chain + sz));
               h1 = set_header p sz t h;
               h2 = set_header t 0 0 h1
           in Some (p + sz_chain, h2))
      else
        let q = chunk_next h p in
        if q \<ge> wrap64 (p + wrap64 (chunk_size h p + (sz_chain + sz_chain) + sz)) then
          let c = wrap64 (p + wrap64 (chunk_size h p + sz_chain));
              h1 = set_next p c h;
              h2 = set_header c sz q h1
          in Some (c + sz_chain, h2)
        else f h sz q) = Some y"
  then show "hm_root (snd y) = hm_root h \<and> hm_size (snd y) = hm_size h"
    using ih [of h sz "chunk_next h p" y] by (auto simp: Let_def split: if_splits)
qed

lemma m_free_loop_frame:
  assumes "m_free_loop h ptr p = Some h'"
  shows "hm_root h' = hm_root h \<and> hm_size h' = hm_size h"
proof (rule m_free_loop.raw_induct
    [where P = "\<lambda>h ptr p h'. hm_root h' = hm_root h \<and> hm_size h' = hm_size h", OF _ assms])
  fix f h ptr p h'
  have c: "hm_root (m_free_compact h p) = hm_root h" "hm_size (m_free_compact h p) = hm_size h" for h p
    by (simp_all add: m_free_compact_def)
  have u: "hm_root (m_free_unlink h p) = hm_root h" "hm_size (m_free_unlink h p) = hm_size h" for h p
    by (simp_all add: m_free_unlink_def Let_def)
  assume "\<And>h ptr p h'. f h ptr p = Some h' \<Longrightarrow> hm_root h' = hm_root h \<and> hm_size h' = hm_size h"
    and "(if p = 0 then Some h
      else
        let h1 = m_free_compact h p in
        if int (chunk_next h1 p) = int ptr - int sz_chain then Some (m_free_unlink h1 p)
        else f h1 ptr (chunk_next h1 p)) = Some h'"
  then show "hm_root h' = hm_root h \<and> hm_size h' = hm_size h"
    using c u by (fastforce simp: Let_def split: if_splits)
qed

text \<open>
  The space behind the end marker. An allocation takes at most the payload and a header of it and fails
  only when it does not hold the payload and two headers; a release takes nothing.
\<close>

definition heap_rest :: "heap_manager \<Rightarrow> nat" where
  "heap_rest h =
     (case m_walk h (hm_root h) of None \<Rightarrow> 0 | Some ps \<Rightarrow> hm_root h + hm_size h - last ps)"

lemma heap_rest_shape: "heap_shape h bs e \<Longrightarrow> heap_rest h = hm_root h + hm_size h - e"
  by (simp add: heap_rest_def heap_shape_walk)

lemma m_alloc_rest:
  assumes "heap_ok h" "request_ok n" "m_alloc h n = Some (p, h')"
  shows "(p = 0 \<longrightarrow> heap_rest h \<le> n + 2 * sz_chain) \<and> heap_rest h \<le> heap_rest h' + n + sz_chain"
proof -
  obtain bs e where hs: "heap_shape h bs e" using assms(1) by (auto simp: heap_ok_iff)
  from m_alloc_shape [OF hs assms(2)] show ?thesis
    using assms(3) by (auto simp: heap_rest_shape [OF hs] heap_rest_shape sz_chain_def)
qed

lemma m_free_rest:
  assumes "heap_ok h" "ptr \<noteq> sz_chain" "m_free h ptr = Some h'"
  shows "heap_rest h \<le> heap_rest h'"
proof -
  obtain bs e where hs: "heap_shape h bs e" using assms(1) by (auto simp: heap_ok_iff)
  have fr: "hm_root h' = hm_root h" "hm_size h' = hm_size h"
    using m_free_loop_frame [OF assms(3) [unfolded m_free_def]] by simp_all
  have "\<exists>bs' e'. heap_shape h' bs' e' \<and> e' \<le> e"
  proof (cases "\<exists>c\<in>set (tl bs). ptr = c + sz_chain")
    case True
    then obtain c where c: "c \<in> set (tl bs)" "ptr = c + sz_chain" by blast
    then obtain b1 b2 where "tl bs = b1 @ c # b2" by (meson split_list)
    then have "bs = (hd bs # b1) @ c # b2" by (cases bs) auto
    with hs have "heap_shape h ((hd bs # b1) @ c # b2) e" by metis
    from m_free_live [OF this] c(2) assms(3) show ?thesis by auto
  next
    case False
    with m_free_other [OF hs _ assms(2)] assms(3) show ?thesis by fastforce
  qed
  then show ?thesis using fr by (auto simp: heap_rest_shape [OF hs] heap_rest_shape)
qed

lemma heap_step_ok: "heap_step h h' \<Longrightarrow> heap_ok h \<Longrightarrow> heap_ok h'"
proof (induction rule: heap_step.induct)
  case (step_alloc n h r h')
  then show ?case using m_alloc_spec [of h n] by auto
next
  case (step_free ptr h h')
  then show ?case using m_free_any [of h ptr] by auto
qed

lemma reachable_ok: "heap_reachable h \<Longrightarrow> heap_ok h"
proof (induction rule: heap_reachable.induct)
  case (reach_init p hdrs bytes n h)
  then have "0 < hm_root h" "2 * sz_chain \<le> hm_size h" "hm_root h + hm_size h \<le> 2 ^ 63"
    by (auto simp: m_heap_create_def sz_manager_def)
  from m_init_ok [OF this] show ?case by (auto simp: heap_ok_iff)
next
  case (reach_step h h')
  then show ?case by (blast intro: heap_step_ok)
qed

section \<open>Tidy heaps\<close>

text \<open>
  The heap of a running machine: the root is an empty chunk, the end marker has size 0, and the place behind
  the root header is a chunk of the chain or holds the size 0. Allocation and the release of a live block
  keep it so.
\<close>

definition root_clean :: "heap_manager \<Rightarrow> addr list \<Rightarrow> bool" where
  "root_clean h cs \<longleftrightarrow> hm_root h + sz_chain \<in> set cs \<or> chunk_size h (hm_root h + sz_chain) = 0"

definition tidy :: "heap_manager \<Rightarrow> bool" where
  "tidy h \<longleftrightarrow> (\<exists>cs e. heap_shape h (hm_root h # cs) e \<and> chunk_size h (hm_root h) = 0 \<and>
     chunk_size h e = 0 \<and> root_clean h cs)"

lemma tidy_ok: "tidy h \<Longrightarrow> heap_ok h"
  by (auto simp: tidy_def heap_ok_iff)

lemma tidy_block:
  assumes "tidy h" "(a, n) \<in># live h"
  shows "a \<noteq> hm_root h + sz_chain"
proof -
  obtain cs e where hs: "heap_shape h (hm_root h # cs) e" "chunk_size h (hm_root h) = 0"
    using assms(1) by (auto simp: tidy_def)
  from live_memD [OF hs(1) assms(2)] hs(2) show ?thesis by auto
qed

lemma m_alloc_tidy:
  assumes "tidy h" "request_ok n" "m_alloc h n = Some (r, h')"
  shows "tidy h'"
proof -
  obtain cs e where hs: "heap_shape h (hm_root h # cs) e" and z: "chunk_size h (hm_root h) = 0" "chunk_size h e = 0"
    and rc: "root_clean h cs" using assms(1) by (auto simp: tidy_def)
  from m_alloc_shape [OF hs assms(2)] show ?thesis
  proof (elim disjE exE conjE)
    assume "m_alloc h n = Some (0, h)"
    with assms show ?thesis by simp
  next
    fix c k b1 b2 e'
    assume "m_alloc h n = Some (c + sz_chain, k)" and hs': "heap_shape k (b1 @ c # b2) e'"
      and b: "hm_root h # cs = b1 @ b2" and rt: "hm_root k = hm_root h"
      and sz: "\<forall>p\<in>set (hm_root h # cs). chunk_size k p = chunk_size h p" "chunk_size h e = 0 \<longrightarrow> chunk_size k e' = 0"
        "\<forall>w. w = c \<or> chunk_size k w \<in> {0, chunk_size h w}"
    then have k: "h' = k" using assms(3) by simp
    have d: "distinct ((b1 @ c # b2) @ [e'])"
      by (rule shape_distinct [OF hs'])
    obtain xs where b1: "b1 = hm_root h # xs" "cs = xs @ b2"
      using hs' b d rt by (cases b1) (auto simp: heap_shape_def)
    have "root_clean k (xs @ c # b2)"
      using rc sz(3) unfolding root_clean_def rt b1(2) by auto
    with hs' b1 sz z k rt show ?thesis by (auto simp: tidy_def intro!: exI [of _ "xs @ c # b2"] exI [of _ e'])
  qed
qed

lemma m_free_tidy:
  assumes "tidy h" "(a, n) \<in># live h"
  shows "\<exists>h'. m_free h a = Some h' \<and> tidy h' \<and> live h' = live h - {#(a, n)#}"
proof -
  obtain cs e where hs: "heap_shape h (hm_root h # cs) e" and z: "chunk_size h (hm_root h) = 0" "chunk_size h e = 0"
    and rc: "root_clean h cs" using assms(1) by (auto simp: tidy_def)
  note nr = tidy_block [OF assms]
  obtain h' where h': "m_free h a = Some h'" "live h' = live h - {#(a, n)#}" "hm_root h' = hm_root h"
    using m_free_spec [OF tidy_ok [OF assms(1)] assms(2) nr] by blast
  obtain c where c: "c \<in> set cs" "a = c + sz_chain" using live_memD [OF hs assms(2)] nr by auto
  then obtain xs ys where cs: "cs = xs @ c # ys" by (meson split_list)
  have d: "distinct ((hm_root h # cs) @ [e])" by (rule shape_distinct [OF hs])
  obtain k where k: "m_free h (c + sz_chain) = Some k" "heap_shape k ((hm_root h # xs) @ ys) e"
    "\<forall>p. p \<noteq> c \<longrightarrow> chunk_size k p = chunk_size h p" "chunk_size k c = 0"
    using m_free_live [of h "hm_root h # xs" c ys e] hs cs by auto
  have eq: "k = h'" using k(1) h'(1) c(2) by simp
  have "root_clean h' (xs @ ys)"
    using rc k(3,4) unfolding root_clean_def h'(3) eq cs by (cases "hm_root h + sz_chain = c") auto
  with k h' d z eq cs have "tidy h'" by (auto simp: tidy_def intro!: exI [of _ "xs @ ys"] exI [of _ e])
  with h' show ?thesis by blast
qed

section \<open>A small concrete heap\<close>

text \<open>A fresh heap of 1000 bytes at address 100, used to evaluate the properties.\<close>

definition demo_heap :: heap_manager where
  "demo_heap = m_init_alloc \<lparr>hm_root = 116, hm_size = 1000,
     hm_chain = (\<lambda>_. \<lparr>ac_size = 0, ac_next = 0\<rparr>), hm_bytes = (\<lambda>_. 0)\<rparr>"

lemma demo_heap_shape: "heap_shape demo_heap [116] 132"
  using m_init_ok [of "\<lparr>hm_root = 116, hm_size = 1000,
     hm_chain = (\<lambda>_. \<lparr>ac_size = 0, ac_next = 0\<rparr>), hm_bytes = (\<lambda>_. 0)\<rparr>"]
  by (simp add: demo_heap_def sz_chain_def)

lemma demo_heap_ok: "heap_ok demo_heap"
  using demo_heap_shape by (auto simp: heap_ok_iff)

lemma demo_heap_fields [simp]:
  "hm_root demo_heap = 116" "hm_size demo_heap = 1000"
  "chunk_size demo_heap p = 0" "chunk_next demo_heap p = (if p = 116 then 132 else 0)"
  by (auto simp: demo_heap_def m_init_alloc_def Let_def sz_chain_def chunk_size_def chunk_next_def
      set_next_def set_header_def)

lemma demo_heap_tidy: "tidy demo_heap"
  using demo_heap_shape by (auto simp: tidy_def root_clean_def intro!: exI [of _ "[]"])

lemma demo_heap_live: "live demo_heap = {#}"
  by (simp add: live_shape [OF demo_heap_shape] blocks_of_def)

section \<open>Properties\<close>

text \<open>C13: On a well-formed heap \<^verbatim>\<open>m_alloc\<close> returns for every request of at least one byte that leaves
  room for two headers below \<open>2 ^ 63\<close> (larger requests wrap around, see \<open>m_alloc_wraps\<close>). It returns NULL and leaves the
  live blocks alone, or a block of the requested size that is added to the live blocks, lies
  inside the heap and overlaps no live block; the heap stays well formed.\<close>

theorem m_alloc_correct:
  assumes "heap_ok h" and "request_ok n"
  shows "\<exists>r h'. m_alloc h n = Some (r, h') \<and> heap_ok h' \<and>
    (if r = 0 then live h' = live h
     else live h' = add_mset (r, n) (live h) \<and> hm_root h \<le> r \<and> r + n \<le> hm_root h + hm_size h \<and>
          (\<forall>a m. (a, m) \<in># live h \<longrightarrow> r + n \<le> a \<or> a + m \<le> r))"
proof -
  obtain bs e where hs: "heap_shape h bs e" using assms(1) by (auto simp: heap_ok_iff)
  from m_alloc_shape [OF hs assms(2)] show ?thesis
  proof (elim disjE exE conjE)
    assume "m_alloc h n = Some (0, h)"
    with assms show ?thesis by auto
  next
    fix c h' b1 b2 e'
    assume a: "m_alloc h n = Some (c + sz_chain, h')" and hs': "heap_shape h' (b1 @ c # b2) e'"
      and fr: "bs = b1 @ b2" "chunk_size h' c = n" "hm_root h' = hm_root h" "hm_size h' = hm_size h"
        "\<forall>p\<in>set bs. chunk_size h' p = chunk_size h p"
    have lv: "live h' = add_mset (c + sz_chain, n) (live h)" and ok: "heap_ok h'"
      using m_alloc_spec [OF assms] a by auto
    then have bd: "hm_root h \<le> c" "c + sz_chain + n + sz_chain \<le> hm_root h + hm_size h"
      using live_memD [OF hs', of "c + sz_chain" n] fr hs' by (auto simp: heap_shape_def)
    have "c + sz_chain \<noteq> b" if mem: "(b, m) \<in># live h" for b m
    proof -
      obtain p where "p \<in> set bs" "b = p + sz_chain" using live_memD [OF hs mem] by blast
      moreover have "c \<notin> set bs"
        using hs' is_chain_distinct [of h' "(b1 @ c # b2) @ [e']"] fr(1) by (auto simp: heap_shape_def)
      ultimately show ?thesis by auto
    qed
    then have "\<forall>b m. (b, m) \<in># live h \<longrightarrow> c + sz_chain + n \<le> b \<or> b + m \<le> c + sz_chain"
      using mg.alloc_fresh [OF assms a] by auto
    with a ok lv bd show ?thesis by auto
  qed
qed


theorem m_alloc_correct_witness:
  "heap_ok demo_heap \<and> request_ok 40 \<and>
   (\<exists>h'. m_alloc demo_heap 40 = Some (148, h') \<and> heap_ok h' \<and> live h' = {#(148, 40)#})"
proof -
  have eq: "\<exists>h'. m_alloc demo_heap 40 = Some (148, h')"
    by (simp add: m_alloc_eq [OF demo_heap_shape] sz_chain_def Let_def)
  have rq: "request_ok 40" by (simp add: request_ok_def sz_chain_def)
  from eq m_alloc_correct [OF demo_heap_ok rq] rq demo_heap_ok demo_heap_live show ?thesis by auto
qed

text \<open>C14: On a well-formed heap \<^verbatim>\<open>m_free\<close> returns for every pointer past the first page
  header. For a live block other than the first chunk it removes exactly that block; for any other
  pointer no live block is lost, and the heap stays well formed.\<close>

theorem m_free_correct:
  assumes "heap_ok h" and "ptr \<noteq> sz_chain"
  shows "\<exists>h'. m_free h ptr = Some h' \<and> heap_ok h' \<and>
    (\<forall>n. (ptr, n) \<in># live h \<and> ptr \<noteq> hm_root h + sz_chain \<longrightarrow> live h' = live h - {#(ptr, n)#}) \<and>
    ((\<nexists>n. (ptr, n) \<in># live h) \<longrightarrow> live h' = live h)"
proof -
  obtain h' where h': "m_free h ptr = Some h'" "heap_ok h'"
    "live h' = live h \<or> (\<exists>n. (ptr, n) \<in># live h \<and> live h' = live h - {#(ptr, n)#})"
    using m_free_any [OF assms] by blast
  moreover have "live h' = live h - {#(ptr, n)#}"
    if "(ptr, n) \<in># live h" "ptr \<noteq> hm_root h + sz_chain" for n
    using mg.release_live [OF assms(1) that] h'(1) by auto
  ultimately show ?thesis by auto
qed

theorem m_free_correct_witness:
  "heap_ok demo_heap \<and> (132::nat) \<noteq> sz_chain \<and>
   (\<exists>h'. m_free demo_heap 132 = Some h' \<and> heap_ok h' \<and>
     (\<forall>n. (132, n) \<in># live demo_heap \<and> 132 \<noteq> 116 + sz_chain \<longrightarrow> live h' = live demo_heap - {#(132, n)#}) \<and>
     ((\<nexists>n. (132, n) \<in># live demo_heap) \<longrightarrow> live h' = live demo_heap))"
  using m_free_correct [OF demo_heap_ok, of 132] demo_heap_ok by (simp add: sz_chain_def)

text \<open>First fit is complete: \<^verbatim>\<open>m_alloc\<close> returns NULL exactly when no gap between two
  neighbouring chunks holds a header and the payload and the space behind the end marker does not
  hold the payload and two headers.\<close>

theorem m_alloc_null_iff:
  assumes "heap_shape h bs e" and "request_ok n"
  shows "(\<exists>h'. m_alloc h n = Some (0, h')) \<longleftrightarrow>
    (\<forall>i. Suc i < length (bs @ [e]) \<longrightarrow>
       (bs @ [e]) ! Suc i < (bs @ [e]) ! i + chunk_size h ((bs @ [e]) ! i) + 2 * sz_chain + n) \<and>
    hm_root h + hm_size h \<le> e + n + 2 * sz_chain"
proof -
  have gap: "first_gap h n ps = None \<longleftrightarrow>
      (\<forall>i. Suc i < length ps \<longrightarrow> ps ! Suc i < ps ! i + chunk_size h (ps ! i) + 2 * sz_chain + n)"
    for ps
  proof (induction ps rule: induct_list012)
    case (3 p q ps)
    then show ?case by (auto simp: less_Suc_eq_0_disj nth_Cons split: nat.splits)
  qed auto
  have "(\<exists>h'. m_alloc h n = Some (0, h')) \<longleftrightarrow>
      first_gap h n (bs @ [e]) = None \<and> hm_root h + hm_size h \<le> e + n + 2 * sz_chain"
    using m_alloc_eq [OF assms(1), of n] assms(2) by (auto simp: request_ok_def Let_def mult_2 split: option.splits)
  then show ?thesis by (simp add: gap)
qed

theorem m_alloc_null_iff_witness:
  "heap_shape demo_heap [116] 132 \<and> request_ok 2000 \<and> (\<exists>h'. m_alloc demo_heap 2000 = Some (0, h'))"
  using m_alloc_null_iff [OF demo_heap_shape, of 2000] demo_heap_shape
  by (simp add: request_ok_def sz_chain_def less_Suc_eq)

text \<open>C15: In every heap reachable from \<^verbatim>\<open>m_heap_create\<close> and \<^verbatim>\<open>m_init_alloc\<close>, on a block in the
  lower half of the address space, by allocations of at least one byte and with room for two headers below
  \<open>2 ^ 63\<close> and by releases (of live blocks or of stray pointers), the live blocks lie inside the
  heap and are pairwise disjoint, with room for a header between them.\<close>

theorem reachable_blocks_safe:
  assumes "heap_reachable h" and "(a, n) \<in># live h"
  shows "hm_root h \<le> a \<and> a + n \<le> hm_root h + hm_size h \<and> 0 < n \<and>
    (\<forall>b m. (b, m) \<in># live h \<and> b \<noteq> a \<longrightarrow> a + n + sz_chain \<le> b \<or> b + m + sz_chain \<le> a)"
proof -
  obtain bs e where hs: "heap_shape h bs e"
    using reachable_ok [OF assms(1)] by (auto simp: heap_ok_iff)
  then show ?thesis
    using live_memD [OF hs assms(2)] shape_blocks_apart [OF hs assms(2)]
    by (auto simp: heap_shape_def)
qed


theorem reachable_blocks_safe_witness:
  "\<exists>h. heap_reachable h \<and> (148, 40) \<in># live h \<and> 148 + 40 \<le> hm_root h + hm_size h"
proof -
  have "heap_reachable demo_heap"
    unfolding demo_heap_def
    by (rule reach_init [of 100 "\<lambda>_. \<lparr>ac_size = 0, ac_next = 0\<rparr>" "\<lambda>_. 0" 1000])
      (simp_all add: m_heap_create_def sz_manager_def sz_chain_def)
  moreover obtain h' where h': "m_alloc demo_heap 40 = Some (148, h')"
    by (simp add: m_alloc_eq [OF demo_heap_shape] sz_chain_def Let_def)
  moreover have rq: "request_ok 40" by (simp add: request_ok_def sz_chain_def)
  ultimately have r: "heap_reachable h'"
    using reach_step [OF _ step_alloc [OF _ h']] by simp
  have l: "(148, 40) \<in># live h'"
    using m_alloc_spec [OF demo_heap_ok rq] h' by auto
  from reachable_blocks_safe [OF r l] r l show ?thesis by auto
qed

text \<open>A request near \<open>2 ^ 64\<close> wraps around in the gap test: on a fresh heap it is granted, the end marker
  becomes a block whose successor is itself, and no later \<^verbatim>\<open>m_alloc\<close> returns.\<close>

theorem m_alloc_wraps:
  assumes "heap_shape h [r] e" and "e = r + sz_chain" and "chunk_size h r = 0"
  shows "\<exists>h'. m_alloc h (2 ^ 64 - 2 * sz_chain) = Some (e + sz_chain, h') \<and> chunk_size h' e = 2 ^ 64 - 2 * sz_chain \<and>
    chunk_next h' e = e \<and> (\<forall>n. request_ok n \<longrightarrow> m_alloc h' n = None)"
proof -
  have r: "r = hm_root h" "0 < r" "chunk_next h r = e" "e + sz_chain \<le> 2 ^ 63"
    using assms(1) by (auto simp: heap_shape_def is_chain_Cons linked_def)
  define h' where "h' = set_header e (2 ^ 64 - 2 * sz_chain) e (set_next r e h)"
  have alloc: "m_alloc h (2 ^ 64 - 2 * sz_chain) = Some (e + sz_chain, h')"
    using r assms(2,3) unfolding m_alloc_def
    by (subst m_alloc_loop.simps) (simp add: h'_def Let_def wrap64_def sz_chain_def)
  have "m_alloc h' n = None" if n: "request_ok n" for n
  proof (rule ccontr)
    assume "m_alloc h' n \<noteq> None"
    then obtain y where y: "m_alloc_loop h' n (hm_root h') = Some y" by (auto simp: m_alloc_def)
    have loop: "k = h' \<longrightarrow> sz = n \<longrightarrow> p \<in> {r, e} \<longrightarrow> False" if "m_alloc_loop k sz p = Some y" for k sz p y
    proof (rule m_alloc_loop.raw_induct [where P = "\<lambda>k sz p y. k = h' \<longrightarrow> sz = n \<longrightarrow> p \<in> {r, e} \<longrightarrow> False", OF _ that],
        intro impI, goal_cases)
      case (1 f k sz p y)
      have f: "f h' n e \<noteq> Some y" using 1(1) [of h' n e y] by auto
      have nx: "chunk_next h' r = e" "chunk_next h' e = e" "chunk_size h' r = 0" "chunk_size h' e = 2 ^ 64 - 2 * sz_chain"
        using assms(2,3) by (auto simp: h'_def)
      have "\<not> wrap64 (p + wrap64 (chunk_size h' p + (sz_chain + sz_chain) + n)) \<le> e" "chunk_next h' p = e" "e \<noteq> 0"
        using 1(5) n r nx assms(2) by (auto simp: wrap64_def request_ok_def sz_chain_def)
      with 1(2-4) f show ?case by (simp add: Let_def)
    qed
    have "hm_root h' = r" using r by (simp add: h'_def)
    with loop [OF y] show False by simp
  qed
  with alloc assms(2) show ?thesis by (auto simp: h'_def)
qed

theorem m_alloc_wraps_witness:
  "\<exists>h'. m_alloc demo_heap (2 ^ 64 - 32) = Some (148, h') \<and> (\<forall>n. request_ok n \<longrightarrow> m_alloc h' n = None)"
  using m_alloc_wraps [OF demo_heap_shape] by (auto simp: sz_chain_def)

text \<open>A stray release on an empty heap, such as the \<^verbatim>\<open>vm_release_object\<close> of a method
  record in \<^verbatim>\<open>vm_init_exec\<close>, unlinks the end marker, so the root becomes the end of the
  heap. The next block is placed in the root chunk, and releasing that block does nothing: it is
  never returned to the heap.\<close>

theorem root_block_leaks:
  assumes "heap_shape h [r] e" and "chunk_size h r = 0" and "chunk_size h e = 0"
    and "ptr \<noteq> sz_chain" and "0 < n" and "n + 2 * sz_chain < hm_size h"
  shows "\<exists>h1 h2. m_free h ptr = Some h1 \<and> m_alloc h1 n = Some (hm_root h + sz_chain, h2) \<and>
    live h2 = {#(hm_root h + sz_chain, n)#} \<and> m_free h2 (hm_root h + sz_chain) = Some h2"
proof -
  from assms(1) have r: "r = hm_root h" "0 < r" and lk: "linked h r e" "chunk_next h e = 0" "r < e"
    by (auto simp: heap_shape_def is_chain_Cons is_chain_single dest: linked_less)
  define h1 where "h1 = set_next r 0 h"
  have free: "m_free h ptr = Some h1"
    using assms r lk by (auto simp: m_free_def m_free_loop.simps [of h ptr "hm_root h"] m_free_compact_def
        linked_def Let_def m_free_loop.simps [of _ ptr 0] h1_def)
  define h2 where "h2 = set_header (r + (sz_chain + n)) 0 0 (set_header r n (r + (sz_chain + n)) h1)"
  have shape1: "heap_shape h1 [] r"
    using r lk assms(1) by (auto simp: heap_shape_def is_chain_single h1_def)
  have alloc: "m_alloc h1 n = Some (r + sz_chain, h2)"
    using m_alloc_eq [OF shape1, of n] assms(6) shape1 r by (simp add: heap_shape_def Let_def h1_def h2_def mult_2)
  have shape2: "heap_shape h2 [r] (r + (sz_chain + n))" and sz: "chunk_size h2 r = n"
    using shape_extend [OF shape1 assms(5) refl] assms(6) r by (auto simp: h1_def h2_def mult_2)
  have "m_free h2 (r + sz_chain) = Some h2"
    using m_free_to_last [OF shape2, of "r + sz_chain"] sz assms(5) r
    by (auto simp: m_free_loop.simps [of h2 _ "hm_root h"] m_free_compact_def Let_def linked_def m_free_loop_end)
  moreover have "live h2 = {#(r + sz_chain, n)#}"
    using sz assms(5) by (simp add: live_shape [OF shape2] blocks_of_def)
  ultimately show ?thesis using free alloc r by auto
qed

theorem root_block_leaks_witness:
  "\<exists>h1 h2. m_free demo_heap 5000 = Some h1 \<and> m_alloc h1 40 = Some (116 + sz_chain, h2) \<and>
    live h2 = {#(116 + sz_chain, 40)#} \<and> m_free h2 (116 + sz_chain) = Some h2"
  using root_block_leaks [OF demo_heap_shape, of 5000 40] by (simp add: sz_chain_def)

text \<open>\<^verbatim>\<open>m_get_allocated_space\<close> returns the sizes of all live blocks, plus the size field
  and the header of the end marker, as an \<^verbatim>\<open>unsigned long\<close>.\<close>

theorem m_get_allocated_space_sum:
  assumes "heap_shape h bs e"
  shows "m_get_allocated_space h = Some (wrap64 (sum_mset (image_mset snd (live h)) + chunk_size h e + sz_chain))"
proof -
  have w: "wrap64 (a + wrap64 b) = wrap64 (a + b)" "wrap64 (wrap64 a + b) = wrap64 (a + b)" for a b
    by (simp_all add: wrap64_def mod_simps)
  have loop: "m_space_loop h (hd (bs @ [e])) acc =
      Some (wrap64 (acc + sum_list (map (chunk_size h) bs) + chunk_size h e + sz_chain))"
    if "is_chain h (bs @ [e])" for bs acc
    using that
  proof (induction bs arbitrary: acc)
    case Nil
    then show ?case by (simp add: is_chain_single m_space_loop.simps w ac_simps)
  next
    case (Cons p bs)
    then have "chunk_next h p = hd (bs @ [e])" "0 < hd (bs @ [e])" "is_chain h (bs @ [e])"
      by (cases bs; auto simp: is_chain_Cons linked_def is_chain_def [of _ "_ # _"] dest: linked_less)+
    with Cons.IH show ?case by (simp add: m_space_loop.simps [of h p] w add.assoc)
  qed
  have "sum_list (map (chunk_size h) bs) = sum_mset (image_mset snd (live h))"
  proof -
    have "sum_list (map snd (blocks_of h bs)) = sum_list (map (chunk_size h) bs)"
      by (induction bs) (auto simp: blocks_of_def)
    then show ?thesis by (simp add: live_shape [OF assms] sum_mset_sum_list flip: mset_map)
  qed
  with loop [of bs 0] assms show ?thesis by (simp add: m_get_allocated_space_def heap_shape_def)
qed

theorem m_get_allocated_space_sum_witness:
  "heap_shape demo_heap [116] 132 \<and> m_get_allocated_space demo_heap = Some 16"
  using m_get_allocated_space_sum [OF demo_heap_shape] demo_heap_shape
  by (simp add: demo_heap_live sz_chain_def wrap64_def)


end
