(* ===== verification/VM_Object.thy ===== *)
theory VM_Object
  imports Midgard
begin

text \<open>
  Objects of the virtual machine: \<^verbatim>\<open>StackVM/vm_stack_apis.c\<close> and the object, stack and
  garbage collection parts of \<^verbatim>\<open>StackVM/vm_stack.c\<close>.

  Objects live in the payload of heap chunks. The model keeps them in a typed store, a function
  from addresses to objects, beside the heap manager; the \<^verbatim>\<open>len\<close> field is the length of the
  contents. Operand and return stack share one array of \<^verbatim>\<open>VM_MAX_STACK_SIZE\<close> words, the operand
  stack growing down from the top and the frames growing up from the bottom.
\<close>

section \<open>State\<close>

definition VM_MAGIC :: u8 where "VM_MAGIC = 0x80"
definition VM_OPR_MAGIC :: u8 where "VM_OPR_MAGIC = 0xA0"
definition VM_EXT_MAGIC :: u8 where "VM_EXT_MAGIC = 0xD0"
definition VM_OBJ_MAGIC :: u8 where "VM_OBJ_MAGIC = 0xE0"
definition VM_MAGIC_MASK :: u8 where "VM_MAGIC_MASK = 0xF0"
definition VM_MAGIC_MASK_ZERO :: u8 where "VM_MAGIC_MASK_ZERO = VM_MAGIC OR 0x0F"

definition VM_STATE_INIT :: u8 where "VM_STATE_INIT = 0x00"
definition VM_STATE_RUN :: u8 where "VM_STATE_RUN = 0x01"
definition VM_STATE_EXCEPTION :: u8 where "VM_STATE_EXCEPTION = 0x04"

definition VM_OBJ_TYPE_ANY :: u16 where "VM_OBJ_TYPE_ANY = 0x0000"
definition VM_OBJ_TYPE_REF :: u16 where "VM_OBJ_TYPE_REF = 0x0080"
definition VM_OBJ_TYPE_INSTANCE :: u16 where "VM_OBJ_TYPE_INSTANCE = 0x0800"
definition VM_OBJ_TYPE_INTERFACE :: u16 where "VM_OBJ_TYPE_INTERFACE = 0x0400"

definition VM_MAX_STACK_SIZE :: nat where "VM_MAX_STACK_SIZE = 2000"

lemmas magic_defs =
  VM_MAGIC_def VM_OPR_MAGIC_def VM_EXT_MAGIC_def VM_OBJ_MAGIC_def VM_MAGIC_MASK_def VM_MAGIC_MASK_ZERO_def

text \<open>The exception codes.\<close>

definition VX_UNIMPLEMENTED_APIS :: u8 where "VX_UNIMPLEMENTED_APIS = 1"
definition VX_UNKNOWN_INSTRUCTION :: u8 where "VX_UNKNOWN_INSTRUCTION = 2"
definition VX_STACK_OVERFLOW :: u8 where "VX_STACK_OVERFLOW = 3"
definition VX_OUT_OF_BOUNDS :: u8 where "VX_OUT_OF_BOUNDS = 6"
definition VX_UNRESOLVED_CLASS :: u8 where "VX_UNRESOLVED_CLASS = 7"
definition VX_ARGUMENT_MISMATCH :: u8 where "VX_ARGUMENT_MISMATCH = 9"
definition VX_DIV_BY_ZERO :: u8 where "VX_DIV_BY_ZERO = 11"

record vm_object =
  o_mgc :: u8
  o_lock :: u8
  o_type :: u16
  o_next :: addr
  o_release :: addr
  o_bytes :: "u8 list"

text \<open>
  On LP64 \<^verbatim>\<open>sizeof(vm_object)\<close> is 40 and the contents start at offset 32; \<^verbatim>\<open>len\<close> is at
  offset 8 and \<^verbatim>\<open>release\<close> at offset 24.
\<close>

definition sz_object :: nat where "sz_object = 40"
definition off_bytes :: nat where "off_bytes = 32"

definition o_len :: "vm_object \<Rightarrow> nat" where "o_len ob = length (o_bytes ob)"

text \<open>
  A try-catch block that is being executed. Of the copy of the machine in
  \<^verbatim>\<open>snapshot\<close> only the stack pointer is used.
\<close>

record vm_tcblock =
  tc_start :: nat
  tc_end :: nat
  tc_catch :: nat
  tc_num_args :: u8
  tc_snapshot_sp :: u16

text \<open>An entry of the package list, with the fields of a try-catch entry.\<close>

record pk_entry =
  pk_tag :: u8
  pk_codebase :: addr
  pk_start :: nat
  pk_cblock :: nat
  pk_num_args :: u8

record vm_instance =
  v_sp :: u16
  v_bp :: u16
  v_pc :: u16
  v_info :: "pk_entry list"
  v_tcs :: "vm_tcblock list"
  v_package :: addr
  v_heap :: heap_manager
  v_objs :: "addr \<Rightarrow> vm_object"
  v_state :: u8
  v_rexec :: bool
  v_api :: u16
  v_num_params :: u8
  v_ret :: addr
  v_exception :: u8
  v_object_list :: addr
  v_freed :: "addr list"
  v_stacks :: "addr list"

section \<open>Operations on the machine\<close>

text \<open>
  An operation takes the machine and does not return (\<^term>\<open>None\<close>), runs into behaviour C leaves
  undefined, or returns a value and the changed machine.
\<close>

type_synonym 'a vm = "vm_instance \<Rightarrow> ('a \<times> vm_instance) result option"

definition ret_v :: "'a \<Rightarrow> 'a vm" where "ret_v x vm = Some (Inr (x, vm))"

definition err_v :: "c_error \<Rightarrow> 'a vm" where "err_v e vm = Some (Inl e)"

definition bind_v :: "'a vm \<Rightarrow> ('a \<Rightarrow> 'b vm) \<Rightarrow> 'b vm" where
  "bind_v m f vm =
     (case m vm of None \<Rightarrow> None
      | Some (Inl e) \<Rightarrow> Some (Inl e)
      | Some (Inr (x, vm')) \<Rightarrow> f x vm')"

definition get_v :: "(vm_instance \<Rightarrow> 'a) \<Rightarrow> 'a vm" where "get_v f vm = Some (Inr (f vm, vm))"

definition upd_v :: "(vm_instance \<Rightarrow> vm_instance) \<Rightarrow> unit vm" where "upd_v f vm = Some (Inr ((), f vm))"

text \<open>An operation of the heap manager, which may not return.\<close>

definition heap_v :: "(heap_manager \<Rightarrow> ('a \<times> heap_manager) option) \<Rightarrow> 'a vm" where
  "heap_v f vm =
     (case f (v_heap vm) of None \<Rightarrow> None
      | Some (x, h) \<Rightarrow> Some (Inr (x, vm\<lparr>v_heap := h\<rparr>)))"

text \<open>Access to an object through a pointer.\<close>

definition load_obj :: "addr \<Rightarrow> vm_object vm" where
  "load_obj p = (if p = 0 then err_v Null_Deref else get_v (\<lambda>vm. v_objs vm p))"

definition upd_obj :: "addr \<Rightarrow> (vm_object \<Rightarrow> vm_object) \<Rightarrow> unit vm" where
  "upd_obj p f =
     (if p = 0 then err_v Null_Deref
      else upd_v (\<lambda>vm. vm\<lparr>v_objs := (v_objs vm)(p := f (v_objs vm p))\<rparr>))"

definition m_alloc_v :: "nat \<Rightarrow> addr vm" where "m_alloc_v n = heap_v (\<lambda>h. m_alloc h n)"

definition m_free_v :: "addr \<Rightarrow> unit vm" where
  "m_free_v p = heap_v (\<lambda>h. map_option (\<lambda>h'. ((), h')) (m_free h p))"

text \<open>\<^verbatim>\<open>vm_set_state\<close> and \<^verbatim>\<open>vm_invoke_exception\<close>, less their messages.\<close>

definition vm_set_state :: "u8 \<Rightarrow> unit vm" where "vm_set_state s = upd_v (\<lambda>vm. vm\<lparr>v_state := s\<rparr>)"

definition vm_invoke_exception :: "u8 \<Rightarrow> unit vm" where
  "vm_invoke_exception x =
     bind_v (vm_set_state VM_STATE_EXCEPTION) (\<lambda>_. upd_v (\<lambda>vm. vm\<lparr>v_exception := x\<rparr>))"

section \<open>Reference counts\<close>

definition vm_object_ref :: "addr \<Rightarrow> unit vm" where
  "vm_object_ref p =
     bind_v (load_obj p) (\<lambda>ob.
       if o_mgc ob AND 0x0F \<noteq> 0xF
       then upd_obj p (\<lambda>ob. ob\<lparr>o_mgc := o_mgc ob + 1, o_lock := o_lock ob + 1\<rparr>)
       else ret_v ())"

definition vm_object_unref :: "addr \<Rightarrow> unit vm" where
  "vm_object_unref p =
     bind_v (load_obj p) (\<lambda>ob.
     bind_v (if o_mgc ob AND 0x0F \<noteq> 0 then upd_obj p (\<lambda>ob. ob\<lparr>o_mgc := o_mgc ob - 1\<rparr>) else ret_v ()) (\<lambda>_.
       if o_lock ob \<noteq> 0 then upd_obj p (\<lambda>ob. ob\<lparr>o_lock := o_lock ob - 1\<rparr>) else ret_v ()))"

definition mgc_inc :: "addr \<Rightarrow> unit vm" where "mgc_inc p = upd_obj p (\<lambda>ob. ob\<lparr>o_mgc := o_mgc ob + 1\<rparr>)"
definition mgc_dec :: "addr \<Rightarrow> unit vm" where "mgc_dec p = upd_obj p (\<lambda>ob. ob\<lparr>o_mgc := o_mgc ob - 1\<rparr>)"

definition vm_object_get_type :: "vm_object \<Rightarrow> u8" where "vm_object_get_type ob = o_mgc ob AND VM_MAGIC_MASK"

section \<open>Creating objects\<close>

text \<open>
  \<^verbatim>\<open>vm_create_object\<close>: \<open>src\<close> is the memory that \<^verbatim>\<open>bytes\<close> points to. Without it the
  contents are whatever the heap held. The result of \<^verbatim>\<open>m_alloc\<close> is used unchecked.
\<close>

definition fresh_object :: "u8 list \<Rightarrow> vm_object" where
  "fresh_object bs = \<lparr>o_mgc = VM_MAGIC OR 1, o_lock = 0, o_type = VM_OBJ_TYPE_ANY,
     o_next = 0, o_release = 0, o_bytes = bs\<rparr>"

definition memory_at :: "vm_instance \<Rightarrow> addr \<Rightarrow> nat \<Rightarrow> u8 list" where
  "memory_at vm p n = map (hm_bytes (v_heap vm)) [p ..< p + n]"

definition vm_create_object :: "nat \<Rightarrow> u8 list option \<Rightarrow> addr vm" where
  "vm_create_object n src =
     bind_v (m_alloc_v (sz_object + n)) (\<lambda>p.
       if p = 0 then err_v Null_Deref
       else case src of
         None \<Rightarrow> bind_v (upd_v (\<lambda>vm. vm\<lparr>v_objs := (v_objs vm)(p := fresh_object (memory_at vm (p + off_bytes) n))\<rparr>))
                   (\<lambda>_. ret_v p)
       | Some bs \<Rightarrow>
           if length bs < n then err_v Out_Of_Bounds
           else bind_v (upd_v (\<lambda>vm. vm\<lparr>v_objs := (v_objs vm)(p := fresh_object (take n bs))\<rparr>))
                  (\<lambda>_. ret_v p))"

definition ascii :: "string \<Rightarrow> u8 list" where "ascii s = map (\<lambda>c. of_nat (of_char c)) s"

definition vm_load_bool :: "bool \<Rightarrow> addr vm" where
  "vm_load_bool b =
     (if b then vm_create_object 4 (Some (ascii ''true'')) else vm_create_object 5 (Some (ascii ''false'')))"

definition vm_create_arg :: "nat \<Rightarrow> u8 list option \<Rightarrow> addr vm" where
  "vm_create_arg n src =
     bind_v (vm_create_object n src) (\<lambda>p.
     bind_v (upd_obj p (\<lambda>ob. ob\<lparr>o_mgc := VM_OBJ_MAGIC OR 1\<rparr>)) (\<lambda>_. ret_v p))"

definition vm_clone_object :: "addr \<Rightarrow> addr vm" where
  "vm_clone_object q =
     (if q = 0 then ret_v 0
      else bind_v (load_obj q) (\<lambda>src.
        bind_v (vm_create_object (o_len src) (Some (o_bytes src))) (\<lambda>p.
        bind_v (load_obj q) (\<lambda>ob.
        bind_v (upd_obj p (\<lambda>n. n\<lparr>o_mgc := (o_mgc ob AND 0xF0) OR 1, o_type := o_type ob, o_release := o_release ob\<rparr>))
          (\<lambda>_. ret_v p)))))"

text \<open>Pointers are stored in objects as eight little-endian bytes.\<close>

definition le_bytes :: "nat \<Rightarrow> nat \<Rightarrow> u8 list" where
  "le_bytes n x = map (\<lambda>i. of_nat (x div 256 ^ i mod 256)) [0 ..< n]"

fun le_value :: "u8 list \<Rightarrow> nat" where
  "le_value [] = 0"
| "le_value (b # bs) = unat b + 256 * le_value bs"

text \<open>\<^verbatim>\<open>vm_create_interface\<close>; a NULL class gives \<^verbatim>\<open>VM_NULL_OBJECT\<close>, a constant at address \<open>null\<close>.\<close>

definition vm_create_interface :: "addr \<Rightarrow> addr \<Rightarrow> addr \<Rightarrow> addr \<Rightarrow> addr vm" where
  "vm_create_interface null base ptr release =
     (if base = 0 then ret_v null
      else bind_v (vm_create_object 16 (Some (le_bytes 8 ptr @ le_bytes 8 base))) (\<lambda>p.
        bind_v (upd_obj p (\<lambda>ob. ob\<lparr>o_type := VM_OBJ_TYPE_INTERFACE, o_release := release\<rparr>)) (\<lambda>_. ret_v p)))"

text \<open>
  \<^verbatim>\<open>vm_create_extension\<close>: tag, seven bytes of padding, the table of operations and the payload.
  \<^verbatim>\<open>sizeof(vm_extension)\<close> is 24, so eight bytes behind the payload keep what the heap held.
\<close>

definition vm_create_extension :: "u8 \<Rightarrow> addr \<Rightarrow> nat \<Rightarrow> u8 list option \<Rightarrow> addr vm" where
  "vm_create_extension tag apis n src =
     bind_v (vm_create_object (24 + n) None) (\<lambda>p.
       let payload = (case src of None \<Rightarrow> replicate n 0 | Some bs \<Rightarrow> take n bs)
       in if length payload < n then err_v Out_Of_Bounds
          else bind_v (upd_obj p (\<lambda>ob. ob\<lparr>o_mgc := VM_EXT_MAGIC OR 1, o_type := VM_OBJ_TYPE_ANY, o_release := 0, o_lock := 0,
                 o_bytes := tag # take 7 (drop 1 (o_bytes ob)) @ le_bytes 8 apis @ payload @ drop (16 + n) (o_bytes ob)\<rparr>))
               (\<lambda>_. ret_v p))"

text \<open>
  \<^verbatim>\<open>vm_create_operand\<close>: with a size it copies the data, with size 0 it keeps the pointer in the
  eight bytes that the structure itself reserves. \<open>data\<close> is the memory at \<open>ptr\<close>.
\<close>

definition vm_create_operand :: "u16 \<Rightarrow> addr \<Rightarrow> u8 list \<Rightarrow> nat \<Rightarrow> addr vm" where
  "vm_create_operand type ptr data n =
     bind_v (vm_create_object n None) (\<lambda>p.
       if n \<noteq> 0 then
         if length data < n then err_v Out_Of_Bounds
         else bind_v (upd_obj p (\<lambda>ob. ob\<lparr>o_mgc := VM_OPR_MAGIC OR 1, o_type := type, o_bytes := take n data\<rparr>))
                (\<lambda>_. ret_v p)
       else bind_v (upd_obj p (\<lambda>ob. ob\<lparr>o_mgc := VM_OPR_MAGIC OR 1, o_type := type OR VM_OBJ_TYPE_REF,
                o_bytes := le_bytes 8 ptr\<rparr>)) (\<lambda>_. ret_v p))"

definition vm_create_reference :: "addr \<Rightarrow> addr vm" where
  "vm_create_reference ptr = vm_create_operand (VM_OBJ_TYPE_REF OR 8) ptr [] 0"

definition vm_release_object :: "addr \<Rightarrow> unit vm" where
  "vm_release_object p = (if p = 0 then ret_v () else m_free_v p)"

text \<open>\<^verbatim>\<open>vm_array_get_count\<close> of the object that holds the bytes; the element size is the low digit of the type.\<close>

definition vm_array_get_count :: "addr \<Rightarrow> nat vm" where
  "vm_array_get_count p =
     (if p = 0 then ret_v 0
      else bind_v (load_obj p) (\<lambda>ob.
        if o_type ob AND 0x0F = 0 then err_v Undefined_Value
        else ret_v (o_len ob div unat (o_type ob AND 0x0F))))"

section \<open>Immutable objects\<close>

text \<open>
  Objects outside the heap are linked through \<^verbatim>\<open>next\<close>. \<open>v_freed\<close> records the addresses
  given back to \<^verbatim>\<open>free\<close>; reading such an object is an error.
\<close>

partial_function (option) last_immutable :: "vm_instance \<Rightarrow> addr \<Rightarrow> addr result option" where
  "last_immutable vm p =
     (if p \<in> set (v_freed vm) then Some (Inl Undefined_Value)
      else if o_next (v_objs vm p) = 0 then Some (Inr p)
      else last_immutable vm (o_next (v_objs vm p)))"

definition vm_add_immutable_object :: "addr \<Rightarrow> addr vm" where
  "vm_add_immutable_object p vm =
     (if v_object_list vm = 0 then Some (Inr (p, vm\<lparr>v_object_list := p\<rparr>))
      else case last_immutable vm (v_object_list vm) of
          None \<Rightarrow> None
        | Some (Inl e) \<Rightarrow> Some (Inl e)
        | Some (Inr l) \<Rightarrow>
            Some (Inr (p, vm\<lparr>v_objs := (v_objs vm)(l := (v_objs vm l)\<lparr>o_next := p\<rparr>)\<rparr>)))"

text \<open>\<open>p\<close> is the pointer \<^verbatim>\<open>malloc\<close> returned and \<open>mem\<close> the contents of the fresh block.\<close>

definition vm_create_immutable_object :: "addr \<Rightarrow> u8 list \<Rightarrow> nat \<Rightarrow> u8 list option \<Rightarrow> addr vm" where
  "vm_create_immutable_object p mem n src =
     (if p = 0 then err_v Null_Deref
      else let bs = (case src of None \<Rightarrow> mem | Some bs \<Rightarrow> bs) in
        if length bs < n then err_v Out_Of_Bounds
        else bind_v (upd_v (\<lambda>vm. vm\<lparr>v_objs := (v_objs vm)(p := fresh_object (take n bs)),
                                    v_freed := removeAll p (v_freed vm)\<rparr>))
               (\<lambda>_. vm_add_immutable_object p))"

text \<open>
  \<^verbatim>\<open>vm_remove_immutable_object\<close>: behind the head of the list the assignment goes to the local
  variable \<^verbatim>\<open>prev_iterator\<close>, and the list stays as it is.
\<close>

partial_function (option) remove_immutable_loop :: "vm_instance \<Rightarrow> addr \<Rightarrow> addr \<Rightarrow> addr \<Rightarrow> vm_instance result option" where
  "remove_immutable_loop vm ob prev it =
     (if it = 0 then Some (Inr vm)
      else if it \<in> set (v_freed vm) then Some (Inl Undefined_Value)
      else if it = ob then
        Some (Inr (if prev = 0 then vm\<lparr>v_object_list := o_next (v_objs vm ob)\<rparr> else vm))
      else remove_immutable_loop vm ob it (o_next (v_objs vm it)))"

definition vm_remove_immutable_object :: "addr \<Rightarrow> unit vm" where
  "vm_remove_immutable_object ob vm =
     map_option (map_sum id (\<lambda>vm'. ((), vm'))) (remove_immutable_loop vm ob 0 (v_object_list vm))"

section \<open>The stack\<close>

definition stack_read :: "nat \<Rightarrow> addr vm" where
  "stack_read i vm =
     (if i < VM_MAX_STACK_SIZE then Some (Inr (v_stacks vm ! i, vm)) else Some (Inl Out_Of_Bounds))"

definition stack_write :: "nat \<Rightarrow> addr \<Rightarrow> unit vm" where
  "stack_write i x vm =
     (if i < VM_MAX_STACK_SIZE then Some (Inr ((), vm\<lparr>v_stacks := (v_stacks vm)[i := x]\<rparr>))
      else Some (Inl Out_Of_Bounds))"

definition vm_push_stack :: "addr \<Rightarrow> unit vm" where
  "vm_push_stack x =
     bind_v (get_v v_sp) (\<lambda>sp.
     bind_v (upd_v (\<lambda>vm. vm\<lparr>v_sp := sp - 1\<rparr>)) (\<lambda>_. stack_write (unat sp) x))"

definition vm_pop_stack :: "addr vm" where
  "vm_pop_stack =
     bind_v (get_v v_sp) (\<lambda>sp.
     bind_v (upd_v (\<lambda>vm. vm\<lparr>v_sp := sp + 1\<rparr>)) (\<lambda>_. stack_read (unat (sp + 1))))"

definition vm_push_base :: "addr \<Rightarrow> unit vm" where
  "vm_push_base x =
     bind_v (get_v v_bp) (\<lambda>bp.
     bind_v (upd_v (\<lambda>vm. vm\<lparr>v_bp := bp + 1\<rparr>)) (\<lambda>_. stack_write (unat bp) x))"

definition vm_pop_base :: "addr vm" where
  "vm_pop_base =
     bind_v (get_v v_bp) (\<lambda>bp.
     bind_v (upd_v (\<lambda>vm. vm\<lparr>v_bp := bp - 1\<rparr>)) (\<lambda>_. stack_read (unat (bp - 1))))"

text \<open>The index of \<^verbatim>\<open>vm_get_base\<close> and \<^verbatim>\<open>vm_set_base\<close> is computed as an \<^verbatim>\<open>int\<close>.\<close>

definition base_index :: "nat \<Rightarrow> (nat \<Rightarrow> 'a vm) \<Rightarrow> 'a vm" where
  "base_index i k =
     bind_v (get_v v_bp) (\<lambda>bp. if unat bp < i then err_v Out_Of_Bounds else k (unat bp - i))"

definition vm_push_stack_arc :: "addr \<Rightarrow> addr vm" where
  "vm_push_stack_arc p =
     bind_v (vm_push_stack p) (\<lambda>_.
     bind_v (if p \<noteq> 0 then mgc_inc p else ret_v ()) (\<lambda>_. ret_v p))"

definition vm_pop_stack_arc :: "addr vm" where
  "vm_pop_stack_arc =
     bind_v vm_pop_stack (\<lambda>p.
     bind_v (get_v v_sp) (\<lambda>sp.
       if unat sp \<ge> VM_MAX_STACK_SIZE then bind_v (vm_invoke_exception VX_STACK_OVERFLOW) (\<lambda>_. ret_v 0)
       else
         bind_v (if p \<noteq> 0 then mgc_dec p else ret_v ()) (\<lambda>_.
         bind_v (stack_write (unat sp) 0) (\<lambda>_. ret_v p))))"

definition vm_push_argument :: "nat \<Rightarrow> u8 list option \<Rightarrow> unit vm" where
  "vm_push_argument n src = bind_v (vm_create_object n src) vm_push_stack"

definition vm_push_argument_object :: "addr \<Rightarrow> unit vm" where
  "vm_push_argument_object p = bind_v (vm_push_stack p) (\<lambda>_. mgc_inc p)"

text \<open>\<^verbatim>\<open>vm_pop_result\<close>; the copied bytes are the result. The count is an \<^verbatim>\<open>uint8\<close>.\<close>

definition vm_pop_result :: "u8 \<Rightarrow> u8 list vm" where
  "vm_pop_result max_len =
     bind_v vm_pop_stack (\<lambda>p.
     bind_v (load_obj p) (\<lambda>ob.
       if o_len ob = 0 then ret_v []
       else bind_v (mgc_dec p) (\<lambda>_.
         ret_v (take (if o_len ob < unat max_len then o_len ob else unat max_len) (o_bytes ob)))))"

text \<open>
  \<^verbatim>\<open>vm_get_argument\<close>: \<^verbatim>\<open>base_arg\<close> is an \<^verbatim>\<open>uint16\<close>, the difference an \<^verbatim>\<open>int\<close>.
\<close>

definition vm_get_argument :: "u8 \<Rightarrow> addr vm" where
  "vm_get_argument index =
     bind_v (get_v (\<lambda>vm. (v_sp vm, v_sp vm + ucast (v_num_params vm)))) (\<lambda>(sp, base).
       if unat sp + unat index \<le> unat base then stack_read (unat base - unat index) else ret_v 0)"

definition vm_get_argument_count :: "u8 vm" where "vm_get_argument_count = get_v v_num_params"

text \<open>\<^verbatim>\<open>vm_update_mutator\<close> redirects every stack slot that holds the old address.\<close>

definition vm_update_mutator :: "addr \<Rightarrow> addr \<Rightarrow> vm_instance \<Rightarrow> vm_instance" where
  "vm_update_mutator old new vm =
     vm\<lparr>v_stacks := map (\<lambda>x. if x = old then new else x) (v_stacks vm)\<rparr>"

section \<open>Garbage collection\<close>

text \<open>
  An object is garbage when the high bit of \<^verbatim>\<open>mgc_refcount\<close> is set and the low digit, the
  reference count, is 0; the other bits of the magic are masked out.

  The first chunk of the heap is the empty root chunk. Its payload address is the address of the
  next header, so the collector reads the low byte of that header's size as a reference count,
  and the \<^verbatim>\<open>len\<close> field of the first object as a \<^verbatim>\<open>release\<close> function.
\<close>

definition gc_dead :: "u8 \<Rightarrow> bool" where "gc_dead m \<longleftrightarrow> m AND VM_MAGIC_MASK_ZERO = VM_MAGIC"

definition gc_mgc :: "vm_instance \<Rightarrow> addr \<Rightarrow> u8" where
  "gc_mgc vm it =
     (if m_size_chunk (v_heap vm) it = 0 then of_nat (chunk_size (v_heap vm) it) else o_mgc (v_objs vm it))"

definition gc_release :: "vm_instance \<Rightarrow> addr \<Rightarrow> addr" where
  "gc_release vm it =
     (if m_size_chunk (v_heap vm) it = 0 then o_len (v_objs vm (it + sz_chain)) else o_release (v_objs vm it))"

definition zero_object :: vm_object where
  "zero_object = \<lparr>o_mgc = 0, o_lock = 0, o_type = 0, o_next = 0, o_release = 0, o_bytes = []\<rparr>"

text \<open>Shifting the next chunk down, when it is garbage and not locked.\<close>

definition gc_shift :: "addr \<Rightarrow> addr \<Rightarrow> addr vm" where
  "gc_shift it n vm =
     (let ob = v_objs vm n in
      if gc_dead (o_mgc ob) \<and> o_lock ob = 0 then
        case m_shift_next_chunk (v_heap vm) it of
          Inl e \<Rightarrow> Some (Inl e)
        | Inr (s, h) \<Rightarrow>
            Some (Inr (s, if s \<noteq> n
                          then vm_update_mutator n s (vm\<lparr>v_heap := h, v_objs := (v_objs vm)(s := ob)\<rparr>)
                          else vm\<lparr>v_heap := h\<rparr>))
      else Some (Inr (n, vm)))"

text \<open>
  Clearing the candidate. \<open>rel\<close> gives the function at an address; a call to an address that
  holds none is an error.
\<close>

definition gc_clear :: "(addr \<Rightarrow> (addr \<Rightarrow> unit vm) option) \<Rightarrow> addr \<Rightarrow> unit vm" where
  "gc_clear rel c =
     bind_v (get_v (\<lambda>vm. gc_release vm c)) (\<lambda>r.
     bind_v (if r = 0 then ret_v ()
             else case rel r of None \<Rightarrow> err_v Undefined_Value | Some f \<Rightarrow> f (c + off_bytes)) (\<lambda>_.
     bind_v (upd_v (\<lambda>vm. if m_size_chunk (v_heap vm) c = 0 then vm
                          else vm\<lparr>v_objs := (v_objs vm)(c := zero_object)\<rparr>)) (\<lambda>_.
       m_free_v c)))"

text \<open>One round of the loop; the result is the next iterator, 0 when the loop ends.\<close>

definition gc_step :: "(addr \<Rightarrow> (addr \<Rightarrow> unit vm) option) \<Rightarrow> addr \<Rightarrow> addr vm" where
  "gc_step rel it vm =
     (let candidate = gc_dead (gc_mgc vm it) in
      case m_next_chunk (v_heap vm) it of
        Inl e \<Rightarrow> Some (Inl e)
      | Inr n \<Rightarrow>
          if n = 0 then Some (Inr (0, vm))
          else bind_v (gc_shift it n) (\<lambda>n'.
                 bind_v (if candidate then gc_clear rel it else ret_v ()) (\<lambda>_. ret_v n')) vm)"

partial_function (option) gc_loop :: "(addr \<Rightarrow> (addr \<Rightarrow> unit vm) option) \<Rightarrow> addr \<Rightarrow> unit vm" where
  "gc_loop rel it vm =
     (if it = 0 then Some (Inr ((), vm))
      else case gc_step rel it vm of
          None \<Rightarrow> None
        | Some r \<Rightarrow> (case r of Inl e \<Rightarrow> Some (Inl e) | Inr (n, vm') \<Rightarrow> gc_loop rel n vm'))"

text \<open>
  \<^verbatim>\<open>vm_gc_immutable_object\<close> frees the garbage of the list outside the heap. Only the head of
  the list is unlinked: \<^verbatim>\<open>prev_iterator\<close> is a local variable.
\<close>

partial_function (option) gc_immutable_loop :: "addr \<Rightarrow> addr \<Rightarrow> unit vm" where
  "gc_immutable_loop prev it vm =
     (if it = 0 then Some (Inr ((), vm))
      else if it \<in> set (v_freed vm) then Some (Inl Undefined_Value)
      else
        let n = o_next (v_objs vm it); dead = gc_dead (o_mgc (v_objs vm it));
            vm1 = (if dead \<and> prev = 0 then vm\<lparr>v_object_list := n\<rparr> else vm);
            vm2 = (if dead then vm1\<lparr>v_freed := it # v_freed vm1\<rparr> else vm1)
        in gc_immutable_loop it n vm2)"

definition vm_gc_immutable_object :: "unit vm" where
  "vm_gc_immutable_object vm = gc_immutable_loop 0 (v_object_list vm) vm"

definition vm_garbage_collect :: "(addr \<Rightarrow> (addr \<Rightarrow> unit vm) option) \<Rightarrow> unit vm" where
  "vm_garbage_collect rel =
     bind_v (\<lambda>vm. gc_loop rel (m_first_chunk (v_heap vm)) vm) (\<lambda>_. vm_gc_immutable_object)"

section \<open>Lemmas on operations\<close>

lemma bind_ret [simp]: "bind_v (ret_v x) f = f x"
  by (auto simp: bind_v_def ret_v_def)

lemma bind_err [simp]: "bind_v (err_v e) f = err_v e"
  by (auto simp: bind_v_def err_v_def)

lemma bind_get [simp]: "bind_v (get_v g) f vm = f (g vm) vm"
  by (simp add: bind_v_def get_v_def)

lemma bind_upd [simp]: "bind_v (upd_v u) f vm = f () (u vm)"
  by (simp add: bind_v_def upd_v_def)

lemma bind_None: "m vm = None \<Longrightarrow> bind_v m f vm = None"
  by (simp add: bind_v_def)

lemma bind_Inl: "m vm = Some (Inl e) \<Longrightarrow> bind_v m f vm = Some (Inl e)"
  by (simp add: bind_v_def)

lemma bind_Inr: "m vm = Some (Inr (x, vm')) \<Longrightarrow> bind_v m f vm = f x vm'"
  by (simp add: bind_v_def)

lemma bind_assoc: "bind_v (bind_v m f) g = bind_v m (\<lambda>x. bind_v (f x) g)"
  by (rule ext) (auto simp: bind_v_def split: option.splits sum.splits)

lemmas bind_results = bind_None bind_Inl bind_Inr

lemma basic_v_simps [simp]:
  "ret_v x vm = Some (Inr (x, vm))"
  "err_v e vm = Some (Inl e)"
  "get_v g vm = Some (Inr (g vm, vm))"
  "upd_v u vm = Some (Inr ((), u vm))"
  by (auto simp: ret_v_def err_v_def get_v_def upd_v_def)

lemma sz_chain_neq [simp]: "sz_chain \<noteq> 0"
  by (simp add: sz_chain_def)

lemma sz_consts: "sz_chain = 16" "sz_object = 40" "off_bytes = 32"
  by (simp_all add: sz_chain_def sz_object_def off_bytes_def)

lemma m_free_v_eq:
  "m_free_v p vm = (case m_free (v_heap vm) p of None \<Rightarrow> None | Some h \<Rightarrow> Some (Inr ((), vm\<lparr>v_heap := h\<rparr>)))"
  by (auto simp: m_free_v_def heap_v_def split: option.splits)

section \<open>What the collector keeps\<close>

text \<open>The chunks with live contents, and the frame of one collection round.\<close>

definition chunk_alive :: "vm_instance \<Rightarrow> addr \<Rightarrow> bool" where
  "chunk_alive vm p \<longleftrightarrow> \<not> gc_dead (o_mgc (v_objs vm (p + sz_chain)))"

definition same_chunks :: "vm_instance \<Rightarrow> vm_instance \<Rightarrow> addr set \<Rightarrow> bool" where
  "same_chunks vm vm' A \<longleftrightarrow>
     (\<forall>p\<in>A. chunk_size (v_heap vm') p = chunk_size (v_heap vm) p \<and>
             v_objs vm' (p + sz_chain) = v_objs vm (p + sz_chain))"

text \<open>The parts of the machine the collector never touches.\<close>

definition gc_frame :: "vm_instance \<Rightarrow> vm_instance \<Rightarrow> bool" where
  "gc_frame vm vm' \<longleftrightarrow>
     vm'\<lparr>v_heap := v_heap vm, v_objs := v_objs vm, v_stacks := v_stacks vm\<rparr> = vm \<and>
     hm_root (v_heap vm') = hm_root (v_heap vm) \<and> hm_size (v_heap vm') = hm_size (v_heap vm) \<and>
     length (v_stacks vm') = length (v_stacks vm)"

lemma gc_frame_refl [simp]: "gc_frame vm vm"
  by (simp add: gc_frame_def)

lemma gc_frame_trans: "gc_frame vm vm1 \<Longrightarrow> gc_frame vm1 vm2 \<Longrightarrow> gc_frame vm vm2"
  by (cases vm; cases vm1; cases vm2) (auto simp: gc_frame_def)

text \<open>Stack slots that hold the payload address of a chunk of \<open>A\<close>.\<close>

definition same_slots :: "vm_instance \<Rightarrow> vm_instance \<Rightarrow> addr set \<Rightarrow> bool" where
  "same_slots vm vm' A \<longleftrightarrow>
     (\<forall>i < length (v_stacks vm). \<forall>p\<in>A. v_stacks vm ! i = p + sz_chain \<longrightarrow> v_stacks vm' ! i = p + sz_chain)"

text \<open>The common conclusion of the steps: what happens to the chunks of \<open>A\<close> and to the end marker.\<close>

definition gc_keeps :: "vm_instance \<Rightarrow> vm_instance \<Rightarrow> addr set \<Rightarrow> addr \<Rightarrow> bool" where
  "gc_keeps vm vm' A e \<longleftrightarrow>
     same_chunks vm vm' A \<and> chunk_size (v_heap vm') e = chunk_size (v_heap vm) e \<and>
     gc_frame vm vm' \<and> same_slots vm vm' A"

lemma gc_keeps_refl [simp]: "gc_keeps vm vm A e"
  by (simp add: gc_keeps_def same_chunks_def same_slots_def)

lemma gc_keeps_trans:
  assumes "gc_keeps vm vm1 A e" "gc_keeps vm1 vm2 B e" "C \<subseteq> A" "C \<subseteq> B"
  shows "gc_keeps vm vm2 C e"
proof -
  have "same_slots vm vm2 C"
    using assms by (auto simp: gc_keeps_def same_slots_def gc_frame_def subset_eq)
  moreover have "same_chunks vm vm2 C"
    using assms by (auto simp: gc_keeps_def same_chunks_def subset_eq)
  ultimately show ?thesis using assms(1,2) by (auto simp: gc_keeps_def intro: gc_frame_trans)
qed

lemma gc_keeps_alive:
  "gc_keeps vm vm' A e \<Longrightarrow> p \<in> A \<Longrightarrow> chunk_alive vm' p = chunk_alive vm p"
  by (auto simp: gc_keeps_def same_chunks_def chunk_alive_def)

lemma shape_linked: "heap_shape h (b1 @ p # q # b2) e \<Longrightarrow> linked h p q"
  by (simp add: heap_shape_def is_chain_append is_chain_Cons)

lemma shape_root_le: "heap_shape h bs e \<Longrightarrow> p \<in> set bs \<Longrightarrow> hm_root h \<le> p"
  using is_chain_sorted [of h "bs @ [e]"] by (cases bs) (auto simp: heap_shape_def)

lemma m_shift_frame:
  "m_shift_next_chunk h c = Inr (s, h') \<Longrightarrow> hm_root h' = hm_root h \<and> hm_size h' = hm_size h"
  by (auto simp: m_shift_next_chunk_def Let_def split: if_splits)

lemma gc_shift_shape:
  assumes hs: "heap_shape (v_heap vm) (b1 @ p # q # b2) e"
  shows "\<exists>q' vm'. gc_shift (p + sz_chain) (q + sz_chain) vm = Some (Inr (q' + sz_chain, vm')) \<and>
    heap_shape (v_heap vm') (b1 @ p # q' # b2) e \<and> (chunk_alive vm q \<longrightarrow> q' = q) \<and>
    v_objs vm' (q' + sz_chain) = v_objs vm (q + sz_chain) \<and>
    chunk_size (v_heap vm') q' = chunk_size (v_heap vm) q \<and>
    gc_keeps vm vm' (set (b1 @ p # b2) \<union> (if chunk_alive vm q then {q} else {})) e \<and>
    (root_clean (v_heap vm) (b1 @ p # q # b2) \<longrightarrow> root_clean (v_heap vm') (b1 @ p # q' # b2))"
proof (cases "chunk_alive vm q \<or> o_lock (v_objs vm (q + sz_chain)) \<noteq> 0")
  case True
  then have "gc_shift (p + sz_chain) (q + sz_chain) vm = Some (Inr (q + sz_chain, vm))"
    by (auto simp: gc_shift_def chunk_alive_def Let_def)
  with hs show ?thesis by auto
next
  case False
  define q' where "q' = p + sz_chain + chunk_size (v_heap vm) p"
  obtain h where h: "m_shift_next_chunk (v_heap vm) (p + sz_chain) = Inr (q' + sz_chain, h)"
    "heap_shape h (b1 @ p # q' # b2) e" "chunk_size h q' = chunk_size (v_heap vm) q"
    "\<forall>x. x \<noteq> q' \<longrightarrow> chunk_size h x = chunk_size (v_heap vm) x" "q' = q \<longrightarrow> h = v_heap vm"
    using m_shift_shape [OF hs q'_def] by auto
  have d: "distinct ((b1 @ p # q' # b2) @ [e])" and d0: "distinct ((b1 @ p # q # b2) @ [e])"
    using shape_distinct [OF h(2)] shape_distinct [OF hs] .
  have root: "hm_root h = hm_root (v_heap vm)" "hm_size h = hm_size (v_heap vm)"
    using h(1) m_shift_frame by fastforce+
  have "hm_root (v_heap vm) \<le> p" using shape_root_le [OF hs, of p] by simp
  then have "q' = q \<or> q \<noteq> hm_root (v_heap vm) + sz_chain"
    using shape_linked [OF hs] by (auto simp: linked_def q'_def)
  then have rc: "root_clean (v_heap vm) (b1 @ p # q # b2) \<longrightarrow> root_clean h (b1 @ p # q' # b2)"
    using h(4) by (auto simp: root_clean_def root)
  define vm' where "vm' = (if q' \<noteq> q
    then vm_update_mutator (q + sz_chain) (q' + sz_chain)
           (vm\<lparr>v_heap := h, v_objs := (v_objs vm)(q' + sz_chain := v_objs vm (q + sz_chain))\<rparr>)
    else vm\<lparr>v_heap := h\<rparr>)"
  have "gc_shift (p + sz_chain) (q + sz_chain) vm = Some (Inr (q' + sz_chain, vm'))"
    using False h(1) by (simp add: gc_shift_def chunk_alive_def Let_def vm'_def)
  moreover have "v_heap vm' = h" by (simp add: vm'_def vm_update_mutator_def)
  moreover have "v_objs vm' (q' + sz_chain) = v_objs vm (q + sz_chain)"
    by (simp add: vm'_def vm_update_mutator_def)
  moreover have "gc_keeps vm vm' (set (b1 @ p # b2)) e"
    using d d0 h(4) root
    by (auto simp: gc_keeps_def same_chunks_def gc_frame_def same_slots_def vm'_def vm_update_mutator_def)
  ultimately show ?thesis using h(2,3) rc False by auto
qed

lemma gc_clear_shape:
  assumes hs: "heap_shape (v_heap vm) (b1 @ p # b2) e" and b1: "b1 \<noteq> []"
    and rel: "o_release (v_objs vm (p + sz_chain)) = 0"
  shows "\<exists>vm'. gc_clear rl (p + sz_chain) vm = Some (Inr ((), vm')) \<and>
    heap_shape (v_heap vm') (b1 @ b2) e \<and> gc_keeps vm vm' (set (b1 @ b2)) e \<and>
    (root_clean (v_heap vm) (b1 @ p # b2) \<longrightarrow> root_clean (v_heap vm') (b1 @ b2))"
proof -
  obtain h where h: "m_free (v_heap vm) (p + sz_chain) = Some h" "heap_shape h (b1 @ b2) e"
    "\<forall>x. x \<noteq> p \<longrightarrow> chunk_size h x = chunk_size (v_heap vm) x" "chunk_size h p = 0"
    using m_free_live [OF hs b1] by auto
  have d: "distinct ((b1 @ p # b2) @ [e])"
    by (rule shape_distinct [OF hs])
  have pos: "m_size_chunk (v_heap vm) (p + sz_chain) \<noteq> 0"
    using hs b1 by (cases b1) (auto simp: heap_shape_def m_size_chunk_def)
  have root: "hm_root h = hm_root (v_heap vm)" "hm_size h = hm_size (v_heap vm)"
    using m_free_loop_frame [OF h(1) [unfolded m_free_def]] by simp_all
  have "root_clean (v_heap vm) (b1 @ p # b2) \<longrightarrow> root_clean h (b1 @ b2)"
    using h(3,4) by (cases "hm_root (v_heap vm) + sz_chain = p") (auto simp: root_clean_def root)
  moreover define vm' where "vm' = vm\<lparr>v_objs := (v_objs vm)(p + sz_chain := zero_object), v_heap := h\<rparr>"
  moreover have "gc_clear rl (p + sz_chain) vm = Some (Inr ((), vm'))"
    using pos rel h(1) by (simp add: gc_clear_def gc_release_def m_free_v_eq vm'_def)
  moreover have "gc_keeps vm vm' (set (b1 @ b2)) e"
    using d h(3) root by (auto simp: gc_keeps_def same_chunks_def gc_frame_def same_slots_def vm'_def)
  ultimately show ?thesis using h(2) by (auto simp: vm'_def)
qed

text \<open>One round at a chunk that has a successor.\<close>

lemma gc_step_shape:
  assumes hs: "heap_shape (v_heap vm) (b1 @ p # q # b2) e"
    and root: "b1 = [] \<longrightarrow> \<not> gc_dead (gc_mgc vm (p + sz_chain))"
    and rel: "b1 \<noteq> [] \<and> \<not> chunk_alive vm p \<longrightarrow> o_release (v_objs vm (p + sz_chain)) = 0"
  defines "ps \<equiv> if b1 = [] \<or> chunk_alive vm p then [p] else []"
  shows "\<exists>q' vm'. gc_step rl (p + sz_chain) vm = Some (Inr (q' + sz_chain, vm')) \<and>
    heap_shape (v_heap vm') ((b1 @ ps) @ q' # b2) e \<and> (chunk_alive vm q \<longrightarrow> q' = q) \<and>
    v_objs vm' (q' + sz_chain) = v_objs vm (q + sz_chain) \<and>
    chunk_size (v_heap vm') q' = chunk_size (v_heap vm) q \<and>
    gc_keeps vm vm' (set (b1 @ ps @ b2) \<union> (if chunk_alive vm q then {q} else {})) e \<and>
    (root_clean (v_heap vm) (b1 @ p # q # b2) \<longrightarrow> root_clean (v_heap vm') ((b1 @ ps) @ q' # b2))"
proof -
  have lk: "linked (v_heap vm) p q" "0 < q" using shape_linked [OF hs] by (auto dest: linked_less)
  have posq: "0 < chunk_size (v_heap vm) q" and posp: "b1 \<noteq> [] \<Longrightarrow> 0 < chunk_size (v_heap vm) p"
    using hs by (cases b1; auto simp: heap_shape_def)+
  have nxt: "m_next_chunk (v_heap vm) (p + sz_chain) = Inr (q + sz_chain)"
    using lk posq by (simp add: m_next_chunk_def linked_def)
  have cand: "gc_dead (gc_mgc vm (p + sz_chain)) \<longleftrightarrow> ps = []"
    using root posp by (auto simp: ps_def gc_mgc_def m_size_chunk_def chunk_alive_def)
  obtain q' vm1 where v1: "gc_shift (p + sz_chain) (q + sz_chain) vm = Some (Inr (q' + sz_chain, vm1))"
    "heap_shape (v_heap vm1) (b1 @ p # q' # b2) e" "chunk_alive vm q \<longrightarrow> q' = q"
    "v_objs vm1 (q' + sz_chain) = v_objs vm (q + sz_chain)"
    "gc_keeps vm vm1 (set (b1 @ p # b2) \<union> (if chunk_alive vm q then {q} else {})) e"
    "chunk_size (v_heap vm1) q' = chunk_size (v_heap vm) q"
    "root_clean (v_heap vm) (b1 @ p # q # b2) \<longrightarrow> root_clean (v_heap vm1) (b1 @ p # q' # b2)"
    using gc_shift_shape [OF hs] by blast
  show ?thesis
  proof (cases "ps = []")
    case True
    then have "b1 \<noteq> []" "\<not> chunk_alive vm p" by (auto simp: ps_def split: if_splits)
    moreover from this have "o_release (v_objs vm1 (p + sz_chain)) = 0"
      using rel v1(5) by (auto simp: gc_keeps_def same_chunks_def)
    ultimately obtain vm2 where v2: "gc_clear rl (p + sz_chain) vm1 = Some (Inr ((), vm2))"
      "heap_shape (v_heap vm2) (b1 @ q' # b2) e" "gc_keeps vm1 vm2 (set (b1 @ q' # b2)) e"
      "root_clean (v_heap vm1) (b1 @ p # q' # b2) \<longrightarrow> root_clean (v_heap vm2) (b1 @ q' # b2)"
      using gc_clear_shape [OF v1(2)] by blast
    have "v_objs vm2 (q' + sz_chain) = v_objs vm (q + sz_chain)" "chunk_size (v_heap vm2) q' = chunk_size (v_heap vm) q"
      using v2(3) v1(4,6) by (auto simp: gc_keeps_def same_chunks_def)
    moreover have "gc_keeps vm vm2 (set (b1 @ ps @ b2) \<union> (if chunk_alive vm q then {q} else {})) e"
      using v1(3) True by (intro gc_keeps_trans [OF v1(5) v2(3)]) auto
    moreover have "gc_step rl (p + sz_chain) vm = Some (Inr (q' + sz_chain, vm2))"
      using nxt cand True v1(1) v2(1) by (simp add: gc_step_def Let_def bind_results)
    ultimately show ?thesis using v2(2,4) v1(3,7) True by auto
  next
    case False
    then have ps: "ps = [p]" by (auto simp: ps_def split: if_splits)
    have "gc_step rl (p + sz_chain) vm = Some (Inr (q' + sz_chain, vm1))"
      using nxt cand False v1(1) by (simp add: gc_step_def Let_def bind_results)
    with v1 ps show ?thesis by auto
  qed
qed

text \<open>A chunk that holds the size and the object of one of the chunks \<open>C\<close> before.\<close>

definition moved_chunk :: "vm_instance \<Rightarrow> vm_instance \<Rightarrow> addr set \<Rightarrow> addr \<Rightarrow> bool" where
  "moved_chunk vm vm' C z \<longleftrightarrow> (\<exists>y\<in>C. chunk_size (v_heap vm') z = chunk_size (v_heap vm) y \<and>
     v_objs vm' (z + sz_chain) = v_objs vm (y + sz_chain))"

lemma gc_loop_shape:
  assumes "heap_shape (v_heap vm) (b1 @ p # b2) e" "chunk_size (v_heap vm) e = 0"
    and "b1 = [] \<longrightarrow> \<not> gc_dead (gc_mgc vm (p + sz_chain))"
    and "b1 \<noteq> [] \<and> \<not> chunk_alive vm p \<longrightarrow> o_release (v_objs vm (p + sz_chain)) = 0"
    and "\<forall>q\<in>set b2. \<not> chunk_alive vm q \<longrightarrow> o_release (v_objs vm (q + sz_chain)) = 0"
  shows "\<exists>vm' zs. gc_loop rl (p + sz_chain) vm = Some (Inr ((), vm')) \<and>
    heap_shape (v_heap vm')
      (b1 @ (if b1 = [] \<or> chunk_alive vm p then [p] else []) @ filter (chunk_alive vm) b2 @ zs) e \<and>
    length zs \<le> 1 \<and> (\<forall>z\<in>set zs. \<not> chunk_alive vm' z \<and> moved_chunk vm vm' (set (p # b2)) z) \<and>
    gc_keeps vm vm' (set (b1 @ (if b1 = [] \<or> chunk_alive vm p then [p] else []) @ filter (chunk_alive vm) b2)) e \<and>
    (root_clean (v_heap vm) (b1 @ p # b2) \<longrightarrow> root_clean (v_heap vm')
      (b1 @ (if b1 = [] \<or> chunk_alive vm p then [p] else []) @ filter (chunk_alive vm) b2 @ zs))"
  using assms
proof (induction b2 arbitrary: vm b1 p)
  case Nil
  from Nil.prems(1) have lk: "chunk_next (v_heap vm) p = e" "0 < e"
    by (auto simp: heap_shape_def is_chain_append is_chain_Cons is_chain_single linked_def)
  then have "gc_step rl (p + sz_chain) vm = Some (Inr (0, vm))"
    using Nil.prems(2) by (simp add: gc_step_def m_next_chunk_def Let_def)
  then have loop: "gc_loop rl (p + sz_chain) vm = Some (Inr ((), vm))"
    by (simp add: gc_loop.simps [of rl "p + sz_chain"] gc_loop.simps [of rl 0])
  show ?case
  proof (cases "b1 = [] \<or> chunk_alive vm p")
    case True
    with loop Nil.prems(1) show ?thesis by (intro exI [of _ vm] exI [of _ "[]"]) auto
  next
    case False
    with loop Nil.prems(1) show ?thesis by (intro exI [of _ vm] exI [of _ "[p]"]) (auto simp: moved_chunk_def)
  qed
next
  case (Cons q b2)
  define ps where "ps = (if b1 = [] \<or> chunk_alive vm p then [p] else [])"
  obtain q' vm1 where v1: "gc_step rl (p + sz_chain) vm = Some (Inr (q' + sz_chain, vm1))"
    "heap_shape (v_heap vm1) ((b1 @ ps) @ q' # b2) e" "chunk_alive vm q \<longrightarrow> q' = q"
    "v_objs vm1 (q' + sz_chain) = v_objs vm (q + sz_chain)"
    "gc_keeps vm vm1 (set (b1 @ ps @ b2) \<union> (if chunk_alive vm q then {q} else {})) e"
    "chunk_size (v_heap vm1) q' = chunk_size (v_heap vm) q"
    "root_clean (v_heap vm) (b1 @ p # q # b2) \<longrightarrow> root_clean (v_heap vm1) ((b1 @ ps) @ q' # b2)"
    using gc_step_shape [OF Cons.prems(1,3,4), of rl] unfolding ps_def by blast
  have ne: "b1 @ ps \<noteq> []" by (auto simp: ps_def)
  have al: "chunk_alive vm1 q' = chunk_alive vm q" using v1(4) by (simp add: chunk_alive_def)
  have ob: "v_objs vm1 (x + sz_chain) = v_objs vm (x + sz_chain)" if "x \<in> set b2" for x
    using v1(5) that by (simp add: gc_keeps_def same_chunks_def)
  have fl: "filter (chunk_alive vm1) b2 = filter (chunk_alive vm) b2"
    using ob by (intro filter_cong) (auto simp: chunk_alive_def)
  have e0: "chunk_size (v_heap vm1) e = 0" using v1(5) Cons.prems(2) by (simp add: gc_keeps_def)
  have rel1: "\<not> chunk_alive vm1 q' \<longrightarrow> o_release (v_objs vm1 (q' + sz_chain)) = 0"
    "\<forall>x\<in>set b2. \<not> chunk_alive vm1 x \<longrightarrow> o_release (v_objs vm1 (x + sz_chain)) = 0"
    using Cons.prems(5) v1(4) ob by (auto simp: chunk_alive_def)
  define qs where "qs = (if chunk_alive vm q then [q] else [])"
  have qs: "(if b1 @ ps = [] \<or> chunk_alive vm1 q' then [q'] else []) = qs"
    using ne al v1(3) by (auto simp: qs_def)
  have pre: "b1 @ ps = [] \<longrightarrow> \<not> gc_dead (gc_mgc vm1 (q' + sz_chain))"
    "b1 @ ps \<noteq> [] \<and> \<not> chunk_alive vm1 q' \<longrightarrow> o_release (v_objs vm1 (q' + sz_chain)) = 0"
    using ne rel1(1) by auto
  obtain vm' zs where v2: "gc_loop rl (q' + sz_chain) vm1 = Some (Inr ((), vm'))"
    "heap_shape (v_heap vm') ((b1 @ ps) @ qs @ filter (chunk_alive vm) b2 @ zs) e"
    "length zs \<le> 1" "\<forall>z\<in>set zs. \<not> chunk_alive vm' z \<and> moved_chunk vm1 vm' (set (q' # b2)) z"
    "gc_keeps vm1 vm' (set ((b1 @ ps) @ qs @ filter (chunk_alive vm) b2)) e"
    "root_clean (v_heap vm1) ((b1 @ ps) @ q' # b2) \<longrightarrow>
      root_clean (v_heap vm') ((b1 @ ps) @ qs @ filter (chunk_alive vm) b2 @ zs)"
    using Cons.IH [OF v1(2) e0 pre rel1(2)] unfolding qs fl by blast
  have "gc_loop rl (p + sz_chain) vm = Some (Inr ((), vm'))"
    using v1(1) v2(1) by (simp add: gc_loop.simps [of rl "p + sz_chain" vm])
  moreover have "gc_keeps vm vm' (set (b1 @ ps @ filter (chunk_alive vm) (q # b2))) e"
    by (rule gc_keeps_trans [OF v1(5) v2(5)]) (auto simp: qs_def)
  moreover have "heap_shape (v_heap vm') (b1 @ ps @ filter (chunk_alive vm) (q # b2) @ zs) e"
    using v2(2) by (simp add: qs_def split: if_splits)
  moreover have "root_clean (v_heap vm) (b1 @ p # q # b2) \<longrightarrow>
      root_clean (v_heap vm') (b1 @ ps @ filter (chunk_alive vm) (q # b2) @ zs)"
    using v2(6) v1(7) by (simp add: qs_def split: if_splits)
  moreover have "moved_chunk vm vm' (set (p # q # b2)) z" if "moved_chunk vm1 vm' (set (q' # b2)) z" for z
    using that v1(4-6) by (auto simp: moved_chunk_def gc_keeps_def same_chunks_def)
  ultimately show ?case using v2(3,4) unfolding ps_def by blast
qed

text \<open>The live blocks that hold referenced objects, and those that hold garbage.\<close>

definition referenced :: "vm_instance \<Rightarrow> (addr \<times> nat) multiset" where
  "referenced vm = filter_mset (\<lambda>(a, n). \<not> gc_dead (o_mgc (v_objs vm a))) (live (v_heap vm))"

definition garbage :: "vm_instance \<Rightarrow> (addr \<times> nat) multiset" where
  "garbage vm = filter_mset (\<lambda>(a, n). gc_dead (o_mgc (v_objs vm a))) (live (v_heap vm))"

lemma filter_mset_map:
  "filter_mset P (mset (map f (filter Q xs))) = mset (map f (filter (\<lambda>x. Q x \<and> P (f x)) xs))"
  by (induction xs) auto

lemma referenced_blocks:
  assumes "heap_shape (v_heap vm) bs e"
  shows "referenced vm = mset (map (\<lambda>p. (p + sz_chain, chunk_size (v_heap vm) p))
       (filter (\<lambda>p. 0 < chunk_size (v_heap vm) p \<and> chunk_alive vm p) bs))"
  unfolding referenced_def live_shape [OF assms] blocks_of_def filter_mset_map
  by (simp add: chunk_alive_def)

lemma garbage_blocks:
  assumes "heap_shape (v_heap vm) bs e"
  shows "garbage vm = mset (map (\<lambda>p. (p + sz_chain, chunk_size (v_heap vm) p))
       (filter (\<lambda>p. 0 < chunk_size (v_heap vm) p \<and> \<not> chunk_alive vm p) bs))"
  unfolding garbage_def live_shape [OF assms] blocks_of_def filter_mset_map
  by (simp add: chunk_alive_def)

lemma vm_gc_no_immutables: "v_object_list vm = 0 \<Longrightarrow> vm_gc_immutable_object vm = Some (Inr ((), vm))"
  by (simp add: vm_gc_immutable_object_def gc_immutable_loop.simps)

lemma gc_frame_fields:
  assumes "gc_frame vm vm'"
  shows "v_object_list vm' = v_object_list vm \<and> v_sp vm' = v_sp vm \<and> v_bp vm' = v_bp vm \<and>
    v_pc vm' = v_pc vm \<and> v_state vm' = v_state vm \<and> v_tcs vm' = v_tcs vm \<and> v_package vm' = v_package vm"
  using assms by (cases vm; cases vm') (simp add: gc_frame_def)

text \<open>The collection of a machine with no objects outside the heap, on the chain of chunks.\<close>

lemma vm_garbage_collect_shape:
  assumes "heap_shape (v_heap vm) (r # cs) e" "chunk_size (v_heap vm) e = 0"
    and "\<not> gc_dead (gc_mgc vm (r + sz_chain))" "v_object_list vm = 0"
    and "\<forall>q\<in>set cs. \<not> chunk_alive vm q \<longrightarrow> o_release (v_objs vm (q + sz_chain)) = 0"
  shows "\<exists>vm' zs. vm_garbage_collect rl vm = Some (Inr ((), vm')) \<and>
    heap_shape (v_heap vm') (r # filter (chunk_alive vm) cs @ zs) e \<and>
    length zs \<le> 1 \<and> (\<forall>z\<in>set zs. \<not> chunk_alive vm' z \<and> moved_chunk vm vm' (set (r # cs)) z) \<and>
    gc_keeps vm vm' (set (r # filter (chunk_alive vm) cs)) e \<and>
    (root_clean (v_heap vm) (r # cs) \<longrightarrow> root_clean (v_heap vm') (r # filter (chunk_alive vm) cs @ zs))"
proof -
  have first: "m_first_chunk (v_heap vm) = r + sz_chain"
    using assms(1) by (simp add: m_first_chunk_def heap_shape_def)
  obtain vm' zs where v: "gc_loop rl (r + sz_chain) vm = Some (Inr ((), vm'))"
    "heap_shape (v_heap vm') (r # filter (chunk_alive vm) cs @ zs) e"
    "length zs \<le> 1" "\<forall>z\<in>set zs. \<not> chunk_alive vm' z \<and> moved_chunk vm vm' (set (r # cs)) z"
    "gc_keeps vm vm' (set (r # filter (chunk_alive vm) cs)) e"
    "root_clean (v_heap vm) (r # cs) \<longrightarrow> root_clean (v_heap vm') (r # filter (chunk_alive vm) cs @ zs)"
    using gc_loop_shape [of vm "[]" r cs e rl] assms by auto
  then have "v_object_list vm' = 0" using assms(4) gc_frame_fields [of vm vm'] by (simp add: gc_keeps_def)
  with v(1) first have "vm_garbage_collect rl vm = Some (Inr ((), vm'))"
    by (simp add: vm_garbage_collect_def bind_results vm_gc_no_immutables)
  with v show ?thesis by blast
qed

section \<open>New objects on a well-formed heap\<close>

text \<open>What an operation that only creates objects keeps: every live object, at its address.\<close>

definition keeps_objs :: "vm_instance \<Rightarrow> vm_instance \<Rightarrow> bool" where
  "keeps_objs vm vm' \<longleftrightarrow>
     heap_ok (v_heap vm') \<and> hm_root (v_heap vm') = hm_root (v_heap vm) \<and> hm_size (v_heap vm') = hm_size (v_heap vm) \<and>
     vm'\<lparr>v_heap := v_heap vm, v_objs := v_objs vm\<rparr> = vm \<and>
     (\<forall>a n. (a, n) \<in># live (v_heap vm) \<longrightarrow> (a, n) \<in># live (v_heap vm') \<and> v_objs vm' a = v_objs vm a)"

definition new_object :: "vm_instance \<Rightarrow> addr \<Rightarrow> vm_object \<Rightarrow> vm_instance \<Rightarrow> bool" where
  "new_object vm p ob vm' \<longleftrightarrow>
     p \<noteq> 0 \<and> v_objs vm' p = ob \<and> (p, sz_object + o_len ob) \<in># live (v_heap vm') \<and>
     (\<forall>m. (p, m) \<notin># live (v_heap vm)) \<and> keeps_objs vm vm' \<and>
     (tidy (v_heap vm) \<longrightarrow> tidy (v_heap vm') \<and>
        live (v_heap vm') = add_mset (p, sz_object + o_len ob) (live (v_heap vm)))"

text \<open>
  An operation that creates an object \<open>ob\<close> and takes at most \<open>c\<close> bytes from the end of the heap; it
  fails only when fewer are left.
\<close>

definition creates :: "addr vm \<Rightarrow> nat \<Rightarrow> vm_object \<Rightarrow> vm_instance \<Rightarrow> bool" where
  "creates m c ob vm \<longleftrightarrow>
     m vm = Some (Inl Null_Deref) \<and> heap_rest (v_heap vm) \<le> c \<or>
     (\<exists>p vm'. m vm = Some (Inr (p, vm')) \<and> new_object vm p ob vm' \<and>
        heap_rest (v_heap vm) \<le> heap_rest (v_heap vm') + c)"

lemma createsE:
  assumes "creates m c ob vm"
  obtains "m vm = Some (Inl Null_Deref)" "heap_rest (v_heap vm) \<le> c"
  | p vm' where "m vm = Some (Inr (p, vm'))" "new_object vm p ob vm'" "heap_rest (v_heap vm) \<le> heap_rest (v_heap vm') + c"
  using assms by (auto simp: creates_def)

lemma creates_eq: "m vm = m' vm \<Longrightarrow> creates m c ob vm = creates m' c ob vm"
  by (simp add: creates_def)

lemma creates_mono: "creates m c ob vm \<Longrightarrow> c \<le> d \<Longrightarrow> creates m d ob vm"
  unfolding creates_def by (meson add_left_mono le_trans)

lemma live_addr_unique:
  assumes "heap_ok h" "(a, n) \<in># live h" "(a, m) \<in># live h"
  shows "n = m"
proof -
  obtain bs e where hs: "heap_shape h bs e" using assms(1) by (auto simp: heap_ok_iff)
  show ?thesis using live_memD [OF hs assms(2)] live_memD [OF hs assms(3)] by auto
qed

lemma live_memI:
  "heap_shape h bs e \<Longrightarrow> p \<in> set bs \<Longrightarrow> 0 < chunk_size h p \<Longrightarrow> (p + sz_chain, chunk_size h p) \<in># live h"
  by (auto simp: live_shape blocks_of_def)

lemma alloc_new_address:
  assumes "heap_ok h" "request_ok n" "m_alloc h n = Some (r, h')" "r \<noteq> 0"
  shows "(r, m) \<notin># live h"
proof
  assume m: "(r, m) \<in># live h"
  have h': "heap_ok h'" "live h' = add_mset (r, n) (live h)"
    using mg.alloc_spec [OF assms(1,2)] assms(3,4) by auto
  with m live_addr_unique [of h' r n m] have "m = n" by auto
  with m have "1 < count (live h') (r, n)" unfolding h'(2) by (simp add: count_greater_zero_iff)
  with mg.block_unique [OF h'(1), of r n] show False by simp
qed

lemma m_alloc_v_cases:
  assumes "heap_ok (v_heap vm)" "request_ok n"
  shows "\<exists>p h. m_alloc_v n vm = Some (Inr (p, vm\<lparr>v_heap := h\<rparr>)) \<and> heap_ok h \<and>
    hm_root h = hm_root (v_heap vm) \<and> hm_size h = hm_size (v_heap vm) \<and>
    (p \<noteq> 0 \<longrightarrow> live h = add_mset (p, n) (live (v_heap vm)) \<and> (\<forall>m. (p, m) \<notin># live (v_heap vm))) \<and>
    (p = 0 \<longrightarrow> heap_rest (v_heap vm) \<le> n + 32) \<and> heap_rest (v_heap vm) \<le> heap_rest h + n + 16 \<and>
    (tidy (v_heap vm) \<longrightarrow> tidy h)"
proof -
  obtain p h where a: "m_alloc (v_heap vm) n = Some (p, h)" "heap_ok h"
    "live h = (if p = 0 then live (v_heap vm) else add_mset (p, n) (live (v_heap vm)))"
    using mg.alloc_spec [OF assms] by auto
  with alloc_new_address [OF assms a(1)] m_alloc_loop_frame [OF a(1) [unfolded m_alloc_def]] m_alloc_rest [OF assms a(1)]
    m_alloc_tidy [OF _ assms(2) a(1)]
  show ?thesis by (auto simp: m_alloc_v_def heap_v_def sz_consts)
qed

lemma vm_create_object_creates:
  assumes "heap_ok (v_heap vm)" "length bs < 2 ^ 62"
  shows "creates (vm_create_object (length bs) (Some bs)) (length bs + 72) (fresh_object bs) vm"
proof -
  obtain p h where a: "m_alloc_v (sz_object + length bs) vm = Some (Inr (p, vm\<lparr>v_heap := h\<rparr>))" "heap_ok h"
    "hm_root h = hm_root (v_heap vm)" "hm_size h = hm_size (v_heap vm)"
    "p \<noteq> 0 \<longrightarrow> live h = add_mset (p, sz_object + length bs) (live (v_heap vm)) \<and> (\<forall>m. (p, m) \<notin># live (v_heap vm))"
    "p = 0 \<longrightarrow> heap_rest (v_heap vm) \<le> sz_object + length bs + 32"
    "heap_rest (v_heap vm) \<le> heap_rest h + (sz_object + length bs) + 16" "tidy (v_heap vm) \<longrightarrow> tidy h"
    using m_alloc_v_cases [OF assms(1), of "sz_object + length bs"] assms(2)
    by (auto simp: request_ok_def sz_consts)
  show ?thesis
  proof (cases "p = 0")
    case True
    with a show ?thesis by (simp add: creates_def vm_create_object_def bind_results sz_consts)
  next
    case False
    with a have "vm_create_object (length bs) (Some bs) vm =
        Some (Inr (p, vm\<lparr>v_heap := h, v_objs := (v_objs vm)(p := fresh_object bs)\<rparr>))"
      by (simp add: vm_create_object_def bind_results)
    with False a show ?thesis
      by (auto simp: creates_def new_object_def keeps_objs_def o_len_def fresh_object_def sz_consts)
  qed
qed

lemma m_free_v_cases:
  assumes "heap_ok (v_heap vm)" "(b, n) \<in># live (v_heap vm)"
  shows "\<exists>h. m_free_v b vm = Some (Inr ((), vm\<lparr>v_heap := h\<rparr>)) \<and> heap_ok h \<and>
    hm_root h = hm_root (v_heap vm) \<and> hm_size h = hm_size (v_heap vm) \<and>
    (\<forall>a m. (a, m) \<in># live (v_heap vm) \<and> a \<noteq> b \<longrightarrow> (a, m) \<in># live h) \<and> heap_rest (v_heap vm) \<le> heap_rest h \<and>
    (tidy (v_heap vm) \<longrightarrow> tidy h \<and> live h = live (v_heap vm) - {#(b, n)#})"
proof -
  obtain bs e where hs: "heap_shape (v_heap vm) bs e" using assms(1) by (auto simp: heap_ok_iff)
  have bz: "b \<noteq> sz_chain" using live_memD [OF hs assms(2)] shape_pos [OF hs] by auto
  from m_free_any [OF assms(1) this] obtain h where h: "m_free (v_heap vm) b = Some h" "heap_ok h"
    "live h = live (v_heap vm) \<or> (\<exists>n. live h = live (v_heap vm) - {#(b, n)#})" by auto
  moreover have "(a, m) \<in># live h" if "(a, m) \<in># live (v_heap vm)" "a \<noteq> b" for a m
    using h(3) that by (auto simp: in_diff_count)
  moreover have "tidy (v_heap vm) \<longrightarrow> tidy h \<and> live h = live (v_heap vm) - {#(b, n)#}"
    using m_free_tidy [OF _ assms(2)] h(1) by auto
  ultimately show ?thesis
    using m_free_loop_frame [OF h(1) [unfolded m_free_def]] m_free_rest [OF assms(1) bz h(1)] by (auto simp: m_free_v_eq)
qed

text \<open>A temporary buffer around the creation of an object.\<close>

lemma buffered_creates:
  assumes ok: "heap_ok (v_heap vm)" and "request_ok k" and pre: "\<And>vm. heap_ok (v_heap vm) \<Longrightarrow> creates m c ob vm"
  shows "creates (bind_v (m_alloc_v k) (\<lambda>b. if b = 0 then err_v Null_Deref
      else bind_v m (\<lambda>p. bind_v (m_free_v b) (\<lambda>_. ret_v p)))) (k + 32 + c) ob vm"
proof -
  obtain b h where a: "m_alloc_v k vm = Some (Inr (b, vm\<lparr>v_heap := h\<rparr>))" "heap_ok h"
    "b \<noteq> 0 \<longrightarrow> live h = add_mset (b, k) (live (v_heap vm)) \<and> (\<forall>m. (b, m) \<notin># live (v_heap vm))"
    and fr: "hm_root h = hm_root (v_heap vm)" "hm_size h = hm_size (v_heap vm)"
    and rest: "b = 0 \<longrightarrow> heap_rest (v_heap vm) \<le> k + 32" "heap_rest (v_heap vm) \<le> heap_rest h + k + 16"
    and ti: "tidy (v_heap vm) \<longrightarrow> tidy h"
    using m_alloc_v_cases [OF ok assms(2)] by blast
  define vm1 where "vm1 = vm\<lparr>v_heap := h\<rparr>"
  have ok1: "heap_ok (v_heap vm1)" using a(2) by (simp add: vm1_def)
  show ?thesis
  proof (cases "b = 0 \<or> m vm1 = Some (Inl Null_Deref)")
    case True
    with a(1) rest pre [OF ok1] show ?thesis by (auto simp: creates_def bind_results vm1_def)
  next
    case False
    then obtain p vm2 where c: "m vm1 = Some (Inr (p, vm2))" "new_object vm1 p ob vm2"
      "heap_rest (v_heap vm1) \<le> heap_rest (v_heap vm2) + c"
      using pre [OF ok1] by (auto simp: creates_def)
    then have k2: "heap_ok (v_heap vm2)" "(b, k) \<in># live (v_heap vm2)" "p \<noteq> b"
      "(p, sz_object + o_len ob) \<in># live (v_heap vm2)"
      using False a(3) by (auto simp: new_object_def keeps_objs_def vm1_def)
    obtain h3 where f: "m_free_v b vm2 = Some (Inr ((), vm2\<lparr>v_heap := h3\<rparr>))" "heap_ok h3"
      and fr3: "hm_root h3 = hm_root (v_heap vm2)" "hm_size h3 = hm_size (v_heap vm2)" and f3:
      "\<forall>a m. (a, m) \<in># live (v_heap vm2) \<and> a \<noteq> b \<longrightarrow> (a, m) \<in># live h3" "heap_rest (v_heap vm2) \<le> heap_rest h3"
      and t3: "tidy (v_heap vm2) \<longrightarrow> tidy h3 \<and> live h3 = live (v_heap vm2) - {#(b, k)#}"
      using m_free_v_cases [OF k2(1,2)] by blast
    have ne: "(a, n) \<in># live (v_heap vm) \<Longrightarrow> a \<noteq> b" for a n using a(3) False by auto
    have "(vm2\<lparr>v_heap := h3\<rparr>)\<lparr>v_heap := v_heap vm, v_objs := v_objs vm\<rparr> = vm"
      using c(2) by (cases vm2; cases vm) (simp add: new_object_def keeps_objs_def vm1_def)
    moreover have "(a, n) \<in># live h3 \<and> v_objs vm2 a = v_objs vm a" if "(a, n) \<in># live (v_heap vm)" for a n
      using c(2) f3 ne [OF that] that a(3) False by (auto simp: new_object_def keeps_objs_def vm1_def)
    moreover have "tidy (v_heap vm) \<longrightarrow> tidy h3 \<and> live h3 = add_mset (p, sz_object + o_len ob) (live (v_heap vm))"
      using c(2) ti t3 a(3) False by (auto simp: new_object_def vm1_def)
    ultimately have "new_object vm p ob (vm2\<lparr>v_heap := h3\<rparr>)"
      using c(2) f(2) f3 fr fr3 k2 a(3) False by (auto simp: new_object_def keeps_objs_def vm1_def)
    moreover have "heap_rest (v_heap vm) \<le> heap_rest h3 + (k + 32 + c)" using c(3) f3(2) rest(2) by (simp add: vm1_def)
    ultimately show ?thesis using False a(1) c(1) f(1) by (simp add: creates_def bind_results vm1_def)
  qed
qed

section \<open>Machines the collector can run on\<close>

text \<open>
  A size whose low byte the collector, reading it behind the empty root chunk, does not take for an
  unreferenced object.
\<close>

definition quiet :: "nat \<Rightarrow> bool" where "quiet n \<longleftrightarrow> \<not> gc_dead (of_nat n)"

text \<open>No objects outside the heap, no block whose size looks like garbage, no release functions.\<close>

definition collectable :: "vm_instance \<Rightarrow> bool" where
  "collectable vm \<longleftrightarrow> tidy (v_heap vm) \<and> v_object_list vm = 0 \<and>
     (\<forall>a n. (a, n) \<in># live (v_heap vm) \<longrightarrow> quiet n \<and> o_release (v_objs vm a) = 0)"

lemma collectable_cong:
  "v_heap vm' = v_heap vm \<Longrightarrow> v_object_list vm' = v_object_list vm \<Longrightarrow>
   (\<And>p. o_release (v_objs vm' p) = o_release (v_objs vm p)) \<Longrightarrow> collectable vm' = collectable vm"
  by (simp add: collectable_def)

lemma new_object_collectable:
  assumes "new_object vm p ob vm'" "collectable vm" "quiet (sz_object + o_len ob)" "o_release ob = 0"
  shows "collectable vm'"
proof -
  have "v_object_list (vm'\<lparr>v_heap := v_heap vm, v_objs := v_objs vm\<rparr>) = v_object_list vm"
    using assms(1) by (simp only: new_object_def keeps_objs_def)
  then have "v_object_list vm' = 0" using assms(2) by (simp add: collectable_def)
  moreover have "tidy (v_heap vm')" "live (v_heap vm') = add_mset (p, sz_object + o_len ob) (live (v_heap vm))"
    "v_objs vm' p = ob" "\<And>a n. (a, n) \<in># live (v_heap vm) \<Longrightarrow> v_objs vm' a = v_objs vm a"
    using assms(1,2) by (auto simp: new_object_def keeps_objs_def collectable_def)
  ultimately show ?thesis using assms(2-4) by (auto simp: collectable_def)
qed

text \<open>
  The collection of such a machine returns, leaves a machine of the same kind with the same space behind the
  last block, and keeps every referenced object at its address, with the stack slots that point to it.
\<close>

lemma vm_garbage_collect_collectable:
  assumes "collectable vm"
  shows "\<exists>vm'. vm_garbage_collect rl vm = Some (Inr ((), vm')) \<and> collectable vm' \<and> gc_frame vm vm' \<and>
    heap_rest (v_heap vm') = heap_rest (v_heap vm) \<and>
    (\<forall>a n. (a, n) \<in># referenced vm \<longrightarrow> (a, n) \<in># live (v_heap vm') \<and> v_objs vm' a = v_objs vm a \<and>
       (\<forall>i < length (v_stacks vm). v_stacks vm ! i = a \<longrightarrow> v_stacks vm' ! i = a))"
proof -
  define r where "r = hm_root (v_heap vm)"
  obtain cs e where hs: "heap_shape (v_heap vm) (r # cs) e" and z: "chunk_size (v_heap vm) r = 0" "chunk_size (v_heap vm) e = 0"
    and rc: "root_clean (v_heap vm) cs" using assms by (auto simp: collectable_def tidy_def r_def)
  have pos: "\<forall>q\<in>set cs. 0 < chunk_size (v_heap vm) q" using hs by (simp add: heap_shape_def)
  have lv: "(q + sz_chain, chunk_size (v_heap vm) q) \<in># live (v_heap vm)" if "q \<in> set cs" for q
    using that pos by (intro live_memI [OF hs]) auto
  then have qr: "quiet (chunk_size (v_heap vm) q)" "o_release (v_objs vm (q + sz_chain)) = 0" if "q \<in> set cs" for q
    using that assms by (auto simp: collectable_def)
  have "\<not> gc_dead (gc_mgc vm (r + sz_chain))"
    using rc qr(1) z(1) by (auto simp: gc_mgc_def m_size_chunk_def root_clean_def r_def quiet_def gc_dead_def magic_defs)
  moreover have "v_object_list vm = 0" using assms by (simp add: collectable_def)
  ultimately obtain vm' zs where v: "vm_garbage_collect rl vm = Some (Inr ((), vm'))"
    "heap_shape (v_heap vm') (r # filter (chunk_alive vm) cs @ zs) e"
    "\<forall>y\<in>set zs. \<not> chunk_alive vm' y \<and> moved_chunk vm vm' (set (r # cs)) y"
    and k: "gc_keeps vm vm' (set (r # filter (chunk_alive vm) cs)) e"
    and rc': "root_clean (v_heap vm) (r # cs) \<longrightarrow> root_clean (v_heap vm') (r # filter (chunk_alive vm) cs @ zs)"
    using vm_garbage_collect_shape [OF hs z(2), of rl] qr(2) by blast
  have fr: "gc_frame vm vm'" "hm_root (v_heap vm') = r" "hm_size (v_heap vm') = hm_size (v_heap vm)"
    using k by (auto simp: gc_keeps_def gc_frame_def r_def)
  have alive: "chunk_size (v_heap vm') q = chunk_size (v_heap vm) q" "v_objs vm' (q + sz_chain) = v_objs vm (q + sz_chain)"
    if "q = r \<or> q \<in> set cs \<and> chunk_alive vm q" for q
    using k that by (auto simp: gc_keeps_def same_chunks_def)
  have pos': "0 < chunk_size (v_heap vm') q" if "q \<in> set zs" for q
    using v(2) that by (simp add: heap_shape_def)
  have qr': "quiet (chunk_size (v_heap vm') q) \<and> o_release (v_objs vm' (q + sz_chain)) = 0"
    if "q \<in> set (filter (chunk_alive vm) cs @ zs)" for q
    using that alive qr v(3) pos' z(1) by (fastforce simp: moved_chunk_def)
  have z': "chunk_size (v_heap vm') r = 0" "chunk_size (v_heap vm') e = 0"
    using alive(1) [of r] z k by (simp_all add: gc_keeps_def)
  have "root_clean (v_heap vm') (filter (chunk_alive vm) cs @ zs)"
    using rc rc' by (auto simp: root_clean_def fr(2))
  with v(2) z' have "tidy (v_heap vm')" unfolding tidy_def fr(2) by blast
  moreover have "quiet n \<and> o_release (v_objs vm' a) = 0" if "(a, n) \<in># live (v_heap vm')" for a n
    using live_memD [OF v(2) that] qr' z'(1) by auto
  moreover have "v_object_list vm' = 0" using gc_frame_fields [OF fr(1)] assms by (simp add: collectable_def)
  ultimately have "collectable vm'" by (simp add: collectable_def)
  moreover have "heap_rest (v_heap vm') = heap_rest (v_heap vm)"
    by (simp add: heap_rest_shape [OF v(2)] heap_rest_shape [OF hs] fr r_def)
  moreover have "(a, n) \<in># live (v_heap vm') \<and> v_objs vm' a = v_objs vm a \<and>
      (\<forall>i < length (v_stacks vm). v_stacks vm ! i = a \<longrightarrow> v_stacks vm' ! i = a)" if mem: "(a, n) \<in># referenced vm" for a n
  proof -
    obtain q where q: "q \<in> set cs" "chunk_alive vm q" "a = q + sz_chain" "n = chunk_size (v_heap vm) q"
      using mem z(1) by (auto simp: referenced_blocks [OF hs])
    then have "(a, n) \<in># live (v_heap vm')"
      using live_memI [OF v(2), of q] alive(1) [of q] pos by simp
    with q alive(2) [of q] k show ?thesis by (auto simp: gc_keeps_def same_slots_def)
  qed
  ultimately show ?thesis using v(1) fr(1) by blast
qed

section \<open>Repeated references\<close>

text \<open>\<open>n\<close> references from the operand stack, as \<^verbatim>\<open>INS_OBJDUP\<close> creates them.\<close>

fun push_times :: "nat \<Rightarrow> addr \<Rightarrow> unit vm" where
  "push_times 0 p = ret_v ()"
| "push_times (Suc n) p = bind_v (vm_push_stack_arc p) (\<lambda>_. push_times n p)"

lemma push_arc_eq:
  assumes "p \<noteq> 0" "unat (v_sp vm) < VM_MAX_STACK_SIZE"
  shows "vm_push_stack_arc p vm = Some (Inr (p, vm\<lparr>v_sp := v_sp vm - 1,
    v_stacks := (v_stacks vm)[unat (v_sp vm) := p],
    v_objs := (v_objs vm)(p := (v_objs vm p)\<lparr>o_mgc := o_mgc (v_objs vm p) + 1\<rparr>)\<rparr>))"
  using assms
  by (simp add: vm_push_stack_arc_def vm_push_stack_def stack_write_def mgc_inc_def upd_obj_def bind_v_def)

lemma push_times_eq:
  assumes "p \<noteq> 0" "unat (v_sp vm) < VM_MAX_STACK_SIZE" "n \<le> unat (v_sp vm)"
    "length (v_stacks vm) = VM_MAX_STACK_SIZE"
  shows "\<exists>vm'. push_times n p vm = Some (Inr ((), vm')) \<and>
    o_mgc (v_objs vm' p) = o_mgc (v_objs vm p) + of_nat n \<and>
    (\<forall>i < n. v_stacks vm' ! (unat (v_sp vm) - i) = p) \<and>
    (\<forall>j > unat (v_sp vm). v_stacks vm' ! j = v_stacks vm ! j)"
  using assms(2-)
proof (induction n arbitrary: vm)
  case (Suc n)
  define vm1 where "vm1 = vm\<lparr>v_sp := v_sp vm - 1, v_stacks := (v_stacks vm)[unat (v_sp vm) := p],
    v_objs := (v_objs vm)(p := (v_objs vm p)\<lparr>o_mgc := o_mgc (v_objs vm p) + 1\<rparr>)\<rparr>"
  have sp: "unat (v_sp vm1) = unat (v_sp vm) - 1"
    using Suc.prems(2) by (simp add: vm1_def unat_sub_if_size word_le_nat_alt)
  obtain vm' where v: "push_times n p vm1 = Some (Inr ((), vm'))"
    "o_mgc (v_objs vm' p) = o_mgc (v_objs vm1 p) + of_nat n"
    "\<forall>i < n. v_stacks vm' ! (unat (v_sp vm1) - i) = p"
    "\<forall>j > unat (v_sp vm1). v_stacks vm' ! j = v_stacks vm1 ! j"
  proof -
    have "unat (v_sp vm1) < VM_MAX_STACK_SIZE" "n \<le> unat (v_sp vm1)" "length (v_stacks vm1) = VM_MAX_STACK_SIZE"
      using Suc.prems sp by (simp_all add: vm1_def)
    from Suc.IH [OF this] that show ?thesis by blast
  qed
  have "push_times (Suc n) p vm = Some (Inr ((), vm'))"
    using push_arc_eq [OF assms(1) Suc.prems(1)] v(1) by (simp add: bind_results vm1_def)
  moreover have "v_stacks vm' ! (unat (v_sp vm) - i) = p" if "i < Suc n" for i
  proof (cases i)
    case 0
    with v(4) sp Suc.prems show ?thesis by (simp add: vm1_def)
  next
    case (Suc k)
    with that v(3) [rule_format, of k] sp show ?thesis by simp
  qed
  moreover have "\<forall>j > unat (v_sp vm). v_stacks vm' ! j = v_stacks vm ! j"
    using v(4) sp by (auto simp: vm1_def)
  ultimately show ?case using v(2) by (auto simp: vm1_def)
qed simp

section \<open>Properties\<close>


text \<open>A machine on a fresh heap of 1000 bytes, used to evaluate the properties.\<close>

definition demo_vm :: vm_instance where
  "demo_vm = \<lparr>v_sp = 1999, v_bp = 0, v_pc = 0, v_info = [], v_tcs = [], v_package = 0,
     v_heap = demo_heap, v_objs = (\<lambda>_. zero_object), v_state = VM_STATE_RUN, v_rexec = False, v_api = 0,
     v_num_params = 0, v_ret = 0, v_exception = 0, v_object_list = 0, v_freed = [],
     v_stacks = replicate 2000 0\<rparr>"

text \<open>Two blocks in the heap: the first is garbage, the second is referenced from the stack.\<close>

definition two_chunks :: heap_manager where
  "two_chunks = set_header 244 0 0 (set_header 188 40 244 (set_header 132 40 188 demo_heap))"

definition two_vm :: vm_instance where
  "two_vm = demo_vm\<lparr>v_heap := two_chunks,
     v_objs := (\<lambda>_. zero_object)(148 := (fresh_object [])\<lparr>o_mgc := 0x80\<rparr>, 204 := fresh_object []),
     v_sp := 1998, v_stacks := (replicate 2000 0)[1999 := 204]\<rparr>"

lemma two_chunks_shape: "heap_shape two_chunks [116, 132, 188] 244"
  by (simp add: heap_shape_def two_chunks_def is_chain_Cons is_chain_single linked_def sz_chain_def)

lemma two_vm_fields [simp]:
  "v_heap two_vm = two_chunks" "v_object_list two_vm = 0"
  "v_objs two_vm = (\<lambda>_. zero_object)(148 := (fresh_object [])\<lparr>o_mgc := 0x80\<rparr>, 204 := fresh_object [])"
  by (simp_all add: two_vm_def demo_vm_def)


lemma size_byte_dead:
  assumes "k < 8" "n mod 256 = (88 + 16 * k) mod 256"
  shows "gc_dead (of_nat (sz_object + n))"
proof -
  have "(sz_object + n) mod 256 = (sz_object + n mod 256) mod 256" by presburger
  also have "\<dots> = (128 + 16 * k) mod 256" unfolding assms(2) by (simp add: sz_object_def mod_add_right_eq)
  finally have "(of_nat (sz_object + n) :: u8) = of_nat (128 + 16 * k)"
    by (simp only: word_unat_eq_iff unat_of_nat) simp
  moreover have "k \<in> {0, 1, 2, 3, 4, 5, 6, 7}" using assms(1) by auto
  ultimately show ?thesis by (auto simp: gc_dead_def magic_defs)
qed

text \<open>The root chunk is empty, so the collector takes the low byte of the size of the first block
  for a reference count. When the first block holds an object whose length is 88 plus a multiple of
  16 below 128, modulo 256, that byte looks like garbage and the collector calls the length of the
  object as a function.\<close>

lemma gc_calls_length:
  assumes "heap_shape (v_heap vm) (r # c # cs) e" and "chunk_size (v_heap vm) r = 0"
    and "c = r + sz_chain" and "chunk_size (v_heap vm) c = sz_object + o_len (v_objs vm (c + sz_chain))"
    and "k < 8" and "o_len (v_objs vm (c + sz_chain)) mod 256 = (88 + 16 * k) mod 256"
    and "\<not> gc_dead (o_mgc (v_objs vm (c + sz_chain)))"
    and "rl (o_len (v_objs vm (c + sz_chain))) = None"
  shows "vm_garbage_collect rl vm = Some (Inl Undefined_Value)"
proof -
  define n where "n = o_len (v_objs vm (c + sz_chain))"
  have nz: "n \<noteq> 0" using assms(5,6) by (auto simp: n_def)
  have lk: "chunk_next (v_heap vm) r = c" "0 < c"
    using shape_linked [of _ "[]" r c cs e] assms(1,3) by (auto simp: linked_def)
  have pos: "0 < chunk_size (v_heap vm) c" using assms(1) by (simp add: heap_shape_def)
  have cand: "gc_dead (gc_mgc vm c)" and rel: "gc_release vm c = n"
    using size_byte_dead [OF assms(5), of n] assms(2-4,6)
    by (simp_all add: gc_mgc_def gc_release_def m_size_chunk_def n_def)
  then have "gc_clear rl c vm = Some (Inl Undefined_Value)"
    using nz assms(8) by (simp add: gc_clear_def n_def)
  moreover have "m_next_chunk (v_heap vm) c = Inr (c + sz_chain)"
    "gc_shift c (c + sz_chain) vm = Some (Inr (c + sz_chain, vm))"
    using lk pos assms(3,7) by (simp_all add: m_next_chunk_def gc_shift_def Let_def)
  ultimately have "gc_step rl c vm = Some (Inl Undefined_Value)"
    using cand lk by (simp add: gc_step_def bind_results Let_def)
  moreover have "m_first_chunk (v_heap vm) = c"
    using assms(1,3) by (simp add: m_first_chunk_def heap_shape_def)
  ultimately show ?thesis
    using lk by (simp add: vm_garbage_collect_def gc_loop.simps [of rl c vm] bind_results)
qed

definition long_vm :: vm_instance where
  "long_vm = demo_vm\<lparr>v_heap := set_header 276 0 0 (set_header 132 128 276 demo_heap),
     v_objs := (\<lambda>_. zero_object)(148 := fresh_object (replicate 88 65))\<rparr>"

lemma gc_calls_length_witness:
  "length (replicate 88 (65 :: u8)) = 88 \<and> vm_garbage_collect (\<lambda>_. None) long_vm = Some (Inl Undefined_Value)"
proof -
  have f: "v_heap long_vm = set_header 276 0 0 (set_header 132 128 276 demo_heap)"
    "v_objs long_vm (132 + sz_chain) = fresh_object (replicate 88 65)"
    by (simp_all add: long_vm_def sz_chain_def)
  have hs: "heap_shape (v_heap long_vm) [116, 132] 276"
    by (simp add: f heap_shape_def is_chain_Cons is_chain_single linked_def sz_chain_def)
  have len: "o_len (v_objs long_vm (132 + sz_chain)) = 88"
    and mgc: "\<not> gc_dead (o_mgc (v_objs long_vm (132 + sz_chain)))"
    by (simp_all only: f) (simp_all add: o_len_def fresh_object_def gc_dead_def magic_defs)
  have "chunk_size (v_heap long_vm) 116 = 0" "132 = 116 + sz_chain"
    "chunk_size (v_heap long_vm) 132 = sz_object + o_len (v_objs long_vm (132 + sz_chain))"
    "o_len (v_objs long_vm (132 + sz_chain)) mod 256 = (88 + 16 * 0) mod 256"
    unfolding len by (simp_all add: f sz_consts)
  from gc_calls_length [OF hs this(1-3) _ this(4) mgc, of "\<lambda>_. None"] show ?thesis by simp
qed

text \<open>C29: The reference count is four bits wide and \<^verbatim>\<open>vm_push_stack_arc\<close> increments it without a
  check. A fresh object stays alive under up to fourteen further references; the fifteenth carries
  into the magic and makes it garbage, while fifteen stack slots hold its address.\<close>

theorem refcount_overflows:
  assumes "p \<noteq> 0" and "o_mgc (v_objs vm p) = VM_MAGIC OR 1"
    and "n \<le> 15" and "15 \<le> unat (v_sp vm)" and "unat (v_sp vm) < VM_MAX_STACK_SIZE"
    and "length (v_stacks vm) = VM_MAX_STACK_SIZE"
  shows "\<exists>vm'. push_times n p vm = Some (Inr ((), vm')) \<and>
    (gc_dead (o_mgc (v_objs vm' p)) \<longleftrightarrow> n = 15) \<and>
    (\<forall>i < n. v_stacks vm' ! (unat (v_sp vm) - i) = p)"
proof -
  obtain vm' where v: "push_times n p vm = Some (Inr ((), vm'))"
    "o_mgc (v_objs vm' p) = o_mgc (v_objs vm p) + of_nat n"
    "\<forall>i < n. v_stacks vm' ! (unat (v_sp vm) - i) = p"
    using push_times_eq [OF assms(1,5) _ assms(6), of n] assms(3,4) by auto
  have "n \<in> {0, 1, 2, 3, 4, 5, 6, 7, 8, 9, 10, 11, 12, 13, 14, 15}" using assms(3) by simp arith
  then have "gc_dead (o_mgc (v_objs vm' p)) \<longleftrightarrow> n = 15"
    unfolding v(2) assms(2) by (auto simp: gc_dead_def magic_defs)
  with v show ?thesis by blast
qed

theorem refcount_overflows_witness:
  "\<exists>vm'. push_times 15 204 two_vm = Some (Inr ((), vm')) \<and> gc_dead (o_mgc (v_objs vm' 204)) \<and>
     v_stacks vm' ! 1990 = 204"
proof -
  have "\<exists>vm'. push_times 15 204 two_vm = Some (Inr ((), vm')) \<and>
    (gc_dead (o_mgc (v_objs vm' 204)) \<longleftrightarrow> (15::nat) = 15) \<and>
    (\<forall>i < 15. v_stacks vm' ! (unat (v_sp two_vm) - i) = 204)"
    by (rule refcount_overflows) (simp_all add: fresh_object_def two_vm_def VM_MAX_STACK_SIZE_def)
  then obtain vm' where v: "push_times 15 204 two_vm = Some (Inr ((), vm'))" "gc_dead (o_mgc (v_objs vm' 204))"
    "\<forall>i < 15. v_stacks vm' ! (unat (v_sp two_vm) - i) = 204" by auto
  have "v_stacks vm' ! 1990 = 204" using v(3) [rule_format, of 8] by (simp add: two_vm_def)
  with v show ?thesis by blast
qed

end
