(* ===== verification/Bytecode.thy ===== *)
theory Bytecode
  imports Prelude
begin

text \<open>
  The instruction set of \<^verbatim>\<open>StackVM/vm_stack.h\<close> and the byte buffers the compiler writes it to.
  A buffer \<^verbatim>\<open>uchar b[MAX_BUFFER_SIZE]\<close> is a function from indices to bytes; the operations that
  use it check the index against \<^verbatim>\<open>MAX_BUFFER_SIZE\<close> and report an access outside as an error.
  Operands of two bytes are written through a \<^verbatim>\<open>uint16\<close> pointer after \<^verbatim>\<open>end_swap16\<close>, on a
  little-endian machine.
\<close>

section \<open>Opcodes\<close>

definition INS_NOP :: u8 where "INS_NOP = 0"
definition INS_SCTX :: u8 where "INS_SCTX = 8"
definition INS_RCTX :: u8 where "INS_RCTX = 9"
definition INS_LOAD :: u8 where "INS_LOAD = 10"
definition INS_STORE :: u8 where "INS_STORE = 11"
definition INS_CAST :: u8 where "INS_CAST = 12"
definition INS_OBJCONST :: u8 where "INS_OBJCONST = 16"
definition INS_OBJNEW :: u8 where "INS_OBJNEW = 17"
definition INS_OBJDUP :: u8 where "INS_OBJDUP = 18"
definition INS_OBJDEL :: u8 where "INS_OBJDEL = 19"
definition INS_OBJSZ :: u8 where "INS_OBJSZ = 22"
definition INS_OBJSUB :: u8 where "INS_OBJSUB = 23"
definition INS_OBJPUSH :: u8 where "INS_OBJPUSH = 25"
definition INS_OBJPOP :: u8 where "INS_OBJPOP = 26"
definition INS_OBJSTORE :: u8 where "INS_OBJSTORE = 29"
definition INS_ADD :: u8 where "INS_ADD = 32"
definition INS_SUB :: u8 where "INS_SUB = 33"
definition INS_MUL :: u8 where "INS_MUL = 34"
definition INS_DIV :: u8 where "INS_DIV = 35"
definition INS_MOD :: u8 where "INS_MOD = 36"
definition INS_AND :: u8 where "INS_AND = 40"
definition INS_OR :: u8 where "INS_OR = 41"
definition INS_XOR :: u8 where "INS_XOR = 42"
definition INS_NOT :: u8 where "INS_NOT = 43"
definition INS_SHL :: u8 where "INS_SHL = 48"
definition INS_SHR :: u8 where "INS_SHR = 49"
definition INS_END :: u8 where "INS_END = 60"
definition INS_FUNC :: u8 where "INS_FUNC = 61"
definition INS_LBL :: u8 where "INS_LBL = 62"
definition INS_CREQ :: u8 where "INS_CREQ = 64"
definition INS_CRNE :: u8 where "INS_CRNE = 65"
definition INS_CRGT :: u8 where "INS_CRGT = 66"
definition INS_CRLT :: u8 where "INS_CRLT = 67"
definition INS_CRGTEQ :: u8 where "INS_CRGTEQ = 68"
definition INS_CRLTEQ :: u8 where "INS_CRLTEQ = 69"
definition INS_JMP :: u8 where "INS_JMP = 70"
definition INS_JFALSE :: u8 where "INS_JFALSE = 71"
definition INS_JTRUE :: u8 where "INS_JTRUE = 72"
definition INS_SWITCH :: u8 where "INS_SWITCH = 74"
definition INS_RET :: u8 where "INS_RET = 126"
definition INS_CALL :: u8 where "INS_CALL = 127"
definition INS_SYSCALL :: u8 where "INS_SYSCALL = 128"
definition INS_EXTCALL :: u8 where "INS_EXTCALL = 160"
definition INS_F2O :: u8 where "INS_F2O = 96"

lemmas ins_defs =
  INS_NOP_def INS_SCTX_def INS_RCTX_def INS_LOAD_def INS_STORE_def INS_CAST_def
  INS_OBJCONST_def INS_OBJNEW_def INS_OBJDUP_def INS_OBJDEL_def INS_OBJSZ_def INS_OBJSUB_def
  INS_OBJPUSH_def INS_OBJPOP_def INS_OBJSTORE_def INS_ADD_def INS_SUB_def INS_MUL_def
  INS_DIV_def INS_MOD_def INS_AND_def INS_OR_def INS_XOR_def INS_NOT_def
  INS_SHL_def INS_SHR_def INS_END_def INS_FUNC_def INS_LBL_def INS_CREQ_def
  INS_CRNE_def INS_CRGT_def INS_CRLT_def INS_CRGTEQ_def INS_CRLTEQ_def INS_JMP_def
  INS_JFALSE_def INS_JTRUE_def INS_SWITCH_def INS_RET_def INS_CALL_def INS_SYSCALL_def
  INS_EXTCALL_def INS_F2O_def

text \<open>The groups of consecutive opcodes whose low digit is an argument count.\<close>

definition is_SYSCALL :: "u8 \<Rightarrow> bool" where "is_SYSCALL op \<longleftrightarrow> INS_SYSCALL \<le> op \<and> op \<le> INS_SYSCALL + 15"
definition is_EXTCALL :: "u8 \<Rightarrow> bool" where "is_EXTCALL op \<longleftrightarrow> INS_EXTCALL \<le> op \<and> op \<le> INS_EXTCALL + 15"
definition is_F2O :: "u8 \<Rightarrow> bool" where "is_F2O op \<longleftrightarrow> INS_F2O \<le> op \<and> op \<le> INS_F2O + 15"

text \<open>The operators without operand, as the code generator and the linker group them.\<close>

definition plain_ops :: "u8 list" where
  "plain_ops = [INS_OBJDEL, INS_OBJSUB, INS_OBJSZ, INS_OBJDUP, INS_ADD, INS_SUB, INS_MUL, INS_DIV, INS_MOD,
     INS_AND, INS_OR, INS_XOR, INS_SHL, INS_SHR, INS_NOT, INS_RET, INS_NOP,
     INS_CREQ, INS_CRNE, INS_CRGT, INS_CRLT, INS_CRGTEQ, INS_CRLTEQ]"

datatype ins_class = C_Lbl | C_Var | C_Store | C_F2O | C_Jump | C_Switch | C_New | C_Ext | C_Const
  | C_Plain | C_Sys | C_Ctx | C_Other

definition ins_class :: "u8 \<Rightarrow> ins_class" where
  "ins_class op =
     (if op = INS_LBL then C_Lbl
      else if op = INS_OBJPUSH \<or> op = INS_OBJPOP then C_Var
      else if op = INS_OBJSTORE then C_Store
      else if is_F2O op then C_F2O
      else if op = INS_CALL \<or> op = INS_JMP \<or> op = INS_JFALSE \<or> op = INS_JTRUE then C_Jump
      else if op = INS_SWITCH then C_Switch
      else if op = INS_OBJNEW then C_New
      else if is_EXTCALL op then C_Ext
      else if op = INS_OBJCONST then C_Const
      else if op \<in> set plain_ops then C_Plain
      else if is_SYSCALL op then C_Sys
      else if op = INS_SCTX \<or> op = INS_RCTX then C_Ctx
      else C_Other)"

lemmas class_defs = ins_class_def plain_ops_def is_F2O_def is_EXTCALL_def is_SYSCALL_def ins_defs

section \<open>Buffers\<close>

type_synonym buf = "nat \<Rightarrow> u8"

definition MAX_BUFFER_SIZE :: nat where "MAX_BUFFER_SIZE = 65536"

definition end_swap16 :: "u16 \<Rightarrow> u16" where
  "end_swap16 x = drop_bit 8 (x AND 0xff00) OR push_bit 8 (x AND 0x00ff)"

definition load16 :: "buf \<Rightarrow> nat \<Rightarrow> u16" where
  "load16 b a = ucast (b a) OR push_bit 8 (ucast (b (Suc a)))"

definition store16 :: "nat \<Rightarrow> u16 \<Rightarrow> buf \<Rightarrow> buf" where
  "store16 a v b = b(a := ucast v, Suc a := ucast (drop_bit 8 v))"

text \<open>An operand of two bytes as the generated code holds it.\<close>

definition get_operand :: "buf \<Rightarrow> nat \<Rightarrow> u16" where
  "get_operand b a = end_swap16 (load16 b a)"

definition put_operand :: "nat \<Rightarrow> u16 \<Rightarrow> buf \<Rightarrow> buf" where
  "put_operand a v b = store16 a (end_swap16 v) b"

lemma end_swap16_shifts: "end_swap16 x = drop_bit 8 x OR push_bit 8 x"
proof -
  have m: "(0xff :: u16) = mask 8" "(0xff00 :: u16) = push_bit 8 (mask 8)" by (simp_all add: mask_eq_exp_minus_1)
  show ?thesis unfolding end_swap16_def m by (rule bit_word_eqI) (auto simp: bit_simps dest: bit_imp_le_length)
qed

lemma end_swap16_invol [simp]: "end_swap16 (end_swap16 x) = x"
proof (rule bit_word_eqI)
  fix n assume "n < LENGTH(16)"
  then show "bit (end_swap16 (end_swap16 x)) n = bit x n"
    by (cases "n < 8") (auto simp: end_swap16_shifts bit_simps dest: bit_imp_le_length)
qed

lemma load_store16 [simp]: "load16 (store16 a v b) a = v"
  by (rule bit_word_eqI) (auto simp: load16_def store16_def bit_simps)

lemma load16_cong: "b a = c a' \<Longrightarrow> b (Suc a) = c (Suc a') \<Longrightarrow> load16 b a = load16 c a'"
  by (simp add: load16_def)

lemma get_operand_cong: "b a = c a' \<Longrightarrow> b (Suc a) = c (Suc a') \<Longrightarrow> get_operand b a = get_operand c a'"
  by (simp add: get_operand_def load16_def)

lemma get_put_operand [simp]: "get_operand (put_operand a v b) a = v"
  by (simp add: get_operand_def put_operand_def)

lemma put_operand_other [simp]: "i \<noteq> a \<Longrightarrow> i \<noteq> Suc a \<Longrightarrow> put_operand a v b i = b i"
  by (simp add: put_operand_def store16_def)

lemma get_put_operand_other:
  "Suc i < a \<or> Suc a < i \<Longrightarrow> get_operand (put_operand a v b) i = get_operand b i"
  by (rule get_operand_cong) auto

text \<open>The bytes of an operand, high byte first.\<close>

lemma put_operand_bytes:
  "put_operand a v b a = ucast (drop_bit 8 v)" "put_operand a v b (Suc a) = ucast v"
proof -
  have "(ucast (end_swap16 v) :: u8) = ucast (drop_bit 8 v)"
    by (rule bit_word_eqI) (auto simp: end_swap16_shifts bit_simps)
  then show "put_operand a v b a = ucast (drop_bit 8 v)" by (simp add: put_operand_def store16_def)
  have "(ucast (drop_bit 8 (end_swap16 v)) :: u8) = ucast v"
    by (rule bit_word_eqI) (auto simp: end_swap16_shifts bit_simps)
  then show "put_operand a v b (Suc a) = ucast v" by (simp add: put_operand_def store16_def)
qed

section \<open>Copying\<close>

text \<open>\<^verbatim>\<open>memcpy\<close> of a list of bytes to a place of a buffer, and reading a range of it.\<close>

definition write_bytes :: "nat \<Rightarrow> u8 list \<Rightarrow> buf \<Rightarrow> buf" where
  "write_bytes a xs b = (\<lambda>i. if a \<le> i \<and> i < a + length xs then xs ! (i - a) else b i)"

definition read_bytes :: "buf \<Rightarrow> nat \<Rightarrow> nat \<Rightarrow> u8 list" where
  "read_bytes b a n = map (\<lambda>i. b (a + i)) [0..<n]"

lemma length_read_bytes [simp]: "length (read_bytes b a n) = n"
  by (simp add: read_bytes_def)

lemma write_bytes_outside [simp]: "i < a \<or> a + length xs \<le> i \<Longrightarrow> write_bytes a xs b i = b i"
  by (auto simp: write_bytes_def)

lemma write_bytes_inside [simp]: "j < length xs \<Longrightarrow> write_bytes a xs b (a + j) = xs ! j"
  by (simp add: write_bytes_def)

lemma read_write_bytes [simp]: "read_bytes (write_bytes a xs b) a (length xs) = xs"
  by (rule nth_equalityI) (simp_all add: read_bytes_def)

lemma read_bytes_cong: "(\<And>i. i < n \<Longrightarrow> b (a + i) = c (a' + i)) \<Longrightarrow> read_bytes b a n = read_bytes c a' n"
  by (simp add: read_bytes_def)

end
