(* ===== verification/C_Text.thy ===== *)
theory C_Text
  imports Prelude
begin

text \<open>
  Numbers as text, as the functions of the C library the program uses read and write them: \<^verbatim>\<open>atoi\<close> and
  the format \<^verbatim>\<open>%d\<close> of \<^verbatim>\<open>sprintf\<close>. Both the compiler and the virtual machine keep numbers in this form.
\<close>

section \<open>Reading and writing\<close>

text \<open>
  \<^verbatim>\<open>atoi\<close> of the C library: white space, a sign, digits; the value saturates as a
  \<^verbatim>\<open>long\<close> and is then converted to \<^verbatim>\<open>int\<close>.
\<close>

definition is_digit :: "u8 \<Rightarrow> bool" where "is_digit c \<longleftrightarrow> 0x30 \<le> c \<and> c \<le> 0x39"

definition is_space :: "u8 \<Rightarrow> bool" where "is_space c \<longleftrightarrow> c = 32 \<or> (9 \<le> c \<and> c \<le> 13)"

definition digits_value :: "u8 list \<Rightarrow> int" where
  "digits_value ds = foldl (\<lambda>v c. 10 * v + uint (c - 0x30)) 0 ds"

definition strtol10 :: "u8 list \<Rightarrow> int" where
  "strtol10 s =
     (let s1 = dropWhile is_space s;
          neg = (s1 \<noteq> [] \<and> hd s1 = 45);
          s2 = (if s1 \<noteq> [] \<and> (hd s1 = 45 \<or> hd s1 = 43) then tl s1 else s1);
          v = digits_value (takeWhile is_digit s2)
      in if neg then max (- (2 ^ 63)) (- v) else min (2 ^ 63 - 1) v)"

definition to_int32 :: "int \<Rightarrow> int" where "to_int32 v = (v + 2 ^ 31) mod 2 ^ 32 - 2 ^ 31"

definition atoi :: "u8 list \<Rightarrow> int" where
  "atoi s = to_int32 (strtol10 (takeWhile (\<lambda>c. c \<noteq> 0) s))"

text \<open>The text of a number as \<^verbatim>\<open>sprintf\<close> writes it for \<^verbatim>\<open>%d\<close>.\<close>

fun show_nat :: "nat \<Rightarrow> u8 list" where
  "show_nat n = (if n < 10 then [of_nat (48 + n)] else show_nat (n div 10) @ [of_nat (48 + n mod 10)])"

declare show_nat.simps [simp del]

definition show_int :: "int \<Rightarrow> u8 list" where
  "show_int v = (if v < 0 then 45 # show_nat (nat (- v)) else show_nat (nat v))"

definition int32 :: "int \<Rightarrow> bool" where "int32 v \<longleftrightarrow> - (2 ^ 31) \<le> v \<and> v < 2 ^ 31"

section \<open>Round trip\<close>

lemma digits_value_snoc: "digits_value (ds @ [c]) = 10 * digits_value ds + uint (c - 0x30)"
  by (simp add: digits_value_def)

lemma digit_byte: "d < 10 \<Longrightarrow> is_digit (of_nat (48 + d)) \<and> uint ((of_nat (48 + d) :: u8) - 0x30) = int d"
proof -
  assume "d < 10"
  then have "d \<in> {0, 1, 2, 3, 4, 5, 6, 7, 8, 9}" by (simp, arith)
  then show ?thesis by (auto simp: is_digit_def)
qed

lemma show_nat_digits: "list_all is_digit (show_nat n) \<and> show_nat n \<noteq> [] \<and> digits_value (show_nat n) = int n"
proof (induction n rule: show_nat.induct)
  case (1 n)
  show ?case
  proof (cases "n < 10")
    case True
    then show ?thesis using digit_byte [OF True] by (simp add: show_nat.simps [of n] digits_value_def)
  next
    case False
    have d: "n mod 10 < 10" by simp
    from 1 [OF False] digit_byte [OF d] show ?thesis
      using False by (simp add: show_nat.simps [of n] digits_value_snoc) presburger
  qed
qed

lemma show_nat_length: "n < 10 ^ Suc k \<Longrightarrow> length (show_nat n) \<le> Suc k"
proof (induction k arbitrary: n)
  case 0
  then show ?case by (simp add: show_nat.simps [of n])
next
  case (Suc k)
  show ?case
  proof (cases "n < 10")
    case True
    then show ?thesis by (simp add: show_nat.simps [of n])
  next
    case False
    have "n div 10 < 10 ^ Suc k" using Suc.prems by (simp add: less_mult_imp_div_less)
    from Suc.IH [OF this] False show ?thesis by (simp add: show_nat.simps [of n])
  qed
qed

lemma show_int_length: "int32 v \<Longrightarrow> show_int v \<noteq> [] \<and> length (show_int v) < 12"
proof -
  assume "int32 v"
  then have "nat v < 10 ^ Suc 9" "nat (- v) < 10 ^ Suc 9" by (auto simp: int32_def)
  then have "length (show_nat (nat v)) \<le> 10" "length (show_nat (nat (- v))) \<le> 10"
    using show_nat_length [of _ 9] by auto
  then show ?thesis using show_nat_digits by (auto simp: show_int_def)
qed

lemma digit_facts: "is_digit c \<Longrightarrow> c \<noteq> 0 \<and> c \<noteq> 45 \<and> c \<noteq> 43 \<and> c \<noteq> 46 \<and> \<not> is_space c \<and> \<not> (c > 0x39 \<or> c < 0x30)"
  by (auto simp: is_digit_def is_space_def word_less_nat_alt word_le_nat_alt)

lemma to_int32_id: "int32 v \<Longrightarrow> to_int32 v = v"
  by (auto simp: int32_def to_int32_def)

lemma strtol10_digits:
  assumes "list_all is_digit ds" "ds \<noteq> []"
  shows "strtol10 ds = min (2 ^ 63 - 1) (digits_value ds)" "strtol10 (45 # ds) = max (- (2 ^ 63)) (- digits_value ds)"
proof -
  have tw: "takeWhile is_digit ds = ds" using assms(1) by (simp add: takeWhile_eq_all_conv list_all_iff)
  obtain d ds' where ds: "ds = d # ds'" "is_digit d" using assms by (cases ds) auto
  have hd: "d \<noteq> 45" "d \<noteq> 43" "\<not> is_space d" using digit_facts [OF ds(2)] by auto
  have dw: "dropWhile is_space ds = ds" and hdn: "hd ds \<noteq> 45" "hd ds \<noteq> 43" using hd ds(1) by simp_all
  show "strtol10 ds = min (2 ^ 63 - 1) (digits_value ds)"
    unfolding strtol10_def dw Let_def using hdn by (simp add: tw)
  show "strtol10 (45 # ds) = max (- (2 ^ 63)) (- digits_value ds)"
    by (simp add: strtol10_def Let_def is_space_def tw)
qed

lemma atoi_show_int: "int32 v \<Longrightarrow> atoi (show_int v) = v"
proof -
  assume v: "int32 v"
  have nz: "takeWhile (\<lambda>c. c \<noteq> 0) (show_int v) = show_int v"
    using show_nat_digits [of "nat v"] show_nat_digits [of "nat (- v)"]
    by (auto simp: show_int_def takeWhile_eq_all_conv list_all_iff dest: digit_facts)
  have "strtol10 (show_int v) = v"
    using show_nat_digits [of "nat v"] show_nat_digits [of "nat (- v)"] v
    by (auto simp: show_int_def strtol10_digits int32_def)
  with v show ?thesis by (simp add: atoi_def to_int32_id nz)
qed

end
