(* ===== verification/VM_Ops.thy ===== *)
theory VM_Ops
  imports VM_Object Bytecode C_Text "HOL-Library.Signed_Division" "HOL-Library.Log_Nat"
begin

text \<open>
  Operators on objects, from \<^verbatim>\<open>StackVM/vm_stack.c\<close>: numbers as text, arithmetic and
  concatenation (\<^verbatim>\<open>vm_operation_object\<close>), comparison (\<^verbatim>\<open>vm_cmp_object\<close>,
  \<^verbatim>\<open>vm_compare_object\<close>), sizes and substrings. The C types are those of LP64 Linux:
  \<^verbatim>\<open>int32\<close> is \<^verbatim>\<open>int\<close>, and signed overflow, division by zero and shifts out of range
  are undefined. \<open>__x64__\<close> is not defined on that target, so the \<^verbatim>\<open>VM_INT64\<close> cases of the operand
  switches are not compiled.
\<close>

section \<open>Code the operators call\<close>

text \<open>
  What the virtual machine calls and this development does not model is a field of the
  environment: the code buffer, the address of the machine itself, the constant \<^verbatim>\<open>VM_NULL_OBJECT\<close>, the release functions, the table
  of system calls, class and method lookup, native calls of interfaces, the casts and array
  operators of \<^verbatim>\<open>vm_framework.c\<close>, floating point operands and the operators of extensions.
\<close>

record vm_env =
  e_code :: buf
  e_ctx :: addr
  e_null :: addr
  e_release :: "addr \<Rightarrow> (addr \<Rightarrow> unit vm) option"
  e_apis :: "(u16 \<times> unit vm) list"
  e_class :: "u8 list \<Rightarrow> addr"
  e_class_tag :: "addr \<Rightarrow> u8"
  e_method :: "addr \<Rightarrow> u8 list \<Rightarrow> (addr \<times> addr \<times> nat) option"
  e_iface_exec :: "nat \<Rightarrow> addr \<Rightarrow> addr \<Rightarrow> addr vm"
  e_iface_exec_sta :: "nat \<Rightarrow> addr \<Rightarrow> string \<Rightarrow> addr vm"
  e_cast :: "addr \<Rightarrow> u16 \<Rightarrow> addr vm"
  e_array_op :: "u8 \<Rightarrow> addr \<Rightarrow> addr \<Rightarrow> addr vm"
  e_float_op :: "u8 \<Rightarrow> addr \<Rightarrow> addr \<Rightarrow> addr vm"
  e_ext_op :: "u8 \<Rightarrow> addr \<Rightarrow> addr \<Rightarrow> addr vm"
  e_operand_cmp :: "addr \<Rightarrow> addr \<Rightarrow> int vm"

section \<open>Numbers as text\<close>

text \<open>
  \<^verbatim>\<open>vm_is_numeric_s\<close> scans from the end. A minus sign is accepted in front, NUL bytes are skipped,
  and the first dot from the right ends the scan with success whatever stands before it.
\<close>

primrec numeric_loop :: "u8 list \<Rightarrow> nat \<Rightarrow> bool" where
  "numeric_loop bs 0 = True"
| "numeric_loop bs (Suc k) =
     (let n = bs ! k in
      if n = 45 \<and> k = 0 then True
      else if n = 46 then True
      else if n = 0 then numeric_loop bs k
      else if n > 0x39 \<or> n < 0x30 then False
      else numeric_loop bs k)"

definition vm_is_numeric_s :: "u8 list \<Rightarrow> bool" where
  "vm_is_numeric_s bs \<longleftrightarrow> length bs \<noteq> 0 \<and> length bs \<le> 64 \<and> numeric_loop bs (length bs)"

definition vm_is_numeric :: "vm_object \<Rightarrow> bool" where
  "vm_is_numeric ob \<longleftrightarrow> o_type ob \<noteq> VM_OBJ_TYPE_ANY \<or> vm_is_numeric_s (o_bytes ob)"

text \<open>\<^verbatim>\<open>vm_is_precision\<close>; the loop returns the flag \<^verbatim>\<open>dot\<close>, or nothing at a character it rejects.\<close>

primrec precision_loop :: "u8 list \<Rightarrow> nat \<Rightarrow> bool" where
  "precision_loop bs 0 = False"
| "precision_loop bs (Suc k) =
     (let n = bs ! k in
      if n = 45 \<and> k = 0 then False
      else if n = 46 then True
      else if n > 0x39 \<or> n < 0x30 then False
      else precision_loop bs k)"

definition vm_is_precision :: "u8 list \<Rightarrow> bool" where
  "vm_is_precision bs \<longleftrightarrow> length bs \<noteq> 0 \<and> length bs \<le> 64 \<and> precision_loop bs (length bs)"

section \<open>Arithmetic\<close>

text \<open>
  The switch on the opcode for two \<^verbatim>\<open>int\<close> values. Division by zero raises the exception and
  leaves the first value.
\<close>

definition check_int32 :: "int \<Rightarrow> int vm" where
  "check_int32 v = (if int32 v then ret_v v else err_v Undefined_Value)"

definition int_op :: "u8 \<Rightarrow> int \<Rightarrow> int \<Rightarrow> int vm" where
  "int_op opc v1 v2 =
     (if opc = INS_ADD then check_int32 (v1 + v2)
      else if opc = INS_SUB then check_int32 (v1 - v2)
      else if opc = INS_MUL then check_int32 (v1 * v2)
      else if opc = INS_DIV then
        (if v2 = 0 then bind_v (vm_invoke_exception VX_DIV_BY_ZERO) (\<lambda>_. ret_v v1)
         else check_int32 (v1 sdiv v2))
      else if opc = INS_MOD then
        (if v2 = 0 \<or> (v1 = - (2 ^ 31) \<and> v2 = -1) then err_v Undefined_Value else ret_v (v1 smod v2))
      else if opc = INS_AND then ret_v (v1 AND v2)
      else if opc = INS_OR then ret_v (v1 OR v2)
      else if opc = INS_XOR then ret_v (v1 XOR v2)
      else if opc = INS_SHL then
        (if v2 < 0 \<or> 32 \<le> v2 \<or> v1 < 0 then err_v Undefined_Value else check_int32 (v1 * 2 ^ nat v2))
      else if opc = INS_SHR then
        (if v2 < 0 \<or> 32 \<le> v2 then err_v Undefined_Value else ret_v (v1 div 2 ^ nat v2))
      else if opc = INS_NOT then ret_v (if v1 = 0 then 1 else 0)
      else ret_v v1)"

text \<open>
  The branch for two numeric texts. The heap buffer has twelve bytes; a text of twelve bytes or more
  overruns it.
\<close>

definition numeric_op :: "u8 \<Rightarrow> vm_object \<Rightarrow> vm_object \<Rightarrow> addr vm" where
  "numeric_op opc ob2 ob1 =
     bind_v (m_alloc_v 12) (\<lambda>buffer.
       if buffer = 0 then err_v Null_Deref
       else if 12 \<le> o_len ob1 \<or> 12 \<le> o_len ob2 then err_v Out_Of_Bounds
       else
         bind_v (int_op opc (atoi (o_bytes ob1)) (atoi (o_bytes ob2))) (\<lambda>v.
         bind_v (vm_create_object (length (show_int v)) (Some (show_int v))) (\<lambda>p.
         bind_v (m_free_v buffer) (\<lambda>_. ret_v p))))"

text \<open>
  The text of an operand for concatenation: the counted length and the bytes that are copied. An
  operand with a type is cast to text first, into a buffer of 64 bytes; when that text is empty the raw
  bytes are copied although they are not counted.
\<close>

definition concat_part :: "vm_env \<Rightarrow> addr \<Rightarrow> vm_object \<Rightarrow> (nat \<times> u8 list) vm" where
  "concat_part env p ob =
     (if vm_object_get_type ob = VM_OPR_MAGIC then
        bind_v (e_cast env p 0) (\<lambda>q.
        bind_v (load_obj q) (\<lambda>t.
          if 64 < o_len t then err_v Out_Of_Bounds
          else bind_v (vm_release_object q) (\<lambda>_.
            ret_v (o_len t, if o_len t = 0 then o_bytes ob else o_bytes t))))
      else ret_v (o_len ob, o_bytes ob))"

text \<open>Concatenation; \<^verbatim>\<open>len\<close> and \<^verbatim>\<open>vb2offset\<close> are 16 bits wide.\<close>

definition concat_op :: "vm_env \<Rightarrow> addr \<Rightarrow> addr \<Rightarrow> vm_object \<Rightarrow> vm_object \<Rightarrow> addr vm" where
  "concat_op env op2 op1 ob2 ob1 =
     bind_v (concat_part env op1 ob1) (\<lambda>(n1, t1).
     bind_v (concat_part env op2 ob2) (\<lambda>(n2, t2).
       let n = (n1 + n2) mod 65536; off = n1 mod 65536 in
       bind_v (vm_create_object n None) (\<lambda>p.
         if n < length t1 \<or> n < off + length t2 then err_v Out_Of_Bounds
         else bind_v (upd_obj p (\<lambda>ob. ob\<lparr>o_bytes :=
                let b1 = t1 @ drop (length t1) (o_bytes ob)
                in take off b1 @ t2 @ drop (off + length t2) b1\<rparr>)) (\<lambda>_. ret_v p))))"

definition auto_op :: "vm_env \<Rightarrow> u8 \<Rightarrow> addr \<Rightarrow> addr \<Rightarrow> addr vm" where
  "auto_op env opc op2 op1 =
     bind_v (load_obj op1) (\<lambda>ob1.
     bind_v (load_obj op2) (\<lambda>ob2.
       if vm_is_numeric_s (o_bytes ob1) \<and> vm_is_numeric_s (o_bytes ob2) then numeric_op opc ob2 ob1
       else if opc = INS_ADD then concat_op env op2 op1 ob2 ob1
       else vm_create_object 3 (Some (ascii ''NaN''))))"

section \<open>Operands with a type\<close>

text \<open>
  The value of a typed operand, read from a buffer of 64 bytes that held \<open>init\<close> before the operand
  was copied into it. A type without a case leaves the variable unset.
\<close>

datatype operand_value = W int | Floating

definition to_signed :: "nat \<Rightarrow> nat \<Rightarrow> int" where
  "to_signed w x = (if 2 ^ (w - 1) \<le> x then int x - 2 ^ w else int x)"

definition operand_value :: "u8 list \<Rightarrow> vm_object \<Rightarrow> operand_value vm" where
  "operand_value init ob =
     (if 64 < o_len ob then err_v Out_Of_Bounds
      else
        let buf = o_bytes ob @ drop (o_len ob) init; t = o_type ob AND 0x3F in
        if t = 1 then ret_v (W (to_signed 8 (le_value (take 1 buf))))
        else if t = 2 then ret_v (W (to_signed 16 (le_value (take 2 buf))))
        else if t = 4 then ret_v (W (to_signed 32 (le_value (take 4 buf))))
        else if t = 0x14 \<or> t = 0x18 then ret_v Floating
        else err_v Undefined_Value)"

text \<open>The nearest \<^verbatim>\<open>double\<close> of a 64 bit integer, ties to even: the assignments go through one.\<close>

definition to_double :: "int \<Rightarrow> int" where
  "to_double v =
     (let m = nat \<bar>v\<bar>; p = 2 ^ (floorlog 2 m - 53); q = m div p; r = m mod p;
          q' = (if p < 2 * r \<or> (2 * r = p \<and> odd q) then Suc q else q)
      in sgn v * int (q' * p))"

definition int64 :: "int \<Rightarrow> bool" where "int64 v \<longleftrightarrow> - (2 ^ 63) \<le> v \<and> v < 2 ^ 63"

definition check_int64 :: "int \<Rightarrow> int vm" where
  "check_int64 v = (if int64 v then ret_v v else err_v Undefined_Value)"

text \<open>The cast of an operand without a type: the bytes of the result in a buffer of 64.\<close>

definition cast_buffer :: "vm_env \<Rightarrow> addr \<Rightarrow> u8 list vm" where
  "cast_buffer env p =
     bind_v (e_cast env p 8) (\<lambda>q.
     bind_v (load_obj q) (\<lambda>ob.
       if 64 < o_len ob then err_v Out_Of_Bounds
       else bind_v (vm_release_object q) (\<lambda>_. ret_v (o_bytes ob @ replicate (64 - o_len ob) 0))))"

text \<open>
  The two operand values. The cast of an untyped first operand is copied to the second buffer, and the
  value is read from the first, which is still zero.
\<close>

definition first_value :: "vm_env \<Rightarrow> addr \<Rightarrow> vm_object \<Rightarrow> (operand_value \<times> u8 list) vm" where
  "first_value env p ob =
     (if vm_object_get_type ob = VM_OPR_MAGIC
      then bind_v (operand_value (replicate 64 0) ob) (\<lambda>v. ret_v (v, replicate 64 0))
      else bind_v (cast_buffer env p) (\<lambda>valbuf2. ret_v (W 0, valbuf2)))"

definition second_value :: "vm_env \<Rightarrow> addr \<Rightarrow> vm_object \<Rightarrow> u8 list \<Rightarrow> operand_value vm" where
  "second_value env p ob valbuf2 =
     (if vm_object_get_type ob = VM_OPR_MAGIC then operand_value valbuf2 ob
      else bind_v (cast_buffer env p) (\<lambda>b.
             bind_v (check_int64 (to_double (to_signed 64 (le_value (take 8 b))))) (\<lambda>v. ret_v (W v))))"

text \<open>The switch for two \<^verbatim>\<open>int64\<close> values. There is no check of the divisor here.\<close>

definition int64_op :: "u8 \<Rightarrow> int \<Rightarrow> int \<Rightarrow> int vm" where
  "int64_op opc w1 w2 =
     (if opc = INS_ADD then check_int64 (w1 + w2)
      else if opc = INS_SUB then check_int64 (w1 - w2)
      else if opc = INS_MUL then check_int64 (w1 * w2)
      else if opc = INS_DIV then (if w2 = 0 then err_v Undefined_Value else check_int64 (w1 sdiv w2))
      else if opc = INS_MOD then
        (if w2 = 0 \<or> (w1 = - (2 ^ 63) \<and> w2 = -1) then err_v Undefined_Value else ret_v (w1 smod w2))
      else if opc = INS_AND then ret_v (w1 AND w2)
      else if opc = INS_OR then ret_v (w1 OR w2)
      else if opc = INS_XOR then ret_v (w1 XOR w2)
      else if opc = INS_SHL then
        (if w2 < 0 \<or> 64 \<le> w2 \<or> w1 < 0 then err_v Undefined_Value else check_int64 (w1 * 2 ^ nat w2))
      else if opc = INS_SHR then
        (if w2 < 0 \<or> 64 \<le> w2 then err_v Undefined_Value else ret_v (w1 div 2 ^ nat w2))
      else if opc = INS_NOT then ret_v (if w1 = 0 then 1 else 0)
      else err_v Undefined_Value)"

definition int64_bytes :: "int \<Rightarrow> u8 list" where "int64_bytes v = le_bytes 8 (nat (v mod 2 ^ 64))"

definition operand_op :: "vm_env \<Rightarrow> u8 \<Rightarrow> addr \<Rightarrow> addr \<Rightarrow> addr vm" where
  "operand_op env opc op2 op1 =
     bind_v (load_obj op1) (\<lambda>ob1.
     bind_v (first_value env op1 ob1) (\<lambda>(v1, valbuf2).
       case v1 of
         Floating \<Rightarrow> e_float_op env opc op2 op1
       | W w1 \<Rightarrow>
           bind_v (load_obj op2) (\<lambda>ob2.
           bind_v (second_value env op2 ob2 valbuf2) (\<lambda>v2.
             case v2 of
               Floating \<Rightarrow> e_float_op env opc op2 op1
             | W w2 \<Rightarrow>
                 bind_v (int64_op opc w1 w2) (\<lambda>v. vm_create_operand 8 0 (int64_bytes v) 8)))))"

section \<open>Dispatch\<close>

text \<open>The operator name an interface is called with.\<close>

definition op_name :: "u8 \<Rightarrow> string option" where
  "op_name opc =
     (if opc = INS_ADD then Some ''+'' else if opc = INS_SUB then Some ''-''
      else if opc = INS_MUL then Some ''*'' else if opc = INS_DIV then Some ''/''
      else if opc = INS_MOD then Some ''%'' else if opc = INS_AND then Some ''&''
      else if opc = INS_OR then Some ''|'' else if opc = INS_XOR then Some ''^''
      else if opc = INS_SHL then Some ''<<'' else if opc = INS_SHR then Some ''>>''
      else None)"

text \<open>Popping the operand stack until the stack pointer is no longer above the saved one.\<close>

partial_function (option) restore_sp :: "nat \<Rightarrow> unit vm" where
  "restore_sp saved vm =
     (if unat (v_sp vm) \<le> saved then Some (Inr ((), vm))
      else case vm_pop_stack_arc vm of
          None \<Rightarrow> None
        | Some r \<Rightarrow> (case r of Inl e \<Rightarrow> Some (Inl e) | Inr (_, vm') \<Rightarrow> restore_sp saved vm'))"

definition iface_op :: "vm_env \<Rightarrow> u8 \<Rightarrow> addr \<Rightarrow> addr \<Rightarrow> addr vm" where
  "iface_op env opc op2 op1 =
     bind_v (get_v v_sp) (\<lambda>current_sp.
     bind_v (vm_push_stack_arc op2) (\<lambda>_.
     bind_v (case op_name opc of
               Some name \<Rightarrow> e_iface_exec_sta env 1 op1 name
             | None \<Rightarrow>
                 if opc = INS_NOT
                 then bind_v vm_pop_stack_arc (\<lambda>_. e_iface_exec_sta env 0 op1 ''!'')
                 else err_v Undefined_Value) (\<lambda>p.
     bind_v (restore_sp (unat current_sp)) (\<lambda>_.
       if p = 0 then vm_create_object 0 None else ret_v p))))"

definition vm_operation_object :: "vm_env \<Rightarrow> u8 \<Rightarrow> addr \<Rightarrow> addr \<Rightarrow> addr vm" where
  "vm_operation_object env opc op2 op1 =
     bind_v (load_obj op1) (\<lambda>ob1.
       let t1 = vm_object_get_type ob1 in
       if t1 = VM_OBJ_MAGIC then e_array_op env opc op1 op2
       else
         bind_v (load_obj op2) (\<lambda>ob2.
           let t2 = vm_object_get_type ob2 in
           if (opc = INS_ADD \<and> t1 = VM_OPR_MAGIC \<and> t2 = VM_OPR_MAGIC) \<or>
              (opc \<noteq> INS_ADD \<and> (t1 = VM_OPR_MAGIC \<or> t2 = VM_OPR_MAGIC)) then operand_op env opc op2 op1
           else if t1 = VM_EXT_MAGIC \<or> t2 = VM_EXT_MAGIC then e_ext_op env opc op1 op2
           else if o_type ob1 = VM_OBJ_TYPE_INSTANCE then err_v Undefined_Value
           else if o_type ob1 = VM_OBJ_TYPE_INTERFACE then iface_op env opc op2 op1
           else auto_op env opc op2 op1))"

section \<open>Comparison\<close>

datatype cmp = VM_CMP_EQ | VM_CMP_GT | VM_CMP_LT

definition cmp_of :: "int \<Rightarrow> cmp" where
  "cmp_of v = (if v = 0 then VM_CMP_EQ else if v < 0 then VM_CMP_LT else VM_CMP_GT)"

text \<open>
  \<^verbatim>\<open>memcmp\<close> over the length of the longer operand: decided by the first difference, and a read
  past the shorter operand when it is a prefix of the longer one.
\<close>

fun mem_cmp :: "u8 list \<Rightarrow> u8 list \<Rightarrow> cmp result" where
  "mem_cmp [] [] = Inr VM_CMP_EQ"
| "mem_cmp (x # xs) (y # ys) =
     (if x = y then mem_cmp xs ys else Inr (if x < y then VM_CMP_LT else VM_CMP_GT))"
| "mem_cmp _ _ = Inl Undefined_Value"

definition lift_r :: "'a result \<Rightarrow> 'a vm" where
  "lift_r r = (case r of Inl e \<Rightarrow> err_v e | Inr x \<Rightarrow> ret_v x)"

text \<open>\<^verbatim>\<open>vm_cmp_object\<close> copies numeric texts to buffers of twelve bytes on the C stack.\<close>

definition vm_cmp_object :: "vm_env \<Rightarrow> addr \<Rightarrow> addr \<Rightarrow> cmp vm" where
  "vm_cmp_object env op2 op1 =
     bind_v (load_obj op1) (\<lambda>ob1.
     bind_v (load_obj op2) (\<lambda>ob2.
       if vm_object_get_type ob1 = VM_OPR_MAGIC \<or> vm_object_get_type ob2 = VM_OPR_MAGIC
       then bind_v (e_operand_cmp env op2 op1) (\<lambda>v. ret_v (cmp_of v))
       else if vm_is_numeric_s (o_bytes ob1) \<and> vm_is_numeric_s (o_bytes ob2) then
         (if 12 \<le> o_len ob1 \<or> 12 \<le> o_len ob2 then err_v Out_Of_Bounds
          else bind_v (check_int32 (atoi (o_bytes ob1) - atoi (o_bytes ob2))) (\<lambda>v. ret_v (cmp_of v)))
       else lift_r (mem_cmp (o_bytes ob1) (o_bytes ob2))))"

text \<open>The truth object for a comparison opcode; \<^term>\<open>None\<close> for any other opcode.\<close>

definition cmp_holds :: "u8 \<Rightarrow> cmp \<Rightarrow> bool option" where
  "cmp_holds opc psw =
     (if opc = INS_CREQ then Some (psw = VM_CMP_EQ)
      else if opc = INS_CRNE then Some (psw \<noteq> VM_CMP_EQ)
      else if opc = INS_CRGT then Some (psw = VM_CMP_GT)
      else if opc = INS_CRLT then Some (psw = VM_CMP_LT)
      else if opc = INS_CRGTEQ then Some (psw \<noteq> VM_CMP_LT)
      else if opc = INS_CRLTEQ then Some (psw \<noteq> VM_CMP_GT)
      else None)"

definition cmp_result :: "u8 \<Rightarrow> cmp \<Rightarrow> addr vm" where
  "cmp_result opc psw = (case cmp_holds opc psw of None \<Rightarrow> ret_v 0 | Some b \<Rightarrow> vm_load_bool b)"

definition operand_compare :: "vm_env \<Rightarrow> u8 \<Rightarrow> addr \<Rightarrow> addr \<Rightarrow> addr vm" where
  "operand_compare env opc op2 op1 =
     bind_v (load_obj op1) (\<lambda>ob1.
     bind_v (first_value env op1 ob1) (\<lambda>(v1, valbuf2).
       case v1 of
         Floating \<Rightarrow> e_float_op env opc op2 op1
       | W w1 \<Rightarrow>
           bind_v (load_obj op2) (\<lambda>ob2.
           bind_v (second_value env op2 ob2 valbuf2) (\<lambda>v2.
             case v2 of
               Floating \<Rightarrow> e_float_op env opc op2 op1
             | W w2 \<Rightarrow> bind_v (check_int64 (w1 - w2)) (\<lambda>v. cmp_result opc (cmp_of v))))))"

definition auto_compare :: "u8 \<Rightarrow> vm_object \<Rightarrow> vm_object \<Rightarrow> addr vm" where
  "auto_compare opc ob2 ob1 =
     (if vm_is_numeric_s (o_bytes ob1) \<and> vm_is_numeric_s (o_bytes ob2) then
        bind_v (m_alloc_v 12) (\<lambda>buffer.
          if buffer = 0 then err_v Null_Deref
          else if 12 \<le> o_len ob1 \<or> 12 \<le> o_len ob2 then err_v Out_Of_Bounds
          else
            bind_v (check_int32 (atoi (o_bytes ob1) - atoi (o_bytes ob2))) (\<lambda>v.
            bind_v (cmp_result opc (cmp_of v)) (\<lambda>p.
            bind_v (m_free_v buffer) (\<lambda>_. ret_v p))))
      else bind_v (lift_r (mem_cmp (o_bytes ob1) (o_bytes ob2))) (cmp_result opc))"

definition vm_compare_object :: "vm_env \<Rightarrow> u8 \<Rightarrow> addr \<Rightarrow> addr \<Rightarrow> addr vm" where
  "vm_compare_object env opc op2 op1 =
     bind_v (load_obj op1) (\<lambda>ob1.
     bind_v (if vm_object_get_type ob1 = VM_OBJ_MAGIC then e_array_op env opc op1 op2
             else
               bind_v (load_obj op2) (\<lambda>ob2.
                 let t1 = vm_object_get_type ob1; t2 = vm_object_get_type ob2 in
                 if o_len ob1 \<noteq> 0 \<and> o_len ob2 \<noteq> 0 \<and> (t1 = VM_OPR_MAGIC \<or> t2 = VM_OPR_MAGIC)
                 then operand_compare env opc op2 op1
                 else if t1 = VM_EXT_MAGIC \<or> t2 = VM_EXT_MAGIC then e_ext_op env INS_SUB op1 op2
                 else if o_type ob1 = VM_OBJ_TYPE_INSTANCE then ret_v 0
                 else auto_compare opc ob2 ob1)) (\<lambda>p.
       if p = 0 then vm_create_object 0 None else ret_v p))"

section \<open>Size and substring\<close>

text \<open>\<^verbatim>\<open>vm_size_object\<close> keeps the length in an \<^verbatim>\<open>uchar\<close>.\<close>

definition vm_size_object :: "addr \<Rightarrow> addr vm" where
  "vm_size_object op1 =
     bind_v (load_obj op1) (\<lambda>ob.
       let text = show_nat (o_len ob mod 256) in vm_create_object (length text) (Some text))"

text \<open>
  \<^verbatim>\<open>vm_split_object\<close>: offset and length are \<^verbatim>\<open>uchar\<close>; the difference with the target's length is
  a 64 bit unsigned number, so an offset behind the end is not clamped.
\<close>

definition vm_split_object :: "addr \<Rightarrow> addr \<Rightarrow> addr \<Rightarrow> addr vm" where
  "vm_split_object op2 op1 target =
     bind_v (load_obj op1) (\<lambda>ob1.
     bind_v (m_alloc_v (o_len ob1 + 1)) (\<lambda>opd1.
     bind_v (load_obj op2) (\<lambda>ob2.
     bind_v (m_alloc_v (o_len ob2 + 1)) (\<lambda>opd2.
       if opd1 = 0 \<or> opd2 = 0 then err_v Null_Deref
       else
         bind_v (load_obj target) (\<lambda>tg.
           let offset = (if vm_is_numeric_s (o_bytes ob1) then nat (atoi (o_bytes ob1) mod 256) else 0);
               len = (if vm_is_numeric_s (o_bytes ob2) then nat (atoi (o_bytes ob2) mod 256) else o_len tg mod 256);
               rest = nat ((int (o_len tg) - int offset) mod 2 ^ 64);
               len' = (if rest < len then rest mod 256 else len)
           in
           bind_v (m_free_v opd1) (\<lambda>_.
           bind_v (m_free_v opd2) (\<lambda>_.
             vm_create_object len' (Some (drop offset (o_bytes tg))))))))))"

section \<open>Decimal text\<close>

lemma numeric_loop_digits:
  "\<forall>i < k. is_digit (bs ! i) \<or> (i = 0 \<and> bs ! i = 45) \<Longrightarrow> numeric_loop bs k"
  by (induction k) (auto simp: Let_def dest: digit_facts)

lemma show_int_numeric: "int32 v \<Longrightarrow> vm_is_numeric_s (show_int v)"
proof -
  assume v: "int32 v"
  have "is_digit (show_int v ! i) \<or> (i = 0 \<and> show_int v ! i = 45)" if "i < length (show_int v)" for i
    using that show_nat_digits [of "nat v"] show_nat_digits [of "nat (- v)"]
    by (cases i) (auto simp: show_int_def list_all_length split: if_splits)
  then have "numeric_loop (show_int v) (length (show_int v))" by (intro numeric_loop_digits) auto
  with show_int_length [OF v] show ?thesis by (simp add: vm_is_numeric_s_def)
qed

section \<open>Arithmetic on decimal text\<close>

text \<open>The value of an operator on integers, where C defines it.\<close>

definition int_fun :: "u8 \<Rightarrow> int \<Rightarrow> int \<Rightarrow> int option" where
  "int_fun opc a b =
     (if opc = INS_ADD then Some (a + b)
      else if opc = INS_SUB then Some (a - b)
      else if opc = INS_MUL then Some (a * b)
      else if opc = INS_DIV then (if b = 0 then None else Some (a sdiv b))
      else if opc = INS_MOD then (if b = 0 \<or> (a = - (2 ^ 31) \<and> b = -1) then None else Some (a smod b))
      else if opc = INS_AND then Some (a AND b)
      else if opc = INS_OR then Some (a OR b)
      else if opc = INS_XOR then Some (a XOR b)
      else if opc = INS_SHL then (if a < 0 \<or> b < 0 \<or> 32 \<le> b then None else Some (a * 2 ^ nat b))
      else if opc = INS_SHR then (if b < 0 \<or> 32 \<le> b then None else Some (a div 2 ^ nat b))
      else if opc = INS_NOT then Some (if a = 0 then 1 else 0)
      else None)"

lemma int_op_fun: "int_fun opc a b = Some c \<Longrightarrow> int32 c \<Longrightarrow> int_op opc a b = ret_v c"
  by (auto simp: int_fun_def int_op_def check_int32_def ins_defs split: if_splits)

text \<open>An object that holds text: what constants and results of operators are.\<close>

definition text_object :: "vm_instance \<Rightarrow> addr \<Rightarrow> u8 list \<Rightarrow> bool" where
  "text_object vm p bs \<longleftrightarrow>
     p \<noteq> 0 \<and> o_bytes (v_objs vm p) = bs \<and> vm_object_get_type (v_objs vm p) = VM_MAGIC \<and>
     o_type (v_objs vm p) = VM_OBJ_TYPE_ANY"

lemma new_object_text: "new_object vm p (fresh_object bs) vm' \<Longrightarrow> text_object vm' p bs"
  by (simp add: new_object_def text_object_def fresh_object_def vm_object_get_type_def magic_defs)

lemma load_obj_nz [simp]: "p \<noteq> 0 \<Longrightarrow> load_obj p = get_v (\<lambda>vm. v_objs vm p)"
  by (simp add: load_obj_def)

lemma operation_auto:
  assumes "text_object vm op1 b1" "text_object vm op2 b2"
  shows "vm_operation_object env opc op2 op1 vm = auto_op env opc op2 op1 vm"
  using assms
  by (simp add: vm_operation_object_def text_object_def Let_def)
    (simp add: magic_defs VM_OBJ_TYPE_ANY_def VM_OBJ_TYPE_INSTANCE_def VM_OBJ_TYPE_INTERFACE_def)

lemma request_12: "request_ok 12"
  by (simp add: request_ok_def sz_chain_def)

lemma numeric_op_result:
  assumes "heap_ok (v_heap vm)" "int32 a" "int32 b" "int_fun opc a b = Some c" "int32 c"
    and "o_bytes ob1 = show_int a" "o_bytes ob2 = show_int b"
  shows "creates (numeric_op opc ob2 ob1) 128 (fresh_object (show_int c)) vm"
proof -
  have "numeric_op opc ob2 ob1 = bind_v (m_alloc_v 12) (\<lambda>b. if b = 0 then err_v Null_Deref
      else bind_v (vm_create_object (length (show_int c)) (Some (show_int c)))
             (\<lambda>p. bind_v (m_free_v b) (\<lambda>_. ret_v p)))"
    using assms show_int_length [OF assms(2)] show_int_length [OF assms(3)]
    by (auto simp: numeric_op_def o_len_def atoi_show_int int_op_fun intro!: ext cong: if_cong)
  then have "creates (numeric_op opc ob2 ob1) (12 + 32 + (length (show_int c) + 72)) (fresh_object (show_int c)) vm"
    using buffered_creates [OF assms(1) request_12 vm_create_object_creates, of "show_int c"]
      show_int_length [OF assms(5)] by simp
  then show ?thesis by (rule creates_mono) (use show_int_length [OF assms(5)] in simp)
qed

section \<open>Comparing decimal text\<close>

definition int_cmp_fun :: "u8 \<Rightarrow> int \<Rightarrow> int \<Rightarrow> bool option" where
  "int_cmp_fun opc a b =
     (if opc = INS_CREQ then Some (a = b) else if opc = INS_CRNE then Some (a \<noteq> b)
      else if opc = INS_CRGT then Some (b < a) else if opc = INS_CRLT then Some (a < b)
      else if opc = INS_CRGTEQ then Some (b \<le> a) else if opc = INS_CRLTEQ then Some (a \<le> b)
      else None)"

lemma cmp_holds_int: "cmp_holds opc (cmp_of (a - b)) = int_cmp_fun opc a b"
  by (auto simp: cmp_holds_def cmp_of_def int_cmp_fun_def)

definition truth_text :: "bool \<Rightarrow> u8 list" where
  "truth_text t = ascii (if t then ''true'' else ''false'')"

lemma vm_load_bool_eq: "vm_load_bool t = vm_create_object (length (truth_text t)) (Some (truth_text t))"
  by (simp add: vm_load_bool_def truth_text_def ascii_def eval_nat_numeral)

lemma auto_compare_result:
  assumes "heap_ok (v_heap vm)" "int32 a" "int32 b" "int32 (a - b)" "int_cmp_fun opc a b = Some t"
    and "o_bytes ob1 = show_int a" "o_bytes ob2 = show_int b"
  shows "creates (auto_compare opc ob2 ob1) 128 (fresh_object (truth_text t)) vm"
proof -
  have "auto_compare opc ob2 ob1 = bind_v (m_alloc_v 12) (\<lambda>b. if b = 0 then err_v Null_Deref
      else bind_v (vm_create_object (length (truth_text t)) (Some (truth_text t)))
             (\<lambda>p. bind_v (m_free_v b) (\<lambda>_. ret_v p)))"
    using assms show_int_length [OF assms(2)] show_int_length [OF assms(3)]
      show_int_numeric [OF assms(2)] show_int_numeric [OF assms(3)]
    by (auto simp: auto_compare_def o_len_def atoi_show_int check_int32_def cmp_result_def cmp_holds_int
        vm_load_bool_eq intro!: ext cong: if_cong)
  then have "creates (auto_compare opc ob2 ob1) (12 + 32 + (length (truth_text t) + 72)) (fresh_object (truth_text t)) vm"
    using buffered_creates [OF assms(1) request_12 vm_create_object_creates, of "truth_text t"]
    by (simp add: truth_text_def ascii_def)
  then show ?thesis by (rule creates_mono) (simp add: truth_text_def ascii_def)
qed

lemma compare_auto:
  assumes "text_object vm op1 b1" "text_object vm op2 b2"
  shows "vm_compare_object env opc op2 op1 vm =
    bind_v (auto_compare opc (v_objs vm op2) (v_objs vm op1)) (\<lambda>p. if p = 0 then vm_create_object 0 None else ret_v p) vm"
  using assms
  by (simp add: vm_compare_object_def text_object_def Let_def bind_v_def)
    (simp add: magic_defs VM_OBJ_TYPE_ANY_def VM_OBJ_TYPE_INSTANCE_def)

text \<open>Both kinds of operator end in a new object.\<close>

lemma new_object_keeps: "new_object vm p ob vm' \<Longrightarrow> keeps_objs vm vm'"
  by (simp add: new_object_def)

lemma operation_new:
  assumes "heap_ok (v_heap vm)" and "text_object vm op1 (show_int a)" and "text_object vm op2 (show_int b)"
    and "int32 a" and "int32 b" and "int_fun opc a b = Some c" and "int32 c"
  shows "creates (vm_operation_object env opc op2 op1) 128 (fresh_object (show_int c)) vm"
proof -
  have "auto_op env opc op2 op1 vm = numeric_op opc (v_objs vm op2) (v_objs vm op1) vm"
    using assms(2,3) show_int_numeric [OF assms(4)] show_int_numeric [OF assms(5)]
    by (simp add: auto_op_def text_object_def)
  then show ?thesis
    using operation_auto [OF assms(2,3)] assms(2,3)
      numeric_op_result [OF assms(1,4,5,6,7), of "v_objs vm op1" "v_objs vm op2"]
    by (auto simp: text_object_def creates_def)
qed

lemma compare_new:
  assumes "heap_ok (v_heap vm)" and "text_object vm op1 (show_int a)" and "text_object vm op2 (show_int b)"
    and "int32 a" and "int32 b" and "int32 (a - b)" and "int_cmp_fun opc a b = Some t"
  shows "creates (vm_compare_object env opc op2 op1) 128 (fresh_object (truth_text t)) vm"
proof -
  have by12: "o_bytes (v_objs vm op1) = show_int a" "o_bytes (v_objs vm op2) = show_int b"
    using assms(2,3) by (auto simp: text_object_def)
  from auto_compare_result [OF assms(1,4-7) by12] show ?thesis
  proof (cases rule: createsE)
    case 1
    then show ?thesis by (simp add: creates_def compare_auto [OF assms(2,3)] bind_results)
  next
    case (2 p vm')
    then have "p \<noteq> 0" by (simp add: new_object_def)
    with 2 show ?thesis by (simp add: creates_def compare_auto [OF assms(2,3)] bind_results)
  qed
qed

lemma create_operand_object:
  assumes "vm_create_operand t ptr data 8 vm = Some (Inr (p, vm'))"
  shows "p \<noteq> 0" "o_mgc (v_objs vm' p) = VM_OPR_MAGIC OR 1" "o_type (v_objs vm' p) = t"
    "o_bytes (v_objs vm' p) = take 8 data"
proof -
  obtain q vm1 where q: "vm_create_object 8 None vm = Some (Inr (q, vm1))" "q \<noteq> 0"
    using assms
    by (cases "m_alloc_v (sz_object + 8) vm")
      (auto simp: vm_create_operand_def vm_create_object_def bind_v_def split: sum.splits if_splits)
  with assms show "p \<noteq> 0" "o_mgc (v_objs vm' p) = VM_OPR_MAGIC OR 1" "o_type (v_objs vm' p) = t"
    "o_bytes (v_objs vm' p) = take 8 data"
    by (auto simp: vm_create_operand_def bind_results upd_obj_def split: if_splits)
qed

section \<open>Properties\<close>

text \<open>C12: Arithmetic on decimal text is integer arithmetic where C defines it. For two text objects that hold
  the decimal text of 32 bit values, the arithmetic, bitwise, shift and logical operators of \<open>int_fun\<close>, when the
  operation is defined (no division or remainder by 0, shift distances from 0 to 31, no left shift of a negative
  value) and its integer result is a 32 bit value too, return a new object with the decimal text of that result
  and keep every live object; they dereference NULL only when at most 128 bytes are left behind the last block
  of the heap. A result outside 32 bits is a signed overflow and not covered.\<close>

theorem vm_operation_decimal:
  assumes "heap_ok (v_heap vm)" and "text_object vm op1 (show_int a)" and "text_object vm op2 (show_int b)"
    and "int32 a" and "int32 b" and "int_fun opc a b = Some c" and "int32 c"
  shows "vm_operation_object env opc op2 op1 vm = Some (Inl Null_Deref) \<and> heap_rest (v_heap vm) \<le> 128 \<or>
    (\<exists>p vm'. vm_operation_object env opc op2 op1 vm = Some (Inr (p, vm')) \<and>
       text_object vm' p (show_int c) \<and> keeps_objs vm vm')"
  using operation_new [OF assms] unfolding creates_def by (blast dest: new_object_text new_object_keeps)

text \<open>Objects for the numbers 40 and 2 in a heap of 1000 bytes.\<close>

definition sum_vm :: vm_instance where
  "sum_vm = demo_vm\<lparr>v_heap := two_chunks,
     v_objs := (\<lambda>_. zero_object)(148 := fresh_object (show_int 40), 204 := fresh_object (show_int 2))\<rparr>"

lemma sum_vm_fields:
  "v_heap sum_vm = two_chunks" "heap_ok (v_heap sum_vm)"
  "text_object sum_vm 148 (show_int 40)" "text_object sum_vm 204 (show_int 2)"
  using two_chunks_shape
  by (auto simp: sum_vm_def heap_ok_iff text_object_def fresh_object_def vm_object_get_type_def magic_defs)

lemma sum_vm_rest: "128 < heap_rest (v_heap sum_vm)"
  by (simp add: sum_vm_fields heap_rest_shape [OF two_chunks_shape]) (simp add: two_chunks_def)

definition no_env :: vm_env where
  "no_env = \<lparr>e_code = (\<lambda>_. 0), e_ctx = 0, e_null = 0, e_release = (\<lambda>_. None), e_apis = [], e_class = (\<lambda>_. 0),
     e_class_tag = (\<lambda>_. 0), e_method = (\<lambda>_ _. None), e_iface_exec = (\<lambda>_ _ _. err_v Undefined_Value),
     e_iface_exec_sta = (\<lambda>_ _ _. err_v Undefined_Value), e_cast = (\<lambda>_ _. err_v Undefined_Value),
     e_array_op = (\<lambda>_ _ _. err_v Undefined_Value), e_float_op = (\<lambda>_ _ _. err_v Undefined_Value),
     e_ext_op = (\<lambda>_ _ _. err_v Undefined_Value), e_operand_cmp = (\<lambda>_ _. err_v Undefined_Value)\<rparr>"

theorem vm_operation_decimal_witness:
  "\<exists>p vm'. vm_operation_object no_env INS_ADD 204 148 sum_vm = Some (Inr (p, vm')) \<and>
     text_object vm' p [52, 50] \<and> keeps_objs sum_vm vm'"
proof -
  have "show_int 42 = [52, 50]" by (simp add: show_int_def show_nat.simps)
  moreover have "int32 40" "int32 2" "int_fun INS_ADD 40 2 = Some 42" "int32 42"
    by (simp_all add: int32_def int_fun_def)
  ultimately show ?thesis using vm_operation_decimal [OF sum_vm_fields(2-4), of INS_ADD 42 no_env] sum_vm_rest by simp
qed

text \<open>C18: Comparison of the decimal text of two 32 bit values whose difference is a 32 bit value is the
  comparison of the integers: each of the six comparison instructions returns \<^verbatim>\<open>"true"\<close> or \<^verbatim>\<open>"false"\<close>
  as the integers compare, and dereferences NULL only when at most 128 bytes of the heap are left. The code
  compares by a subtraction, so a pair such as 2000000000 and -2000000000 overflows and is not covered.\<close>

theorem vm_compare_decimal:
  assumes "heap_ok (v_heap vm)" and "text_object vm op1 (show_int a)" and "text_object vm op2 (show_int b)"
    and "int32 a" and "int32 b" and "int32 (a - b)" and "int_cmp_fun opc a b = Some t"
  shows "vm_compare_object env opc op2 op1 vm = Some (Inl Null_Deref) \<and> heap_rest (v_heap vm) \<le> 128 \<or>
    (\<exists>p vm'. vm_compare_object env opc op2 op1 vm = Some (Inr (p, vm')) \<and>
       text_object vm' p (truth_text t) \<and> keeps_objs vm vm')"
  using compare_new [OF assms] unfolding creates_def by (blast dest: new_object_text new_object_keeps)

theorem vm_compare_decimal_witness:
  "\<exists>p vm'. vm_compare_object no_env INS_CRLT 204 148 sum_vm = Some (Inr (p, vm')) \<and>
     text_object vm' p (ascii ''false'') \<and> keeps_objs sum_vm vm'"
proof -
  have "int32 40" "int32 2" "int32 (40 - 2)" "int_cmp_fun INS_CRLT 40 2 = Some False"
    by (simp_all add: int32_def int_cmp_fun_def ins_defs)
  from vm_compare_decimal [OF sum_vm_fields(2-4) this, of no_env] sum_vm_rest show ?thesis by (simp add: truth_text_def)
qed

text \<open>The result of an operator on typed operands cannot be used in another operator. It is
  created with the type of a 64 bit integer, the switch that reads an operand has no case for that type
  on this target, and the value it uses is never set.\<close>

theorem operand_result_unusable:
  assumes "vm_create_operand 8 0 (int64_bytes v) 8 vm = Some (Inr (p, vm'))"
    and "opc \<noteq> INS_ADD" and "q \<noteq> 0"
  shows "vm_operation_object env opc q p vm' = Some (Inl Undefined_Value)"
proof -
  note p = create_operand_object [OF assms(1)]
  have ob: "o_mgc (v_objs vm' p) = 0xA1" "o_type (v_objs vm' p) = 8" "o_len (v_objs vm' p) = 8"
    using p by (simp_all add: magic_defs o_len_def int64_bytes_def le_bytes_def)
  have "operand_value (replicate 64 0) (v_objs vm' p) vm' = Some (Inl Undefined_Value)"
    using ob by (simp add: operand_value_def Let_def)
  then show ?thesis
    using p(1) ob assms(2,3)
    by (simp add: vm_operation_object_def operand_op_def first_value_def vm_object_get_type_def magic_defs
        Let_def bind_results)
qed

theorem operand_result_unusable_witness:
  "\<exists>p vm'. vm_create_operand 8 0 (int64_bytes 5) 8 demo_vm = Some (Inr (p, vm')) \<and>
     vm_operation_object no_env INS_SUB p p vm' = Some (Inl Undefined_Value)"
proof -
  obtain h where "m_alloc demo_heap 48 = Some (148, h)"
    by (simp add: m_alloc_eq [OF demo_heap_shape] sz_chain_def Let_def)
  then obtain vm' where v: "vm_create_operand 8 0 (int64_bytes 5) 8 demo_vm = Some (Inr (148, vm'))"
    by (simp add: vm_create_operand_def vm_create_object_def bind_v_def m_alloc_v_def heap_v_def demo_vm_def
        sz_object_def upd_obj_def int64_bytes_def le_bytes_def)
  have "INS_SUB \<noteq> INS_ADD" by (simp add: ins_defs)
  from operand_result_unusable [OF v this, of 148 no_env] v show ?thesis by auto
qed

end
