(* ===== verification/Sym_Table.thy ===== *)
theory Sym_Table
  imports Prelude
begin

text \<open>
  The symbol table of the compiler, \<^verbatim>\<open>Stack/sym_table.c\<close>. The linked list from
  \<^verbatim>\<open>_symhead\<close> is a list of records in list order; a record carries its address, and a
  pointer to a record is that address (0 for NULL). \<^verbatim>\<open>_symstack\<close> is the stack of saved
  heads. The operations that allocate take the address of the new record as an argument.
  \<^verbatim>\<open>st_vardump\<close> only prints and is left out; \<^verbatim>\<open>sp_error\<close> calls are collected in order.

  A record is allocated as \<^verbatim>\<open>sizeof(symrec) + length\<close> bytes and the name is copied to its
  field \<^verbatim>\<open>name\<close> without regard to the 500 bytes of that field. The model keeps the bytes from
  \<^verbatim>\<open>name\<close> to the end of the allocation as one list, \<open>sy_name\<close>: the fields \<^verbatim>\<open>ext\<close>
  and \<^verbatim>\<open>param_types\<close> are the parts of it from 500 and from 754 on. Comparisons never look behind
  the end of that list. A copied record shares its jump list with the original in the code; the
  model copies the list, which is the same thing while neither of them is changed.
\<close>

section \<open>State\<close>

record jmprec =
  jr_ins :: u8
  jr_offset :: nat

record symrec =
  sy_addr :: addr
  sy_parent :: addr
  sy_type :: u8
  sy_length :: nat
  sy_offset :: nat
  sy_list :: "jmprec list"
  sy_pcount :: u8
  sy_ptotal :: u8
  sy_currec :: addr
  sy_name :: "u8 list"

record symtab =
  symhead :: "symrec list"
  symstack :: "symrec list list"

datatype sp_err = SP_ERR_UNREF_VARIABLE | SP_ERR_UNREF_FUNCTION | SP_ERR_UNREF_LABEL | SP_ERR_UNREF_SYMBOL
  | SP_ERR_LESS_ARGUMENTS | SP_ERR_OVER_ARGUMENTS | SP_ERR_UNDEF_VARIABLE | SP_ERR_MULTI_FUNCTION | SP_ERR_MULTI_LABEL
  | SP_ERR_UNDEF_CLASS | SP_ERR_MUST_PUBLIC | SP_ERR_INVALID_LAMBDA_DECL

definition SYM_TYPE_CONST :: u8 where "SYM_TYPE_CONST = 0x01"
definition SYM_TYPE_VAR :: u8 where "SYM_TYPE_VAR = 0x02"
definition SYM_TYPE_FUNCTION :: u8 where "SYM_TYPE_FUNCTION = 0x04"
definition SYM_TYPE_LABEL :: u8 where "SYM_TYPE_LABEL = 0x08"
definition SYM_TYPE_CLASS :: u8 where "SYM_TYPE_CLASS = 0x10"
definition SYM_TYPE_ARRAY :: u8 where "SYM_TYPE_ARRAY = 0x20"
definition SYM_TYPE_EXTERNAL :: u8 where "SYM_TYPE_EXTERNAL = 0x80"

definition MAX_LIST_DEPTH :: nat where "MAX_LIST_DEPTH = 32"

text \<open>The bytes of \<^verbatim>\<open>symrec\<close> from the field \<^verbatim>\<open>name\<close> to its end: 500 + 254 + 16 and 6 of padding.\<close>

definition NAME_ROOM :: nat where "NAME_ROOM = 776"

lemmas sym_type_defs = SYM_TYPE_CONST_def SYM_TYPE_VAR_def SYM_TYPE_FUNCTION_def SYM_TYPE_LABEL_def
  SYM_TYPE_CLASS_def SYM_TYPE_ARRAY_def SYM_TYPE_EXTERNAL_def

section \<open>Operations\<close>

text \<open>
  \<^verbatim>\<open>st_push_table\<close> saves the list and starts a new one with copies of the external
  symbols; \<open>fresh i\<close> is the address of the i-th copy. Copying succeeds, as \<^verbatim>\<open>malloc\<close>
  of one record does.
\<close>

fun copy_externals :: "(nat \<Rightarrow> addr) \<Rightarrow> nat \<Rightarrow> symrec list \<Rightarrow> symrec list" where
  "copy_externals fresh i [] = []"
| "copy_externals fresh i (r # rs) =
     (if sy_type r AND SYM_TYPE_EXTERNAL \<noteq> 0
      then r\<lparr>sy_addr := fresh i, sy_name := take NAME_ROOM (sy_name r)\<rparr> # copy_externals fresh (Suc i) rs
      else copy_externals fresh i rs)"

definition st_push_table :: "(nat \<Rightarrow> addr) \<Rightarrow> symtab \<Rightarrow> symtab" where
  "st_push_table fresh t =
     (if length (symstack t) = MAX_LIST_DEPTH then t
      else \<lparr>symhead = copy_externals fresh 0 (symhead t), symstack = symhead t # symstack t\<rparr>)"

definition st_pop_table :: "symtab \<Rightarrow> symtab" where
  "st_pop_table t =
     (case symstack t of [] \<Rightarrow> t | h # hs \<Rightarrow> \<lparr>symhead = h, symstack = hs\<rparr>)"

text \<open>
  \<^verbatim>\<open>st_sym_get_prev_record\<close>: the record whose \<^verbatim>\<open>next\<close> is \<open>rel\<close>. The loop reads
  \<^verbatim>\<open>next\<close> through NULL when there is none.
\<close>

fun prev_record_loop :: "symrec list \<Rightarrow> addr \<Rightarrow> symrec result" where
  "prev_record_loop [] rel = Inl Null_Deref"
| "prev_record_loop [r] rel = (if rel = 0 then Inr r else Inl Null_Deref)"
| "prev_record_loop (r # s # rs) rel =
     (if sy_addr s = rel then Inr r else prev_record_loop (s # rs) rel)"

definition st_sym_get_prev_record :: "symtab \<Rightarrow> addr \<Rightarrow> symrec option result" where
  "st_sym_get_prev_record t rel =
     (if symhead t = [] then Inr None else bind_r (prev_record_loop (symhead t) rel) (\<lambda>r. Inr (Some r)))"

text \<open>\<^verbatim>\<open>st_sym_add_record\<close>: links the new record behind the last one.\<close>

definition st_sym_add_record :: "symrec \<Rightarrow> symtab \<Rightarrow> symtab result" where
  "st_sym_add_record rec t =
     bind_r (st_sym_get_prev_record t 0) (\<lambda>p.
       case p of None \<Rightarrow> Inr (t\<lparr>symhead := [rec]\<rparr>)
       | Some q \<Rightarrow> Inr (if sy_addr rec = sy_addr q then t else t\<lparr>symhead := symhead t @ [rec]\<rparr>))"

fun select_loop :: "u8 \<Rightarrow> u8 list \<Rightarrow> nat \<Rightarrow> symrec list \<Rightarrow> symrec option" where
  "select_loop type name len [] = None"
| "select_loop type name len (r # rs) =
     (if (sy_type r AND 0x7F) AND type \<noteq> 0 \<and> len = sy_length r \<and> take len name = take len (sy_name r)
      then Some r else select_loop type name len rs)"

definition st_sym_select_s :: "u8 \<Rightarrow> u8 list \<Rightarrow> nat \<Rightarrow> symtab \<Rightarrow> symrec option" where
  "st_sym_select_s type name len t = select_loop (type AND 0x7F) name len (symhead t)"

definition st_sym_select :: "u8 \<Rightarrow> u8 list \<Rightarrow> symtab \<Rightarrow> symrec option" where
  "st_sym_select type name t = st_sym_select_s type name (length name mod 2 ^ 16) t"

text \<open>
  \<^verbatim>\<open>st_sym_select_array\<close> compares the first \<open>len\<close> bytes at the name field only and never
  looks at the length of the record.
\<close>

fun select_array_loop :: "u8 list \<Rightarrow> nat \<Rightarrow> symrec list \<Rightarrow> symrec option" where
  "select_array_loop arrval len [] = None"
| "select_array_loop arrval len (r # rs) =
     (if (sy_type r AND 0x7F) AND (SYM_TYPE_ARRAY AND 0x7F) \<noteq> 0 \<and> take len arrval = take len (sy_name r)
      then Some r else select_array_loop arrval len rs)"

definition st_sym_select_array :: "u8 list \<Rightarrow> nat \<Rightarrow> symtab \<Rightarrow> symrec option" where
  "st_sym_select_array arrval len t = select_array_loop arrval len (symhead t)"

definition st_sym_create_s :: "addr \<Rightarrow> u8 \<Rightarrow> u8 list \<Rightarrow> nat \<Rightarrow> nat \<Rightarrow> symrec" where
  "st_sym_create_s a type name len off =
     \<lparr>sy_addr = a, sy_parent = 0, sy_type = type, sy_length = len, sy_offset = off, sy_list = [],
      sy_pcount = 0, sy_ptotal = 0, sy_currec = 0,
      sy_name = take len name @ replicate NAME_ROOM 0\<rparr>"

definition st_sym_create :: "addr \<Rightarrow> u8 \<Rightarrow> u8 list \<Rightarrow> nat \<Rightarrow> symrec" where
  "st_sym_create a type name off = st_sym_create_s a type name (length name mod 2 ^ 16) off"

definition st_sym_create_array :: "addr \<Rightarrow> u8 list \<Rightarrow> nat \<Rightarrow> nat \<Rightarrow> symrec" where
  "st_sym_create_array a arrval len off =
     \<lparr>sy_addr = a, sy_parent = 0, sy_type = SYM_TYPE_ARRAY, sy_length = len, sy_offset = off, sy_list = [],
      sy_pcount = 0, sy_ptotal = 0, sy_currec = 0,
      sy_name = take len arrval @ replicate NAME_ROOM 0\<rparr>"

definition st_sym_insert_s :: "addr \<Rightarrow> u8 \<Rightarrow> u8 list \<Rightarrow> nat \<Rightarrow> nat \<Rightarrow> symtab \<Rightarrow> symtab result" where
  "st_sym_insert_s a type name len off t = st_sym_add_record (st_sym_create_s a type name len off) t"

definition st_sym_insert :: "addr \<Rightarrow> u8 \<Rightarrow> u8 list \<Rightarrow> nat \<Rightarrow> symtab \<Rightarrow> symtab result" where
  "st_sym_insert a type name off t = st_sym_insert_s a type name (length name mod 2 ^ 16) off t"

definition st_sym_insert_array :: "addr \<Rightarrow> u8 list \<Rightarrow> nat \<Rightarrow> nat \<Rightarrow> symtab \<Rightarrow> symtab result" where
  "st_sym_insert_array a arrval len off t = st_sym_add_record (st_sym_create_array a arrval len off) t"

text \<open>\<^verbatim>\<open>st_sym_delete\<close> unlinks the selected record behind its predecessor.\<close>

fun unlink_after :: "addr \<Rightarrow> symrec list \<Rightarrow> symrec list" where
  "unlink_after p (r # s # rs) = (if sy_addr r = p then r # rs else r # unlink_after p (s # rs))"
| "unlink_after p rs = rs"

definition st_sym_delete :: "u8 \<Rightarrow> u8 list \<Rightarrow> symtab \<Rightarrow> symtab result" where
  "st_sym_delete type name t =
     (case st_sym_select type name t of None \<Rightarrow> Inr t
      | Some c \<Rightarrow>
          bind_r (st_sym_get_prev_record t (sy_addr c)) (\<lambda>p.
            case p of None \<Rightarrow> Inr (t\<lparr>symhead := tl (symhead t)\<rparr>)
            | Some q \<Rightarrow> Inr (t\<lparr>symhead := unlink_after (sy_addr q) (symhead t)\<rparr>)))"

text \<open>The errors reported for a record that is dropped with open jumps.\<close>

definition unref_local :: "symrec \<Rightarrow> (sp_err \<times> u8 list) list" where
  "unref_local r =
     (if sy_list r = [] then []
      else [(if sy_type r AND 0x0F = SYM_TYPE_VAR then SP_ERR_UNREF_VARIABLE
             else if sy_type r AND 0x0F = SYM_TYPE_LABEL then SP_ERR_UNREF_LABEL
             else SP_ERR_UNREF_SYMBOL, sy_name r)])"

definition unref_global :: "symrec \<Rightarrow> (sp_err \<times> u8 list) list" where
  "unref_global r =
     (if sy_list r = [] then []
      else [(if sy_type r AND 0x0F = SYM_TYPE_VAR then SP_ERR_UNREF_VARIABLE
             else if sy_type r AND 0x0F = SYM_TYPE_FUNCTION then SP_ERR_UNREF_FUNCTION
             else if sy_type r AND 0x0F = SYM_TYPE_LABEL then SP_ERR_UNREF_LABEL
             else SP_ERR_UNREF_SYMBOL, sy_name r)])"

fun clear_locals_loop :: "addr \<Rightarrow> symrec list \<Rightarrow> symrec list \<times> (sp_err \<times> u8 list) list" where
  "clear_locals_loop parent [] = ([], [])"
| "clear_locals_loop parent (r # rs) =
     (let (rest, errs) = clear_locals_loop parent rs in
      if sy_parent r \<noteq> parent then (r # rest, errs) else (rest, unref_local r @ errs))"

definition st_sym_clear_locals :: "addr \<Rightarrow> symtab \<Rightarrow> symtab \<times> (sp_err \<times> u8 list) list" where
  "st_sym_clear_locals parent t =
     (let (rs, errs) = clear_locals_loop parent (symhead t) in (t\<lparr>symhead := rs\<rparr>, errs))"

definition st_sym_update_parent :: "addr \<Rightarrow> addr \<Rightarrow> symtab \<Rightarrow> symtab" where
  "st_sym_update_parent old newp t =
     t\<lparr>symhead := map (\<lambda>r. if sy_parent r = old then r\<lparr>sy_parent := newp\<rparr> else r) (symhead t)\<rparr>"

definition st_sym_clear_globals :: "symtab \<Rightarrow> symtab \<times> (sp_err \<times> u8 list) list" where
  "st_sym_clear_globals t = (t\<lparr>symhead := []\<rparr>, concat (map unref_global (symhead t)))"

text \<open>Jump lists for backpatching.\<close>

definition st_jmp_get_last_record :: "symrec \<Rightarrow> jmprec option" where
  "st_jmp_get_last_record r = (if sy_list r = [] then None else Some (last (sy_list r)))"

definition st_jmp_add :: "u8 \<Rightarrow> nat \<Rightarrow> symrec \<Rightarrow> symrec" where
  "st_jmp_add ins off r =
     (let j = \<lparr>jr_ins = ins, jr_offset = off\<rparr> in
      case st_jmp_get_last_record r of None \<Rightarrow> r\<lparr>sy_list := [j]\<rparr>
      | Some _ \<Rightarrow> r\<lparr>sy_list := sy_list r @ [j]\<rparr>)"

definition st_jmp_clear :: "symrec \<Rightarrow> symrec" where
  "st_jmp_clear r = r\<lparr>sy_list := []\<rparr>"

section \<open>Invariant\<close>

text \<open>Records have distinct non-null addresses and room for the fields behind the name.\<close>

definition symtab_ok :: "symtab \<Rightarrow> bool" where
  "symtab_ok t \<longleftrightarrow> distinct (map sy_addr (symhead t)) \<and> 0 \<notin> set (map sy_addr (symhead t)) \<and>
     (\<forall>r \<in> set (symhead t). sy_length r < 2 ^ 16 \<and> NAME_ROOM \<le> length (sy_name r)) \<and> length (symstack t) \<le> MAX_LIST_DEPTH"

definition fresh_addr :: "addr \<Rightarrow> symtab \<Rightarrow> bool" where
  "fresh_addr a t \<longleftrightarrow> a \<noteq> 0 \<and> a \<notin> set (map sy_addr (symhead t))"

lemma prev_record_last: "rs \<noteq> [] \<Longrightarrow> 0 \<notin> set (map sy_addr rs) \<Longrightarrow> prev_record_loop rs 0 = Inr (last rs)"
  by (induction rs rule: induct_list012) auto

lemma add_record_appends:
  assumes "symtab_ok t" "fresh_addr (sy_addr rec) t"
  shows "st_sym_add_record rec t = Inr (t\<lparr>symhead := symhead t @ [rec]\<rparr>)"
proof (cases "symhead t = []")
  case False
  then have "st_sym_get_prev_record t 0 = Inr (Some (last (symhead t)))"
    using prev_record_last assms(1) by (auto simp: st_sym_get_prev_record_def symtab_ok_def)
  moreover have "sy_addr rec \<noteq> sy_addr (last (symhead t))"
    using assms(2) last_in_set [OF False] by (auto simp: fresh_addr_def)
  ultimately show ?thesis by (simp add: st_sym_add_record_def)
qed (simp add: st_sym_add_record_def st_sym_get_prev_record_def)

lemma select_loop_append:
  "select_loop ty nm n (xs @ ys) =
     (case select_loop ty nm n xs of None \<Rightarrow> select_loop ty nm n ys | Some r \<Rightarrow> Some r)"
  by (induction xs) auto

lemma select_loop_SomeD:
  "select_loop ty nm n rs = Some r \<Longrightarrow>
     \<exists>xs ys. rs = xs @ r # ys \<and> select_loop ty nm n xs = None \<and>
       (sy_type r AND 0x7F) AND ty \<noteq> 0 \<and> n = sy_length r \<and> take n nm = take n (sy_name r)"
proof (induction rs)
  case (Cons a rs)
  show ?case
  proof (cases "(sy_type a AND 0x7F) AND ty \<noteq> 0 \<and> n = sy_length a \<and> take n nm = take n (sy_name a)")
    case True
    with Cons.prems show ?thesis by (intro exI [of _ "[]"] exI [of _ rs]) (auto split: if_splits)
  next
    case False
    with Cons.prems have "select_loop ty nm n rs = Some r" by (simp split: if_splits)
    from Cons.IH [OF this] obtain xs ys where "rs = xs @ r # ys" "select_loop ty nm n xs = None"
      "(sy_type r AND 0x7F) AND ty \<noteq> 0 \<and> n = sy_length r \<and> take n nm = take n (sy_name r)" by auto
    with False show ?thesis by (intro exI [of _ "a # xs"] exI [of _ ys]) auto
  qed
qed simp

lemma prev_record_split:
  assumes "distinct (map sy_addr (xs @ p # c # ys))"
  shows "prev_record_loop (xs @ p # c # ys) (sy_addr c) = Inr p \<and>
         unlink_after (sy_addr p) (xs @ p # c # ys) = xs @ p # ys"
  using assms
proof (induction xs)
  case (Cons x xs)
  then show ?case by (cases xs) auto
qed simp

lemma prev_record_head:
  assumes "distinct (map sy_addr (c # ys))" "sy_addr c \<noteq> 0"
  shows "prev_record_loop (c # ys) (sy_addr c) = Inl Null_Deref"
proof -
  have "prev_record_loop rs a = Inl Null_Deref" if "a \<notin> set (map sy_addr (tl rs))" "a \<noteq> 0" for rs a
    using that by (induction rs rule: induct_list012) auto
  with assms show ?thesis by simp
qed

lemma clear_locals_filter:
  "clear_locals_loop p rs =
     (filter (\<lambda>r. sy_parent r \<noteq> p) rs, concat (map unref_local (filter (\<lambda>r. sy_parent r = p) rs)))"
  by (induction rs) (auto simp: Let_def)


section \<open>Lookup as an interface\<close>

text \<open>
  The semantic actions see the table through insertion and selection: the oldest record that matches
  the request wins. \<open>first_match\<close> states that contract; \<open>look_fold\<close> is what a sequence of
  declarations means under it.
\<close>

locale first_match =
  fixes look :: "'k \<Rightarrow> 't \<Rightarrow> 'r option"
    and add :: "'r \<Rightarrow> 't \<Rightarrow> 't"
    and matches :: "'k \<Rightarrow> 'r \<Rightarrow> bool"
  assumes look_add:
    "look k (add r t) = (case look k t of Some q \<Rightarrow> Some q | None \<Rightarrow> if matches k r then Some r else None)"
begin

lemma look_fold: "look k (fold add rs t) = (case look k t of Some q \<Rightarrow> Some q | None \<Rightarrow> find (matches k) rs)"
  by (induction rs arbitrary: t) (auto simp: look_add split: option.split)

end

definition sym_matches :: "u8 \<times> u8 list \<times> nat \<Rightarrow> symrec \<Rightarrow> bool" where
  "sym_matches k r = (case k of (type, name, len) \<Rightarrow>
     (sy_type r AND 0x7F) AND (type AND 0x7F) \<noteq> 0 \<and> len = sy_length r \<and> take len name = take len (sy_name r))"

definition append_rec :: "symrec \<Rightarrow> symtab \<Rightarrow> symtab" where
  "append_rec r t = t\<lparr>symhead := symhead t @ [r]\<rparr>"

interpretation sym: first_match "\<lambda>(type, name, len). st_sym_select_s type name len" append_rec sym_matches
  by unfold_locales
    (auto simp: st_sym_select_s_def append_rec_def sym_matches_def select_loop_append
      split: option.split if_splits)

fun insert_all :: "(addr \<times> u8 \<times> u8 list \<times> nat) list \<Rightarrow> symtab \<Rightarrow> symtab result" where
  "insert_all [] t = Inr t"
| "insert_all ((a, type, name, off) # ds) t = bind_r (st_sym_insert a type name off t) (insert_all ds)"

definition decl_rec :: "addr \<times> u8 \<times> u8 list \<times> nat \<Rightarrow> symrec" where
  "decl_rec d = (case d of (a, type, name, off) \<Rightarrow> st_sym_create a type name off)"

lemma decl_rec_addr [simp]: "sy_addr (decl_rec (a, type, name, off)) = a"
  by (simp add: decl_rec_def st_sym_create_def st_sym_create_s_def)

lemma symtab_ok_append_rec:
  assumes "symtab_ok t" "fresh_addr a t"
  shows "symtab_ok (append_rec (decl_rec (a, type, name, off)) t)"
  using assms by (auto simp: symtab_ok_def append_rec_def fresh_addr_def decl_rec_def st_sym_create_def
      st_sym_create_s_def)

lemma insert_is_append:
  "symtab_ok t \<Longrightarrow> fresh_addr a t \<Longrightarrow> st_sym_insert a type name off t = Inr (append_rec (decl_rec (a, type, name, off)) t)"
  unfolding st_sym_insert_def st_sym_insert_s_def append_rec_def decl_rec_def st_sym_create_def prod.case
  by (rule add_record_appends) (simp_all add: st_sym_create_s_def)

lemma insert_all_is_fold:
  assumes "symtab_ok t" "distinct (map fst ds)" "\<forall>d \<in> set ds. fresh_addr (fst d) t"
  shows "insert_all ds t = Inr (fold append_rec (map decl_rec ds) t) \<and> symtab_ok (fold append_rec (map decl_rec ds) t)"
  using assms
proof (induction ds arbitrary: t)
  case (Cons d ds)
  obtain a type name off where d: "d = (a, type, name, off)" by (cases d) auto
  let ?t = "append_rec (decl_rec d) t"
  have ok: "symtab_ok ?t" using Cons.prems d symtab_ok_append_rec by simp
  have "\<forall>e \<in> set ds. fresh_addr (fst e) ?t"
    using Cons.prems d by (auto simp: fresh_addr_def append_rec_def)
  with Cons ok show ?case by (simp add: d insert_is_append)
qed simp

section \<open>Properties\<close>

text \<open>C19: Declaring symbols one after the other at fresh addresses always succeeds and keeps the table
  well formed, and a later selection returns the record an earlier scope already had for the request
  or else the first of the new declarations that matches its type mask, its length and its bytes.\<close>
theorem insert_then_select:
  assumes "symtab_ok t" "distinct (map fst ds)" "\<forall>d \<in> set ds. fresh_addr (fst d) t"
  shows "\<exists>t'. insert_all ds t = Inr t' \<and> symtab_ok t' \<and>
    st_sym_select type name t' =
      (case st_sym_select type name t of Some r \<Rightarrow> Some r
       | None \<Rightarrow> find (sym_matches (type, name, length name mod 2 ^ 16)) (map decl_rec ds))"
  using insert_all_is_fold [OF assms] sym.look_fold [of "(type, name, length name mod 2 ^ 16)" "map decl_rec ds" t]
  by (simp add: st_sym_select_def)

theorem insert_then_select_witness:
  "\<exists>t'. insert_all [(8, SYM_TYPE_VAR, [120], 3), (16, SYM_TYPE_FUNCTION, [120, 121], 4)] \<lparr>symhead = [], symstack = []\<rparr> = Inr t' \<and>
    map_option sy_addr (st_sym_select SYM_TYPE_FUNCTION [120, 121] t') = Some 16"
proof -
  have f: "symtab_ok \<lparr>symhead = [], symstack = []\<rparr>" by (simp add: symtab_ok_def)
  have g: "distinct (map fst [(8 :: addr, SYM_TYPE_VAR, [120 :: u8], 3 :: nat), (16, SYM_TYPE_FUNCTION, [120, 121], 4)])" by simp
  have h: "\<forall>d \<in> set [(8 :: addr, SYM_TYPE_VAR, [120 :: u8], 3 :: nat), (16, SYM_TYPE_FUNCTION, [120, 121], 4)].
      fresh_addr (fst d) \<lparr>symhead = [], symstack = []\<rparr>"
    by (simp add: fresh_addr_def)
  from insert_then_select [OF f g h, of SYM_TYPE_FUNCTION "[120, 121]"] show ?thesis
    by (auto simp: st_sym_select_def st_sym_select_s_def sym_matches_def decl_rec_def st_sym_create_def
        st_sym_create_s_def sym_type_defs)
qed

text \<open>Deleting a symbol. When nothing matches the table is unchanged. When the match is behind the
  head exactly that record is taken out. When the match is the head record the search for its
  predecessor runs off the end of the list and reads through a null pointer.\<close>
lemma st_sym_delete_behaviour:
  assumes "symtab_ok t"
  shows "st_sym_delete type name t =
    (case st_sym_select type name t of None \<Rightarrow> Inr t
     | Some c \<Rightarrow> if c = hd (symhead t) then Inl Null_Deref
                else Inr (t\<lparr>symhead := filter (\<lambda>r. sy_addr r \<noteq> sy_addr c) (symhead t)\<rparr>))"
proof (cases "st_sym_select type name t")
  case (Some c)
  then obtain xs ys where sp: "symhead t = xs @ c # ys"
    using select_loop_SomeD unfolding st_sym_select_def st_sym_select_s_def by metis
  have d: "distinct (map sy_addr (xs @ c # ys))" "sy_addr c \<noteq> 0"
    using assms sp by (auto simp: symtab_ok_def)
  have fl: "filter (\<lambda>r. sy_addr r \<noteq> sy_addr c) (xs @ c # ys) = xs @ ys"
  proof -
    have "filter (\<lambda>r. sy_addr r \<noteq> sy_addr c) zs = zs" if "sy_addr c \<notin> sy_addr ` set zs" for zs :: "symrec list"
      using that by (metis (mono_tags, lifting) filter_True imageI)
    with d(1) show ?thesis by simp
  qed
  show ?thesis
  proof (cases xs rule: rev_cases)
    case Nil
    then show ?thesis using prev_record_head [of c ys] d sp Some
      by (simp add: st_sym_delete_def st_sym_get_prev_record_def)
  next
    case (snoc zs p)
    have "c \<noteq> hd (xs @ c # ys)" using d(1) snoc by (cases zs) auto
    moreover have "prev_record_loop (symhead t) (sy_addr c) = Inr p"
      "unlink_after (sy_addr p) (symhead t) = xs @ ys"
      using prev_record_split [of zs p c ys] d(1) sp snoc by simp_all
    ultimately show ?thesis using Some sp fl
      by (simp add: st_sym_delete_def st_sym_get_prev_record_def)
  qed
qed (simp add: st_sym_delete_def)

lemma st_sym_delete_behaviour_witness:
  "(let t = \<lparr>symhead = [st_sym_create 8 SYM_TYPE_VAR [120] 0, st_sym_create 16 SYM_TYPE_VAR [121] 1], symstack = []\<rparr> in
    st_sym_delete SYM_TYPE_VAR [120] t = Inl Null_Deref \<and>
    st_sym_delete SYM_TYPE_VAR [121] t = Inr (t\<lparr>symhead := [st_sym_create 8 SYM_TYPE_VAR [120] 0]\<rparr>))"
proof -
  let ?t = "\<lparr>symhead = [st_sym_create 8 SYM_TYPE_VAR [120] 0, st_sym_create 16 SYM_TYPE_VAR [121] 1], symstack = []\<rparr>"
  have ok: "symtab_ok ?t" by (simp add: symtab_ok_def st_sym_create_def st_sym_create_s_def)
  show ?thesis
    using st_sym_delete_behaviour [OF ok, of SYM_TYPE_VAR "[120]"] st_sym_delete_behaviour [OF ok, of SYM_TYPE_VAR "[121]"]
    by (simp add: st_sym_select_def st_sym_select_s_def st_sym_create_def st_sym_create_s_def sym_type_defs)
qed

text \<open>Scopes. Opening a table and closing it again restores the enclosing scope whatever was declared,
  deleted or cleared in between, unless 32 scopes are already open; and the opened table holds exactly the
  external symbols of the enclosing one, in their order.\<close>
theorem push_pop_scope:
  assumes "length (symstack t) < MAX_LIST_DEPTH"
  shows "st_pop_table ((st_push_table fresh t)\<lparr>symhead := anything\<rparr>) = t \<and>
    map (\<lambda>r. (sy_type r, sy_length r, sy_offset r)) (symhead (st_push_table fresh t)) =
    map (\<lambda>r. (sy_type r, sy_length r, sy_offset r)) (filter (\<lambda>r. sy_type r AND SYM_TYPE_EXTERNAL \<noteq> 0) (symhead t))"
proof -
  have "map (\<lambda>r. (sy_type r, sy_length r, sy_offset r)) (copy_externals fresh i rs) =
    map (\<lambda>r. (sy_type r, sy_length r, sy_offset r)) (filter (\<lambda>r. sy_type r AND SYM_TYPE_EXTERNAL \<noteq> 0) rs)" for i rs
    by (induction rs arbitrary: i) simp_all
  with assms show ?thesis by (simp add: st_push_table_def st_pop_table_def)
qed

theorem push_pop_scope_witness:
  "length (symstack \<lparr>symhead = [st_sym_create 8 SYM_TYPE_VAR [120] 0], symstack = []\<rparr>) < MAX_LIST_DEPTH \<and>
   st_pop_table ((st_push_table (\<lambda>i. 64) \<lparr>symhead = [st_sym_create 8 SYM_TYPE_VAR [120] 0], symstack = []\<rparr>)\<lparr>symhead := []\<rparr>) =
     \<lparr>symhead = [st_sym_create 8 SYM_TYPE_VAR [120] 0], symstack = []\<rparr>"
  using push_pop_scope [where t = "\<lparr>symhead = [st_sym_create 8 SYM_TYPE_VAR [120] 0], symstack = []\<rparr>" and fresh = "\<lambda>i. 64" and anything = "[]"]
  by (simp add: MAX_LIST_DEPTH_def)

text \<open>Leaving a function drops exactly the records of that parent, keeps the order of the others and
  reports one unresolved reference for each dropped record that still has open jumps.\<close>
theorem st_sym_clear_locals_exact:
  "st_sym_clear_locals parent t =
    (t\<lparr>symhead := filter (\<lambda>r. sy_parent r \<noteq> parent) (symhead t)\<rparr>,
     concat (map unref_local (filter (\<lambda>r. sy_parent r = parent) (symhead t))))"
  by (simp add: st_sym_clear_locals_def clear_locals_filter)

end
