(* ===== verification/IL_Streamer.thy ===== *)
theory IL_Streamer
  imports Bytecode Sym_Table
begin

text \<open>
  The code generator and linker of the compiler, \<^verbatim>\<open>Stack/il_streamer.c\<close>: the constant pool, the
  emission of one instruction, the label records and the link step that turns the operands into
  pc-relative ones and puts the constant pool behind the code. The configuration is the one of
  \<^verbatim>\<open>config.h\<close>: \<^verbatim>\<open>IS_REL_JUMP_ADDRESS\<close> is set. What the functions print to the listing is
  left out. \<^verbatim>\<open>pc\<close>, sizes and indices are natural numbers: they stay below 65536, as any access
  behind a buffer is an error of the model. Operands are 16-bit words.
\<close>

section \<open>State\<close>

record lblrec =
  lb_offset :: nat
  lb_refcount :: u16
  lb_tag :: addr
  lb_name :: "u8 list"

text \<open>\<open>pk_offset a\<close> is the field \<^verbatim>\<open>offset\<close> of the method record at address \<open>a\<close>.\<close>

record ilstate =
  il_code :: buf
  il_data :: buf
  il_cpindex :: nat
  il_code_size :: nat
  il_lblhead :: "lblrec list"
  pk_offset :: "addr \<Rightarrow> nat"

definition is_init :: "ilstate \<Rightarrow> ilstate" where
  "is_init st = st\<lparr>il_cpindex := 0, il_code_size := 0\<rparr>"

section \<open>Label records\<close>

definition strz :: "u8 list \<Rightarrow> u8 list" where "strz xs = takeWhile (\<lambda>c. c \<noteq> 0) xs"

definition is_create_lblrec :: "nat \<Rightarrow> u8 list \<Rightarrow> lblrec result" where
  "is_create_lblrec off name =
     (if length (strz name) < 240
      then Inr \<lparr>lb_offset = off mod 2 ^ 16, lb_refcount = 0, lb_tag = 0, lb_name = strz name\<rparr>
      else Inl Out_Of_Bounds)"

definition is_push_lblrec :: "nat \<Rightarrow> u8 list \<Rightarrow> ilstate \<Rightarrow> ilstate result" where
  "is_push_lblrec off name st =
     bind_r (is_create_lblrec off name) (\<lambda>rec. Inr (st\<lparr>il_lblhead := il_lblhead st @ [rec]\<rparr>))"

text \<open>The search keeps the last record with the offset, not the first.\<close>

fun get_lblrec_loop :: "nat \<Rightarrow> lblrec option \<Rightarrow> lblrec list \<Rightarrow> lblrec option" where
  "get_lblrec_loop off candidate [] = candidate"
| "get_lblrec_loop off candidate (r # rs) =
     get_lblrec_loop off (if lb_offset r = off then Some r else candidate) rs"

definition is_get_lblrec :: "nat \<Rightarrow> ilstate \<Rightarrow> lblrec option" where
  "is_get_lblrec off st = get_lblrec_loop (off mod 2 ^ 16) None (il_lblhead st)"

text \<open>
  \<^verbatim>\<open>is_clear_unused_lblrec\<close> walks the list and unlinks the records that nothing refers to;
  \<open>kept\<close> are the records before the iterator, of which the predecessor search returns the last.
\<close>

fun clear_unused_loop :: "lblrec list \<Rightarrow> lblrec list \<Rightarrow> lblrec list" where
  "clear_unused_loop kept [] = kept"
| "clear_unused_loop kept (r # rs) =
     (if lb_refcount r = 0 then clear_unused_loop kept rs else clear_unused_loop (kept @ [r]) rs)"

definition is_clear_unused_lblrec :: "ilstate \<Rightarrow> ilstate" where
  "is_clear_unused_lblrec st = st\<lparr>il_lblhead := clear_unused_loop [] (il_lblhead st)\<rparr>"

definition is_clear_lblrec :: "ilstate \<Rightarrow> ilstate" where
  "is_clear_lblrec st = st\<lparr>il_lblhead := []\<rparr>"

section \<open>Constant pool\<close>

definition constant_header :: "nat \<Rightarrow> u8 list" where
  "constant_header sz =
     (if sz < 128 then [of_nat sz]
      else if sz < 256 then [0x81, of_nat sz]
      else [0x82, of_nat (sz div 256), of_nat (sz mod 256)])"

text \<open>The parameter \<^verbatim>\<open>size\<close> is a \<^verbatim>\<open>uint16\<close>, here the length of the value.\<close>

definition is_push_constant :: "u8 list \<Rightarrow> ilstate \<Rightarrow> (ilstate \<times> u16) result" where
  "is_push_constant value st =
     (let retval = of_nat (il_cpindex st);
          hd = constant_header (length value);
          cp = il_cpindex st + length hd
      in if cp + length value \<le> MAX_BUFFER_SIZE
         then Inr (st\<lparr>il_data := write_bytes cp value (write_bytes (il_cpindex st) hd (il_data st)),
                     il_cpindex := cp + length value\<rparr>, retval)
         else Inl Out_Of_Bounds)"

section \<open>Emission of one instruction\<close>

text \<open>
  The variadic argument is a symbol record, a null pointer (\<open>rec = None\<close>) or a number; only the one
  the opcode reads matters. \<open>emit\<close> stores the bytes of the instruction and moves the code size.
\<close>

definition emit :: "nat \<Rightarrow> nat \<Rightarrow> (buf \<Rightarrow> buf) \<Rightarrow> ilstate \<Rightarrow> (ilstate \<times> nat) result" where
  "emit off szinst f st =
     (if off + szinst \<le> MAX_BUFFER_SIZE
      then Inr (st\<lparr>il_code := f (il_code st), il_code_size := max (il_code_size st) (off + szinst)\<rparr>, szinst)
      else Inl Out_Of_Bounds)"

definition with_rec :: "symrec option \<Rightarrow> (u16 \<Rightarrow> 'a result) \<Rightarrow> 'a result" where
  "with_rec rec k = (case rec of None \<Rightarrow> Inl Null_Deref | Some r \<Rightarrow> k (of_nat (sy_offset r)))"

definition is_gencode :: "nat \<Rightarrow> u8 \<Rightarrow> symrec option \<Rightarrow> nat \<Rightarrow> ilstate \<Rightarrow> (ilstate \<times> nat) result" where
  "is_gencode off opcode rec num st =
     (case ins_class opcode of
        C_Lbl \<Rightarrow> (case rec of None \<Rightarrow> emit off 0 id st
                  | Some r \<Rightarrow> bind_r (is_push_lblrec off (sy_name r) st) (emit off 0 id))
      | C_Var \<Rightarrow> with_rec rec (\<lambda>index. emit off 2 (\<lambda>b. b(off := opcode, Suc off := ucast index)) st)
      | C_Store \<Rightarrow> with_rec rec (\<lambda>index. emit off 2 (\<lambda>b. b(off := opcode, Suc off := ucast index)) st)
      | C_Switch \<Rightarrow> with_rec rec (\<lambda>index. emit off 3 (\<lambda>b. put_operand (Suc off) index (b(off := opcode))) st)
      | C_Plain \<Rightarrow> emit off 1 (\<lambda>b. b(off := opcode)) st
      | C_Sys \<Rightarrow>
          (let index = (of_nat num :: u16) in
           if index < 254 then emit off 2 (\<lambda>b. b(off := opcode, Suc off := ucast index)) st
           else emit off 4 (\<lambda>b. b(off := opcode, Suc off := 255, off + 2 := ucast (index div 256),
                                  off + 3 := ucast index)) st)
      | C_Ctx \<Rightarrow> emit off 2 (\<lambda>b. b(off := opcode, Suc off := of_nat num)) st
      | C_Other \<Rightarrow> emit off 0 id st
      | _ \<Rightarrow> with_rec rec (\<lambda>index. emit off 3 (\<lambda>b. put_operand (Suc off) index (b(off := opcode))) st))"

section \<open>Linking\<close>

text \<open>
  The jump table of a switch: two bytes of default target, then for each case the index of the
  constant to compare with and the target. The length is the first byte of the pool entry.
\<close>

function jumptable_loop :: "nat \<Rightarrow> nat \<Rightarrow> nat \<Rightarrow> nat \<Rightarrow> nat \<Rightarrow> buf \<Rightarrow> buf result" where
  "jumptable_loop pc jt cp_size add i d =
     (if i < cp_size then
        if jt + i + 3 < MAX_BUFFER_SIZE then
          let d1 = put_operand (jt + i) (get_operand d (jt + i) + of_nat add - of_nat pc) d;
              d2 = put_operand (jt + i + 2) (get_operand d1 (jt + i + 2) - of_nat pc) d1
          in jumptable_loop pc jt cp_size add (i + 4) d2
        else Inl Out_Of_Bounds
      else Inr d)"
  by pat_completeness auto
termination by (relation "measure (\<lambda>(pc, jt, cp_size, add, i, d). cp_size - i)") auto

declare jumptable_loop.simps [simp del]

definition is_jumptable_reloc :: "nat \<Rightarrow> nat \<Rightarrow> nat \<Rightarrow> buf \<Rightarrow> buf result" where
  "is_jumptable_reloc pc jt_offset offset2add d =
     (let cp_size = unat (d jt_offset); jt = Suc jt_offset in
      if jt + 1 < MAX_BUFFER_SIZE
      then jumptable_loop pc jt cp_size offset2add 2 (put_operand jt (get_operand d jt - of_nat pc) d)
      else Inl Out_Of_Bounds)"

text \<open>The length of the instruction at \<open>pc\<close> as the linker steps over it.\<close>

definition ins_len :: "buf \<Rightarrow> nat \<Rightarrow> nat" where
  "ins_len b pc =
     (case ins_class (b pc) of
        C_Lbl \<Rightarrow> unat (b (Suc pc)) + 2
      | C_Var \<Rightarrow> 2 | C_Store \<Rightarrow> 2 | C_Ctx \<Rightarrow> 2
      | C_Plain \<Rightarrow> 1 | C_Other \<Rightarrow> 1
      | C_Sys \<Rightarrow> if b (Suc pc) < 254 then 2 else 4
      | _ \<Rightarrow> 3)"

text \<open>One pass of the loop body: the new buffers; the pc moves on by \<open>ins_len\<close>.\<close>

definition link_step :: "nat \<Rightarrow> nat \<Rightarrow> buf \<Rightarrow> buf \<Rightarrow> (buf \<times> buf) result" where
  "link_step sz pc code data =
     (if pc + (if ins_class (code pc) = C_Lbl then 2 else ins_len code pc) > MAX_BUFFER_SIZE then Inl Out_Of_Bounds
      else case ins_class (code pc) of
        C_Jump \<Rightarrow> Inr (put_operand (Suc pc) (get_operand code (Suc pc) - of_nat pc) code, data)
      | C_Switch \<Rightarrow>
          bind_r (is_jumptable_reloc pc (unat (get_operand code (Suc pc))) sz data) (\<lambda>data'.
            Inr (put_operand (Suc pc) (get_operand code (Suc pc) + of_nat sz - of_nat pc) code, data'))
      | C_New \<Rightarrow> Inr (put_operand (Suc pc) (get_operand code (Suc pc) + of_nat sz - of_nat pc) code, data)
      | C_Ext \<Rightarrow> Inr (put_operand (Suc pc) (get_operand code (Suc pc) + of_nat sz - of_nat pc) code, data)
      | C_Const \<Rightarrow> Inr (put_operand (Suc pc) (get_operand code (Suc pc) + of_nat sz - of_nat pc) code, data)
      | _ \<Rightarrow> Inr (code, data))"

text \<open>The package method a label belongs to gets the offset of the label.\<close>

definition set_method_offset :: "ilstate \<Rightarrow> nat \<Rightarrow> (addr \<Rightarrow> nat) \<Rightarrow> addr \<Rightarrow> nat" where
  "set_method_offset st pc offs =
     (case is_get_lblrec pc st of None \<Rightarrow> offs
      | Some l \<Rightarrow> if lb_tag l = 0 then offs else offs(lb_tag l := pc))"

lemma ins_len_pos [simp]: "0 < ins_len b pc"
  by (cases "ins_class (b pc)") (simp_all add: ins_len_def)

function link_loop :: "ilstate \<Rightarrow> nat \<Rightarrow> nat \<Rightarrow> buf \<Rightarrow> buf \<Rightarrow> (addr \<Rightarrow> nat) \<Rightarrow> (buf \<times> buf \<times> (addr \<Rightarrow> nat)) result" where
  "link_loop st sz pc code data offs =
     (if pc = sz then Inr (code, data, offs)
      else if pc \<ge> MAX_BUFFER_SIZE then Inl Out_Of_Bounds
      else case link_step sz pc code data of
        Inl e \<Rightarrow> Inl e
      | Inr (code', data') \<Rightarrow> link_loop st sz (pc + ins_len code pc) code' data' (set_method_offset st pc offs))"
  by pat_completeness auto
termination by (relation "measure (\<lambda>(st, sz, pc, _). MAX_BUFFER_SIZE - pc)") (auto simp: diff_less_mono2)

declare link_loop.simps [simp del]

definition is_link_code :: "nat \<Rightarrow> ilstate \<Rightarrow> (ilstate \<times> nat) result" where
  "is_link_code sz st =
     bind_r (link_loop st sz 0 (il_code st) (il_data st) (pk_offset st)) (\<lambda>(code, data, offs).
       if sz + il_cpindex st \<le> MAX_BUFFER_SIZE
       then Inr (is_clear_lblrec (st\<lparr>il_code := write_bytes sz (read_bytes data 0 (il_cpindex st)) code,
                   il_data := data, il_cpindex := 0, pk_offset := offs\<rparr>), sz + il_cpindex st)
       else Inl Out_Of_Bounds)"


section \<open>The constant pool as an interface\<close>

text \<open>
  How the virtual machine reads the header of a constant, \<^verbatim>\<open>vm_load_constant\<close> in
  \<^verbatim>\<open>StackVM/vm_stack.c\<close>: the length of the value and of the header. For other markers the code
  leaves the header length uninitialised.
\<close>

definition constant_length :: "buf \<Rightarrow> nat \<Rightarrow> (nat \<times> nat) option" where
  "constant_length b off =
     (if b off < 128 then Some (unat (b off), 1)
      else if b off AND 0x0F = 0x01 then Some (unat (b (off + 1)), 2)
      else if b off AND 0x0F = 0x02 then Some (unat (b (off + 1)) * 256 + unat (b (off + 2)), 3)
      else None)"

definition constant_value :: "buf \<Rightarrow> nat \<Rightarrow> u8 list option" where
  "constant_value b off =
     (case constant_length b off of None \<Rightarrow> None | Some (len, llen) \<Rightarrow> Some (read_bytes b (off + llen) len))"

lemma constant_header_length:
  assumes "sz < 65536" "\<forall>j < length (constant_header sz). b (off + j) = constant_header sz ! j"
  shows "constant_length b off = Some (sz, length (constant_header sz))"
proof -
  consider "sz < 128" | "128 \<le> sz" "sz < 256" | "256 \<le> sz" by linarith
  then show ?thesis
  proof cases
    case 1
    with assms have "b off = of_nat sz" by (auto simp: constant_header_def)
    moreover have "(of_nat sz :: u8) < 128" using 1 by (simp add: word_less_nat_alt unat_of_nat)
    ultimately show ?thesis using 1 by (simp add: constant_length_def constant_header_def unat_of_nat)
  next
    case 2
    with assms have "b off = 0x81" "b (off + 1) = of_nat sz"
      by (auto simp: constant_header_def dest: spec [of _ 0] spec [of _ 1])
    with 2 show ?thesis by (simp add: constant_length_def constant_header_def unat_of_nat)
  next
    case 3
    with assms have "b off = 0x82" "b (off + 1) = of_nat (sz div 256)" "b (off + 2) = of_nat (sz mod 256)"
      by (auto simp: constant_header_def numeral_2_eq_2 dest: spec [of _ 0] spec [of _ 1] spec [of _ 2])
    with 3 assms(1) show ?thesis by (simp add: constant_length_def constant_header_def unat_of_nat)
  qed
qed

text \<open>The entry at \<open>off\<close> ends before \<open>n\<close>.\<close>

definition constant_before :: "buf \<Rightarrow> nat \<Rightarrow> nat \<Rightarrow> bool" where
  "constant_before b off n \<longleftrightarrow>
     off < n \<and> (case constant_length b off of None \<Rightarrow> False | Some (len, llen) \<Rightarrow> off + llen + len \<le> n)"

lemma constant_length_cases:
  "constant_length b off = Some (len, llen) \<Longrightarrow> 1 \<le> llen \<and> llen \<le> 3"
  by (auto simp: constant_length_def split: if_splits)

lemma constant_length_shift:
  assumes "constant_length b off = Some (len, llen)" "\<forall>j < llen. c (off' + j) = b (off + j)"
  shows "constant_length c off' = Some (len, llen)"
proof -
  have l: "1 \<le> llen" using constant_length_cases assms(1) by auto
  then have 0: "c off' = b off" using assms(2) by (auto dest: spec [of _ 0])
  show ?thesis
  proof (cases "b off < 128")
    case True
    then show ?thesis using assms(1) 0 by (simp add: constant_length_def)
  next
    case f: False
    then have "2 \<le> llen" using assms(1) by (auto simp: constant_length_def split: if_splits)
    then have 1: "c (off' + 1) = b (off + 1)" using assms(2) by (auto dest: spec [of _ 1])
    show ?thesis
    proof (cases "b off AND 0x0F = 0x01")
      case True
      then show ?thesis using assms(1) f 0 1 by (simp add: constant_length_def)
    next
      case False
      then have "3 \<le> llen" using assms(1) f by (auto simp: constant_length_def split: if_splits)
      then have "c (off' + 2) = b (off + 2)" using assms(2) by (auto dest: spec [of _ 2])
      then show ?thesis using assms(1) f 0 1 False by (simp add: constant_length_def split: if_splits)
    qed
  qed
qed

text \<open>An entry keeps its value wherever its bytes are copied to.\<close>

lemma constant_shift:
  assumes "constant_before b off n" "\<forall>j. off + j < n \<longrightarrow> c (off' + j) = b (off + j)"
  shows "constant_value c off' = constant_value b off \<and> constant_before c off' (off' + (n - off))"
proof -
  obtain len llen where l: "constant_length b off = Some (len, llen)" "off + llen + len \<le> n" "off < n"
    using assms(1) by (auto simp: constant_before_def split: option.splits)
  have c: "constant_length c off' = Some (len, llen)"
    using constant_length_shift [OF l(1), of c off'] assms(2) l(2) by auto
  have "read_bytes c (off' + llen) len = read_bytes b (off + llen) len"
  proof (rule read_bytes_cong)
    fix i assume "i < len"
    then show "c (off' + llen + i) = b (off + llen + i)"
      using assms(2) l(2) by (auto dest: spec [of _ "llen + i"] simp: add.assoc)
  qed
  with l c show ?thesis by (auto simp: constant_value_def constant_before_def)
qed

locale constant_pool =
  fixes push :: "u8 list \<Rightarrow> 's \<Rightarrow> ('s \<times> 'i) result"
    and get :: "'s \<Rightarrow> 'i \<Rightarrow> u8 list option"
    and valid :: "'s \<Rightarrow> 'i \<Rightarrow> bool"
  assumes push_get: "push v s = Inr (s', i) \<Longrightarrow> valid s' i \<and> get s' i = Some v"
    and push_keeps: "push v s = Inr (s', i) \<Longrightarrow> valid s j \<Longrightarrow> valid s' j \<and> get s' j = get s j"
begin

fun push_all :: "u8 list list \<Rightarrow> 's \<Rightarrow> ('s \<times> 'i list) result" where
  "push_all [] s = Inr (s, [])"
| "push_all (v # vs) s = bind_r (push v s) (\<lambda>(s1, i). bind_r (push_all vs s1) (\<lambda>(s2, is). Inr (s2, i # is)))"

lemma push_all_keeps: "push_all vs s = Inr (s', is) \<Longrightarrow> valid s j \<Longrightarrow> valid s' j \<and> get s' j = get s j"
proof (induction vs arbitrary: s "is")
  case (Cons v vs)
  then obtain s1 i is' where p: "push v s = Inr (s1, i)" "push_all vs s1 = Inr (s', is')"
    by (auto simp: bind_r_Inr_iff)
  with Cons.IH [OF p(2)] push_keeps [OF p(1) Cons.prems(2)] show ?case by simp
qed simp

lemma push_all_get: "push_all vs s = Inr (s', is) \<Longrightarrow> map (get s') is = map Some vs"
proof (induction vs arbitrary: s "is")
  case (Cons v vs)
  then obtain s1 i is' where p: "push v s = Inr (s1, i)" "push_all vs s1 = Inr (s', is')" "is = i # is'"
    by (auto simp: bind_r_Inr_iff)
  with Cons.IH [OF p(2)] push_all_keeps [OF p(2)] push_get [OF p(1)] show ?case by simp
qed simp

end

definition pool_valid :: "ilstate \<Rightarrow> u16 \<Rightarrow> bool" where
  "pool_valid st i \<longleftrightarrow> constant_before (il_data st) (unat i) (il_cpindex st)"

definition pool_get :: "ilstate \<Rightarrow> u16 \<Rightarrow> u8 list option" where
  "pool_get st i = constant_value (il_data st) (unat i)"

lemma push_constant_get:
  assumes "is_push_constant v st = Inr (st', i)"
  shows "pool_valid st' i \<and> pool_get st' i = Some v \<and> unat i = il_cpindex st"
proof -
  let ?h = "constant_header (length v)" and ?o = "il_cpindex st"
  have h: "0 < length ?h" by (simp add: constant_header_def)
  from assms have fit: "?o + length ?h + length v \<le> 65536" and i: "i = of_nat ?o"
    and st': "il_cpindex st' = ?o + length ?h + length v"
      "il_data st' = write_bytes (?o + length ?h) v (write_bytes ?o ?h (il_data st))"
    by (auto simp: is_push_constant_def Let_def MAX_BUFFER_SIZE_def split: if_splits)
  have "?o < 65536" using fit h by linarith
  then have u: "unat i = ?o" using i by (simp add: unat_of_nat)
  have "length v < 65536" using fit h by linarith
  then have c: "constant_length (il_data st') ?o = Some (length v, length ?h)"
    by (rule constant_header_length) (simp add: st')
  moreover have "read_bytes (il_data st') (?o + length ?h) (length v) = v"
    by (simp add: st')
  ultimately show ?thesis using h
    by (simp add: pool_valid_def pool_get_def constant_value_def constant_before_def u st'(1))
qed

lemma push_constant_keeps:
  assumes "is_push_constant v st = Inr (st', i)" "pool_valid st j"
  shows "pool_valid st' j \<and> pool_get st' j = pool_get st j"
proof -
  from assms(1) have le: "il_cpindex st \<le> il_cpindex st'" and s: "\<forall>k < il_cpindex st. il_data st' k = il_data st k"
    by (auto simp: is_push_constant_def Let_def split: if_splits)
  have b: "constant_before (il_data st) (unat j) (il_cpindex st)" using assms(2) by (simp add: pool_valid_def)
  then have "unat j < il_cpindex st" by (simp add: constant_before_def)
  with constant_shift [OF b, of "il_data st'" "unat j"] s le show ?thesis
    by (auto simp: pool_valid_def pool_get_def constant_before_def split: option.splits)
qed

interpretation cp: constant_pool is_push_constant pool_get pool_valid
  by unfold_locales (use push_constant_get push_constant_keeps in auto)


section \<open>Linking\<close>

text \<open>
  The sequence of instructions in a code buffer: \<open>parses b sz pc\<close> says that stepping from \<open>pc\<close> by
  instruction lengths ends exactly at \<open>sz\<close>, \<open>ins_starts\<close> lists the places it passes.
\<close>

function parses :: "buf \<Rightarrow> nat \<Rightarrow> nat \<Rightarrow> bool" where
  "parses b sz pc = (if pc < sz then parses b sz (pc + ins_len b pc) else pc = sz)"
  by pat_completeness auto
termination by (relation "measure (\<lambda>(b, sz, pc). sz - pc)") (auto simp: diff_less_mono2)

function ins_starts :: "buf \<Rightarrow> nat \<Rightarrow> nat \<Rightarrow> nat list" where
  "ins_starts b sz pc = (if pc < sz then pc # ins_starts b sz (pc + ins_len b pc) else [])"
  by pat_completeness auto
termination by (relation "measure (\<lambda>(b, sz, pc). sz - pc)") (auto simp: diff_less_mono2)

declare parses.simps [simp del] ins_starts.simps [simp del]

definition pool_class :: "ins_class \<Rightarrow> bool" where
  "pool_class c \<longleftrightarrow> c = C_Switch \<or> c = C_New \<or> c = C_Ext \<or> c = C_Const"

text \<open>The code part of one link step and the relocation of all jump tables.\<close>

definition reloc_class :: "ins_class \<Rightarrow> bool" where
  "reloc_class c \<longleftrightarrow> c = C_Jump \<or> pool_class c"

definition patch :: "nat \<Rightarrow> nat \<Rightarrow> buf \<Rightarrow> buf" where
  "patch sz p b =
     (if ins_class (b p) = C_Jump then put_operand (Suc p) (get_operand b (Suc p) - of_nat p) b
      else if pool_class (ins_class (b p)) then put_operand (Suc p) (get_operand b (Suc p) + of_nat sz - of_nat p) b
      else b)"

fun reloc_tables :: "nat \<Rightarrow> buf \<Rightarrow> nat list \<Rightarrow> buf \<Rightarrow> buf result" where
  "reloc_tables sz code [] data = Inr data"
| "reloc_tables sz code (p # ps) data =
     (if ins_class (code p) = C_Switch
      then bind_r (is_jumptable_reloc p (unat (get_operand code (Suc p))) sz data) (reloc_tables sz code ps)
      else reloc_tables sz code ps data)"

lemma parses_le: "parses b sz pc \<Longrightarrow> pc \<le> sz"
  by (auto simp: parses.simps [of b sz pc] split: if_splits)

lemma parses_step: "parses b sz pc \<Longrightarrow> pc < sz \<Longrightarrow> parses b sz (pc + ins_len b pc)"
  by (simp add: parses.simps [of b sz pc])

lemma ins_len_cong: "b pc = c pc \<Longrightarrow> b (Suc pc) = c (Suc pc) \<Longrightarrow> ins_len b pc = ins_len c pc"
  by (cases "ins_class (c pc)") (simp_all add: ins_len_def)

lemma walk_cong: "\<forall>i \<ge> pc. b i = c i \<Longrightarrow> parses b sz pc = parses c sz pc \<and> ins_starts b sz pc = ins_starts c sz pc"
proof (induction b sz pc rule: ins_starts.induct)
  case (1 b sz pc)
  then have "ins_len b pc = ins_len c pc" by (intro ins_len_cong) auto
  with 1 show ?case
    by (simp add: parses.simps [of _ sz pc] ins_starts.simps [of _ sz pc])
qed

lemma ins_starts_ge: "p \<in> set (ins_starts b sz pc) \<Longrightarrow> pc \<le> p \<and> p < sz"
proof (induction b sz pc rule: ins_starts.induct)
  case (1 b sz pc)
  show ?case
  proof (cases "pc < sz")
    case True
    with 1 show ?thesis by (auto simp: ins_starts.simps [of _ sz pc])
  next
    case False
    with 1 show ?thesis by (simp add: ins_starts.simps [of _ sz pc])
  qed
qed

lemma reloc_tables_cong:
  "\<forall>p \<in> set ps. c p = b p \<and> c (Suc p) = b (Suc p) \<and> c (Suc (Suc p)) = b (Suc (Suc p)) \<Longrightarrow>
   reloc_tables sz c ps d = reloc_tables sz b ps d"
proof (induction ps arbitrary: d)
  case (Cons p ps)
  then have "get_operand c (Suc p) = get_operand b (Suc p)" by (intro get_operand_cong) auto
  with Cons show ?case by (cases "is_jumptable_reloc p (unat (get_operand b (Suc p))) sz d") auto
qed simp

text \<open>A patched instruction has its operand inside its own three bytes.\<close>

lemma patch_outside: "i < Suc p \<or> p + ins_len b p \<le> i \<Longrightarrow> patch sz p b i = b i"
proof -
  assume "i < Suc p \<or> p + ins_len b p \<le> i"
  moreover have "ins_len b p = 3" if "ins_class (b p) = C_Jump \<or> pool_class (ins_class (b p))"
    using that by (auto simp: ins_len_def pool_class_def)
  ultimately show ?thesis by (auto simp: patch_def)
qed

lemma link_step_patch:
  assumes "pc + ins_len code pc \<le> MAX_BUFFER_SIZE"
  shows "link_step sz pc code data =
    (if ins_class (code pc) = C_Switch
     then bind_r (is_jumptable_reloc pc (unat (get_operand code (Suc pc))) sz data) (\<lambda>d. Inr (patch sz pc code, d))
     else Inr (patch sz pc code, data))"
proof -
  have "pc + (if ins_class (code pc) = C_Lbl then 2 else ins_len code pc) \<le> MAX_BUFFER_SIZE"
    using assms by (auto simp: ins_len_def)
  then show ?thesis
    by (cases "ins_class (code pc)") (simp_all add: link_step_def patch_def pool_class_def)
qed

lemma link_loop_exact:
  assumes "parses code sz pc" "sz \<le> MAX_BUFFER_SIZE"
  shows "link_loop st sz pc code data offs =
    bind_r (reloc_tables sz code (ins_starts code sz pc) data) (\<lambda>d.
      Inr (fold (patch sz) (ins_starts code sz pc) code, d, fold (set_method_offset st) (ins_starts code sz pc) offs))"
  using assms
proof (induction "sz - pc" arbitrary: pc code data offs rule: less_induct)
  case less
  show ?case
  proof (cases "pc < sz")
    case False
    with parses_le [OF less.prems(1)] have "pc = sz" by simp
    then show ?thesis by (simp add: link_loop.simps [of st sz sz] ins_starts.simps [of code sz sz])
  next
    case True
    let ?n = "pc + ins_len code pc" and ?c = "patch sz pc code"
    have pn: "parses code sz ?n" using parses_step less.prems(1) True by blast
    have agree: "\<forall>i \<ge> ?n. ?c i = code i" using patch_outside by auto
    have pc': "parses ?c sz ?n" and st': "ins_starts ?c sz ?n = ins_starts code sz ?n"
      using walk_cong [OF agree] pn by auto
    have rl: "reloc_tables sz ?c (ins_starts code sz ?n) d = reloc_tables sz code (ins_starts code sz ?n) d" for d
      using agree ins_starts_ge [of _ code sz ?n] by (intro reloc_tables_cong) fastforce
    have m: "sz - ?n < sz - pc" using True by (simp add: diff_less_mono2)
    note ih = less.hyps [OF m pc' less.prems(2), unfolded st' rl]
    have step: "link_step sz pc code data =
      (if ins_class (code pc) = C_Switch
       then bind_r (is_jumptable_reloc pc (unat (get_operand code (Suc pc))) sz data) (\<lambda>d. Inr (?c, d))
       else Inr (?c, data))"
      using parses_le [OF pn] less.prems(2) by (intro link_step_patch) auto
    show ?thesis
      using True less.prems(2)
      by (cases "is_jumptable_reloc pc (unat (get_operand code (Suc pc))) sz data")
        (simp_all add: link_loop.simps [of st sz pc] ins_starts.simps [of code sz pc] step ih)
  qed
qed

lemma patch_all:
  assumes "parses code sz pc" "\<forall>i \<ge> pc. c i = code i"
  defines "r \<equiv> fold (patch sz) (ins_starts code sz pc) c"
  shows "(\<forall>i. i < pc \<or> sz \<le> i \<longrightarrow> r i = c i) \<and>
    (\<forall>p \<in> set (ins_starts code sz pc). r p = code p \<and>
      (reloc_class (ins_class (code p)) \<longrightarrow> get_operand r (Suc p) = get_operand (patch sz p code) (Suc p)))"
  using assms(1,2) unfolding r_def
proof (induction "sz - pc" arbitrary: pc c rule: less_induct)
  case less
  show ?case
  proof (cases "pc < sz")
    case False
    then show ?thesis by (simp add: ins_starts.simps [of code sz pc])
  next
    case True
    let ?n = "pc + ins_len code pc" and ?c = "patch sz pc c"
    let ?r = "fold (patch sz) (ins_starts code sz ?n) ?c"
    have len: "ins_len c pc = ins_len code pc" using less.prems(2) by (intro ins_len_cong) auto
    have pn: "parses code sz ?n" using parses_step less.prems(1) True by blast
    have agree: "\<forall>i \<ge> ?n. ?c i = code i" using patch_outside [of _ pc c sz] len less.prems(2) by auto
    have m: "sz - ?n < sz - pc" using True by (simp add: diff_less_mono2)
    note ih = less.hyps [OF m pn agree]
    have out: "?r i = c i" if "i < pc \<or> sz \<le> i" for i
      using ih patch_outside [of i pc c sz] that len parses_le [OF pn] by auto
    have opc: "?r pc = code pc" using ih patch_outside [of pc pc c sz] less.prems(2) by auto
    have "get_operand ?r (Suc pc) = get_operand (patch sz pc code) (Suc pc)" if "reloc_class (ins_class (code pc))"
    proof -
      have "ins_len code pc = 3" using that by (auto simp: reloc_class_def pool_class_def ins_len_def)
      then have "get_operand ?r (Suc pc) = get_operand ?c (Suc pc)" using ih by (intro get_operand_cong) auto
      moreover have "get_operand c (Suc pc) = get_operand code (Suc pc)" "c pc = code pc"
        using less.prems(2) by (auto intro: get_operand_cong)
      ultimately show ?thesis using that by (auto simp: patch_def reloc_class_def)
    qed
    with out opc ih True show ?thesis by (simp add: ins_starts.simps [of code sz pc])
  qed
qed


text \<open>What the virtual machine computes from a linked operand.\<close>

lemma pool_operand_resolves:
  assumes "p < sz" "unat x + sz < 65536"
  shows "p + unat (x + of_nat sz - of_nat p :: u16) = unat x + sz"
proof -
  have "x + of_nat sz - of_nat p = (of_nat (unat x + sz - p) :: u16)"
    using assms by (simp add: of_nat_diff)
  then have "unat (x + of_nat sz - of_nat p) = (unat x + sz - p) mod 65536" by (simp add: unat_of_nat)
  also have "\<dots> = unat x + sz - p" using assms(2) by (intro mod_less) linarith
  finally show ?thesis using assms(1) by linarith
qed

lemma linked_code:
  assumes "parses (il_code st) sz 0" "sz + il_cpindex st \<le> MAX_BUFFER_SIZE"
    "reloc_tables sz (il_code st) (ins_starts (il_code st) sz 0) (il_data st) = Inr data'"
  obtains st' where "is_link_code sz st = Inr (st', sz + il_cpindex st)"
    "il_lblhead st' = []" "il_cpindex st' = 0"
    "\<And>p. p \<in> set (ins_starts (il_code st) sz 0) \<Longrightarrow> il_code st' p = il_code st p"
    "\<And>p. p \<in> set (ins_starts (il_code st) sz 0) \<Longrightarrow> reloc_class (ins_class (il_code st p)) \<Longrightarrow>
       p + 3 \<le> sz \<Longrightarrow> get_operand (il_code st') (Suc p) = get_operand (patch sz p (il_code st)) (Suc p)"
    "\<And>i. i < il_cpindex st \<Longrightarrow> il_code st' (sz + i) = data' i"
proof -
  let ?r = "fold (patch sz) (ins_starts (il_code st) sz 0) (il_code st)"
  let ?c = "write_bytes sz (read_bytes data' 0 (il_cpindex st)) ?r"
  let ?st = "is_clear_lblrec (st\<lparr>il_code := ?c, il_data := data', il_cpindex := 0,
      pk_offset := fold (set_method_offset st) (ins_starts (il_code st) sz 0) (pk_offset st)\<rparr>)"
  have lk: "is_link_code sz st = Inr (?st, sz + il_cpindex st)"
    using link_loop_exact [OF assms(1), of st "il_data st" "pk_offset st"] assms(2,3) by (simp add: is_link_code_def)
  have pa: "?r p = il_code st p"
    "reloc_class (ins_class (il_code st p)) \<Longrightarrow> get_operand ?r (Suc p) = get_operand (patch sz p (il_code st)) (Suc p)"
    if "p \<in> set (ins_starts (il_code st) sz 0)" for p
    using patch_all [OF assms(1), of "il_code st"] that by auto
  show thesis
  proof (rule that [OF lk])
    fix p assume p: "p \<in> set (ins_starts (il_code st) sz 0)"
    then have "p < sz" using ins_starts_ge by blast
    then show "il_code ?st p = il_code st p" using pa p by (simp add: is_clear_lblrec_def)
    assume rc: "reloc_class (ins_class (il_code st p))" and in3: "p + 3 \<le> sz"
    have "get_operand ?c (Suc p) = get_operand ?r (Suc p)" using in3 by (intro get_operand_cong) auto
    then show "get_operand (il_code ?st) (Suc p) = get_operand (patch sz p (il_code st)) (Suc p)"
      using pa p rc by (simp add: is_clear_lblrec_def)
  qed (simp_all add: is_clear_lblrec_def read_bytes_def)
qed

lemma starts_fit: "parses b sz pc \<Longrightarrow> p \<in> set (ins_starts b sz pc) \<Longrightarrow> p + ins_len b p \<le> sz"
proof (induction b sz pc rule: ins_starts.induct)
  case (1 b sz pc)
  then have lt: "pc < sz" by (auto simp: ins_starts.simps [of b sz pc] split: if_splits)
  have pn: "parses b sz (pc + ins_len b pc)" using parses_step 1(2) lt by blast
  from 1(3) lt have "p = pc \<or> p \<in> set (ins_starts b sz (pc + ins_len b pc))"
    by (auto simp: ins_starts.simps [of b sz pc])
  then show ?case using 1(1) [OF lt pn] parses_le [OF pn] by auto
qed

lemma reloc_fits:
  assumes "parses b sz 0" "p \<in> set (ins_starts b sz 0)" "reloc_class (ins_class (b p))"
  shows "p + 3 \<le> sz"
proof -
  have "ins_len b p = 3" using assms(3) by (auto simp: reloc_class_def pool_class_def ins_len_def)
  with starts_fit [OF assms(1,2)] show ?thesis by simp
qed

lemma reloc_tables_no_switch:
  "\<forall>p \<in> set ps. ins_class (code p) \<noteq> C_Switch \<Longrightarrow> reloc_tables sz code ps data = Inr data"
  by (induction ps) auto

text \<open>The length of an emitted instruction is the length the linker steps over.\<close>

lemma gencode_length:
  assumes "is_gencode off op rec num st = Inr (st', n)"
  shows "(n = 0 \<longrightarrow> il_code st' = il_code st) \<and>
    (0 < n \<longrightarrow> ins_len (il_code st') off = n) \<and>
    (\<forall>i < off. il_code st' i = il_code st i) \<and> off + n \<le> MAX_BUFFER_SIZE \<and>
    il_code_size st' = max (il_code_size st) (off + n)"
proof -
  have sys: "unat (ucast (x :: u16) :: u8) < 254" if "x < 254" for x
    using that by (simp add: unsigned_ucast_eq take_bit_eq_mod word_less_nat_alt)
  show ?thesis
    using assms
    by (cases "ins_class op")
      (auto simp: is_gencode_def emit_def with_rec_def ins_len_def Let_def put_operand_bytes
         is_push_lblrec_def is_create_lblrec_def bind_r_def word_less_nat_alt sys
         split: if_splits option.splits sum.splits)
qed


text \<open>A run of the code generator: each call emits behind the previous one.\<close>

fun gen_all :: "(u8 \<times> symrec option \<times> nat) list \<Rightarrow> nat \<Rightarrow> ilstate \<Rightarrow> (ilstate \<times> nat) result" where
  "gen_all [] off st = Inr (st, off)"
| "gen_all ((op, rec, num) # is) off st =
     bind_r (is_gencode off op rec num st) (\<lambda>(st1, n). gen_all is (off + n) st1)"

lemma ins_len_prefix:
  assumes "\<forall>i < sz. b i = c i" "p < sz" "p + ins_len b p \<le> sz"
  shows "ins_len c p = ins_len b p"
proof -
  have "c p = b p" using assms by simp
  moreover have "c (Suc p) = b (Suc p)" if "ins_class (b p) = C_Lbl \<or> ins_class (b p) = C_Sys"
    using assms(1,3) that by (auto simp: ins_len_def split: if_splits)
  ultimately show ?thesis by (cases "ins_class (b p)") (auto simp: ins_len_def)
qed

lemma parses_prefix: "parses b sz pc \<Longrightarrow> \<forall>i < sz. b i = c i \<Longrightarrow> parses c sz pc"
proof (induction b sz pc rule: parses.induct)
  case (1 b sz pc)
  show ?case
  proof (cases "pc < sz")
    case True
    have pn: "parses b sz (pc + ins_len b pc)" using parses_step 1(2) True by blast
    have "ins_len c pc = ins_len b pc" using ins_len_prefix [OF 1(3) True] parses_le [OF pn] by simp
    with 1(1) [OF True pn 1(3)] True show ?thesis by (simp add: parses.simps [of c sz pc])
  next
    case False
    with parses_le [OF 1(2)] have "pc = sz" by simp
    then show ?thesis by (simp add: parses.simps [of c sz sz])
  qed
qed

lemma parses_snoc: "parses b sz pc \<Longrightarrow> ins_len b sz = n \<Longrightarrow> parses b (sz + n) pc"
proof (induction b sz pc rule: parses.induct)
  case (1 b sz pc)
  show ?case
  proof (cases "pc < sz")
    case True
    with 1 parses_step [OF 1(2) True] show ?thesis by (simp add: parses.simps [of _ "sz + n" pc])
  next
    case False
    with parses_le [OF 1(2)] have "pc = sz" by simp
    moreover have "0 < n" using 1(3) ins_len_pos by metis
    ultimately show ?thesis using 1(3) by (simp add: parses.simps [of _ "sz + n" sz] parses.simps [of _ "sz + n" "sz + n"])
  qed
qed

lemma gen_all_parses:
  "gen_all is off st = Inr (st', off') \<Longrightarrow> parses (il_code st) off 0 \<Longrightarrow> il_code_size st = off \<Longrightarrow>
   off \<le> MAX_BUFFER_SIZE \<Longrightarrow>
   parses (il_code st') off' 0 \<and> il_code_size st' = off' \<and> off' \<le> MAX_BUFFER_SIZE"
proof (induction "is" arbitrary: off st)
  case (Cons x "is")
  obtain op rec num where x: "x = (op, rec, num)" by (cases x) auto
  with Cons.prems(1) obtain st1 n where g: "is_gencode off op rec num st = Inr (st1, n)"
    and r: "gen_all is (off + n) st1 = Inr (st', off')" by (auto simp: bind_r_Inr_iff)
  note gl = gencode_length [OF g]
  have "parses (il_code st1) off 0" using parses_prefix [OF Cons.prems(2)] gl by simp
  then have "parses (il_code st1) (off + n) 0" using gl parses_snoc by (cases "n = 0") auto
  then show ?case using Cons.IH [OF r] gl Cons.prems(3) by simp
qed simp

text \<open>One entry of a jump table: the constant to compare with moves behind the code, the target stays.\<close>

definition entry_linked :: "nat \<Rightarrow> nat \<Rightarrow> buf \<Rightarrow> buf \<Rightarrow> nat \<Rightarrow> bool" where
  "entry_linked pc add d d' e \<longleftrightarrow>
     of_nat pc + get_operand d' e = get_operand d e + of_nat add \<and>
     of_nat pc + get_operand d' (e + 2) = get_operand d (e + 2)"

lemma jumptable_loop_correct:
  assumes "i mod 4 = 2" "cp mod 4 = 2" "jt + cp \<le> MAX_BUFFER_SIZE"
  shows "\<exists>d'. jumptable_loop pc jt cp add i d = Inr d' \<and>
    (\<forall>j. j < jt + i \<or> jt + cp \<le> j \<longrightarrow> d' j = d j) \<and>
    (\<forall>k. i + 4 * k < cp \<longrightarrow> entry_linked pc add d d' (jt + (i + 4 * k)))"
  using assms
proof (induction "cp - i" arbitrary: i d rule: less_induct)
  case less
  show ?case
  proof (cases "i < cp")
    case False
    then show ?thesis by (auto simp: jumptable_loop.simps [of pc jt cp add i d])
  next
    case True
    have i4: "i + 4 \<le> cp" using True less.prems(1,2) by presburger
    let ?d1 = "put_operand (jt + i) (get_operand d (jt + i) + of_nat add - of_nat pc) d"
    let ?d2 = "put_operand (jt + i + 2) (get_operand ?d1 (jt + i + 2) - of_nat pc) ?d1"
    have "(i + 4) mod 4 = 2" "cp - (i + 4) < cp - i" using less.prems(1) i4 by auto
    with less.hyps [of "i + 4" ?d2] less.prems obtain d' where l: "jumptable_loop pc jt cp add (i + 4) ?d2 = Inr d'"
      and u: "\<forall>j. j < jt + (i + 4) \<or> jt + cp \<le> j \<longrightarrow> d' j = ?d2 j"
      and e: "\<forall>k. i + 4 + 4 * k < cp \<longrightarrow> entry_linked pc add ?d2 d' (jt + (i + 4 + 4 * k))" by blast
    have out: "?d2 j = d j" if "j < jt + i \<or> jt + i + 4 \<le> j" for j using that by auto
    have g: "get_operand ?d2 j = get_operand d j" if "jt + i + 4 \<le> j" for j
      using that out by (intro get_operand_cong) auto
    have d'g: "get_operand d' j = get_operand ?d2 j" if "Suc j < jt + i + 4" for j
      using that u by (intro get_operand_cong) auto
    have "entry_linked pc add d d' (jt + i)"
      by (simp add: entry_linked_def d'g get_put_operand_other)
    moreover have "entry_linked pc add d d' (jt + (i + 4 * k))" if lt: "i + 4 * k < cp" and pos: "0 < k" for k
    proof -
      obtain k' where k': "k = Suc k'" using pos by (cases k) auto
      with e lt have "entry_linked pc add ?d2 d' (jt + (i + 4 + 4 * k'))" by simp
      moreover have "jt + (i + 4 * k) = jt + (i + 4 + 4 * k')" using k' by simp
      moreover have "jt + i + 4 \<le> jt + (i + 4 + 4 * k')" by simp
      ultimately show ?thesis unfolding entry_linked_def using g by (metis trans_le_add1)
    qed
    ultimately have "\<forall>k. i + 4 * k < cp \<longrightarrow> entry_linked pc add d d' (jt + (i + 4 * k))"
      by (metis add_0_right mult_0_right neq0_conv)
    moreover have "jt + i + 3 < MAX_BUFFER_SIZE" using i4 less.prems(3) by linarith
    ultimately show ?thesis using True l u out i4
      by (auto simp: jumptable_loop.simps [of pc jt cp add i d] Let_def)
  qed
qed

section \<open>Properties\<close>

definition il_empty :: ilstate where
  "il_empty = \<lparr>il_code = (\<lambda>_. 0), il_data = (\<lambda>_. 0), il_cpindex = 0, il_code_size = 0, il_lblhead = [], pk_offset = (\<lambda>_. 0)\<rparr>"

fun push_constants :: "u8 list list \<Rightarrow> ilstate \<Rightarrow> (ilstate \<times> u16 list) result" where
  "push_constants [] st = Inr (st, [])"
| "push_constants (v # vs) st =
     bind_r (is_push_constant v st) (\<lambda>(s1, i). bind_r (push_constants vs s1) (\<lambda>(s2, is). Inr (s2, i # is)))"

lemma push_constants_eq: "push_constants vs st = cp.push_all vs st"
  by (induction vs arbitrary: st) simp_all

text \<open>C5: The constant pool. After any sequence of values has been pushed, the virtual machine's decoding
  of the entry at each returned index gives back exactly the value that was pushed there: no later entry
  disturbs an earlier one, for values of any length up to the size of the buffer.\<close>
theorem constant_pool_roundtrip:
  assumes "push_constants vs st = Inr (st', is)"
  shows "map (\<lambda>i. constant_value (il_data st') (unat i)) is = map Some vs"
  using cp.push_all_get [of vs st st' "is"] assms
  by (simp add: push_constants_eq pool_get_def [abs_def])

theorem constant_pool_roundtrip_witness:
  "\<exists>st'. push_constants [[65, 66], [67]] il_empty = Inr (st', [0, 3]) \<and>
     constant_value (il_data st') 0 = Some [65, 66] \<and> constant_value (il_data st') 3 = Some [67]"
proof -
  obtain st' where p: "push_constants [[65, 66], [67]] il_empty = Inr (st', [0, 3])"
    by (simp add: is_push_constant_def constant_header_def il_empty_def MAX_BUFFER_SIZE_def Let_def)
  from constant_pool_roundtrip [OF p] p show ?thesis by auto
qed

text \<open>C8: Emission and linking agree. The buffer filled by any run of the code generator splits, from its
  start to the recorded code size, into instructions of exactly the lengths the linker steps over, so the
  linker's loop, which runs until its counter equals the size, ends.\<close>
theorem gencode_output_links:
  assumes "gen_all is 0 (is_init st) = Inr (st', off)"
  shows "parses (il_code st') (il_code_size st') 0 \<and> il_code_size st' = off \<and>
    (\<forall>d. reloc_tables off (il_code st') (ins_starts (il_code st') off 0) (il_data st') = Inr d \<longrightarrow>
      (\<exists>c offs'. link_loop st' off 0 (il_code st') (il_data st') offs = Inr (c, d, offs')))"
proof -
  have "parses (il_code (is_init st)) 0 0" by (simp add: parses.simps)
  with gen_all_parses [OF assms] have g: "parses (il_code st') off 0" "il_code_size st' = off" "off \<le> MAX_BUFFER_SIZE"
    by (auto simp: is_init_def)
  with link_loop_exact [OF g(1,3), of st' "il_data st'" offs] show ?thesis by auto
qed

theorem gencode_output_links_witness:
  "\<exists>st'. gen_all [(INS_OBJCONST, Some (st_sym_create 8 SYM_TYPE_CONST [65] 0), 0), (INS_SYSCALL, None, 300), (INS_RET, None, 0)] 0
      (is_init il_empty) = Inr (st', 8) \<and> parses (il_code st') 8 0"
proof -
  let ?is = "[(INS_OBJCONST, Some (st_sym_create 8 SYM_TYPE_CONST [65] 0), 0), (INS_SYSCALL, None, 300), (INS_RET, None, 0)]"
  have c: "ins_class 16 = C_Const" "ins_class 128 = C_Sys" "ins_class 126 = C_Plain" by (simp_all add: class_defs)
  obtain st' where g: "gen_all ?is 0 (is_init il_empty) = Inr (st', 8)"
    by (simp add: is_gencode_def c ins_defs with_rec_def emit_def is_init_def il_empty_def MAX_BUFFER_SIZE_def Let_def)
  from gencode_output_links [OF g, of "pk_offset st'"] have "parses (il_code st') 8 0" by metis
  with g show ?thesis by blast
qed

text \<open>C1: Linking. On code that splits into instructions and whose jump tables lie in the data buffer, the
  linker succeeds and returns the size of code and constants together; every opcode stays; every jump or
  call operand plus its own pc is, in the 16-bit arithmetic of the virtual machine, the target the
  generator wrote; every operand that names a pool entry plus its own pc is the place of that entry behind
  the code; and the constant pool follows the code unchanged but for the relocated jump tables.\<close>
theorem is_link_code_correct:
  assumes "parses (il_code st) sz 0" "sz + il_cpindex st \<le> MAX_BUFFER_SIZE"
    "reloc_tables sz (il_code st) (ins_starts (il_code st) sz 0) (il_data st) = Inr data'"
  shows "\<exists>st'. is_link_code sz st = Inr (st', sz + il_cpindex st) \<and>
    (\<forall>p \<in> set (ins_starts (il_code st) sz 0). il_code st' p = il_code st p \<and>
      (ins_class (il_code st p) = C_Jump \<longrightarrow>
         of_nat p + get_operand (il_code st') (Suc p) = get_operand (il_code st) (Suc p)) \<and>
      (pool_class (ins_class (il_code st p)) \<and> unat (get_operand (il_code st) (Suc p)) + sz < 65536 \<longrightarrow>
         p + unat (get_operand (il_code st') (Suc p)) = unat (get_operand (il_code st) (Suc p)) + sz)) \<and>
    (\<forall>i < il_cpindex st. il_code st' (sz + i) = data' i)"
proof -
  from assms obtain st' where lk: "is_link_code sz st = Inr (st', sz + il_cpindex st)"
    and op: "\<And>p. p \<in> set (ins_starts (il_code st) sz 0) \<Longrightarrow> il_code st' p = il_code st p"
    and ar: "\<And>p. p \<in> set (ins_starts (il_code st) sz 0) \<Longrightarrow> reloc_class (ins_class (il_code st p)) \<Longrightarrow>
       p + 3 \<le> sz \<Longrightarrow> get_operand (il_code st') (Suc p) = get_operand (patch sz p (il_code st)) (Suc p)"
    and dt: "\<And>i. i < il_cpindex st \<Longrightarrow> il_code st' (sz + i) = data' i"
    by (rule linked_code) blast
  have ar': "get_operand (il_code st') (Suc p) = get_operand (patch sz p (il_code st)) (Suc p)"
    if "p \<in> set (ins_starts (il_code st) sz 0)" "reloc_class (ins_class (il_code st p))" for p
    using ar reloc_fits [OF assms(1)] that by blast
  show ?thesis
    using lk op dt ar' ins_starts_ge [of _ "il_code st" sz 0] pool_operand_resolves
    by (auto simp: reloc_class_def patch_def pool_class_def)
qed

definition jump_demo :: ilstate where
  "jump_demo = il_empty\<lparr>il_code := (\<lambda>_. 0)(0 := INS_OBJCONST, 1 := 0, 2 := 0, 3 := INS_JMP, 4 := 0, 5 := 0, 6 := INS_RET),
     il_data := (\<lambda>_. 0)(0 := 1, 1 := 65), il_cpindex := 2, il_code_size := 7\<rparr>"

theorem is_link_code_correct_witness:
  "parses (il_code jump_demo) 7 0 \<and> ins_starts (il_code jump_demo) 7 0 = [0, 3, 6] \<and>
   (\<exists>st'. is_link_code 7 jump_demo = Inr (st', 9) \<and> 3 + get_operand (il_code st') 4 = 0 \<and>
      unat (get_operand (il_code st') 1) = 7)"
proof -
  have c: "ins_class 16 = C_Const" "ins_class 70 = C_Jump" "ins_class 126 = C_Plain" by (simp_all add: class_defs)
  note ev = jump_demo_def il_empty_def ins_len_def ins_defs c get_operand_def load16_def end_swap16_shifts
  have s: "ins_starts (il_code jump_demo) 7 0 = [0, 3, 6]" by (simp add: ins_starts.simps ev)
  have p: "parses (il_code jump_demo) 7 0" by (simp add: parses.simps ev)
  have r: "reloc_tables 7 (il_code jump_demo) (ins_starts (il_code jump_demo) 7 0) (il_data jump_demo) = Inr (il_data jump_demo)"
    unfolding s by (simp add: ev)
  have f: "7 + il_cpindex jump_demo \<le> MAX_BUFFER_SIZE" by (simp add: ev MAX_BUFFER_SIZE_def)
  have o: "get_operand (il_code jump_demo) 1 = 0" "get_operand (il_code jump_demo) 4 = 0" by (simp_all add: ev)
  have i: "ins_class (il_code jump_demo 0) = C_Const" "ins_class (il_code jump_demo 3) = C_Jump" by (simp_all add: ev)
  from is_link_code_correct [OF p f r, unfolded s] obtain st' where
    "is_link_code 7 jump_demo = Inr (st', 7 + il_cpindex jump_demo)"
    "of_nat 3 + get_operand (il_code st') (Suc 3) = get_operand (il_code jump_demo) (Suc 3)"
    "0 + unat (get_operand (il_code st') (Suc 0)) = unat (get_operand (il_code jump_demo) (Suc 0)) + 7"
    using i o by (auto simp: pool_class_def)
  then show ?thesis using s p o by (auto simp: jump_demo_def)
qed


text \<open>C20: Jump tables. For a table of the constant pool at \<open>jt\<close> whose length fits the one-byte header, so that it has at
  most 127 bytes (31 cases), and that has the form of a jump table, two bytes for the default and four for each
  case, the relocation turns the default target and every case target into a pc-relative one, moves every constant
  the switch compares with behind the code, and changes nothing outside the table. A table of 32 or more cases has a
  header of two or three bytes, which the code takes for one byte, and its entries are misread.\<close>
theorem is_jumptable_reloc_correct:
  assumes "constant_length d jt = Some (len, 1)" "len mod 4 = 2" "jt + 1 + len \<le> MAX_BUFFER_SIZE"
  shows "\<exists>d'. is_jumptable_reloc pc jt add d = Inr d' \<and>
    (\<forall>j. j \<le> jt \<or> jt + 1 + len \<le> j \<longrightarrow> d' j = d j) \<and>
    of_nat pc + get_operand d' (jt + 1) = get_operand d (jt + 1) \<and>
    (\<forall>k. 2 + 4 * k < len \<longrightarrow> entry_linked pc add d d' (jt + 1 + (2 + 4 * k)))"
proof -
  have hd: "unat (d jt) = len" using assms(1) by (simp add: constant_length_def split: if_splits)
  let ?cp = "unat (d jt)" and ?d = "put_operand (Suc jt) (get_operand d (Suc jt) - of_nat pc) d"
  have c2: "2 \<le> ?cp" using assms(2) hd by presburger
  obtain d' where l: "jumptable_loop pc (Suc jt) ?cp add 2 ?d = Inr d'"
    and u: "\<forall>j. j < Suc jt + 2 \<or> Suc jt + ?cp \<le> j \<longrightarrow> d' j = ?d j"
    and e: "\<forall>k. 2 + 4 * k < ?cp \<longrightarrow> entry_linked pc add ?d d' (Suc jt + (2 + 4 * k))"
    using jumptable_loop_correct [of 2 ?cp "Suc jt" pc add ?d] assms hd by auto
  have "get_operand d' (Suc jt) = get_operand ?d (Suc jt)" using u by (intro get_operand_cong) auto
  then have "of_nat pc + get_operand d' (Suc jt) = get_operand d (Suc jt)" by simp
  moreover have "entry_linked pc add d d' (Suc jt + (2 + 4 * k))" if "2 + 4 * k < ?cp" for k
    using e that by (auto simp: entry_linked_def get_put_operand_other)
  moreover have "is_jumptable_reloc pc jt add d = Inr d'"
    using l assms(3) c2 hd by (simp add: is_jumptable_reloc_def)
  ultimately show ?thesis using u c2 hd by (intro exI [of _ d']) auto
qed

theorem is_jumptable_reloc_correct_witness:
  "(let d = (\<lambda>_ :: nat. 0 :: u8)(0 := 6, 2 := 9, 4 := 7, 6 := 20) in
    constant_length d 0 = Some (6, 1) \<and> (\<exists>d'. is_jumptable_reloc 5 0 100 d = Inr d' \<and>
      5 + get_operand d' 1 = 9 \<and> 5 + get_operand d' 3 = 107 \<and> 5 + get_operand d' 5 = 20))"
proof -
  let ?d = "(\<lambda>_ :: nat. 0 :: u8)(0 := 6, 2 := 9, 4 := 7, 6 := 20)"
  have g: "get_operand ?d 1 = 9" "get_operand ?d 3 = 7" "get_operand ?d 5 = 20"
    by (simp_all add: get_operand_def load16_def end_swap16_shifts)
  have c: "constant_length ?d 0 = Some (6, 1)" by (simp add: constant_length_def)
  have m: "(6 :: nat) mod 4 = 2" "0 + 1 + 6 \<le> MAX_BUFFER_SIZE" by (simp_all add: MAX_BUFFER_SIZE_def)
  obtain d' where "is_jumptable_reloc 5 0 100 ?d = Inr d'" "of_nat 5 + get_operand d' (0 + 1) = get_operand ?d (0 + 1)"
    and e: "\<forall>k. 2 + 4 * k < 6 \<longrightarrow> entry_linked 5 100 ?d d' (0 + 1 + (2 + 4 * k))"
    using is_jumptable_reloc_correct [OF c m, of 5 100] by blast
  moreover have "entry_linked 5 100 ?d d' 3" using e [rule_format, of 0] by (simp add: numeral_3_eq_3)
  ultimately show ?thesis using g c by (auto simp: entry_linked_def)
qed

text \<open>
  A constant reaches the machine: for the last value of the pool, loaded at place \<open>p\<close> by generated code that
  is free of switch tables, the entry the linked operand at \<open>p\<close> leads to holds exactly that value and
  lies inside the linked code.
\<close>

lemma linked_constant:
  assumes "is_push_constant v st0 = Inr (st, i)" "parses (il_code st) sz 0"
    "sz + il_cpindex st < 65536" "\<forall>q \<in> set (ins_starts (il_code st) sz 0). ins_class (il_code st q) \<noteq> C_Switch"
    "p \<in> set (ins_starts (il_code st) sz 0)" "ins_class (il_code st p) = C_Const" "get_operand (il_code st) (Suc p) = i"
  shows "\<exists>st'. is_link_code sz st = Inr (st', sz + il_cpindex st) \<and> il_code st' p = il_code st p \<and>
    constant_value (il_code st') (p + unat (get_operand (il_code st') (Suc p))) = Some v \<and>
    constant_before (il_code st') (p + unat (get_operand (il_code st') (Suc p))) (sz + il_cpindex st)"
proof -
  note pg = push_constant_get [OF assms(1)]
  then have b: "constant_before (il_data st) (unat i) (il_cpindex st)" by (auto simp: pool_valid_def)
  then have lt: "unat i < il_cpindex st" by (simp add: constant_before_def)
  note rt = reloc_tables_no_switch [OF assms(4), of sz "il_data st"]
  have mx: "sz + il_cpindex st \<le> MAX_BUFFER_SIZE" using assms(3) by (simp add: MAX_BUFFER_SIZE_def)
  obtain st' where lk: "is_link_code sz st = Inr (st', sz + il_cpindex st)" "il_code st' p = il_code st p"
    and ar: "get_operand (il_code st') (Suc p) = get_operand (patch sz p (il_code st)) (Suc p)"
    and dt: "\<And>j. j < il_cpindex st \<Longrightarrow> il_code st' (sz + j) = il_data st j"
    using linked_code [OF assms(2) mx rt] reloc_fits [OF assms(2,5)] assms(5,6)
    by (metis reloc_class_def pool_class_def)
  have "p + unat (get_operand (il_code st') (Suc p)) = sz + unat i"
    using ar assms(3,6,7) lt ins_starts_ge [OF assms(5)] pool_operand_resolves [of p sz i]
    by (simp add: patch_def pool_class_def)
  moreover have "constant_value (il_code st') (sz + unat i) = constant_value (il_data st) (unat i) \<and>
      constant_before (il_code st') (sz + unat i) (sz + unat i + (il_cpindex st - unat i))"
    using constant_shift [OF b, of "il_code st'" "sz + unat i"] dt by (auto simp: add.assoc)
  ultimately show ?thesis using lk pg lt by (auto simp: pool_get_def)
qed

end
