(* ===== verification/PK_Package.thy ===== *)
theory PK_Package
  imports Bytecode
begin

text \<open>
  Packages: the classes, interfaces, methods and try-catch blocks a compiled program carries,
  \<^verbatim>\<open>Stack/pkg_encoder_apis.c\<close> and \<^verbatim>\<open>Stack/pkg_encoder.c\<close>. The structures are linked lists that share nodes, so
  the model has an explicit store of nodes by address, 0 for NULL. One record holds the fields of all
  structures; a field that \<^verbatim>\<open>malloc\<close> leaves unset is \<^term>\<open>None\<close>. Operations that allocate take the address of the
  new node. Names are the bytes before the terminating NUL. A loop over a list that has no end does not
  return, which is \<^term>\<open>None\<close>.
\<close>

section \<open>Nodes\<close>

definition PK_TAG_CLASS :: u8 where "PK_TAG_CLASS = 0xCA"
definition PK_TAG_INTERFACE :: u8 where "PK_TAG_INTERFACE = 0xCC"
definition PK_TAG_METHOD :: u8 where "PK_TAG_METHOD = 0xE0"
definition PK_TAG_TCBLOCK :: u8 where "PK_TAG_TCBLOCK = 0xEE"

lemmas pk_tags = PK_TAG_CLASS_def PK_TAG_INTERFACE_def PK_TAG_METHOD_def PK_TAG_TCBLOCK_def

definition ASN_TAG_CONSTRUCTED :: u8 where "ASN_TAG_CONSTRUCTED = 0x20"
definition ASN_TAG_INTEGER :: u8 where "ASN_TAG_INTEGER = 2"
definition ASN_TAG_OCTSTRING :: u8 where "ASN_TAG_OCTSTRING = 4"
definition ASN_TAG_OBJDESC :: u8 where "ASN_TAG_OBJDESC = 7"
definition ASN_TAG_ENUM :: u8 where "ASN_TAG_ENUM = 10"
definition ASN_TAG_SEQ :: u8 where "ASN_TAG_SEQ = 16"
definition ASN_TAG_IA5STRING :: u8 where "ASN_TAG_IA5STRING = 22"
definition ASN_TAG_CHSTRING :: u8 where "ASN_TAG_CHSTRING = 29"
definition ASN_TAG_BMPSTRING :: u8 where "ASN_TAG_BMPSTRING = 30"

lemmas asn_tags = ASN_TAG_CONSTRUCTED_def ASN_TAG_INTEGER_def ASN_TAG_OCTSTRING_def ASN_TAG_OBJDESC_def ASN_TAG_ENUM_def
  ASN_TAG_SEQ_def ASN_TAG_IA5STRING_def ASN_TAG_CHSTRING_def ASN_TAG_BMPSTRING_def

record pk_node =
  n_tag :: u8
  n_codebase :: addr
  n_next :: addr
  n_parent :: "addr option"
  n_properties :: addr
  n_name :: "u8 list"
  n_libname :: "u8 list"
  n_numargs :: u8
  n_offset :: "32 word"
  n_event :: u8
  n_alias :: "u8 list"
  n_call_type :: "u8 option"
  n_ret_type :: "u8 option"
  n_params :: "u8 option list"
  n_callback :: "addr option"
  n_start :: "32 word"
  n_cblock :: "32 word"

type_synonym pk_mem = "addr \<Rightarrow> pk_node"

definition pk_blank :: "u8 \<Rightarrow> pk_node" where
  "pk_blank tag = \<lparr>n_tag = tag, n_codebase = 0, n_next = 0, n_parent = None, n_properties = 0, n_name = [], n_libname = [],
     n_numargs = 0, n_offset = 0, n_event = 0, n_alias = [], n_call_type = None, n_ret_type = None,
     n_params = replicate 16 None, n_callback = None, n_start = 0, n_cblock = 0\<rparr>"

definition pk_put :: "addr \<Rightarrow> (pk_node \<Rightarrow> pk_node) \<Rightarrow> pk_mem \<Rightarrow> pk_mem" where
  "pk_put a f m = m(a := f (m a))"

text \<open>\<^verbatim>\<open>strcpy\<close> to an array of \<open>n\<close> bytes.\<close>

definition strcpy_to :: "nat \<Rightarrow> u8 list \<Rightarrow> u8 list result" where
  "strcpy_to n s = (if length s < n then Inr s else Inl Out_Of_Bounds)"

section \<open>Creating and selecting\<close>

definition pk_create_method :: "addr \<Rightarrow> u8 list \<Rightarrow> u8 \<Rightarrow> 32 word \<Rightarrow> pk_mem \<Rightarrow> pk_mem result" where
  "pk_create_method a name numargs offset m =
     bind_r (strcpy_to 256 name) (\<lambda>nm.
       Inr (m(a := (pk_blank PK_TAG_METHOD)\<lparr>n_name := nm, n_parent := Some 0, n_numargs := numargs, n_offset := offset,
         n_event := 0xFF\<rparr>)))"

definition pk_create_class :: "addr \<Rightarrow> u8 list \<Rightarrow> pk_mem \<Rightarrow> pk_mem result" where
  "pk_create_class a name m =
     bind_r (strcpy_to 256 name) (\<lambda>nm. Inr (m(a := (pk_blank PK_TAG_CLASS)\<lparr>n_name := nm\<rparr>)))"

definition pk_create_interface :: "addr \<Rightarrow> u8 list \<Rightarrow> u8 list \<Rightarrow> addr \<Rightarrow> pk_mem \<Rightarrow> pk_mem result" where
  "pk_create_interface a name libname base m =
     bind_r (strcpy_to 256 name) (\<lambda>nm.
     bind_r (strcpy_to 256 libname) (\<lambda>lib.
       Inr (m(a := (pk_blank PK_TAG_INTERFACE)\<lparr>n_name := nm, n_libname := lib, n_parent := Some base\<rparr>))))"

definition pk_create_tcblock :: "addr \<Rightarrow> 32 word \<Rightarrow> 32 word \<Rightarrow> u8 \<Rightarrow> pk_mem \<Rightarrow> pk_mem" where
  "pk_create_tcblock a start cblock num_args m =
     m(a := (pk_blank PK_TAG_TCBLOCK)\<lparr>n_start := start, n_cblock := cblock, n_numargs := num_args\<rparr>)"

text \<open>
  \<^verbatim>\<open>pk_select_class\<close> compares the name of every node. A node of another kind is read as a class: the name of a
  class lies behind the 40 bytes a try-catch block has, and 8 bytes behind that of a method.
\<close>

definition class_name :: "pk_node \<Rightarrow> u8 list" where
  "class_name n = (if n_tag n = PK_TAG_METHOD then drop 8 (n_name n) else n_name n)"

partial_function (option) pk_select_class :: "pk_mem \<Rightarrow> addr \<Rightarrow> u8 list \<Rightarrow> addr result option" where
  "pk_select_class m it name =
     (if it = 0 then Some (Inr 0)
      else if n_tag (m it) = PK_TAG_TCBLOCK then Some (Inl Out_Of_Bounds)
      else if class_name (m it) = name then Some (Inr it)
      else pk_select_class m (n_next (m it)) name)"

partial_function (option) select_property :: "pk_mem \<Rightarrow> addr \<Rightarrow> u8 list \<Rightarrow> addr result option" where
  "select_property m it name =
     (if it = 0 then Some (Inr 0)
      else if n_name (m it) = name then Some (Inr it)
      else select_property m (n_next (m it)) name)"

text \<open>
  \<^verbatim>\<open>pk_select_method\<close>: the methods of the class, then those of its parent; a class without any property
  is not searched further.
\<close>

partial_function (option) pk_select_method :: "pk_mem \<Rightarrow> addr \<Rightarrow> u8 list \<Rightarrow> addr result option" where
  "pk_select_method m parent name =
     (if parent = 0 then Some (Inr 0)
      else if n_tag (m parent) \<noteq> PK_TAG_CLASS \<and> n_tag (m parent) \<noteq> PK_TAG_INTERFACE then Some (Inr 0)
      else if n_properties (m parent) = 0 then Some (Inr 0)
      else case select_property m (n_properties (m parent)) name of
          None \<Rightarrow> None
        | Some r \<Rightarrow>
            (case r of
               Inl e \<Rightarrow> Some (Inl e)
             | Inr p \<Rightarrow>
                 if p \<noteq> 0 then Some (Inr p)
                 else case n_parent (m parent) of
                     None \<Rightarrow> Some (Inl Undefined_Value)
                   | Some q \<Rightarrow> if q \<noteq> 0 then pk_select_method m q name else Some (Inr 0)))"

section \<open>Lists of objects\<close>

text \<open>The loop that follows \<^verbatim>\<open>next\<close> to the last node.\<close>

partial_function (option) last_object :: "pk_mem \<Rightarrow> addr \<Rightarrow> addr option" where
  "last_object m it = (if n_next (m it) = 0 then Some it else last_object m (n_next (m it)))"

text \<open>Appending to the list that starts at \<open>root\<close>; the result is the store and the new start.\<close>

definition pk_add_object :: "pk_mem \<Rightarrow> addr \<Rightarrow> addr \<Rightarrow> (pk_mem \<times> addr) option" where
  "pk_add_object m root obj =
     (if root = 0 then Some (m, obj)
      else map_option (\<lambda>q. (pk_put q (\<lambda>n. n\<lparr>n_next := obj\<rparr>) m, root)) (last_object m root))"

definition pk_install_class :: "addr \<Rightarrow> u8 list \<Rightarrow> pk_mem \<Rightarrow> addr \<Rightarrow> (pk_mem \<times> addr) result option" where
  "pk_install_class a name m root =
     bind_o (Some (pk_create_class a name m)) (\<lambda>m1. map_option Inr (pk_add_object m1 root a))"

definition pk_install_interface :: "addr \<Rightarrow> u8 list \<Rightarrow> u8 list \<Rightarrow> pk_mem \<Rightarrow> addr \<Rightarrow> (pk_mem \<times> addr) result option" where
  "pk_install_interface a name libname m root =
     bind_o (Some (pk_create_interface a name libname 0 m)) (\<lambda>m1. map_option Inr (pk_add_object m1 root a))"

definition pk_install_tcblock :: "addr \<Rightarrow> 32 word \<Rightarrow> 32 word \<Rightarrow> u8 \<Rightarrow> pk_mem \<Rightarrow> addr \<Rightarrow> (pk_mem \<times> addr) option" where
  "pk_install_tcblock a start cblock num_args m root =
     pk_add_object (pk_create_tcblock a start cblock num_args m) root a"

definition pk_merge_root :: "pk_mem \<Rightarrow> addr \<Rightarrow> addr \<Rightarrow> pk_mem option" where
  "pk_merge_root m root new_root =
     (if root = 0 then Some m
      else map_option (\<lambda>q. pk_put q (\<lambda>n. n\<lparr>n_next := new_root\<rparr>) m) (last_object m root))"

definition pk_get_last_root :: "pk_mem \<Rightarrow> addr \<Rightarrow> addr option" where
  "pk_get_last_root m root = (if root = 0 then Some 0 else last_object m root)"

text \<open>\<^verbatim>\<open>pk_register_method\<close> with the address of the new method; the result is the method, 0 without a parent.\<close>

definition pk_register_method ::
  "addr \<Rightarrow> addr \<Rightarrow> u8 list \<Rightarrow> u8 \<Rightarrow> u8 \<Rightarrow> u8 \<Rightarrow> u16 \<Rightarrow> addr \<Rightarrow> pk_mem \<Rightarrow> (pk_mem \<times> addr) result option" where
  "pk_register_method a parent name numargs call_type ret_type offset callback m =
     (if parent = 0 then Some (Inr (m, 0))
      else
        bind_o (Some (pk_create_method a name numargs (ucast offset) m)) (\<lambda>m1.
          let m2 = pk_put a (\<lambda>n. n\<lparr>n_parent := Some parent, n_call_type := Some call_type, n_ret_type := Some ret_type,
                n_callback := Some callback\<rparr>) m1;
              it = n_properties (m2 parent)
          in if it = 0 then Some (Inr (pk_put parent (\<lambda>n. n\<lparr>n_properties := a\<rparr>) m2, a))
             else map_option (\<lambda>q. Inr (pk_put q (\<lambda>n. n\<lparr>n_next := a\<rparr>) m2, a)) (last_object m2 it)))"

definition pk_set_arg :: "addr \<Rightarrow> u8 \<Rightarrow> u16 \<Rightarrow> pk_mem \<Rightarrow> pk_mem" where
  "pk_set_arg p i type m =
     (if p \<noteq> 0 \<and> \<not> 15 < i then pk_put p (\<lambda>n. n\<lparr>n_params := (n_params n)[unat i := Some (ucast type)]\<rparr>) m else m)"

definition pk_set_callback :: "addr \<Rightarrow> addr \<Rightarrow> pk_mem \<Rightarrow> pk_mem" where
  "pk_set_callback p callback m = (if p \<noteq> 0 then pk_put p (\<lambda>n. n\<lparr>n_callback := Some callback\<rparr>) m else m)"

definition pk_register_method_args :: "addr \<Rightarrow> u8 list \<Rightarrow> u8 \<Rightarrow> pk_mem \<Rightarrow> (pk_mem \<times> addr) result option" where
  "pk_register_method_args parent name numargs m =
     bind_o (pk_select_method m parent name) (\<lambda>p.
       Some (Inr (if p \<noteq> 0 then pk_put p (\<lambda>n. n\<lparr>n_numargs := numargs\<rparr>) m else m, p)))"

definition pk_register_menu :: "addr \<Rightarrow> u8 list \<Rightarrow> u8 list \<Rightarrow> pk_mem \<Rightarrow> (pk_mem \<times> addr) result option" where
  "pk_register_menu parent name aliasname m =
     bind_o (pk_select_method m parent name) (\<lambda>p.
       if p = 0 then Some (Inr (m, 0))
       else bind_o (Some (strcpy_to 64 aliasname)) (\<lambda>al. Some (Inr (pk_put p (\<lambda>n. n\<lparr>n_alias := al\<rparr>) m, p))))"

definition pk_register_event :: "addr \<Rightarrow> u8 list \<Rightarrow> u8 \<Rightarrow> pk_mem \<Rightarrow> (pk_mem \<times> addr) result option" where
  "pk_register_event parent name i m =
     bind_o (pk_select_method m parent name) (\<lambda>p.
       Some (Inr (if p = 0 then m else pk_put p (\<lambda>n. n\<lparr>n_event := i\<rparr>) m, p)))"

text \<open>
  \<^verbatim>\<open>pk_set_codebase\<close>: every node of the list, and the properties of classes and interfaces. A method in the list
  is read as a class too, whose properties are then the first bytes of the name.
\<close>

partial_function (option) set_codebase_props :: "addr \<Rightarrow> pk_mem \<Rightarrow> addr \<Rightarrow> pk_mem option" where
  "set_codebase_props cb m it =
     (if it = 0 then Some m
      else let m1 = pk_put it (\<lambda>n. n\<lparr>n_codebase := cb\<rparr>) m in set_codebase_props cb m1 (n_next (m1 it)))"

partial_function (option) pk_set_codebase :: "addr \<Rightarrow> pk_mem \<Rightarrow> addr \<Rightarrow> pk_mem result option" where
  "pk_set_codebase cb m it =
     (if it = 0 then Some (Inr m)
      else if n_tag (m it) = PK_TAG_METHOD \<and> n_name (m it) \<noteq> [] then Some (Inl Undefined_Value)
      else
        case (if (n_tag (m it) = PK_TAG_CLASS \<or> n_tag (m it) = PK_TAG_INTERFACE) \<and> n_properties (m it) \<noteq> 0
              then set_codebase_props cb m (n_properties (m it)) else Some m) of
          None \<Rightarrow> None
        | Some m1 \<Rightarrow>
            let m2 = pk_put it (\<lambda>n. n\<lparr>n_codebase := cb\<rparr>) m1 in pk_set_codebase cb m2 (n_next (m2 it)))"

text \<open>
  \<^verbatim>\<open>pk_dispatch_tc_entries\<close> moves the try-catch blocks of a list to a list of their own: the result is the
  store, the start of the list and the start of the entries.
\<close>

partial_function (option) dispatch_tc_loop :: "pk_mem \<Rightarrow> addr \<Rightarrow> addr \<Rightarrow> addr \<Rightarrow> addr \<Rightarrow> (pk_mem \<times> addr \<times> addr) option" where
  "dispatch_tc_loop m root entries prev it =
     (if it = 0 then Some (m, root, entries)
      else if n_tag (m it) = PK_TAG_TCBLOCK then
        let n = n_next (m it);
            root' = (if prev = 0 then n else root);
            m1 = pk_put it (\<lambda>x. x\<lparr>n_next := 0\<rparr>) m
        in case pk_add_object m1 entries it of
             None \<Rightarrow> None
           | Some (m2, entries') \<Rightarrow> dispatch_tc_loop m2 root' entries' prev n
      else dispatch_tc_loop m root entries it (n_next (m it)))"

definition pk_dispatch_tc_entries :: "pk_mem \<Rightarrow> addr \<Rightarrow> addr \<Rightarrow> (pk_mem \<times> addr \<times> addr) option" where
  "pk_dispatch_tc_entries m root entries = dispatch_tc_loop m root entries 0 root"

section \<open>Encoding\<close>

definition PKG_BUFFER_SIZE :: nat where "PKG_BUFFER_SIZE = 65536"

text \<open>
  \<^verbatim>\<open>pk_push_tlv\<close> writes tag, length and value at \<open>pos\<close>. The value lies in another object or further up in the
  same buffer; the copy starts from the lower end. The result is the size and the buffer.
\<close>

datatype tlv_source = Bytes "u8 list" | At nat

definition copy_down :: "nat \<Rightarrow> nat \<Rightarrow> nat \<Rightarrow> buf \<Rightarrow> buf" where
  "copy_down dst src n b = (\<lambda>i. if dst \<le> i \<and> i < dst + n then b (i - dst + src) else b i)"

definition tlv_header :: "u8 \<Rightarrow> u16 \<Rightarrow> u8 list" where
  "tlv_header t l = (if l < 127 then [t, ucast l] else [t, 0x82, ucast (drop_bit 8 l), ucast l])"

definition pk_push_tlv :: "u8 \<Rightarrow> u16 \<Rightarrow> tlv_source \<Rightarrow> nat \<Rightarrow> buf \<Rightarrow> (nat \<times> buf) result" where
  "pk_push_tlv t l v pos b =
     (let hd = tlv_header t l; sz = length hd; b1 = write_bytes pos hd b in
      if PKG_BUFFER_SIZE < pos + sz + unat l then Inl Out_Of_Bounds
      else case v of
          Bytes bs \<Rightarrow> if length bs < unat l then Inl Out_Of_Bounds
                      else Inr (unat l + sz, write_bytes (pos + sz) (take (unat l) bs) b1)
        | At src \<Rightarrow> Inr (unat l + sz, copy_down (pos + sz) src (unat l) b1))"

definition be16 :: "u16 \<Rightarrow> u8 list" where "be16 x = [ucast (drop_bit 8 x), ucast x]"

definition be32 :: "32 word \<Rightarrow> u8 list" where
  "be32 x = [ucast (drop_bit 24 x), ucast (drop_bit 16 x), ucast (drop_bit 8 x), ucast x]"

text \<open>The menu and event entries of a method, at \<open>pos\<close>.\<close>

definition flush_entry :: "pk_node \<Rightarrow> nat \<Rightarrow> buf \<Rightarrow> (nat \<times> buf) result" where
  "flush_entry n pos b =
     bind_r (if n_alias n \<noteq> []
             then pk_push_tlv ASN_TAG_OCTSTRING (of_nat (length (n_alias n) + 2)) (Bytes (be16 (ucast (n_offset n)) @ n_alias n)) pos b
             else Inr (0, b)) (\<lambda>(k, b1).
     bind_r (if n_event n \<noteq> 0xFF
             then pk_push_tlv ASN_TAG_INTEGER 3 (Bytes (be16 (ucast (n_offset n)) @ [n_event n])) (pos + k) b1
             else Inr (0, b1)) (\<lambda>(k', b2). Inr (k + k', b2)))"

partial_function (option) pk_flush_entries :: "pk_mem \<Rightarrow> addr \<Rightarrow> nat \<Rightarrow> nat \<Rightarrow> buf \<Rightarrow> (nat \<times> buf) result option" where
  "pk_flush_entries m it base sz b =
     (if it = 0 then Some (Inr (sz, b))
      else Option.bind
        (if (n_tag (m it) = PK_TAG_INTERFACE \<or> n_tag (m it) = PK_TAG_CLASS) \<and> n_properties (m it) \<noteq> 0
         then pk_flush_entries m (n_properties (m it)) (base + sz) 0 b
         else if n_tag (m it) = PK_TAG_METHOD then Some (flush_entry (m it) (base + sz) b)
         else Some (Inr (0, b)))
        (\<lambda>r. case r of Inl e \<Rightarrow> Some (Inl e)
              | Inr (k, b') \<Rightarrow> pk_flush_entries m (n_next (m it)) base (sz + k) b'))"

text \<open>The bytes of a method: call types and parameters for an interface, offset and arguments for a class.\<close>

definition method_bytes :: "pk_mem \<Rightarrow> pk_node \<Rightarrow> (u8 \<times> u8 list) result" where
  "method_bytes m n =
     (case n_parent n of
        None \<Rightarrow> Inl Undefined_Value
      | Some p \<Rightarrow>
          if p = 0 then Inl Null_Deref
          else if n_tag (m p) = PK_TAG_INTERFACE then
            (if 16 < n_numargs n then Inl Out_Of_Bounds
             else case (n_call_type n, n_ret_type n) of
                 (Some ct, Some rt) \<Rightarrow>
                   if None \<in> set (take (unat (n_numargs n)) (n_params n)) then Inl Undefined_Value
                   else Inr (ASN_TAG_OBJDESC, [ct, rt, n_numargs n] @ map the (take (unat (n_numargs n)) (n_params n)) @ n_name n)
               | _ \<Rightarrow> Inl Undefined_Value)
          else Inr (ASN_TAG_OCTSTRING, be16 (ucast (n_offset n)) @ [n_numargs n] @ n_name n))"

definition flush_method :: "pk_mem \<Rightarrow> pk_node \<Rightarrow> nat \<Rightarrow> buf \<Rightarrow> (nat \<times> buf) result" where
  "flush_method m n pos b =
     bind_r (method_bytes m n) (\<lambda>(tag, bs). pk_push_tlv tag (of_nat (length bs)) (Bytes bs) (pos + 2) b)"

definition flush_tcblock :: "pk_node \<Rightarrow> nat \<Rightarrow> buf \<Rightarrow> (nat \<times> buf) result" where
  "flush_tcblock n pos b =
     pk_push_tlv ASN_TAG_ENUM 10 (Bytes (be32 (n_start n) @ be32 (n_cblock n) @ [0, n_numargs n])) pos b"

text \<open>The names of a class or an interface, four bytes behind \<open>pos\<close>; the result is their size.\<close>

definition flush_names :: "pk_node \<Rightarrow> nat \<Rightarrow> buf \<Rightarrow> (nat \<times> buf) result" where
  "flush_names n pos b =
     bind_r (if n_tag n = PK_TAG_INTERFACE
             then pk_push_tlv ASN_TAG_CHSTRING (of_nat (length (n_libname n))) (Bytes (n_libname n)) (pos + 4) b
             else Inr (0, b)) (\<lambda>(k, b1).
     bind_r (pk_push_tlv ASN_TAG_IA5STRING (of_nat (length (n_name n))) (Bytes (n_name n)) (pos + k + 4) b1) (\<lambda>(k', b2).
       Inr (k + k', b2)))"

partial_function (option) pk_flush_objects :: "pk_mem \<Rightarrow> addr \<Rightarrow> nat \<Rightarrow> nat \<Rightarrow> buf \<Rightarrow> (nat \<times> buf) result option" where
  "pk_flush_objects m it base sz b =
     (if it = 0 then Some (Inr (sz, b))
      else Option.bind
        (if n_tag (m it) = PK_TAG_INTERFACE \<or> n_tag (m it) = PK_TAG_CLASS then
           (case flush_names (m it) (base + sz) b of
              Inl e \<Rightarrow> Some (Inl e)
            | Inr (csz, b1) \<Rightarrow>
                Option.bind
                  (if n_properties (m it) \<noteq> 0
                   then pk_flush_objects m (n_properties (m it)) (base + sz + csz + 2) 0 b1
                   else Some (Inr (0, b1)))
                  (\<lambda>r. case r of Inl e \<Rightarrow> Some (Inl e)
                        | Inr (k, b2) \<Rightarrow>
                            Some (pk_push_tlv (ASN_TAG_SEQ OR ASN_TAG_CONSTRUCTED) (of_nat (csz + k)) (At (base + sz + 4))
                              (base + sz) b2)))
         else if n_tag (m it) = PK_TAG_METHOD then Some (flush_method m (m it) (base + sz) b)
         else if n_tag (m it) = PK_TAG_TCBLOCK then Some (flush_tcblock (m it) (base + sz) b)
         else Some (Inr (0, b)))
        (\<lambda>r. case r of Inl e \<Rightarrow> Some (Inl e)
              | Inr (k, b') \<Rightarrow> pk_flush_objects m (n_next (m it)) base (sz + k) b'))"

definition pk_flush_root :: "pk_mem \<Rightarrow> addr \<Rightarrow> buf \<Rightarrow> (nat \<times> buf) result option" where
  "pk_flush_root m root b =
     bind_o (pk_flush_entries m root 6 0 b) (\<lambda>(k, b1).
     bind_o (pk_flush_objects m root (k + 6) 0 b1) (\<lambda>(k', b2).
       Some (pk_push_tlv (ASN_TAG_SEQ OR ASN_TAG_CONSTRUCTED) (of_nat (k + k')) (At 6) 0 b2)))"

text \<open>\<^verbatim>\<open>pk_file_flush\<close>: the bytes written to the file.\<close>

definition pk_file_flush :: "pk_mem \<Rightarrow> addr \<Rightarrow> u8 list \<Rightarrow> buf \<Rightarrow> (u8 list \<times> buf) result option" where
  "pk_file_flush m root codes b =
     bind_o (pk_flush_root m root b) (\<lambda>(k, b1).
     bind_o (Some (pk_push_tlv ASN_TAG_BMPSTRING (of_nat (length codes)) (Bytes codes) k b1)) (\<lambda>(k', b2).
       Some (Inr (read_bytes b2 0 (k + k'), b2))))"

section \<open>The format\<close>

text \<open>The content of a package, and its encoding: tag, length and value, nested.\<close>

record pmeth =
  pm_name :: "u8 list"
  pm_numargs :: u8
  pm_offset :: u16
  pm_event :: u8
  pm_alias :: "u8 list"
  pm_call :: u8
  pm_ret :: u8
  pm_params :: "u8 list"

datatype pobj = PClass "u8 list" "pmeth list" | PIface "u8 list" "u8 list" "pmeth list" | PBlock "32 word" "32 word" u8

definition tlv :: "u8 \<Rightarrow> u8 list \<Rightarrow> u8 list" where
  "tlv t bs = tlv_header t (of_nat (length bs)) @ bs"

definition enc_cmeth :: "pmeth \<Rightarrow> u8 list" where
  "enc_cmeth p = tlv ASN_TAG_OCTSTRING (be16 (pm_offset p) @ [pm_numargs p] @ pm_name p)"

definition enc_imeth :: "pmeth \<Rightarrow> u8 list" where
  "enc_imeth p = tlv ASN_TAG_OBJDESC ([pm_call p, pm_ret p, pm_numargs p] @ pm_params p @ pm_name p)"

fun enc_obj :: "pobj \<Rightarrow> u8 list" where
  "enc_obj (PClass nm ms) =
     tlv (ASN_TAG_SEQ OR ASN_TAG_CONSTRUCTED) (tlv ASN_TAG_IA5STRING nm @ concat (map enc_cmeth ms))"
| "enc_obj (PIface lib nm ms) =
     tlv (ASN_TAG_SEQ OR ASN_TAG_CONSTRUCTED) (tlv ASN_TAG_CHSTRING lib @ tlv ASN_TAG_IA5STRING nm @ concat (map enc_imeth ms))"
| "enc_obj (PBlock st cb n) = tlv ASN_TAG_ENUM (be32 st @ be32 cb @ [0, n])"

definition enc_entry :: "pmeth \<Rightarrow> u8 list" where
  "enc_entry p =
     (if pm_alias p \<noteq> [] then tlv ASN_TAG_OCTSTRING (be16 (pm_offset p) @ pm_alias p) else []) @
     (if pm_event p \<noteq> 0xFF then tlv ASN_TAG_INTEGER (be16 (pm_offset p) @ [pm_event p]) else [])"

fun obj_methods :: "pobj \<Rightarrow> pmeth list" where
  "obj_methods (PClass nm ms) = ms"
| "obj_methods (PIface lib nm ms) = ms"
| "obj_methods (PBlock st cb n) = []"

definition enc_header :: "pobj list \<Rightarrow> u8 list" where
  "enc_header objs = concat (map enc_entry (concat (map obj_methods objs))) @ concat (map enc_obj objs)"

definition enc_package :: "pobj list \<Rightarrow> u8 list \<Rightarrow> u8 list" where
  "enc_package objs codes = tlv (ASN_TAG_SEQ OR ASN_TAG_CONSTRUCTED) (enc_header objs) @ tlv ASN_TAG_BMPSTRING codes"

section \<open>Stores that hold a package\<close>

fun links :: "pk_mem \<Rightarrow> addr \<Rightarrow> addr list \<Rightarrow> bool" where
  "links m p [] \<longleftrightarrow> p = 0"
| "links m p (x # xs) \<longleftrightarrow> p = x \<and> x \<noteq> 0 \<and> links m (n_next (m x)) xs"

definition holds_meth :: "bool \<Rightarrow> addr \<Rightarrow> pk_node \<Rightarrow> pmeth \<Rightarrow> bool" where
  "holds_meth iface p n pm \<longleftrightarrow>
     n_tag n = PK_TAG_METHOD \<and> n_parent n = Some p \<and> n_name n = pm_name pm \<and> n_numargs n = pm_numargs pm \<and>
     ucast (n_offset n) = pm_offset pm \<and> n_event n = pm_event pm \<and> n_alias n = pm_alias pm \<and>
     n_call_type n = Some (pm_call pm) \<and> n_ret_type n = Some (pm_ret pm) \<and>
     (iface \<longrightarrow> pm_numargs pm \<le> 16 \<and> length (pm_params pm) = unat (pm_numargs pm) \<and>
        take (unat (pm_numargs pm)) (n_params n) = map Some (pm_params pm))"

definition holds_meths :: "bool \<Rightarrow> pk_mem \<Rightarrow> addr \<Rightarrow> pmeth list \<Rightarrow> bool" where
  "holds_meths iface m p ms \<longleftrightarrow>
     (\<exists>xs. links m (n_properties (m p)) xs \<and> list_all2 (\<lambda>x. holds_meth iface p (m x)) xs ms)"

fun holds_obj :: "pk_mem \<Rightarrow> addr \<Rightarrow> pobj \<Rightarrow> bool" where
  "holds_obj m a (PClass nm ms) \<longleftrightarrow> n_tag (m a) = PK_TAG_CLASS \<and> n_name (m a) = nm \<and> holds_meths False m a ms"
| "holds_obj m a (PIface lib nm ms) \<longleftrightarrow>
     n_tag (m a) = PK_TAG_INTERFACE \<and> n_libname (m a) = lib \<and> n_name (m a) = nm \<and> holds_meths True m a ms"
| "holds_obj m a (PBlock st cb n) \<longleftrightarrow>
     n_tag (m a) = PK_TAG_TCBLOCK \<and> n_start (m a) = st \<and> n_cblock (m a) = cb \<and> n_numargs (m a) = n"

definition holds_package :: "pk_mem \<Rightarrow> addr \<Rightarrow> pobj list \<Rightarrow> bool" where
  "holds_package m root objs \<longleftrightarrow> (\<exists>xs. links m root xs \<and> list_all2 (holds_obj m) xs objs)"

section \<open>What the encoder writes\<close>

definition wrote :: "buf \<Rightarrow> buf \<Rightarrow> nat \<Rightarrow> u8 list \<Rightarrow> bool" where
  "wrote b b' pos bs \<longleftrightarrow> read_bytes b' pos (length bs) = bs \<and> (\<forall>i < pos. b' i = b i)"

lemma read_bytes_append: "read_bytes b a (m + n) = read_bytes b a m @ read_bytes b (a + m) n"
  by (rule nth_equalityI) (auto simp: read_bytes_def nth_append)

lemma wrote_Nil [simp]: "wrote b b pos []"
  by (simp add: wrote_def read_bytes_def)

lemma wrote_append:
  assumes "wrote b b1 pos xs" "wrote b1 b2 (pos + length xs) ys"
  shows "wrote b b2 pos (xs @ ys)"
proof -
  have "read_bytes b2 pos (length xs) = read_bytes b1 pos (length xs)"
    by (rule read_bytes_cong) (use assms(2) in \<open>auto simp: wrote_def\<close>)
  with assms show ?thesis by (auto simp: wrote_def read_bytes_append)
qed

lemma wrote_write: "wrote b (write_bytes pos bs b) pos bs"
  by (simp add: wrote_def)

lemma tlv_length: "length (tlv t bs) = (if (of_nat (length bs) :: u16) < 127 then 2 else 4) + length bs"
  by (simp add: tlv_def tlv_header_def)

lemma tlv_length_le: "length bs + 2 \<le> length (tlv t bs)" "length (tlv t bs) \<le> length bs + 4"
  by (simp_all add: tlv_length)

lemma push_bytes:
  assumes "pos + length (tlv t bs) \<le> PKG_BUFFER_SIZE"
  shows "pk_push_tlv t (of_nat (length bs)) (Bytes bs) pos b = Inr (length (tlv t bs), write_bytes pos (tlv t bs) b)"
proof -
  have l: "unat (of_nat (length bs) :: u16) = length bs"
    using assms tlv_length_le(1) [of bs t] by (simp add: unat_of_nat PKG_BUFFER_SIZE_def)
  have "write_bytes (pos + length h) bs (write_bytes pos h b) = write_bytes pos (h @ bs) b" for h
    by (rule ext) (auto simp: write_bytes_def nth_append)
  then show ?thesis using assms by (simp add: pk_push_tlv_def Let_def l tlv_def)
qed

lemma push_at:
  assumes "pos + 4 \<le> src" "src + n \<le> PKG_BUFFER_SIZE" "read_bytes b src n = bs" "src \<le> pos + 6"
  shows "\<exists>b'. pk_push_tlv t (of_nat n) (At src) pos b = Inr (length (tlv t bs), b') \<and> wrote b b' pos (tlv t bs)"
proof -
  define h where "h = tlv_header t (of_nat n)"
  have n: "length bs = n" "unat (of_nat n :: u16) = n"
    using assms by (auto simp: unat_of_nat PKG_BUFFER_SIZE_def)
  have h: "length h \<le> 4" "tlv t bs = h @ bs" by (simp_all add: h_def tlv_header_def tlv_def n)
  define b' where "b' = copy_down (pos + length h) src n (write_bytes pos h b)"
  have "pk_push_tlv t (of_nat n) (At src) pos b = Inr (length (tlv t bs), b')"
    using assms h by (simp add: pk_push_tlv_def Let_def n b'_def flip: h_def)
  moreover have "read_bytes b' pos (length h) = h"
    by (rule nth_equalityI) (simp_all add: read_bytes_def b'_def copy_down_def)
  moreover have "read_bytes b' (pos + length h) n = read_bytes b src n"
    by (rule read_bytes_cong) (use h assms(1) in \<open>auto simp: b'_def copy_down_def ac_simps\<close>)
  ultimately show ?thesis
    using h assms(3) n by (auto simp: wrote_def read_bytes_append b'_def copy_down_def)
qed

definition enc_meth :: "bool \<Rightarrow> pmeth \<Rightarrow> u8 list" where
  "enc_meth iface = (if iface then enc_imeth else enc_cmeth)"

lemma flush_method_wrote:
  assumes "holds_meth iface p n pm" "p \<noteq> 0" "n_tag (m p) = PK_TAG_INTERFACE \<longleftrightarrow> iface"
    and "pos + 2 + length (enc_meth iface pm) \<le> PKG_BUFFER_SIZE"
  shows "\<exists>b'. flush_method m n pos b = Inr (length (enc_meth iface pm), b') \<and> wrote b b' (pos + 2) (enc_meth iface pm)"
proof (cases iface)
  case True
  let ?bs = "[pm_call pm, pm_ret pm, pm_numargs pm] @ pm_params pm @ pm_name pm"
  have "method_bytes m n = Inr (ASN_TAG_OBJDESC, ?bs)"
    using assms True by (auto simp: method_bytes_def holds_meth_def map_idI)
  then show ?thesis
    using True assms(4) push_bytes [of "pos + 2" ASN_TAG_OBJDESC ?bs b] wrote_write
    by (simp add: flush_method_def enc_meth_def enc_imeth_def)
next
  case False
  let ?bs = "be16 (pm_offset pm) @ [pm_numargs pm] @ pm_name pm"
  have "method_bytes m n = Inr (ASN_TAG_OCTSTRING, ?bs)"
    using assms False by (auto simp: method_bytes_def holds_meth_def)
  then show ?thesis
    using False assms(4) push_bytes [of "pos + 2" ASN_TAG_OCTSTRING ?bs b] wrote_write
    by (simp add: flush_method_def enc_meth_def enc_cmeth_def)
qed

lemma flush_methods_wrote:
  assumes "links m it xs" "list_all2 (\<lambda>x. holds_meth iface p (m x)) xs ms"
    and "p \<noteq> 0" "n_tag (m p) = PK_TAG_INTERFACE \<longleftrightarrow> iface"
    and "base + sz + 2 + length (concat (map (enc_meth iface) ms)) \<le> PKG_BUFFER_SIZE"
  shows "\<exists>b'. pk_flush_objects m it base sz b = Some (Inr (sz + length (concat (map (enc_meth iface) ms)), b')) \<and>
    wrote b b' (base + sz + 2) (concat (map (enc_meth iface) ms))"
  using assms
proof (induction ms arbitrary: it xs sz b)
  case Nil
  then show ?case by (auto simp: pk_flush_objects.simps [of m 0])
next
  case (Cons pm ms)
  from Cons.prems obtain ys where xs: "xs = it # ys" "it \<noteq> 0" "links m (n_next (m it)) ys" "holds_meth iface p (m it) pm"
    "list_all2 (\<lambda>x. holds_meth iface p (m x)) ys ms"
    by (cases xs) auto
  from flush_method_wrote [where m = m and pos = "base + sz" and b = b, OF xs(4) assms(3,4)] Cons.prems obtain b1 where
    b1: "flush_method m (m it) (base + sz) b = Inr (length (enc_meth iface pm), b1)"
      "wrote b b1 (base + sz + 2) (enc_meth iface pm)" by auto
  from Cons.IH [OF xs(3,5) assms(3,4), of "sz + length (enc_meth iface pm)" b1] Cons.prems obtain b2 where
    b2: "pk_flush_objects m (n_next (m it)) base (sz + length (enc_meth iface pm)) b1 =
        Some (Inr (sz + length (enc_meth iface pm) + length (concat (map (enc_meth iface) ms)), b2))"
      "wrote b1 b2 (base + (sz + length (enc_meth iface pm)) + 2) (concat (map (enc_meth iface) ms))" by auto
  have "n_tag (m it) = PK_TAG_METHOD" using xs(4) by (simp add: holds_meth_def)
  then have "pk_flush_objects m it base sz b = pk_flush_objects m (n_next (m it)) base (sz + length (enc_meth iface pm)) b1"
    using xs(2) b1(1) by (simp add: pk_flush_objects.simps [of m it] pk_tags)
  with b2 wrote_append [OF b1(2)] show ?case by (auto simp: ac_simps)
qed

lemma flush_names_wrote:
  fixes n :: pk_node
  defines "E \<equiv> (if n_tag n = PK_TAG_INTERFACE then tlv ASN_TAG_CHSTRING (n_libname n) else []) @ tlv ASN_TAG_IA5STRING (n_name n)"
  assumes "pos + 4 + length E \<le> PKG_BUFFER_SIZE"
  shows "\<exists>b'. flush_names n pos b = Inr (length E, b') \<and> wrote b b' (pos + 4) E"
proof -
  let ?L = "if n_tag n = PK_TAG_INTERFACE then tlv ASN_TAG_CHSTRING (n_libname n) else []"
  define b1 where "b1 = write_bytes (pos + 4) ?L b"
  define b2 where "b2 = write_bytes (pos + length ?L + 4) (tlv ASN_TAG_IA5STRING (n_name n)) b1"
  have w0: "write_bytes q [] b = b" for q by (rule ext) (auto simp: write_bytes_def)
  have 1: "(if n_tag n = PK_TAG_INTERFACE
      then pk_push_tlv ASN_TAG_CHSTRING (of_nat (length (n_libname n))) (Bytes (n_libname n)) (pos + 4) b
      else Inr (0, b)) = Inr (length ?L, b1)"
    using assms(2) push_bytes [of "pos + 4" ASN_TAG_CHSTRING "n_libname n" b] by (auto simp: E_def b1_def w0)
  have 2: "pk_push_tlv ASN_TAG_IA5STRING (of_nat (length (n_name n))) (Bytes (n_name n)) (pos + length ?L + 4) b1 =
      Inr (length (tlv ASN_TAG_IA5STRING (n_name n)), b2)"
    unfolding b2_def by (rule push_bytes) (use assms(2) in \<open>auto simp: E_def\<close>)
  have "flush_names n pos b = Inr (length E, b2)"
    unfolding flush_names_def 1 by (simp add: 2 E_def)
  moreover have "wrote b b2 (pos + 4) E"
    unfolding E_def
  proof (rule wrote_append)
    show "wrote b b1 (pos + 4) ?L" unfolding b1_def by (rule wrote_write)
    have "pos + length ?L + 4 = pos + 4 + length ?L" by simp
    then show "wrote b1 b2 (pos + 4 + length ?L) (tlv ASN_TAG_IA5STRING (n_name n))"
      unfolding b2_def by (metis wrote_write)
  qed
  ultimately show ?thesis by blast
qed

text \<open>One class or interface: its names and methods are written four bytes up and moved behind the header.\<close>

lemma flush_class_wrote:
  assumes n: "n = m it" and tag: "n_tag n = PK_TAG_CLASS \<or> n_tag n = PK_TAG_INTERFACE" and "it \<noteq> 0"
    and iface: "iface \<longleftrightarrow> n_tag n = PK_TAG_INTERFACE" and ms: "holds_meths iface m it ms"
  defines "N \<equiv> (if iface then tlv ASN_TAG_CHSTRING (n_libname n) else []) @ tlv ASN_TAG_IA5STRING (n_name n)"
  defines "E \<equiv> tlv (ASN_TAG_SEQ OR ASN_TAG_CONSTRUCTED) (N @ concat (map (enc_meth iface) ms))"
  assumes "base + sz + length E + 2 \<le> PKG_BUFFER_SIZE"
  shows "\<exists>b'. pk_flush_objects m it base sz b = pk_flush_objects m (n_next n) base (sz + length E) b' \<and> wrote b b' (base + sz) E"
proof -
  let ?M = "concat (map (enc_meth iface) ms)"
  obtain xs where xs: "links m (n_properties n) xs" "list_all2 (\<lambda>x. holds_meth iface it (m x)) xs ms"
    using ms by (auto simp: holds_meths_def n)
  have len: "base + sz + 4 + (length N + length ?M) \<le> PKG_BUFFER_SIZE"
    using assms(8) tlv_length_le(1) [of "N @ ?M" "ASN_TAG_SEQ OR ASN_TAG_CONSTRUCTED"] by (simp add: E_def)
  have N: "N = (if n_tag n = PK_TAG_INTERFACE then tlv ASN_TAG_CHSTRING (n_libname n) else []) @ tlv ASN_TAG_IA5STRING (n_name n)"
    by (simp add: N_def iface)
  obtain b1 where b1: "flush_names n (base + sz) b = Inr (length N, b1)" "wrote b b1 (base + sz + 4) N"
    using flush_names_wrote [of "base + sz" n b] len by (auto simp: N)
  have mp: "\<exists>b2. (if n_properties n \<noteq> 0 then pk_flush_objects m (n_properties n) (base + sz + length N + 2) 0 b1
      else Some (Inr (0, b1))) = Some (Inr (length ?M, b2)) \<and> wrote b1 b2 (base + sz + 4 + length N) ?M"
  proof (cases "n_properties n = 0")
    case True
    with xs have "ms = []" by (cases xs) auto
    with True show ?thesis by simp
  next
    case False
    have pt: "n_tag (m it) = PK_TAG_INTERFACE \<longleftrightarrow> iface" using iface n by simp
    have eq: "base + sz + length N + 2 + 0 + 2 = base + sz + 4 + length N" by simp
    show ?thesis
      using flush_methods_wrote [OF xs assms(3) pt, of "base + sz + length N + 2" 0 b1] False len unfolding eq by simp
  qed
  then obtain b2 where b2: "(if n_properties n \<noteq> 0 then pk_flush_objects m (n_properties n) (base + sz + length N + 2) 0 b1
      else Some (Inr (0, b1))) = Some (Inr (length ?M, b2))" "wrote b1 b2 (base + sz + 4 + length N) ?M" by blast
  have w: "wrote b b2 (base + sz + 4) (N @ ?M)" by (rule wrote_append [OF b1(2) b2(2)])
  then have "read_bytes b2 (base + sz + 4) (length N + length ?M) = N @ ?M" by (simp add: wrote_def)
  from push_at [OF _ _ this, of "base + sz" "ASN_TAG_SEQ OR ASN_TAG_CONSTRUCTED"] len obtain b3 where
    b3: "pk_push_tlv (ASN_TAG_SEQ OR ASN_TAG_CONSTRUCTED) (of_nat (length N + length ?M)) (At (base + sz + 4)) (base + sz) b2 =
      Inr (length E, b3)" "wrote b2 b3 (base + sz) E" by (auto simp: E_def)
  have "pk_flush_objects m it base sz b = pk_flush_objects m (n_next n) base (sz + length E) b3"
    using assms(3) tag unfolding pk_flush_objects.simps [of m it] n [symmetric]
    by (subst if_not_P, simp, subst if_P, blast) (simp only: b1(1) b2(1) b3(1) sum.case prod.case bind.bind_lunit)
  moreover have "wrote b b3 (base + sz) E" using b3(2) w by (simp add: wrote_def)
  ultimately show ?thesis by blast
qed

lemma flush_obj_wrote:
  assumes "holds_obj m it ob" "it \<noteq> 0" "base + sz + length (enc_obj ob) + 2 \<le> PKG_BUFFER_SIZE"
  shows "\<exists>b'. pk_flush_objects m it base sz b = pk_flush_objects m (n_next (m it)) base (sz + length (enc_obj ob)) b' \<and>
    wrote b b' (base + sz) (enc_obj ob)"
proof (cases ob)
  case (PClass nm ms)
  then show ?thesis
    using flush_class_wrote [OF refl, of m it False ms base sz b] assms by (simp add: enc_meth_def pk_tags)
next
  case (PIface lib nm ms)
  then show ?thesis
    using flush_class_wrote [OF refl, of m it True ms base sz b] assms by (simp add: enc_meth_def pk_tags)
next
  case (PBlock st cb k)
  let ?bs = "be32 st @ be32 cb @ [0, k]"
  have "length ?bs = 10" by (simp add: be32_def)
  then have "flush_tcblock (m it) (base + sz) b = Inr (length (tlv ASN_TAG_ENUM ?bs), write_bytes (base + sz) (tlv ASN_TAG_ENUM ?bs) b)"
    using PBlock assms push_bytes [of "base + sz" ASN_TAG_ENUM ?bs b] by (simp add: flush_tcblock_def)
  then show ?thesis
    using PBlock assms wrote_write by (auto simp: pk_flush_objects.simps [of m it] pk_tags)
qed

lemma flush_objs_wrote:
  assumes "links m it xs" "list_all2 (holds_obj m) xs objs"
    and "base + sz + length (concat (map enc_obj objs)) + 2 \<le> PKG_BUFFER_SIZE"
  shows "\<exists>b'. pk_flush_objects m it base sz b = Some (Inr (sz + length (concat (map enc_obj objs)), b')) \<and>
    wrote b b' (base + sz) (concat (map enc_obj objs))"
  using assms
proof (induction objs arbitrary: it xs sz b)
  case Nil
  then show ?case by (auto simp: pk_flush_objects.simps [of m 0])
next
  case (Cons ob objs)
  from Cons.prems obtain ys where xs: "xs = it # ys" "it \<noteq> 0" "links m (n_next (m it)) ys" "holds_obj m it ob"
    "list_all2 (holds_obj m) ys objs" by (cases xs) auto
  from flush_obj_wrote [OF xs(4,2), of base sz b] Cons.prems obtain b1 where
    b1: "pk_flush_objects m it base sz b = pk_flush_objects m (n_next (m it)) base (sz + length (enc_obj ob)) b1"
      "wrote b b1 (base + sz) (enc_obj ob)" by auto
  from Cons.IH [OF xs(3,5), of "sz + length (enc_obj ob)" b1] Cons.prems obtain b2 where
    b2: "pk_flush_objects m (n_next (m it)) base (sz + length (enc_obj ob)) b1 =
        Some (Inr (sz + length (enc_obj ob) + length (concat (map enc_obj objs)), b2))"
      "wrote b1 b2 (base + (sz + length (enc_obj ob))) (concat (map enc_obj objs))" by auto
  with b1 wrote_append [OF b1(2)] show ?case by (auto simp: ac_simps)
qed

text \<open>The menu and event entries of the methods, which come before the objects.\<close>

lemma flush_entry_wrote:
  assumes "holds_meth iface p n pm" "pos + length (enc_entry pm) \<le> PKG_BUFFER_SIZE"
  shows "\<exists>b'. flush_entry n pos b = Inr (length (enc_entry pm), b') \<and> wrote b b' pos (enc_entry pm)"
proof -
  let ?A = "be16 (pm_offset pm) @ pm_alias pm" and ?V = "be16 (pm_offset pm) @ [pm_event pm]"
  let ?x = "if pm_alias pm \<noteq> [] then tlv ASN_TAG_OCTSTRING ?A else []"
  let ?y = "if pm_event pm \<noteq> 0xFF then tlv ASN_TAG_INTEGER ?V else []"
  have E: "enc_entry pm = ?x @ ?y" by (simp add: enc_entry_def)
  have len: "length ?A = length (pm_alias pm) + 2" "length ?V = 3" by (simp_all add: be16_def)
  have n: "n_alias n = pm_alias pm" "n_event n = pm_event pm" "ucast (n_offset n) = pm_offset pm"
    using assms(1) by (simp_all add: holds_meth_def)
  have w0: "write_bytes q [] c = c" for q c by (rule ext) (auto simp: write_bytes_def)
  define b1 where "b1 = write_bytes pos ?x b"
  define b2 where "b2 = write_bytes (pos + length ?x) ?y b1"
  have 1: "(if pm_alias pm \<noteq> [] then pk_push_tlv ASN_TAG_OCTSTRING (of_nat (length (pm_alias pm) + 2)) (Bytes ?A) pos b
      else Inr (0, b)) = Inr (length ?x, b1)"
    using assms(2) push_bytes [of pos ASN_TAG_OCTSTRING ?A b] unfolding len E by (auto simp: b1_def w0)
  have 2: "(if pm_event pm \<noteq> 0xFF then pk_push_tlv ASN_TAG_INTEGER 3 (Bytes ?V) (pos + length ?x) b1
      else Inr (0, b1)) = Inr (length ?y, b2)"
    using assms(2) push_bytes [of "pos + length ?x" ASN_TAG_INTEGER ?V b1] unfolding len E by (auto simp: b2_def w0)
  have "flush_entry n pos b = Inr (length (enc_entry pm), b2)"
    unfolding flush_entry_def n by (simp only: 1 2 bind_r_def sum.case prod.case E length_append)
  moreover have "wrote b b2 pos (enc_entry pm)"
    unfolding E b2_def b1_def by (rule wrote_append [OF wrote_write wrote_write])
  ultimately show ?thesis by blast
qed

lemma flush_method_entries_wrote:
  assumes "links m it xs" "list_all2 (\<lambda>x. holds_meth iface p (m x)) xs ms"
    and "base + sz + length (concat (map enc_entry ms)) \<le> PKG_BUFFER_SIZE"
  shows "\<exists>b'. pk_flush_entries m it base sz b = Some (Inr (sz + length (concat (map enc_entry ms)), b')) \<and>
    wrote b b' (base + sz) (concat (map enc_entry ms))"
  using assms
proof (induction ms arbitrary: it xs sz b)
  case Nil
  then show ?case by (auto simp: pk_flush_entries.simps [of m 0])
next
  case (Cons pm ms)
  from Cons.prems obtain ys where xs: "xs = it # ys" "it \<noteq> 0" "links m (n_next (m it)) ys" "holds_meth iface p (m it) pm"
    "list_all2 (\<lambda>x. holds_meth iface p (m x)) ys ms"
    by (cases xs) auto
  from flush_entry_wrote [where pos = "base + sz" and b = b, OF xs(4)] Cons.prems obtain b1 where
    b1: "flush_entry (m it) (base + sz) b = Inr (length (enc_entry pm), b1)" "wrote b b1 (base + sz) (enc_entry pm)" by auto
  from Cons.IH [OF xs(3,5), of "sz + length (enc_entry pm)" b1] Cons.prems obtain b2 where
    b2: "pk_flush_entries m (n_next (m it)) base (sz + length (enc_entry pm)) b1 =
        Some (Inr (sz + length (enc_entry pm) + length (concat (map enc_entry ms)), b2))"
      "wrote b1 b2 (base + (sz + length (enc_entry pm))) (concat (map enc_entry ms))" by auto
  have "n_tag (m it) = PK_TAG_METHOD" using xs(4) by (simp add: holds_meth_def)
  then have "pk_flush_entries m it base sz b = pk_flush_entries m (n_next (m it)) base (sz + length (enc_entry pm)) b1"
    using xs(2) b1(1) by (simp add: pk_flush_entries.simps [of m it] pk_tags)
  with b2 wrote_append [OF b1(2)] show ?case by (auto simp: ac_simps)
qed

lemma flush_obj_entries_wrote:
  fixes ob :: pobj
  defines "E \<equiv> concat (map enc_entry (obj_methods ob))"
  assumes "holds_obj m it ob" "it \<noteq> 0" "base + sz + length E \<le> PKG_BUFFER_SIZE"
  shows "\<exists>b'. pk_flush_entries m it base sz b = pk_flush_entries m (n_next (m it)) base (sz + length E) b' \<and>
    wrote b b' (base + sz) E"
proof (cases "\<exists>st cb k. ob = PBlock st cb k")
  case True
  then show ?thesis
    using assms by (auto simp: pk_flush_entries.simps [of m it] pk_tags)
next
  case False
  then obtain iface where "holds_meths iface m it (obj_methods ob)"
    and tag: "n_tag (m it) = PK_TAG_INTERFACE \<or> n_tag (m it) = PK_TAG_CLASS"
    using assms(2) by (cases ob) auto
  then obtain xs where xs: "links m (n_properties (m it)) xs" "list_all2 (\<lambda>x. holds_meth iface it (m x)) xs (obj_methods ob)"
    by (auto simp: holds_meths_def)
  show ?thesis
  proof (cases "n_properties (m it) = 0")
    case True
    with xs have "E = []" by (cases xs) (auto simp: E_def)
    with True tag assms(3) show ?thesis by (auto simp: pk_flush_entries.simps [of m it] pk_tags)
  next
    case False
    from flush_method_entries_wrote [OF xs, of "base + sz" 0 b] assms(4) obtain b1 where
      "pk_flush_entries m (n_properties (m it)) (base + sz) 0 b = Some (Inr (length E, b1))" "wrote b b1 (base + sz) E"
      by (auto simp: E_def)
    with False tag assms(3) show ?thesis by (auto simp: pk_flush_entries.simps [of m it])
  qed
qed

lemma flush_entries_wrote:
  assumes "links m it xs" "list_all2 (holds_obj m) xs objs"
    and "base + sz + length (concat (map enc_entry (concat (map obj_methods objs)))) \<le> PKG_BUFFER_SIZE"
  shows "\<exists>b'. pk_flush_entries m it base sz b =
      Some (Inr (sz + length (concat (map enc_entry (concat (map obj_methods objs)))), b')) \<and>
    wrote b b' (base + sz) (concat (map enc_entry (concat (map obj_methods objs))))"
  using assms
proof (induction objs arbitrary: it xs sz b)
  case Nil
  then show ?case by (auto simp: pk_flush_entries.simps [of m 0])
next
  case (Cons ob objs)
  let ?e = "concat (map enc_entry (obj_methods ob))" and ?es = "concat (map enc_entry (concat (map obj_methods objs)))"
  from Cons.prems obtain ys where xs: "xs = it # ys" "it \<noteq> 0" "links m (n_next (m it)) ys" "holds_obj m it ob"
    "list_all2 (holds_obj m) ys objs" by (cases xs) auto
  from flush_obj_entries_wrote [OF xs(4,2), of base sz b] Cons.prems obtain b1 where
    b1: "pk_flush_entries m it base sz b = pk_flush_entries m (n_next (m it)) base (sz + length ?e) b1"
      "wrote b b1 (base + sz) ?e" by auto
  from Cons.IH [OF xs(3,5), of "sz + length ?e" b1] Cons.prems obtain b2 where
    b2: "pk_flush_entries m (n_next (m it)) base (sz + length ?e) b1 = Some (Inr (sz + length ?e + length ?es, b2))"
      "wrote b1 b2 (base + (sz + length ?e)) ?es" by auto
  with b1 wrote_append [OF b1(2)] show ?case by (auto simp: ac_simps)
qed

lemma flush_root_wrote:
  assumes "holds_package m root objs" "6 + length (enc_header objs) + 2 \<le> PKG_BUFFER_SIZE"
  shows "\<exists>b'. pk_flush_root m root b = Some (Inr (length (tlv (ASN_TAG_SEQ OR ASN_TAG_CONSTRUCTED) (enc_header objs)), b')) \<and>
    wrote b b' 0 (tlv (ASN_TAG_SEQ OR ASN_TAG_CONSTRUCTED) (enc_header objs))"
proof -
  let ?e = "concat (map enc_entry (concat (map obj_methods objs)))" and ?o = "concat (map enc_obj objs)"
  let ?s = "ASN_TAG_SEQ OR ASN_TAG_CONSTRUCTED"
  have len: "6 + length ?e + length ?o + 2 \<le> PKG_BUFFER_SIZE" using assms(2) by (simp add: enc_header_def)
  obtain xs where xs: "links m root xs" "list_all2 (holds_obj m) xs objs"
    using assms(1) by (auto simp: holds_package_def)
  from flush_entries_wrote [OF xs, of 6 0 b] len obtain b1 where
    b1: "pk_flush_entries m root 6 0 b = Some (Inr (length ?e, b1))" "wrote b b1 6 ?e" by auto
  from flush_objs_wrote [OF xs, of "length ?e + 6" 0 b1] len obtain b2 where
    b2: "pk_flush_objects m root (length ?e + 6) 0 b1 = Some (Inr (length ?o, b2))" "wrote b1 b2 (6 + length ?e) ?o"
    by (auto simp: add.commute)
  have w: "wrote b b2 6 (enc_header objs)"
    unfolding enc_header_def by (rule wrote_append [OF b1(2) b2(2)])
  then have "read_bytes b2 6 (length ?e + length ?o) = enc_header objs" by (simp add: wrote_def enc_header_def)
  from push_at [OF _ _ this, of 0 ?s] len obtain b3 where
    "pk_push_tlv ?s (of_nat (length ?e + length ?o)) (At 6) 0 b2 = Inr (length (tlv ?s (enc_header objs)), b3)"
    "wrote b2 b3 0 (tlv ?s (enc_header objs))" by auto
  then show ?thesis
    by (simp add: pk_flush_root_def b1(1) b2(1) wrote_def del: of_nat_add)
qed

section \<open>Building a package\<close>

text \<open>
  A store that holds a package in nodes of its own: \<open>ls\<close> has the address of every object with those of its
  methods, all different.
\<close>

fun holds_at :: "pk_mem \<Rightarrow> addr \<times> addr list \<Rightarrow> pobj \<Rightarrow> bool" where
  "holds_at m (x, ps) (PClass nm ms) \<longleftrightarrow> n_tag (m x) = PK_TAG_CLASS \<and> n_name (m x) = nm \<and>
     links m (n_properties (m x)) ps \<and> list_all2 (\<lambda>y. holds_meth False x (m y)) ps ms"
| "holds_at m (x, ps) (PIface lib nm ms) \<longleftrightarrow> n_tag (m x) = PK_TAG_INTERFACE \<and> n_libname (m x) = lib \<and> n_name (m x) = nm \<and>
     links m (n_properties (m x)) ps \<and> list_all2 (\<lambda>y. holds_meth True x (m y)) ps ms"
| "holds_at m (x, ps) (PBlock st cb n) \<longleftrightarrow> n_tag (m x) = PK_TAG_TCBLOCK \<and> n_start (m x) = st \<and> n_cblock (m x) = cb \<and>
     n_numargs (m x) = n \<and> ps = []"

definition pk_nodes :: "(addr \<times> addr list) list \<Rightarrow> addr list" where
  "pk_nodes ls = concat (map (\<lambda>(x, ps). x # ps) ls)"

definition pk_layout :: "pk_mem \<Rightarrow> addr \<Rightarrow> (addr \<times> addr list) list \<Rightarrow> pobj list \<Rightarrow> bool" where
  "pk_layout m root ls objs \<longleftrightarrow>
     links m root (map fst ls) \<and> distinct (pk_nodes ls) \<and> list_all2 (holds_at m) ls objs"

lemma holds_at_obj: "holds_at m l ob \<Longrightarrow> holds_obj m (fst l) ob"
  by (cases ob; cases l) (auto simp: holds_meths_def)

lemma layout_holds:
  assumes "pk_layout m root ls objs"
  shows "holds_package m root objs"
proof -
  have "list_all2 (holds_obj m) (map fst ls) objs"
    using assms by (auto simp: pk_layout_def list_all2_map1 elim!: list_all2_mono intro: holds_at_obj)
  with assms show ?thesis by (auto simp: pk_layout_def holds_package_def)
qed

lemma links_cong: "(\<And>x. x \<in> set xs \<Longrightarrow> n_next (m' x) = n_next (m x)) \<Longrightarrow> links m' p xs = links m p xs"
  by (induction xs arbitrary: p) auto

lemma holds_at_cong:
  assumes "\<And>y. y \<in> set ps \<Longrightarrow> m' y = m y" "m' x = (m x)\<lparr>n_next := q\<rparr>"
  shows "holds_at m' (x, ps) ob = holds_at m (x, ps) ob"
proof -
  have "list_all2 (\<lambda>y. holds_meth iface x (m' y)) ps ms = list_all2 (\<lambda>y. holds_meth iface x (m y)) ps ms" for iface ms
    by (rule list.rel_cong) (use assms(1) in auto)
  moreover have "links m' p ps = links m p ps" for p by (rule links_cong) (simp add: assms(1))
  ultimately show ?thesis using assms(2) by (cases ob) auto
qed

lemma last_object_links:
  assumes "links m p xs" "xs \<noteq> []"
  shows "last_object m p = Some (last xs)"
  using assms
proof (induction xs arbitrary: p)
  case (Cons x xs)
  then show ?case by (cases xs) (auto simp: last_object.simps [of m x])
qed simp

lemma links_snoc:
  assumes "links m p xs" "xs \<noteq> []" "distinct xs" "a \<notin> set xs" "a \<noteq> 0" "n_next (m a) = 0"
  shows "links (pk_put (last xs) (\<lambda>n. n\<lparr>n_next := a\<rparr>) m) p (xs @ [a])"
  using assms
proof (induction xs arbitrary: p)
  case (Cons x xs)
  show ?case
  proof (cases xs)
    case Nil
    with Cons.prems show ?thesis by (auto simp: pk_put_def)
  next
    case (Cons y ys)
    moreover have "x \<noteq> last xs" using Cons.prems \<open>xs = y # ys\<close> by (metis distinct.simps(2) last_in_set list.distinct(1))
    ultimately show ?thesis using Cons.prems Cons.IH [of "n_next (m x)"] by (auto simp: pk_put_def)
  qed
qed simp

lemma pk_nodes_simps [simp]:
  "pk_nodes [] = []" "pk_nodes ((x, ps) # ls) = x # ps @ pk_nodes ls" "pk_nodes (ls @ ls') = pk_nodes ls @ pk_nodes ls'"
  by (simp_all add: pk_nodes_def)

lemma pk_nodes_mem: "(x, ps) \<in> set ls \<Longrightarrow> set (x # ps) \<subseteq> set (pk_nodes ls)"
  by (auto simp: pk_nodes_def)

lemma pk_nodes_fst: "set (map fst ls) \<subseteq> set (pk_nodes ls)"
  by (auto simp: pk_nodes_def)

lemma pk_nodes_distinct:
  assumes "distinct (pk_nodes ls)"
  shows "distinct (map fst ls)" "(x, ps) \<in> set ls \<Longrightarrow> distinct (x # ps)"
    "(x, ps) \<in> set ls \<Longrightarrow> y \<in> set (map fst ls) \<Longrightarrow> y \<notin> set ps"
proof -
  have *: "distinct (map fst ls) \<and> (\<forall>x ps. (x, ps) \<in> set ls \<longrightarrow> distinct (x # ps) \<and> (\<forall>y \<in> set ps. y \<notin> fst ` set ls))"
    using assms
  proof (induction ls)
    case (Cons l ls)
    obtain z qs where l: "l = (z, qs)" by fastforce
    have d: "set (z # qs) \<inter> set (pk_nodes ls) = {}" "distinct (z # qs)" "distinct (pk_nodes ls)"
      using Cons.prems by (auto simp: l pk_nodes_def)
    have "(z # qs) ! i \<notin> fst ` set ls" if "i < length (z # qs)" for i
      using d(1) pk_nodes_fst [of ls] nth_mem [OF that] by auto
    then have f: "set (z # qs) \<inter> fst ` set ls = {}" by (metis disjoint_iff in_set_conv_nth)
    have "z \<notin> set ps" if "(x, ps) \<in> set ls" for x ps
      using d(1) pk_nodes_mem [OF that] by auto
    with Cons.IH [OF d(3)] d(2) f show ?case by (auto simp: l image_iff)
  qed (simp add: pk_nodes_def)
  then show "distinct (map fst ls)" "(x, ps) \<in> set ls \<Longrightarrow> distinct (x # ps)"
    "(x, ps) \<in> set ls \<Longrightarrow> y \<in> set (map fst ls) \<Longrightarrow> y \<notin> set ps" by auto
qed

text \<open>The list of objects grows at its end and nothing else of the package changes.\<close>

lemma add_object_layout:
  assumes L: "pk_layout m root ls objs" and a: "a \<noteq> 0" "a \<notin> set (pk_nodes ls)"
    and nd: "n_next nd = 0" "holds_at (m(a := nd)) (a, []) ob"
  shows "\<exists>m' root'. pk_add_object (m(a := nd)) root a = Some (m', root') \<and> pk_layout m' root' (ls @ [(a, [])]) (objs @ [ob])"
proof (cases "ls = []")
  case True
  with assms show ?thesis by (auto simp: pk_layout_def pk_add_object_def pk_nodes_def)
next
  case False
  let ?m1 = "m(a := nd)" and ?xs = "map fst ls"
  let ?m2 = "pk_put (last ?xs) (\<lambda>n. n\<lparr>n_next := a\<rparr>) ?m1"
  have d: "distinct (pk_nodes ls)" and l: "links m root ?xs" "list_all2 (holds_at m) ls objs"
    using L by (auto simp: pk_layout_def)
  have fr: "a \<notin> set ?xs" using a(2) pk_nodes_fst by blast
  then have l1: "links ?m1 root ?xs" using l(1) by (subst links_cong [where m = m]) auto
  have root: "root \<noteq> 0" using l(1) False by (cases ls) auto
  have "pk_add_object ?m1 root a = Some (?m2, root)"
    using root last_object_links [OF l1] False by (simp add: pk_add_object_def)
  moreover have "links ?m2 root (?xs @ [a])"
    by (rule links_snoc [OF l1]) (use False fr a nd d in \<open>auto simp: pk_nodes_distinct(1)\<close>)
  moreover have "holds_at ?m2 (x, ps) ob'" if "(x, ps) \<in> set ls" "holds_at m (x, ps) ob'" for x ps ob'
  proof -
    have "last ?xs \<in> set ?xs" using False by (metis last_in_set map_is_Nil_conv)
    then have ps: "y \<noteq> last ?xs" "y \<noteq> a" if "y \<in> set ps" for y
      using pk_nodes_distinct(3) [OF d \<open>(x, ps) \<in> set ls\<close>] pk_nodes_mem [OF \<open>(x, ps) \<in> set ls\<close>] a(2) that by auto
    have "x \<noteq> a" using pk_nodes_mem [OF that(1)] a(2) by auto
    then have "?m2 x = (m x)\<lparr>n_next := n_next (?m2 x)\<rparr>" by (simp add: pk_put_def)
    from holds_at_cong [of ps ?m2 m, OF _ this] ps that(2) show ?thesis by (simp add: pk_put_def)
  qed
  then have "list_all2 (holds_at ?m2) ls objs" by (intro list.rel_mono_strong [OF l(2)]) auto
  moreover have "holds_at ?m2 (a, []) ob"
    using nd(2) fr False by (cases ob) (auto simp: pk_put_def dest: last_in_set)
  ultimately show ?thesis using d a(2) by (auto simp: pk_layout_def intro!: list_all2_appendI)
qed

text \<open>A method joins the end of its class's list; the same for the methods of an interface.\<close>

definition attach :: "addr \<Rightarrow> addr list \<Rightarrow> addr \<Rightarrow> pk_mem \<Rightarrow> pk_mem" where
  "attach x ps a m =
     (if ps = [] then pk_put x (\<lambda>n. n\<lparr>n_properties := a\<rparr>) m else pk_put (last ps) (\<lambda>n. n\<lparr>n_next := a\<rparr>) m)"

fun is_iface :: "pobj \<Rightarrow> bool" where
  "is_iface (PIface lib nm ms) \<longleftrightarrow> True"
| "is_iface _ \<longleftrightarrow> False"

fun add_meth :: "pmeth \<Rightarrow> pobj \<Rightarrow> pobj" where
  "add_meth pm (PClass nm ms) = PClass nm (ms @ [pm])"
| "add_meth pm (PIface lib nm ms) = PIface lib nm (ms @ [pm])"
| "add_meth pm (PBlock st cb n) = PBlock st cb n"

lemma holds_meth_next [simp]: "holds_meth iface p (n\<lparr>n_next := q\<rparr>) pm = holds_meth iface p n pm"
  by (simp add: holds_meth_def)

lemma attach_holds_at:
  assumes "holds_at m (x, ps) ob" "\<nexists>st cb k. ob = PBlock st cb k" "distinct (x # ps)" "a \<notin> set (x # ps)" "a \<noteq> 0" "n_next nd = 0"
    and "holds_meth (is_iface ob) x nd pm"
  shows "holds_at (attach x ps a (m(a := nd))) (x, ps @ [a]) (add_meth pm ob)"
proof -
  define m1 where "m1 = m(a := nd)"
  define m2 where "m2 = attach x ps a m1"
  have L: "links m2 (n_properties (m2 x)) (ps @ [a])" if "links m (n_properties (m x)) ps"
  proof (cases "ps = []")
    case True
    then show ?thesis using assms by (simp add: m2_def attach_def pk_put_def m1_def)
  next
    case False
    have "links m1 (n_properties (m x)) ps" using that assms(4) by (subst links_cong [where m = m]) (auto simp: m1_def)
    from links_snoc [OF this False] have "links m2 (n_properties (m x)) (ps @ [a])"
      using assms False by (simp add: m2_def attach_def m1_def)
    moreover have "n_properties (m2 x) = n_properties (m x)"
      using False assms(4) by (auto simp: m2_def attach_def pk_put_def m1_def)
    ultimately show ?thesis by simp
  qed
  have old: "holds_meth iface x (m2 y) p = holds_meth iface x (m y) p" if "y \<in> set ps" for y iface p
  proof -
    have "y \<noteq> a" "ps \<noteq> []" using that assms(4) by auto
    then show ?thesis by (cases "y = last ps") (simp_all add: m2_def attach_def pk_put_def m1_def)
  qed
  have M: "list_all2 (\<lambda>y. holds_meth iface x (m2 y)) ps ms" if "list_all2 (\<lambda>y. holds_meth iface x (m y)) ps ms" for iface ms
    by (rule list.rel_mono_strong [OF that]) (simp add: old)
  have "m2 a = nd" using assms(4) by (cases "ps = []") (auto simp: m2_def attach_def pk_put_def m1_def)
  moreover have "n_tag (m2 x) = n_tag (m x)" "n_name (m2 x) = n_name (m x)" "n_libname (m2 x) = n_libname (m x)"
    using assms(3,4) by (auto simp: m2_def attach_def pk_put_def m1_def)
  ultimately have "holds_at m2 (x, ps @ [a]) (add_meth pm ob)"
    using assms(1,2,7) L M by (cases ob) (auto intro!: list_all2_appendI)
  then show ?thesis by (simp add: m2_def m1_def)
qed

lemma attach_layout:
  assumes L: "pk_layout m root (us @ (x, ps) # vs) (os @ ob # os')" and l: "length us = length os"
    and ob: "\<nexists>st cb k. ob = PBlock st cb k" and a: "a \<noteq> 0" "a \<notin> set (pk_nodes (us @ (x, ps) # vs))"
    and nd: "n_next nd = 0" "holds_meth (is_iface ob) x nd pm"
  shows "pk_layout (attach x ps a (m(a := nd))) root (us @ (x, ps @ [a]) # vs) (os @ add_meth pm ob # os')"
proof -
  let ?ls = "us @ (x, ps) # vs" and ?m2 = "attach x ps a (m(a := nd))"
  have d: "distinct (pk_nodes ?ls)" and h: "holds_at m (x, ps) ob" "list_all2 (holds_at m) us os" "list_all2 (holds_at m) vs os'"
    and k: "links m root (map fst ?ls)"
    using L l by (auto simp: pk_layout_def list_all2_append)
  have dx: "distinct (x # ps)" by (rule pk_nodes_distinct(2) [OF d]) simp
  have ax: "a \<notin> set (x # ps)" using a(2) by (simp add: pk_nodes_def)
  have objs: "n_next (?m2 y) = n_next (m y)" if "y \<in> set (map fst ?ls)" for y
  proof -
    have "y \<notin> set ps" by (rule pk_nodes_distinct(3) [OF d, of x ps]) (use that in auto)
    moreover have "y \<noteq> a" using that a(2) pk_nodes_fst [of ?ls] by auto
    ultimately show ?thesis by (cases "ps = []"; cases "y = x") (auto simp: attach_def pk_put_def)
  qed
  have same: "?m2 y = m y" if "y \<in> set (pk_nodes (us @ vs))" for y
  proof -
    have "y \<notin> set (x # ps)" "y \<noteq> a" using that d a(2) by auto
    then show ?thesis by (cases "ps = []") (auto simp: attach_def pk_put_def)
  qed
  have rest: "holds_at ?m2 (z, qs) o'" if "(z, qs) \<in> set (us @ vs)" "holds_at m (z, qs) o'" for z qs o'
  proof -
    have "?m2 y = m y" if "y \<in> set (z # qs)" for y
      using same that pk_nodes_mem [OF \<open>(z, qs) \<in> set (us @ vs)\<close>] by blast
    then show ?thesis using that(2) holds_at_cong [of qs ?m2 m z "n_next (m z)"] by simp
  qed
  have "list_all2 (holds_at ?m2) us os" "list_all2 (holds_at ?m2) vs os'"
    by (rule list.rel_mono_strong [OF h(2)], use rest in auto) (rule list.rel_mono_strong [OF h(3)], use rest in auto)
  moreover have "holds_at ?m2 (x, ps @ [a]) (add_meth pm ob)"
    by (rule attach_holds_at [OF h(1) ob dx ax a(1) nd])
  moreover have "links ?m2 root (map fst ?ls)" by (subst links_cong [where m = m]) (use objs k in auto)
  moreover have "distinct (pk_nodes (us @ (x, ps @ [a]) # vs))" using d a(2) by (auto simp: pk_nodes_def)
  ultimately show ?thesis by (auto simp: pk_layout_def intro!: list_all2_appendI)
qed

text \<open>A method is registered and the types of its parameters are set one by one.\<close>

definition set_args :: "addr \<Rightarrow> u16 list \<Rightarrow> pk_mem \<Rightarrow> pk_mem" where
  "set_args a types m = fold (\<lambda>i. pk_set_arg a (of_nat i) (types ! i)) [0..<length types] m"

lemma set_args_upto:
  assumes "k \<le> length types" "length types \<le> 16" "a \<noteq> 0" "length (n_params (m a)) = 16"
  shows "fold (\<lambda>i. pk_set_arg a (of_nat i) (types ! i)) [0..<k] m =
    m(a := (m a)\<lparr>n_params := map (\<lambda>t. Some (ucast t)) (take k types) @ drop k (n_params (m a))\<rparr>)"
  using assms(1)
proof (induction k)
  case (Suc k)
  let ?p = "n_params (m a)" and ?pre = "map (\<lambda>t. Some (ucast t)) (take k types)"
  have u: "unat (of_nat k :: u8) = k" "\<not> 15 < (of_nat k :: u8)"
    using Suc.prems assms(2) by (simp_all add: unat_of_nat word_less_nat_alt)
  have "drop k ?p = ?p ! k # drop (Suc k) ?p" using Suc.prems assms(2,4) by (simp add: Cons_nth_drop_Suc)
  moreover have "length ?pre = k" using Suc.prems by simp
  ultimately have upd: "(?pre @ drop k ?p)[k := v] = ?pre @ v # drop (Suc k) ?p" for v by (simp add: list_update_append)
  have IH: "fold (\<lambda>i. pk_set_arg a (of_nat i) (types ! i)) [0..<k] m = m(a := (m a)\<lparr>n_params := ?pre @ drop k ?p\<rparr>)"
    by (rule Suc.IH) (use Suc.prems in simp)
  have step: "fold (\<lambda>i. pk_set_arg a (of_nat i) (types ! i)) [0..<Suc k] m =
      pk_set_arg a (of_nat k) (types ! k) (m(a := (m a)\<lparr>n_params := ?pre @ drop k ?p\<rparr>))"
    by (simp flip: IH)
  show ?case using Suc.prems u assms(3) unfolding step by (simp add: upd pk_set_arg_def pk_put_def take_Suc_conv_app_nth)
qed simp

definition method_node :: "addr \<Rightarrow> u8 list \<Rightarrow> u8 \<Rightarrow> u8 \<Rightarrow> u8 \<Rightarrow> u16 \<Rightarrow> addr \<Rightarrow> pk_node" where
  "method_node x name k ct rt off cbk = (pk_blank PK_TAG_METHOD)\<lparr>n_name := name, n_parent := Some x, n_numargs := k,
     n_offset := ucast off, n_event := 0xFF, n_call_type := Some ct, n_ret_type := Some rt, n_callback := Some cbk\<rparr>"

lemma register_method_attach:
  assumes "links m (n_properties (m x)) ps" "a \<notin> set (x # ps)" "x \<noteq> 0" "length name < 256"
  shows "pk_register_method a x name k ct rt off cbk m =
    Some (Inr (attach x ps a (m(a := method_node x name k ct rt off cbk)), a))"
proof -
  define m1 where "m1 = m(a := method_node x name k ct rt off cbk)"
  have l: "links m1 (n_properties (m x)) ps"
    using assms(1,2) by (subst links_cong [where m = m]) (auto simp: m1_def)
  have x: "n_properties (m1 x) = n_properties (m x)" using assms(2) by (simp add: m1_def)
  note defs = pk_register_method_def pk_create_method_def strcpy_to_def attach_def Let_def pk_put_def method_node_def pk_blank_def
  have "pk_register_method a x name k ct rt off cbk m = Some (Inr (attach x ps a m1, a))"
  proof (cases "ps = []")
    case True
    with assms l x show ?thesis by (simp add: defs m1_def)
  next
    case False
    with l have "n_properties (m x) \<noteq> 0" by (cases ps) auto
    moreover have "last_object m1 (n_properties (m x)) = Some (last ps)" by (rule last_object_links [OF l False])
    ultimately show ?thesis using assms False by (simp add: defs m1_def)
  qed
  then show ?thesis by (simp add: m1_def)
qed

lemma attach_upd: "a \<notin> set (x # ps) \<Longrightarrow> (attach x ps a (m(a := nd)))(a := nd') = attach x ps a (m(a := nd'))"
  by (cases "ps = []") (auto simp: attach_def pk_put_def fun_eq_iff)

lemma attach_new: "a \<notin> set (x # ps) \<Longrightarrow> attach x ps a (m(a := nd)) a = nd"
  by (cases "ps = []") (auto simp: attach_def pk_put_def)

lemma set_args_attach:
  assumes "a \<notin> set (x # ps)" "a \<noteq> 0" "length types \<le> 16"
  shows "set_args a types (attach x ps a (m(a := method_node x name k ct rt off cbk))) =
    attach x ps a (m(a := (method_node x name k ct rt off cbk)
      \<lparr>n_params := map (\<lambda>t. Some (ucast t)) types @ drop (length types) (n_params (pk_blank PK_TAG_METHOD))\<rparr>))"
  unfolding set_args_def using assms
  by (subst set_args_upto) (simp_all add: attach_new attach_upd, simp_all add: method_node_def pk_blank_def)

text \<open>\<^verbatim>\<open>pk_file_flush\<close> is the encoder of the package format. From a store that holds a package - lists that end,
  methods that know their class - it writes the nested tag-length-value encoding of that package and of the
  code, for every package that fits the buffer: lengths in the short form below 127 and in the long form
  from there on, entries before objects. The pieces are built further up in the same buffer and moved down,
  and none overwrites another.\<close>
lemma file_flush_encodes:
  assumes "holds_package m root objs"
    and "length (enc_package objs codes) + 4 \<le> PKG_BUFFER_SIZE"
  shows "\<exists>b'. pk_file_flush m root codes b = Some (Inr (enc_package objs codes, b'))"
proof -
  let ?h = "tlv (ASN_TAG_SEQ OR ASN_TAG_CONSTRUCTED) (enc_header objs)" and ?c = "tlv ASN_TAG_BMPSTRING codes"
  have E: "enc_package objs codes = ?h @ ?c" by (simp add: enc_package_def)
  have len: "length ?h + length ?c + 4 \<le> PKG_BUFFER_SIZE" using assms(2) unfolding E by simp
  have "6 + length (enc_header objs) + 2 \<le> PKG_BUFFER_SIZE"
    using len tlv_length_le(1) [of "enc_header objs" "ASN_TAG_SEQ OR ASN_TAG_CONSTRUCTED"]
      tlv_length_le(1) [of codes ASN_TAG_BMPSTRING] by linarith
  from flush_root_wrote [OF assms(1) this, of b] obtain b1 where
    b1: "pk_flush_root m root b = Some (Inr (length ?h, b1))" "wrote b b1 0 ?h" by blast
  define b2 where "b2 = write_bytes (length ?h) ?c b1"
  have 2: "pk_push_tlv ASN_TAG_BMPSTRING (of_nat (length codes)) (Bytes codes) (length ?h) b1 = Inr (length ?c, b2)"
    unfolding b2_def by (rule push_bytes) (use len in simp)
  have "wrote b b2 0 (?h @ ?c)"
    by (rule wrote_append [OF b1(2)]) (simp add: b2_def wrote_write)
  then have "read_bytes b2 0 (length ?h + length ?c) = ?h @ ?c" by (simp add: wrote_def)
  then show ?thesis by (simp add: pk_file_flush_def b1(1) 2 E)
qed

section \<open>From calls to the file\<close>

text \<open>
  A package is built by calls: objects are installed, methods are registered in the class that
  \<^verbatim>\<open>pk_select_class\<close> finds. Every call has the address of its new node.
\<close>

datatype pk_call =
    Call_Class addr "u8 list"
  | Call_Interface addr "u8 list" "u8 list"
  | Call_Tcblock addr "32 word" "32 word" u8
  | Call_Method addr "u8 list" "u8 list" u8 u8 u16 addr "u16 list"

fun pk_exec :: "pk_call \<Rightarrow> pk_mem \<times> addr \<Rightarrow> (pk_mem \<times> addr) result option" where
  "pk_exec (Call_Class a name) (m, root) = pk_install_class a name m root"
| "pk_exec (Call_Interface a name lib) (m, root) = pk_install_interface a name lib m root"
| "pk_exec (Call_Tcblock a st cb n) (m, root) = map_option Inr (pk_install_tcblock a st cb n m root)"
| "pk_exec (Call_Method a cname name ct rt off cbk types) (m, root) =
     bind_o (pk_select_class m root cname) (\<lambda>x.
     bind_o (pk_register_method a x name (of_nat (length types)) ct rt off cbk m) (\<lambda>(m1, p).
       Some (Inr (set_args p types m1, root))))"

fun pk_calls :: "pk_call list \<Rightarrow> pk_mem \<times> addr \<Rightarrow> (pk_mem \<times> addr) result option" where
  "pk_calls [] st = Some (Inr st)"
| "pk_calls (c # cs) st = bind_o (pk_exec c st) (pk_calls cs)"

text \<open>What the calls mean for the content. A class behind a try-catch block is not found.\<close>

fun obj_name :: "pobj \<Rightarrow> u8 list option" where
  "obj_name (PClass nm ms) = Some nm"
| "obj_name (PIface lib nm ms) = Some nm"
| "obj_name (PBlock st cb n) = None"

fun at_class :: "u8 list \<Rightarrow> (pobj \<Rightarrow> pobj) \<Rightarrow> pobj list \<Rightarrow> pobj list option" where
  "at_class nm f [] = None"
| "at_class nm f (ob # obs) =
     (case obj_name ob of
        None \<Rightarrow> None
      | Some nm' \<Rightarrow> if nm' = nm then Some (f ob # obs) else map_option ((#) ob) (at_class nm f obs))"

definition new_meth :: "u8 list \<Rightarrow> u8 \<Rightarrow> u8 \<Rightarrow> u16 \<Rightarrow> u16 list \<Rightarrow> pmeth" where
  "new_meth name ct rt off types =
     \<lparr>pm_name = name, pm_numargs = of_nat (length types), pm_offset = off, pm_event = 0xFF, pm_alias = [], pm_call = ct,
       pm_ret = rt, pm_params = map ucast types\<rparr>"

fun call_addr :: "pk_call \<Rightarrow> addr" where
  "call_addr (Call_Class a _) = a"
| "call_addr (Call_Interface a _ _) = a"
| "call_addr (Call_Tcblock a _ _ _) = a"
| "call_addr (Call_Method a _ _ _ _ _ _ _) = a"

fun call_objs :: "pk_call \<Rightarrow> pobj list \<Rightarrow> pobj list option" where
  "call_objs (Call_Class a name) obs = (if length name < 256 then Some (obs @ [PClass name []]) else None)"
| "call_objs (Call_Interface a name lib) obs =
     (if length name < 256 \<and> length lib < 256 then Some (obs @ [PIface lib name []]) else None)"
| "call_objs (Call_Tcblock a st cb n) obs = Some (obs @ [PBlock st cb n])"
| "call_objs (Call_Method a cname name ct rt off cbk types) obs =
     (if length name < 256 \<and> length types \<le> 16 then at_class cname (add_meth (new_meth name ct rt off types)) obs else None)"

fun calls_objs :: "pk_call list \<Rightarrow> pobj list \<Rightarrow> pobj list option" where
  "calls_objs [] obs = Some obs"
| "calls_objs (c # cs) obs = Option.bind (call_objs c obs) (calls_objs cs)"

lemma at_class_split:
  assumes "at_class nm f obs = Some obs'"
  shows "\<exists>us ob vs. obs = us @ ob # vs \<and> obs' = us @ f ob # vs \<and> obj_name ob = Some nm \<and>
    (\<forall>u \<in> set us. obj_name u \<noteq> None \<and> obj_name u \<noteq> Some nm)"
  using assms
proof (induction obs arbitrary: obs')
  case (Cons ob obs)
  show ?case
  proof (cases "obj_name ob = Some nm")
    case True
    with Cons.prems have "ob # obs = [] @ ob # obs \<and> obs' = [] @ f ob # obs" by simp
    with True show ?thesis by fastforce
  next
    case False
    with Cons.prems obtain z nm' where z: "at_class nm f obs = Some z" "obs' = ob # z" "obj_name ob = Some nm'"
      by (auto split: option.splits if_splits)
    from Cons.IH [OF z(1)] obtain us o' vs where "obs = us @ o' # vs" "z = us @ f o' # vs" "obj_name o' = Some nm"
      "\<forall>u \<in> set us. obj_name u \<noteq> None \<and> obj_name u \<noteq> Some nm" by blast
    with z False show ?thesis by (intro exI [of _ "ob # us"] exI [of _ o'] exI [of _ vs]) auto
  qed
qed simp

lemma select_class_layout:
  assumes "links m p (map fst us @ x # qs)" "list_all2 (holds_at m) us os" "n_tag (m x) \<noteq> PK_TAG_TCBLOCK" "class_name (m x) = nm"
    and "\<forall>u \<in> set os. obj_name u \<noteq> None \<and> obj_name u \<noteq> Some nm"
  shows "pk_select_class m p nm = Some (Inr x)"
  using assms
proof (induction us arbitrary: p os)
  case Nil
  then show ?case by (simp add: pk_select_class.simps [of m x])
next
  case (Cons u us)
  then obtain ob os' where os: "os = ob # os'" "holds_at m u ob" "list_all2 (holds_at m) us os'" by (auto simp: list_all2_Cons1)
  then have "n_tag (m (fst u)) \<noteq> PK_TAG_TCBLOCK \<and> class_name (m (fst u)) \<noteq> nm"
    using Cons.prems by (cases ob; cases u) (auto simp: pk_tags class_name_def)
  with Cons os show ?case by (simp add: pk_select_class.simps [of m "fst u"])
qed

lemma register_layout:
  assumes L: "pk_layout m root (us @ (x, ps) # vs) (os @ ob # os')" and l: "length us = length os" and ob: "obj_name ob = Some cname"
    and sel: "\<forall>u \<in> set os. obj_name u \<noteq> None \<and> obj_name u \<noteq> Some cname"
    and a: "a \<noteq> 0" "a \<notin> set (pk_nodes (us @ (x, ps) # vs))" and "length name < 256" "length types \<le> 16"
  shows "\<exists>m'. pk_exec (Call_Method a cname name ct rt off cbk types) (m, root) = Some (Inr (m', root)) \<and>
    pk_layout m' root (us @ (x, ps @ [a]) # vs) (os @ add_meth (new_meth name ct rt off types) ob # os')"
proof -
  have h: "holds_at m (x, ps) ob" "list_all2 (holds_at m) us os" and k: "links m root (map fst us @ x # map fst vs)"
    using L l by (auto simp: pk_layout_def list_all2_append)
  have nb: "\<nexists>st cb k. ob = PBlock st cb k" using ob by auto
  have x: "n_tag (m x) \<noteq> PK_TAG_TCBLOCK" "class_name (m x) = cname" and props: "links m (n_properties (m x)) ps"
    using h(1) ob by (cases ob; simp add: pk_tags class_name_def)+
  have "links m p (zs @ x # qs) \<Longrightarrow> x \<noteq> 0" for p zs qs by (induction zs arbitrary: p) auto
  then have x0: "x \<noteq> 0" using k by blast
  have ax: "a \<notin> set (x # ps)" using a(2) by simp
  define nd where "nd = method_node x name (of_nat (length types)) ct rt off cbk"
  define nd' where "nd' = nd\<lparr>n_params := map (\<lambda>t. Some (ucast t)) types @ drop (length types) (n_params (pk_blank PK_TAG_METHOD))\<rparr>"
  have m1: "pk_register_method a x name (of_nat (length types)) ct rt off cbk m = Some (Inr (attach x ps a (m(a := nd)), a))"
    unfolding nd_def by (rule register_method_attach [OF props ax x0 assms(7)])
  have m2: "set_args a types (attach x ps a (m(a := nd))) = attach x ps a (m(a := nd'))"
    unfolding nd_def nd'_def by (rule set_args_attach [OF ax a(1) assms(8)])
  have "unat (of_nat (length types) :: u8) = length types" "(of_nat (length types) :: u8) \<le> 16"
    using assms(8) by (simp_all add: unat_of_nat word_le_nat_alt)
  moreover have "ucast (ucast off :: 32 word) = off" by (rule bit_word_eqI) (auto simp: bit_simps)
  ultimately have hm: "holds_meth iface x nd' (new_meth name ct rt off types)" for iface
    by (simp add: holds_meth_def nd'_def nd_def method_node_def new_meth_def pk_blank_def comp_def)
  have "n_next nd' = 0" by (simp add: nd'_def nd_def method_node_def pk_blank_def)
  note layout = attach_layout [OF L l nb a this hm]
  have "pk_select_class m root cname = Some (Inr x)" by (rule select_class_layout [OF k h(2) x sel])
  with m1 m2 layout show ?thesis by simp
qed

lemma exec_layout:
  assumes L: "pk_layout m root ls objs" and a: "call_addr c \<noteq> 0" "call_addr c \<notin> set (pk_nodes ls)"
    and c: "call_objs c objs = Some objs'"
  shows "\<exists>m' root' ls'. pk_exec c (m, root) = Some (Inr (m', root')) \<and> pk_layout m' root' ls' objs' \<and>
    set (pk_nodes ls') = insert (call_addr c) (set (pk_nodes ls))"
proof (cases c)
  case (Call_Class a' name)
  let ?nd = "(pk_blank PK_TAG_CLASS)\<lparr>n_name := name\<rparr>"
  obtain m' root' where "pk_add_object (m(a' := ?nd)) root a' = Some (m', root')"
      "pk_layout m' root' (ls @ [(a', [])]) (objs @ [PClass name []])"
    using add_object_layout [OF L, of a' ?nd "PClass name []"] a Call_Class by (auto simp: pk_blank_def)
  with Call_Class c show ?thesis
    by (force simp: pk_install_class_def pk_create_class_def strcpy_to_def split: if_splits)
next
  case (Call_Interface a' name lib)
  let ?nd = "(pk_blank PK_TAG_INTERFACE)\<lparr>n_name := name, n_libname := lib, n_parent := Some 0\<rparr>"
  obtain m' root' where "pk_add_object (m(a' := ?nd)) root a' = Some (m', root')"
      "pk_layout m' root' (ls @ [(a', [])]) (objs @ [PIface lib name []])"
    using add_object_layout [OF L, of a' ?nd "PIface lib name []"] a Call_Interface by (auto simp: pk_blank_def)
  with Call_Interface c show ?thesis
    by (force simp: pk_install_interface_def pk_create_interface_def strcpy_to_def split: if_splits)
next
  case (Call_Tcblock a' st cb n)
  let ?nd = "(pk_blank PK_TAG_TCBLOCK)\<lparr>n_start := st, n_cblock := cb, n_numargs := n\<rparr>"
  obtain m' root' where "pk_add_object (m(a' := ?nd)) root a' = Some (m', root')"
      "pk_layout m' root' (ls @ [(a', [])]) (objs @ [PBlock st cb n])"
    using add_object_layout [OF L, of a' ?nd "PBlock st cb n"] a Call_Tcblock by (auto simp: pk_blank_def)
  with Call_Tcblock c show ?thesis
    by (force simp: pk_install_tcblock_def pk_create_tcblock_def)
next
  case (Call_Method a' cname name ct rt off cbk types)
  with c have len: "length name < 256" "length types \<le> 16"
    and at: "at_class cname (add_meth (new_meth name ct rt off types)) objs = Some objs'" by (auto split: if_splits)
  from at_class_split [OF at] obtain os ob os' where
    os: "objs = os @ ob # os'" "objs' = os @ add_meth (new_meth name ct rt off types) ob # os'" "obj_name ob = Some cname"
      "\<forall>u \<in> set os. obj_name u \<noteq> None \<and> obj_name u \<noteq> Some cname" by blast
  from L os(1) obtain us x ps vs where ls: "ls = us @ (x, ps) # vs" "length us = length os"
    by (auto simp: pk_layout_def list_all2_append2 list_all2_Cons2 dest: list_all2_lengthD)
  from register_layout [OF L [unfolded os(1) ls(1)] ls(2) os(3,4) _ _ len, of a' ct rt off cbk] a Call_Method obtain m' where
    "pk_exec c (m, root) = Some (Inr (m', root))" "pk_layout m' root (us @ (x, ps @ [a']) # vs) objs'"
    by (auto simp: ls os(2))
  moreover have "set (pk_nodes (us @ (x, ps @ [a']) # vs)) = insert a' (set (pk_nodes ls))" by (auto simp: ls)
  ultimately show ?thesis using Call_Method by auto
qed

lemma calls_layout:
  assumes "pk_layout m root ls objs" "distinct (map call_addr cs)" "0 \<notin> call_addr ` set cs"
    and "call_addr ` set cs \<inter> set (pk_nodes ls) = {}" "calls_objs cs objs = Some objs'"
  shows "\<exists>m' root' ls'. pk_calls cs (m, root) = Some (Inr (m', root')) \<and> pk_layout m' root' ls' objs'"
  using assms
proof (induction cs arbitrary: m root ls objs)
  case (Cons c cs)
  from Cons.prems(5) obtain o1 where o1: "call_objs c objs = Some o1" "calls_objs cs o1 = Some objs'"
    by (auto simp: bind_eq_Some_conv)
  from exec_layout [OF Cons.prems(1) _ _ o1(1)] Cons.prems obtain m1 r1 ls1 where
    1: "pk_exec c (m, root) = Some (Inr (m1, r1))" "pk_layout m1 r1 ls1 o1"
      "set (pk_nodes ls1) = insert (call_addr c) (set (pk_nodes ls))" by auto
  have "call_addr ` set cs \<inter> set (pk_nodes ls1) = {}" using Cons.prems 1(3) by auto
  with Cons.IH [OF 1(2) _ _ _ o1(2)] Cons.prems 1(1) show ?case by auto
qed auto

text \<open>C6: From calls to the file. Any sequence of calls that install classes, interfaces and try-catch blocks and
  register methods, on new nodes and with names and parameters that fit their arrays, builds from the empty
  root a store that \<^verbatim>\<open>pk_file_flush\<close> writes as the nested tag-length-value encoding of the content the calls
  stand for, for every package that fits the buffer. The lists are linked through the store, methods find
  their class by name, and the encoder builds the pieces further up in its own buffer and moves them down:
  no call and no piece disturbs another.\<close>
theorem calls_then_flush:
  assumes "calls_objs cs [] = Some objs" "distinct (map call_addr cs)" "0 \<notin> call_addr ` set cs"
    and "length (enc_package objs codes) + 4 \<le> PKG_BUFFER_SIZE"
  shows "\<exists>m' root b'. pk_calls cs (m, 0) = Some (Inr (m', root)) \<and>
    pk_file_flush m' root codes b = Some (Inr (enc_package objs codes, b'))"
proof -
  have "pk_layout m 0 [] []" by (simp add: pk_layout_def)
  from calls_layout [OF this assms(2,3) _ assms(1)] obtain m' root ls where
    "pk_calls cs (m, 0) = Some (Inr (m', root))" "pk_layout m' root ls objs" by auto
  with file_flush_encodes [OF layout_holds assms(4)] show ?thesis by blast
qed

theorem calls_then_flush_witness:
  "\<exists>m' root b'. pk_calls
      [Call_Class 1 [65], Call_Method 2 [65] [109] 0 1 0x1234 0 [], Call_Interface 3 [66] [76],
       Call_Method 4 [66] [102] 2 3 0 0 [5, 6], Call_Tcblock 5 10 20 1]
      (\<lambda>_. pk_blank 0, 0) = Some (Inr (m', root)) \<and>
    pk_file_flush m' root [7, 8, 9] (\<lambda>_. 0) =
      Some (Inr ([48, 39,
        48, 9, 22, 1, 65, 4, 4, 0x12, 0x34, 0, 109,
        48, 14, 29, 1, 76, 22, 1, 66, 7, 6, 2, 3, 2, 5, 6, 102,
        10, 10, 0, 0, 0, 10, 0, 0, 0, 20, 0, 1,
        30, 3, 7, 8, 9], b'))"
proof -
  let ?cs = "[Call_Class 1 [65], Call_Method 2 [65] [109] 0 1 0x1234 0 [], Call_Interface 3 [66] [76],
       Call_Method 4 [66] [102] 2 3 0 0 [5, 6], Call_Tcblock 5 10 20 1]"
  let ?objs = "[PClass [65] [new_meth [109] 0 1 0x1234 []], PIface [76] [66] [new_meth [102] 2 3 0 [5, 6]], PBlock 10 20 1]"
  have 1: "calls_objs ?cs [] = Some ?objs" by simp
  have 2: "enc_package ?objs [7, 8, 9] = [48, 39,
        48, 9, 22, 1, 65, 4, 4, 0x12, 0x34, 0, 109,
        48, 14, 29, 1, 76, 22, 1, 66, 7, 6, 2, 3, 2, 5, 6, 102,
        10, 10, 0, 0, 0, 10, 0, 0, 0, 20, 0, 1,
        30, 3, 7, 8, 9]" by code_simp
  show ?thesis
    using calls_then_flush [OF 1, of "[7, 8, 9]" "\<lambda>_. pk_blank 0" "\<lambda>_. 0"] unfolding 2 by (simp add: PKG_BUFFER_SIZE_def)
qed

section \<open>Selecting methods\<close>

text \<open>
  The classes from one along its bases, each with its methods; the last class has \<open>e\<close> for its parent,
  where \<^term>\<open>None\<close> is a parent that was never set.
\<close>

fun bases :: "pk_mem \<Rightarrow> addr option \<Rightarrow> (addr \<times> addr list) list \<Rightarrow> addr option \<Rightarrow> bool" where
  "bases m p [] e \<longleftrightarrow> p = e"
| "bases m p ((x, ps) # cs) e \<longleftrightarrow> p = Some x \<and> x \<noteq> 0 \<and> (n_tag (m x) = PK_TAG_CLASS \<or> n_tag (m x) = PK_TAG_INTERFACE) \<and>
     links m (n_properties (m x)) ps \<and> bases m (n_parent (m x)) cs e"

lemma select_property_links:
  "links m p xs \<Longrightarrow>
    select_property m p name = Some (Inr (case find (\<lambda>y. n_name (m y) = name) xs of None \<Rightarrow> 0 | Some y \<Rightarrow> y))"
proof (induction xs arbitrary: p)
  case Nil
  then show ?case by (simp add: select_property.simps [of m 0])
next
  case (Cons x xs)
  then show ?case by (simp add: select_property.simps [of m x])
qed

lemma links_nonzero: "links m p xs \<Longrightarrow> x \<in> set xs \<Longrightarrow> x \<noteq> 0"
  by (induction xs arbitrary: p) auto

lemma find_append: "find P (xs @ ys) = (case find P xs of None \<Rightarrow> find P ys | Some y \<Rightarrow> Some y)"
  by (induction xs) auto

lemma select_method_step:
  assumes "x \<noteq> 0" "n_tag (m x) = PK_TAG_CLASS \<or> n_tag (m x) = PK_TAG_INTERFACE" "ps \<noteq> []" "links m (n_properties (m x)) ps"
  shows "pk_select_method m x name =
    (case find (\<lambda>y. n_name (m y) = name) ps of
       Some y \<Rightarrow> Some (Inr y)
     | None \<Rightarrow> (case n_parent (m x) of None \<Rightarrow> Some (Inl Undefined_Value)
         | Some q \<Rightarrow> if q \<noteq> 0 then pk_select_method m q name else Some (Inr 0)))"
proof -
  have p: "n_properties (m x) \<noteq> 0" using assms(3,4) by (cases ps) auto
  have t: "\<not> (n_tag (m x) \<noteq> PK_TAG_CLASS \<and> n_tag (m x) \<noteq> PK_TAG_INTERFACE)" using assms(2) by blast
  have "y \<noteq> 0" if "find (\<lambda>y. n_name (m y) = name) ps = Some y" for y
    using that links_nonzero [OF assms(4)] by (auto simp: find_Some_iff)
  then show ?thesis
    unfolding pk_select_method.simps [of m x] select_property_links [OF assms(4)] if_not_P [OF assms(1)] if_not_P [OF p] if_not_P [OF t]
    by (cases "find (\<lambda>y. n_name (m y) = name) ps") auto
qed

text \<open>C22: Method resolution. \<^verbatim>\<open>pk_select_method\<close> finds the first method of that name in the class and then along its
  bases, the nearest class first, but only up to the first class on the way that has no methods at all: that class
  gives NULL and its bases are not searched. When all classes have methods and none has the name, the result is NULL
  where the last class has no parent; where it is a class that \<^verbatim>\<open>pk_create_class\<close> made, whose parent was never set, the
  search goes on through that value.\<close>
theorem select_method_resolves:
  assumes "bases m (Some x) ((x, ps) # cs) e" "e = None \<or> e = Some 0"
  shows "pk_select_method m x name =
    (case find (\<lambda>y. n_name (m y) = name) (concat (takeWhile (\<lambda>qs. qs \<noteq> []) (map snd ((x, ps) # cs)))) of
       Some y \<Rightarrow> Some (Inr y)
     | None \<Rightarrow> if [] \<notin> set (map snd ((x, ps) # cs)) \<and> e = None then Some (Inl Undefined_Value) else Some (Inr 0))"
  using assms
proof (induction cs arbitrary: x ps)
  case Nil
  show ?case
  proof (cases "ps = []")
    case True
    with Nil.prems show ?thesis by (auto simp: pk_select_method.simps [of m x])
  next
    case False
    with Nil.prems show ?thesis by (subst select_method_step [where ps = ps]) (auto split: option.splits)
  qed
next
  case (Cons c cs)
  obtain z qs where c: "c = (z, qs)" by fastforce
  have b: "bases m (Some z) ((z, qs) # cs) e" using Cons.prems(1) by (simp add: c)
  show ?case
  proof (cases "ps = []")
    case True
    with Cons.prems show ?thesis by (auto simp: pk_select_method.simps [of m x])
  next
    case False
    then have "pk_select_method m x name =
        (case find (\<lambda>y. n_name (m y) = name) ps of Some y \<Rightarrow> Some (Inr y) | None \<Rightarrow> pk_select_method m z name)"
      using Cons.prems(1) by (subst select_method_step [where ps = ps]) (auto simp: c split: option.splits)
    with False show ?thesis
      unfolding Cons.IH [OF b Cons.prems(2)] by (simp add: c find_append split: option.splits)
  qed
qed

theorem select_method_resolves_witness:
  "let m = (\<lambda>_. pk_blank 0)
       (1 := (pk_blank PK_TAG_CLASS)\<lparr>n_properties := 2, n_parent := Some 3\<rparr>, 2 := (pk_blank PK_TAG_METHOD)\<lparr>n_name := [65]\<rparr>,
        3 := (pk_blank PK_TAG_CLASS)\<lparr>n_properties := 4\<rparr>, 4 := (pk_blank PK_TAG_METHOD)\<lparr>n_name := [66]\<rparr>,
        5 := (pk_blank PK_TAG_CLASS)\<lparr>n_parent := Some 3\<rparr>)
   in pk_select_method m 1 [66] = Some (Inr 4) \<and> pk_select_method m 1 [67] = Some (Inl Undefined_Value) \<and>
      pk_select_method m 5 [66] = Some (Inr 0)"
proof -
  define m :: pk_mem where "m = (\<lambda>_. pk_blank 0)
       (1 := (pk_blank PK_TAG_CLASS)\<lparr>n_properties := 2, n_parent := Some 3\<rparr>, 2 := (pk_blank PK_TAG_METHOD)\<lparr>n_name := [65]\<rparr>,
        3 := (pk_blank PK_TAG_CLASS)\<lparr>n_properties := 4\<rparr>, 4 := (pk_blank PK_TAG_METHOD)\<lparr>n_name := [66]\<rparr>,
        5 := (pk_blank PK_TAG_CLASS)\<lparr>n_parent := Some 3\<rparr>)"
  have b: "bases m (Some 1) [(1, [2]), (3, [4])] None" "bases m (Some 5) [(5, []), (3, [4])] None"
    by (simp_all add: m_def pk_blank_def)
  have "pk_select_method m 1 [66] = Some (Inr 4)" "pk_select_method m 1 [67] = Some (Inl Undefined_Value)"
    "pk_select_method m 5 [66] = Some (Inr 0)"
    using select_method_resolves [OF b(1), of "[66]"] select_method_resolves [OF b(1), of "[67]"]
      select_method_resolves [OF b(2), of "[66]"] by (simp_all add: m_def pk_blank_def)
  then show ?thesis by (simp add: m_def Let_def)
qed

section \<open>Try-catch blocks\<close>

text \<open>Nodes that are no blocks are passed.\<close>

lemma dispatch_pass:
  assumes "links m it (us @ ws)" "\<forall>u \<in> set us. n_tag (m u) \<noteq> PK_TAG_TCBLOCK" "us \<noteq> []"
  shows "dispatch_tc_loop m root entries prev it = dispatch_tc_loop m root entries (last us) (case ws of [] \<Rightarrow> 0 | w # _ \<Rightarrow> w)"
  using assms
proof (induction us arbitrary: it prev)
  case (Cons u us)
  then have u: "it = u" "u \<noteq> 0" "links m (n_next (m u)) (us @ ws)" by simp_all
  have step: "dispatch_tc_loop m root entries prev u = dispatch_tc_loop m root entries u (n_next (m u))"
    using u Cons.prems(2) by (simp add: dispatch_tc_loop.simps [of m root entries prev u])
  show ?case
  proof (cases us)
    case Nil
    with u step show ?thesis by (cases ws) auto
  next
    case (Cons v vs)
    with Cons.IH [OF u(3), of u] Cons.prems step u(1) show ?thesis by simp
  qed
qed simp

text \<open>A try-catch block between other objects. \<^verbatim>\<open>pk_dispatch_tc_entries\<close> puts it on the list of entries but does not take
  it out of the list of objects: the object before it still points to it, and its own link is cleared. The list
  of objects then ends with the block, and every object behind it is lost.\<close>
theorem dispatch_loses_objects:
  assumes "links m root (us @ b # vs)" "distinct (us @ b # vs)" "us \<noteq> []"
    and "n_tag (m b) = PK_TAG_TCBLOCK" "\<forall>u \<in> set (us @ vs). n_tag (m u) \<noteq> PK_TAG_TCBLOCK"
  shows "\<exists>m'. pk_dispatch_tc_entries m root 0 = Some (m', root, b) \<and> links m' b [b] \<and> links m' root (us @ [b])"
proof -
  define m' where "m' = pk_put b (\<lambda>x. x\<lparr>n_next := 0\<rparr>) m"
  have b: "links m b (b # vs)" using assms(1) by (induction us arbitrary: root) auto
  have tl: "links m (n_next (m b)) vs" "b \<noteq> 0" using b by simp_all
  have "pk_dispatch_tc_entries m root 0 = dispatch_tc_loop m root 0 (last us) b"
    unfolding pk_dispatch_tc_entries_def by (subst dispatch_pass [OF assms(1)]) (use assms(3,5) in auto)
  also have "\<dots> = dispatch_tc_loop m' root b (last us) (n_next (m b))"
  proof -
    have "last us \<noteq> 0" using assms(1,3) links_nonzero [OF assms(1), of "last us"] by simp
    then show ?thesis using assms(4) tl(2)
      by (simp add: dispatch_tc_loop.simps [of m root 0 "last us" b] pk_add_object_def m'_def Let_def)
  qed
  also have "\<dots> = Some (m', root, b)"
  proof -
    have l': "links m' (n_next (m b)) vs" using tl(1) assms(2) by (subst links_cong [where m = m]) (auto simp: m'_def pk_put_def)
    moreover have "\<forall>u \<in> set vs. n_tag (m' u) \<noteq> PK_TAG_TCBLOCK" using assms(2,5) by (auto simp: m'_def pk_put_def)
    ultimately show ?thesis
      using dispatch_pass [of m' "n_next (m b)" vs "[]" root b "last us"] tl(1)
      by (cases "vs = []") (simp_all add: dispatch_tc_loop.simps [of m' root b _ 0])
  qed
  finally have "pk_dispatch_tc_entries m root 0 = Some (m', root, b)" .
  moreover have "links m' b [b]" using tl(2) by (simp add: m'_def pk_put_def)
  moreover have "links m' root (us @ [b])"
    using assms(1,2) by (induction us arbitrary: root) (auto simp: m'_def pk_put_def)
  ultimately show ?thesis by blast
qed

theorem dispatch_loses_objects_witness:
  "let m = (\<lambda>_. pk_blank 0)
       (1 := (pk_blank PK_TAG_CLASS)\<lparr>n_next := 2\<rparr>, 2 := (pk_blank PK_TAG_TCBLOCK)\<lparr>n_next := 3\<rparr>, 3 := pk_blank PK_TAG_CLASS)
   in links m 1 [1, 2, 3] \<and> (\<exists>m'. pk_dispatch_tc_entries m 1 0 = Some (m', 1, 2) \<and> links m' 1 [1, 2])"
proof -
  define m :: pk_mem where "m = (\<lambda>_. pk_blank 0)
    (1 := (pk_blank PK_TAG_CLASS)\<lparr>n_next := 2\<rparr>, 2 := (pk_blank PK_TAG_TCBLOCK)\<lparr>n_next := 3\<rparr>, 3 := pk_blank PK_TAG_CLASS)"
  have "links m 1 ([1] @ 2 # [3])" by (simp add: m_def pk_blank_def)
  with dispatch_loses_objects [of m 1 "[1]" 2 "[3]"]
  have "links m 1 [1, 2, 3]" "\<exists>m'. pk_dispatch_tc_entries m 1 0 = Some (m', 1, 2) \<and> links m' 1 [1, 2]"
    by (auto simp: m_def pk_blank_def pk_tags)
  then show ?thesis by (simp add: m_def Let_def)
qed

section \<open>Code bases\<close>

lemma set_codebase_props_links:
  assumes "links m it ps" "distinct ps"
  shows "set_codebase_props cb m it = Some (\<lambda>a. if a \<in> set ps then (m a)\<lparr>n_codebase := cb\<rparr> else m a)"
  using assms
proof (induction ps arbitrary: m it)
  case Nil
  then show ?case by (simp add: set_codebase_props.simps [of cb m 0])
next
  case (Cons p ps)
  let ?m1 = "pk_put p (\<lambda>n. n\<lparr>n_codebase := cb\<rparr>) m"
  have "links ?m1 (n_next (m p)) ps" using Cons.prems by (subst links_cong [where m = m]) (auto simp: pk_put_def)
  moreover have "set_codebase_props cb m it = set_codebase_props cb ?m1 (n_next (m p))"
    using Cons.prems by (simp add: set_codebase_props.simps [of cb m p] Let_def pk_put_def)
  moreover have "(\<lambda>a. if a \<in> set ps then (?m1 a)\<lparr>n_codebase := cb\<rparr> else ?m1 a) =
      (\<lambda>a. if a \<in> set (p # ps) then (m a)\<lparr>n_codebase := cb\<rparr> else m a)"
    by (auto simp: pk_put_def fun_eq_iff)
  ultimately show ?case using Cons.IH [of ?m1] Cons.prems(2) by simp
qed

text \<open>The code base goes to every node of a package and to no other.\<close>

lemma set_codebase_layout:
  assumes "pk_layout m root ls objs"
  shows "pk_set_codebase cb m root = Some (Inr (\<lambda>a. if a \<in> set (pk_nodes ls) then (m a)\<lparr>n_codebase := cb\<rparr> else m a))"
  using assms
proof (induction ls arbitrary: m root objs)
  case Nil
  then show ?case by (simp add: pk_layout_def pk_set_codebase.simps [of cb m 0])
next
  case (Cons l ls)
  obtain x ps where l: "l = (x, ps)" by fastforce
  from Cons.prems obtain ob os where os: "objs = ob # os" "holds_at m (x, ps) ob" "list_all2 (holds_at m) ls os"
    and x: "root = x" "x \<noteq> 0" and ln: "links m (n_next (m x)) (map fst ls)"
    and d: "distinct (x # ps)" "distinct (pk_nodes ls)" "set (x # ps) \<inter> set (pk_nodes ls) = {}"
    by (auto simp: pk_layout_def l list_all2_Cons1)
  define m1 where "m1 = (\<lambda>a. if a \<in> set (x # ps) then (m a)\<lparr>n_codebase := cb\<rparr> else m a)"
  have props: "links m (n_properties (m x)) ps" if "n_tag (m x) = PK_TAG_CLASS \<or> n_tag (m x) = PK_TAG_INTERFACE"
    using os(2) that by (cases ob) (auto simp: pk_tags)
  have kind: "n_tag (m x) = PK_TAG_CLASS \<or> n_tag (m x) = PK_TAG_INTERFACE \<or> n_tag (m x) = PK_TAG_TCBLOCK \<and> ps = []"
    using os(2) by (cases ob) auto
  have "(if (n_tag (m x) = PK_TAG_CLASS \<or> n_tag (m x) = PK_TAG_INTERFACE) \<and> n_properties (m x) \<noteq> 0
      then set_codebase_props cb m (n_properties (m x)) else Some m) =
    Some (\<lambda>a. if a \<in> set ps then (m a)\<lparr>n_codebase := cb\<rparr> else m a)"
    using set_codebase_props_links [OF props, of cb] kind props d(1) by (cases ps) (auto simp: pk_tags)
  moreover have "pk_put x (\<lambda>n. n\<lparr>n_codebase := cb\<rparr>) (\<lambda>a. if a \<in> set ps then (m a)\<lparr>n_codebase := cb\<rparr> else m a) = m1"
    using d(1) by (auto simp: pk_put_def m1_def fun_eq_iff)
  moreover have "n_next (m1 x) = n_next (m x)" "n_tag (m x) \<noteq> PK_TAG_METHOD" using kind by (auto simp: m1_def pk_tags)
  ultimately have step: "pk_set_codebase cb m x = pk_set_codebase cb m1 (n_next (m x))"
    using x(2) by (simp add: pk_set_codebase.simps [of cb m x] Let_def)
  have same: "m1 a = m a" if "a \<in> set (pk_nodes ls)" for a using that d(3) by (auto simp: m1_def)
  have "holds_at m1 (y, qs) o'" if "(y, qs) \<in> set ls" "holds_at m (y, qs) o'" for y qs o'
    using holds_at_cong [of qs m1 m y "n_next (m y)" o'] same that(2) pk_nodes_mem [OF that(1)] by auto
  then have "list_all2 (holds_at m1) ls os" by (intro list.rel_mono_strong [OF os(3)]) auto
  moreover have "links m1 (n_next (m x)) (map fst ls)"
    using ln by (subst links_cong [where m = m]) (use same pk_nodes_fst [of ls] in auto)
  ultimately have "pk_layout m1 (n_next (m x)) ls os" using d(2) by (simp add: pk_layout_def)
  from Cons.IH [OF this] show ?case using step x(1) d(3) by (auto simp: l m1_def fun_eq_iff)
qed

end
