(* ===== verification/VM_Exec.thy ===== *)
theory VM_Exec
  imports VM_Ops IL_Streamer PK_Package
begin

text \<open>
  The interpreter loop \<^verbatim>\<open>vm_decode\<close> of \<^verbatim>\<open>StackVM/vm_stack.c\<close> with what it calls: fetching code,
  loading constants, system calls, function objects, try-catch blocks. The configuration is that of
  \<^verbatim>\<open>config.h\<close> for the interpreter: code is fetched from the code generator's buffer
  (\<^verbatim>\<open>vm_fetch\<close> of \<^verbatim>\<open>il_streamer.c\<close>), operands are relative to the program counter
  (\<^verbatim>\<open>IS_REL_JUMP_ADDRESS\<close>) and the trace of \<^verbatim>\<open>VM_CODEDEBUG\<close> is on. The trace prints, which is not
  modelled, but it also reads the object it prints.
\<close>

section \<open>Constants\<close>

definition VA_OBJECT_MAX_SIZE :: nat where "VA_OBJECT_MAX_SIZE = 0x1000"

definition vm_fetch :: "vm_env \<Rightarrow> nat \<Rightarrow> nat \<Rightarrow> u8 list vm" where
  "vm_fetch env off n =
     (if off + n \<le> MAX_BUFFER_SIZE then ret_v (read_bytes (e_code env) off n) else err_v Out_Of_Bounds)"

text \<open>
  \<^verbatim>\<open>vm_load_constant\<close>: length and header length as the marker gives them; for other markers the
  header length is not set.
\<close>

definition constant_lens :: "u8 list \<Rightarrow> (nat \<times> nat) option" where
  "constant_lens lbuf =
     (if lbuf ! 0 < 128 then Some (unat (lbuf ! 0), 1)
      else if lbuf ! 0 AND 0x0F = 0x01 then Some (unat (lbuf ! 1), 2)
      else if lbuf ! 0 AND 0x0F = 0x02 then Some (unat (lbuf ! 1) * 256 + unat (lbuf ! 2), 3)
      else None)"

definition vm_load_constant :: "vm_env \<Rightarrow> nat \<Rightarrow> addr vm" where
  "vm_load_constant env off =
     bind_v (vm_fetch env off 4) (\<lambda>lbuf.
       case constant_lens lbuf of
         None \<Rightarrow> err_v Undefined_Value
       | Some (len, llen) \<Rightarrow>
           if VA_OBJECT_MAX_SIZE < len
           then bind_v (vm_invoke_exception VX_OUT_OF_BOUNDS) (\<lambda>_. ret_v (e_null env))
           else
             bind_v (m_alloc_v (len + 1)) (\<lambda>buffer.
               if buffer = 0 then err_v Null_Deref
               else
                 bind_v (vm_fetch env (off + llen) len) (\<lambda>bs.
                 bind_v (vm_create_object len (Some bs)) (\<lambda>p.
                 bind_v (mgc_dec p) (\<lambda>_.
                 bind_v (m_free_v buffer) (\<lambda>_. ret_v p))))))"

text \<open>\<^verbatim>\<open>VM_NULL_OBJECT\<close> is a string constant shorter than an object: it cannot be used as one.\<close>

definition real_object :: "vm_env \<Rightarrow> addr \<Rightarrow> unit vm" where
  "real_object env p = (if p = e_null env then err_v Undefined_Value else ret_v ())"

section \<open>Classes, methods, functions\<close>

definition vm_load_class_sta :: "vm_env \<Rightarrow> u8 list \<Rightarrow> addr vm" where
  "vm_load_class_sta env name =
     (let base = e_class env name in
      if base \<noteq> 0 then vm_create_object 16 (Some (le_bytes 8 0 @ le_bytes 8 base)) else ret_v (e_null env))"

definition vm_load_class :: "vm_env \<Rightarrow> addr \<Rightarrow> addr vm" where
  "vm_load_class env clsobj =
     bind_v (load_obj clsobj) (\<lambda>ob.
     bind_v (m_alloc_v (o_len ob + 1)) (\<lambda>buffer.
       if buffer = 0 then err_v Null_Deref
       else
         bind_v (vm_load_class_sta env (strz (o_bytes ob))) (\<lambda>p.
         bind_v (m_free_v buffer) (\<lambda>_. ret_v p))))"

text \<open>The class pointer in an interface object: its second word.\<close>

definition iface_class :: "vm_object \<Rightarrow> addr" where
  "iface_class ob = le_value (take 8 (drop 8 (o_bytes ob)))"

definition vm_load_method :: "vm_env \<Rightarrow> addr \<Rightarrow> addr \<Rightarrow> (addr \<times> addr \<times> nat) option vm" where
  "vm_load_method env clsobj mthobj =
     bind_v (load_obj clsobj) (\<lambda>cls.
     bind_v (load_obj mthobj) (\<lambda>mth.
       if o_len cls = 0 \<or> o_len mth = 0 then ret_v None
       else if o_len cls < 16 then err_v Out_Of_Bounds
       else
         bind_v (m_alloc_v (o_len mth + 1)) (\<lambda>buffer.
           if buffer = 0 then err_v Null_Deref
           else
             let m = e_method env (iface_class cls) (strz (o_bytes mth))
             in bind_v (m_free_v buffer) (\<lambda>_. ret_v m))))"

text \<open>
  A function object: the package, the machine, the number of arguments and the offset, in a structure of
  24 bytes.
\<close>

definition function_bytes :: "addr \<Rightarrow> addr \<Rightarrow> u8 \<Rightarrow> u16 \<Rightarrow> u8 list \<Rightarrow> u8 list" where
  "function_bytes base self nargs off pad =
     le_bytes 8 base @ le_bytes 8 self @ nargs # pad ! 17 # le_bytes 2 (unat off) @ drop 20 pad"

definition func_base :: "vm_object \<Rightarrow> addr" where "func_base ob = le_value (take 8 (o_bytes ob))"
definition func_nargs :: "vm_object \<Rightarrow> u8" where "func_nargs ob = o_bytes ob ! 16"
definition func_offset :: "vm_object \<Rightarrow> u16" where
  "func_offset ob = of_nat (le_value (take 2 (drop 18 (o_bytes ob))))"

definition vm_exec_function :: "addr \<Rightarrow> u16 \<Rightarrow> unit vm" where
  "vm_exec_function base off =
     bind_v (get_v (\<lambda>vm. (v_package vm, v_pc vm))) (\<lambda>(pkg, pc).
     bind_v (vm_push_base pkg) (\<lambda>_.
     bind_v (vm_push_base (unat pc)) (\<lambda>_.
       upd_v (\<lambda>vm. vm\<lparr>v_package := base, v_pc := off, v_rexec := True\<rparr>))))"

text \<open>
  \<^verbatim>\<open>va_sys_exec\<close> runs a function object: the arguments above it move down by one, over the function
  object.
\<close>

primrec shift_args :: "nat \<Rightarrow> nat \<Rightarrow> unit vm" where
  "shift_args 0 base = ret_v ()"
| "shift_args (Suc k) base =
     (if base = 0 then err_v Out_Of_Bounds
      else
        bind_v (stack_read (base - 1)) (\<lambda>x.
        bind_v (stack_write base x) (\<lambda>_. shift_args k (base - 1))))"

definition va_sys_exec :: "unit vm" where
  "va_sys_exec =
     bind_v (get_v (\<lambda>vm. (v_num_params vm, v_sp vm + ucast (v_num_params vm)))) (\<lambda>(n, base_arg).
       if n = 0 then vm_invoke_exception VX_ARGUMENT_MISMATCH
       else
         bind_v (vm_get_argument 0) (\<lambda>p.
         bind_v (mgc_dec p) (\<lambda>_.
         bind_v (load_obj p) (\<lambda>f.
           if o_len f < 20 then err_v Undefined_Value
           else if func_nargs f \<noteq> n - 1 then vm_invoke_exception VX_ARGUMENT_MISMATCH
           else
             bind_v (shift_args (unat n - 1) (unat base_arg)) (\<lambda>_.
             bind_v (upd_v (\<lambda>vm. vm\<lparr>v_sp := v_sp vm + 1\<rparr>)) (\<lambda>_.
               vm_exec_function (func_base f) (func_offset f)))))))"

section \<open>System calls\<close>

text \<open>
  \<^verbatim>\<open>vm_syscall\<close>: the first entry of the table with the number. Without one the exception is raised and
  the function ends without a value, \<^term>\<open>None\<close>.
\<close>

definition vm_syscall :: "vm_env \<Rightarrow> u16 \<Rightarrow> addr option vm" where
  "vm_syscall env api =
     bind_v (upd_v (\<lambda>vm. vm\<lparr>v_api := api\<rparr>)) (\<lambda>_.
       case map_of (e_apis env) api of
         None \<Rightarrow> bind_v (vm_invoke_exception VX_UNIMPLEMENTED_APIS) (\<lambda>_. ret_v None)
       | Some entry \<Rightarrow>
           bind_v (vm_create_object 0 None) (\<lambda>r.
           bind_v (upd_v (\<lambda>vm. vm\<lparr>v_ret := r\<rparr>)) (\<lambda>_.
           bind_v entry (\<lambda>_.
           bind_v (get_v v_ret) (\<lambda>r.
             if r = 0 then
               bind_v (vm_create_object 0 None) (\<lambda>q.
               bind_v (upd_v (\<lambda>vm. vm\<lparr>v_ret := q\<rparr>)) (\<lambda>_. ret_v (Some q)))
             else ret_v (Some r))))))"

section \<open>Instructions\<close>

text \<open>
  Of the local variables of \<^verbatim>\<open>vm_decode\<close> two live longer than one instruction: \<^verbatim>\<open>new_base_addr\<close>, and
  \<^verbatim>\<open>obj\<close>, which the trace of \<^verbatim>\<open>INS_OBJDUP\<close> reads before anything sets it.
\<close>

record locals =
  l_base :: addr
  l_obj :: "addr option"

definition ins_index :: "u8 list \<Rightarrow> u16" where
  "ins_index ibuf = end_swap16 (ucast (ibuf ! 1) OR push_bit 8 (ucast (ibuf ! 2)))"

definition vm_add_pc :: "u16 \<Rightarrow> unit vm" where "vm_add_pc n = upd_v (\<lambda>vm. vm\<lparr>v_pc := v_pc vm + n\<rparr>)"
definition vm_set_pc :: "u16 \<Rightarrow> unit vm" where "vm_set_pc x = upd_v (\<lambda>vm. vm\<lparr>v_pc := x\<rparr>)"

text \<open>The object the trace reads.\<close>

definition vm_debug_var :: "addr option \<Rightarrow> unit vm" where
  "vm_debug_var v =
     (case v of None \<Rightarrow> err_v Undefined_Value
      | Some p \<Rightarrow> if p = 0 then err_v Null_Deref else ret_v ())"

definition done_v :: "u16 \<Rightarrow> addr \<Rightarrow> locals \<Rightarrow> locals vm" where
  "done_v n p l = bind_v (vm_add_pc n) (\<lambda>_. ret_v (l\<lparr>l_obj := Some p\<rparr>))"

definition exec_OBJPUSH :: "u8 list \<Rightarrow> locals \<Rightarrow> locals vm" where
  "exec_OBJPUSH ibuf l =
     base_index (unat (ibuf ! 1) + 1) (\<lambda>i.
     bind_v (stack_read i) (\<lambda>p.
     bind_v (if p \<noteq> 0 then mgc_inc p else ret_v ()) (\<lambda>_.
     bind_v (vm_push_stack p) (\<lambda>_.
     bind_v (vm_debug_var (Some p)) (\<lambda>_. done_v 2 p l)))))"

definition store_variable :: "u8 list \<Rightarrow> addr \<Rightarrow> locals \<Rightarrow> locals vm" where
  "store_variable ibuf p l =
     base_index (unat (ibuf ! 1) + 1) (\<lambda>i.
     bind_v (stack_read i) (\<lambda>old.
     bind_v (if old \<noteq> p then
               bind_v (if old \<noteq> 0 then mgc_dec old else ret_v ()) (\<lambda>_.
               bind_v (stack_write i p) (\<lambda>_. if p \<noteq> 0 then mgc_inc p else ret_v ()))
             else ret_v ()) (\<lambda>_.
     bind_v (vm_debug_var (Some p)) (\<lambda>_. done_v 2 p l))))"

definition exec_OBJSTORE :: "u8 list \<Rightarrow> locals \<Rightarrow> locals vm" where
  "exec_OBJSTORE ibuf l =
     bind_v (get_v v_sp) (\<lambda>sp. bind_v (stack_read (unat sp + 1)) (\<lambda>p. store_variable ibuf p l))"

definition exec_OBJPOP :: "u8 list \<Rightarrow> locals \<Rightarrow> locals vm" where
  "exec_OBJPOP ibuf l = bind_v vm_pop_stack_arc (\<lambda>p. store_variable ibuf p l)"

text \<open>A big-endian word of an object's contents.\<close>

definition table_word :: "vm_object \<Rightarrow> nat \<Rightarrow> u16 vm" where
  "table_word ob k =
     (if k + 1 < o_len ob then ret_v (ucast (o_bytes ob ! k) * 256 + ucast (o_bytes ob ! (k + 1)))
      else err_v Undefined_Value)"

text \<open>
  One entry of the jump table of \<^verbatim>\<open>INS_SWITCH\<close>: the target when the constant of the entry equals the
  object. The loop counter is an \<^verbatim>\<open>uchar\<close>.
\<close>

definition switch_entry :: "vm_env \<Rightarrow> addr \<Rightarrow> addr \<Rightarrow> u8 \<Rightarrow> u16 option vm" where
  "switch_entry env ob table psw =
     bind_v (get_v (\<lambda>vm. (v_objs vm table, v_pc vm))) (\<lambda>(t, pc).
     bind_v (table_word t (unat psw)) (\<lambda>index.
     bind_v (vm_load_constant env (unat index + unat pc)) (\<lambda>op2.
     bind_v (real_object env op2) (\<lambda>_.
     bind_v (vm_cmp_object env ob op2) (\<lambda>c.
       if c = VM_CMP_EQ then
         bind_v (table_word t (unat psw + 2)) (\<lambda>target.
         bind_v (vm_release_object op2) (\<lambda>_. ret_v (Some target)))
       else bind_v (vm_release_object op2) (\<lambda>_. ret_v None))))))"

partial_function (option) switch_loop :: "vm_env \<Rightarrow> addr \<Rightarrow> addr \<Rightarrow> u8 \<Rightarrow> u16 vm" where
  "switch_loop env ob table psw vm =
     (if \<not> unat psw < o_len (v_objs vm table) then table_word (v_objs vm table) 0 vm
      else case switch_entry env ob table psw vm of
          None \<Rightarrow> None
        | Some r \<Rightarrow>
            (case r of
               Inl e \<Rightarrow> Some (Inl e)
             | Inr (t, vm') \<Rightarrow>
                 (case t of
                    Some target \<Rightarrow> Some (Inr (target, vm'))
                  | None \<Rightarrow> switch_loop env ob table (psw + 4) vm')))"

definition exec_SWITCH :: "vm_env \<Rightarrow> u8 list \<Rightarrow> locals \<Rightarrow> locals vm" where
  "exec_SWITCH env ibuf l =
     bind_v vm_pop_stack_arc (\<lambda>ob.
     bind_v (get_v v_pc) (\<lambda>pc.
     bind_v (vm_load_constant env (unat (ins_index ibuf) + unat pc)) (\<lambda>table.
     bind_v (real_object env table) (\<lambda>_.
     bind_v (switch_loop env ob table 2) (\<lambda>index.
     bind_v (vm_release_object table) (\<lambda>_.
     bind_v (vm_set_pc (index + pc)) (\<lambda>_. ret_v (l\<lparr>l_obj := Some ob\<rparr>))))))))"

definition exec_OBJDEL :: "locals \<Rightarrow> locals vm" where
  "exec_OBJDEL l = bind_v vm_pop_stack_arc (\<lambda>p. bind_v (vm_release_object p) (\<lambda>_. done_v 1 p l))"

definition exec_OBJSUB :: "locals \<Rightarrow> locals vm" where
  "exec_OBJSUB l =
     bind_v vm_pop_stack_arc (\<lambda>op2.
     bind_v vm_pop_stack_arc (\<lambda>op1.
     bind_v vm_pop_stack_arc (\<lambda>target.
     bind_v (vm_split_object op2 op1 target) (\<lambda>p.
     bind_v (vm_push_stack p) (\<lambda>_. done_v 1 p l)))))"

definition exec_OBJSZ :: "locals \<Rightarrow> locals vm" where
  "exec_OBJSZ l =
     bind_v vm_pop_stack_arc (\<lambda>op1.
     bind_v (vm_size_object op1) (\<lambda>p.
     bind_v (vm_push_stack p) (\<lambda>_. done_v 1 p l)))"

definition exec_OBJDUP :: "locals \<Rightarrow> locals vm" where
  "exec_OBJDUP l =
     bind_v (get_v v_sp) (\<lambda>sp.
     bind_v (stack_read (unat sp + 1)) (\<lambda>op1.
     bind_v (vm_push_stack_arc op1) (\<lambda>_.
     bind_v (vm_debug_var (l_obj l)) (\<lambda>_.
     bind_v (vm_add_pc 1) (\<lambda>_. ret_v l)))))"

definition exec_NOT :: "vm_env \<Rightarrow> locals \<Rightarrow> locals vm" where
  "exec_NOT env l =
     bind_v vm_pop_stack_arc (\<lambda>op2.
     bind_v (vm_operation_object env INS_NOT op2 op2) (\<lambda>p.
     bind_v (vm_push_stack p) (\<lambda>_. done_v 1 p l)))"

definition exec_operator :: "vm_env \<Rightarrow> u8 \<Rightarrow> locals \<Rightarrow> locals vm" where
  "exec_operator env opc l =
     bind_v vm_pop_stack_arc (\<lambda>op2.
     bind_v vm_pop_stack_arc (\<lambda>op1.
     bind_v (vm_operation_object env opc op2 op1) (\<lambda>p.
     bind_v (vm_push_stack p) (\<lambda>_. done_v 1 p l))))"

definition exec_compare :: "vm_env \<Rightarrow> u8 \<Rightarrow> locals \<Rightarrow> locals vm" where
  "exec_compare env opc l =
     bind_v vm_pop_stack_arc (\<lambda>op2.
     bind_v vm_pop_stack_arc (\<lambda>op1.
     bind_v (vm_compare_object env opc op2 op1) (\<lambda>p.
     bind_v (vm_push_stack p) (\<lambda>_. done_v 1 p l))))"

text \<open>System calls: unless the entry started a function of the program, the arguments are popped and the result pushed.\<close>

primrec pop_args :: "nat \<Rightarrow> unit vm" where
  "pop_args 0 = ret_v ()"
| "pop_args (Suc n) = bind_v vm_pop_stack_arc (\<lambda>_. pop_args n)"

definition finish_syscall :: "addr option \<Rightarrow> locals \<Rightarrow> locals vm" where
  "finish_syscall r l =
     bind_v (get_v v_rexec) (\<lambda>rexec.
       if rexec then ret_v (l\<lparr>l_obj := r\<rparr>)
       else
         bind_v (get_v v_num_params) (\<lambda>n.
         bind_v (pop_args (unat n)) (\<lambda>_.
         bind_v (get_v v_state) (\<lambda>st.
         bind_v (if st = VM_STATE_RUN
                 then (case r of None \<Rightarrow> err_v Undefined_Value | Some p \<Rightarrow> vm_push_stack p)
                 else ret_v ()) (\<lambda>_. ret_v (l\<lparr>l_obj := r\<rparr>))))))"

definition exec_SYSCALL :: "vm_env \<Rightarrow> u8 list \<Rightarrow> locals \<Rightarrow> locals vm" where
  "exec_SYSCALL env ibuf l =
     bind_v (upd_v (\<lambda>vm. vm\<lparr>v_num_params := ibuf ! 0 - INS_SYSCALL\<rparr>)) (\<lambda>_.
       if ibuf ! 1 < 254 then
         bind_v (vm_add_pc 2) (\<lambda>_.
         bind_v (vm_syscall env (ucast (ibuf ! 1))) (\<lambda>r. finish_syscall r l))
       else
         bind_v (vm_add_pc 4) (\<lambda>_.
         bind_v (vm_syscall env (ucast (ibuf ! 2) * 256 + ucast (ibuf ! 3))) (\<lambda>r. finish_syscall r l)))"

definition exec_F2O :: "vm_env \<Rightarrow> u8 list \<Rightarrow> locals \<Rightarrow> locals vm" where
  "exec_F2O env ibuf l =
     bind_v (vm_create_object 24 None) (\<lambda>p.
     bind_v (get_v v_package) (\<lambda>pkg.
     bind_v (upd_obj p (\<lambda>ob. ob\<lparr>o_bytes :=
        function_bytes pkg (e_ctx env) (ibuf ! 0 - INS_F2O) (ins_index ibuf) (o_bytes ob)\<rparr>)) (\<lambda>_.
     bind_v (vm_push_stack p) (\<lambda>_. done_v 3 p l))))"

text \<open>Frames: \<^verbatim>\<open>INS_SCTX\<close> pushes empty objects, \<^verbatim>\<open>INS_RCTX\<close> pops them and leaves fresh ones in the slots.\<close>

primrec sctx_loop :: "nat \<Rightarrow> unit vm" where
  "sctx_loop 0 = ret_v ()"
| "sctx_loop (Suc n) = bind_v (vm_create_object 0 None) (\<lambda>p. bind_v (vm_push_base p) (\<lambda>_. sctx_loop n))"

definition exec_SCTX :: "u8 list \<Rightarrow> locals \<Rightarrow> locals vm" where
  "exec_SCTX ibuf l =
     bind_v (sctx_loop (unat (ibuf ! 1))) (\<lambda>_. bind_v (vm_add_pc 2) (\<lambda>_. ret_v l))"

primrec rctx_loop :: "nat \<Rightarrow> locals \<Rightarrow> locals vm" where
  "rctx_loop 0 l = ret_v l"
| "rctx_loop (Suc n) l =
     bind_v vm_pop_base (\<lambda>p.
     bind_v (vm_create_object 0 None) (\<lambda>q.
     bind_v (get_v v_bp) (\<lambda>bp.
     bind_v (stack_write (unat bp) q) (\<lambda>_.
     bind_v (if p \<noteq> 0 then mgc_dec p else ret_v ()) (\<lambda>_. rctx_loop n (l\<lparr>l_obj := Some p\<rparr>))))))"

definition exec_RCTX :: "u8 list \<Rightarrow> locals \<Rightarrow> locals vm" where
  "exec_RCTX ibuf l =
     bind_v (rctx_loop (unat (ibuf ! 1)) l) (\<lambda>l'. bind_v (vm_add_pc 2) (\<lambda>_. ret_v l'))"

definition exec_RET :: "locals \<Rightarrow> locals vm" where
  "exec_RET l =
     bind_v vm_pop_base (\<lambda>x.
     bind_v (vm_set_pc (of_nat x)) (\<lambda>_.
     bind_v vm_pop_base (\<lambda>pkg.
     bind_v (upd_v (\<lambda>vm. vm\<lparr>v_package := pkg\<rparr>)) (\<lambda>_. ret_v (l\<lparr>l_base := pkg\<rparr>)))))"

definition exec_JMP :: "u16 \<Rightarrow> locals \<Rightarrow> locals vm" where
  "exec_JMP index l =
     bind_v (upd_v (\<lambda>vm. vm\<lparr>v_package := l_base l, v_pc := index + v_pc vm\<rparr>)) (\<lambda>_. ret_v l)"

definition exec_CALL :: "u16 \<Rightarrow> locals \<Rightarrow> locals vm" where
  "exec_CALL index l =
     bind_v (get_v (\<lambda>vm. (v_package vm, v_pc vm))) (\<lambda>(pkg, pc).
     bind_v (vm_push_base pkg) (\<lambda>_.
     bind_v (vm_push_base (unat pc + 3)) (\<lambda>_. exec_JMP index l)))"

text \<open>\<^verbatim>\<open>INS_EXTCALL\<close> runs a native method, or continues as a call of the method it found.\<close>

definition exec_EXTCALL :: "vm_env \<Rightarrow> u8 list \<Rightarrow> locals \<Rightarrow> locals vm" where
  "exec_EXTCALL env ibuf l =
     bind_v vm_pop_stack_arc (\<lambda>op1.
     bind_v (get_v v_pc) (\<lambda>pc.
     bind_v (vm_load_constant env (unat (ins_index ibuf) + unat pc)) (\<lambda>name.
     bind_v (load_obj op1) (\<lambda>cls.
       if o_len cls \<noteq> 16 then
         bind_v (vm_invoke_exception VX_UNRESOLVED_CLASS) (\<lambda>_.
         bind_v (vm_set_pc 0xFFFF) (\<lambda>_. ret_v (l\<lparr>l_obj := Some name\<rparr>)))
       else if iface_class cls = 0 then err_v Null_Deref
       else if e_class_tag env (iface_class cls) = PK_TAG_INTERFACE then
         bind_v (e_iface_exec env (unat (ibuf ! 0 AND 0x0F)) op1 name) (\<lambda>p.
         bind_v (vm_push_stack p) (\<lambda>_. done_v 3 p l))
       else
         bind_v (real_object env name) (\<lambda>_.
         bind_v (vm_load_method env op1 name) (\<lambda>m.
           case m of
             None \<Rightarrow> bind_v (vm_set_pc 0xFFFF) (\<lambda>_. ret_v (l\<lparr>l_obj := Some 0\<rparr>))
           | Some (rec, codebase, offset) \<Rightarrow>
               exec_CALL (of_nat offset - pc) (l\<lparr>l_base := codebase, l_obj := Some rec\<rparr>)))))))"

definition exec_OBJNEW :: "vm_env \<Rightarrow> u8 list \<Rightarrow> locals \<Rightarrow> locals vm" where
  "exec_OBJNEW env ibuf l =
     bind_v (get_v v_pc) (\<lambda>pc.
     bind_v (vm_load_constant env (unat (ins_index ibuf) + unat pc)) (\<lambda>op1.
     bind_v (real_object env op1) (\<lambda>_.
     bind_v (vm_load_class env op1) (\<lambda>p.
     bind_v (real_object env p) (\<lambda>_.
     bind_v (load_obj p) (\<lambda>ob.
       if o_len ob = 0 then
         bind_v (vm_invoke_exception VX_UNRESOLVED_CLASS) (\<lambda>_.
         bind_v (vm_set_pc 0xFFFF) (\<lambda>_. ret_v (l\<lparr>l_obj := Some p\<rparr>)))
       else
         bind_v (mgc_inc p) (\<lambda>_.
         bind_v (vm_push_stack p) (\<lambda>_.
         bind_v (vm_debug_var (Some p)) (\<lambda>_.
         bind_v (done_v 3 p l) (\<lambda>l'.
         bind_v (vm_release_object op1) (\<lambda>_. ret_v l')))))))))))"

definition exec_OBJCONST :: "vm_env \<Rightarrow> u8 list \<Rightarrow> locals \<Rightarrow> locals vm" where
  "exec_OBJCONST env ibuf l =
     bind_v (get_v v_pc) (\<lambda>pc.
     bind_v (vm_load_constant env (unat (ins_index ibuf) + unat pc)) (\<lambda>p.
     bind_v (real_object env p) (\<lambda>_.
     bind_v (mgc_inc p) (\<lambda>_.
     bind_v (vm_push_stack p) (\<lambda>_.
     bind_v (vm_debug_var (Some p)) (\<lambda>_. done_v 3 p l))))))"

text \<open>
  \<^verbatim>\<open>INS_JFALSE\<close> compares as many bytes with \<^verbatim>\<open>"false"\<close> as the object has: the empty object and every
  prefix count as false, and an object that starts with the whole constant, NUL included, is compared
  beyond it.
\<close>

definition is_false :: "u8 list \<Rightarrow> bool vm" where
  "is_false bs =
     (let c = ascii ''false'' @ [0] in
      if length bs \<le> length c then ret_v (bs = take (length bs) c)
      else if take (length c) bs = c then err_v Undefined_Value
      else ret_v False)"

definition exec_JFALSE :: "u8 list \<Rightarrow> locals \<Rightarrow> locals vm" where
  "exec_JFALSE ibuf l =
     bind_v vm_pop_stack_arc (\<lambda>op1.
     bind_v (load_obj op1) (\<lambda>ob.
     bind_v (is_false (o_bytes ob)) (\<lambda>f.
     bind_v (vm_add_pc (if f then ins_index ibuf else 3)) (\<lambda>_. ret_v l))))"

section \<open>Dispatch\<close>

definition operators :: "u8 list" where
  "operators = [INS_ADD, INS_MUL, INS_DIV, INS_SUB, INS_AND, INS_OR, INS_XOR, INS_SHL, INS_SHR]"

definition comparisons :: "u8 list" where
  "comparisons = [INS_CREQ, INS_CRNE, INS_CRGT, INS_CRLT, INS_CRGTEQ, INS_CRLTEQ]"

definition vm_execute :: "vm_env \<Rightarrow> u8 list \<Rightarrow> locals \<Rightarrow> locals vm" where
  "vm_execute env ibuf l =
     (let op = ibuf ! 0 in
      if op = INS_LBL then ret_v l
      else if op = INS_OBJPUSH then exec_OBJPUSH ibuf l
      else if op = INS_OBJSTORE then exec_OBJSTORE ibuf l
      else if op = INS_OBJPOP then exec_OBJPOP ibuf l
      else if op = INS_SWITCH then exec_SWITCH env ibuf l
      else if op = INS_OBJDEL then exec_OBJDEL l
      else if op = INS_OBJSUB then exec_OBJSUB l
      else if op = INS_OBJSZ then exec_OBJSZ l
      else if op = INS_OBJDUP then exec_OBJDUP l
      else if op = INS_NOT then exec_NOT env l
      else if op \<in> set operators then exec_operator env op l
      else if is_SYSCALL op then exec_SYSCALL env ibuf l
      else if is_F2O op then exec_F2O env ibuf l
      else if op = INS_SCTX then exec_SCTX ibuf l
      else if op = INS_RCTX then exec_RCTX ibuf l
      else if op = INS_RET then exec_RET l
      else if is_EXTCALL op then exec_EXTCALL env ibuf l
      else if op = INS_CALL then exec_CALL (ins_index ibuf) l
      else if op = INS_JMP then exec_JMP (ins_index ibuf) l
      else if op = INS_OBJNEW then exec_OBJNEW env ibuf l
      else if op = INS_OBJCONST then exec_OBJCONST env ibuf l
      else if op = INS_JFALSE then exec_JFALSE ibuf l
      else if op \<in> set comparisons then exec_compare env op l
      else bind_v (vm_invoke_exception VX_UNKNOWN_INSTRUCTION) (\<lambda>_. ret_v l))"

section \<open>Try-catch blocks\<close>

definition vm_push_tcblock :: "pk_entry \<Rightarrow> unit vm" where
  "vm_push_tcblock b =
     upd_v (\<lambda>vm. vm\<lparr>v_tcs := \<lparr>tc_start = pk_start b, tc_end = nat ((int (pk_cblock b) - 1) mod 2 ^ 64), tc_catch = pk_cblock b,
        tc_num_args = pk_num_args b, tc_snapshot_sp = v_sp vm\<rparr> # v_tcs vm\<rparr>)"

definition vm_pop_tcblock :: "vm_tcblock option vm" where
  "vm_pop_tcblock vm =
     (case v_tcs vm of [] \<Rightarrow> Some (Inr (None, vm)) | tc # tcs \<Rightarrow> Some (Inr (Some tc, vm\<lparr>v_tcs := tcs\<rparr>)))"

fun locate_loop :: "pk_entry list \<Rightarrow> unit vm" where
  "locate_loop [] = ret_v ()"
| "locate_loop (b # bs) =
     bind_v (get_v (\<lambda>vm. pk_codebase b = v_package vm \<and> pk_tag b = PK_TAG_TCBLOCK \<and> unat (v_pc vm) = pk_start b)) (\<lambda>hit.
     bind_v (if hit then vm_push_tcblock b else ret_v ()) (\<lambda>_. locate_loop bs))"

definition vm_locate_tcblock :: "unit vm" where
  "vm_locate_tcblock =
     bind_v (get_v v_info) (\<lambda>info.
     bind_v (locate_loop info) (\<lambda>_.
     bind_v (get_v (\<lambda>vm. (v_tcs vm, v_pc vm))) (\<lambda>(tcs, pc).
       if tcs \<noteq> [] \<and> tc_end (hd tcs) \<le> unat pc then bind_v vm_pop_tcblock (\<lambda>_. ret_v ())
       else ret_v ())))"

definition exception_texts :: "string list" where
  "exception_texts = [''System Exception'', ''Unimplemented APIs'', ''Unknown Instruction'', ''Stack Overflow'',
     ''Insufficient Heap'', ''Stack Underflow'', ''Out of Bounds'', ''Unresolved Class'', ''Unresolved Method'',
     ''Argument Mismatch'', ''Invalid Context'', ''Divide by Zero'', ''Unsupported Argument'', ''Unsupported Type'']"

text \<open>Unwinding: pop until the stack pointer is the one of the snapshot.\<close>

partial_function (option) unwind :: "u16 \<Rightarrow> unit vm" where
  "unwind saved vm =
     (if v_sp vm = saved then Some (Inr ((), vm))
      else case vm_pop_stack_arc vm of
          None \<Rightarrow> None
        | Some r \<Rightarrow> (case r of Inl e \<Rightarrow> Some (Inl e) | Inr (_, vm') \<Rightarrow> unwind saved vm'))"

text \<open>The arguments of the catch block: the text of the exception, then empty objects.\<close>

primrec push_catch_args :: "nat \<Rightarrow> nat \<Rightarrow> locals \<Rightarrow> locals vm" where
  "push_catch_args 0 i l = ret_v l"
| "push_catch_args (Suc n) i l =
     bind_v (get_v (\<lambda>vm. unat (v_exception vm))) (\<lambda>x.
     bind_v (if i = 0 then
               (if x < length exception_texts
                then vm_create_object (length (exception_texts ! x)) (Some (ascii (exception_texts ! x)))
                else err_v Out_Of_Bounds)
             else vm_create_object 0 None) (\<lambda>p.
     bind_v (vm_push_argument_object p) (\<lambda>_. push_catch_args n (Suc i) (l\<lparr>l_obj := Some p\<rparr>))))"

definition handle_exception :: "locals \<Rightarrow> locals vm" where
  "handle_exception l =
     bind_v vm_pop_tcblock (\<lambda>t.
       case t of
         None \<Rightarrow> ret_v l
       | Some tc \<Rightarrow>
           bind_v (unwind (tc_snapshot_sp tc)) (\<lambda>_.
           bind_v (vm_set_pc (of_nat (tc_catch tc))) (\<lambda>_.
           bind_v (push_catch_args (unat (tc_num_args tc)) 0 l) (\<lambda>l'.
           bind_v (vm_set_state VM_STATE_RUN) (\<lambda>_. ret_v l')))))"

section \<open>The interpreter loop\<close>

text \<open>
  One round: fetch and execute; then the stack check, exceptions and try-catch blocks, and the collection.
\<close>

definition fetch_execute :: "vm_env \<Rightarrow> locals \<Rightarrow> locals vm" where
  "fetch_execute env l =
     bind_v (get_v v_pc) (\<lambda>pc.
     bind_v (vm_fetch env (unat pc) 4) (\<lambda>ibuf.
     bind_v (upd_v (\<lambda>vm. vm\<lparr>v_rexec := False\<rparr>)) (\<lambda>_. vm_execute env ibuf l)))"

definition finish_step :: "vm_env \<Rightarrow> locals \<Rightarrow> locals vm" where
  "finish_step env l =
     bind_v (get_v (\<lambda>vm. v_sp vm \<le> v_bp vm)) (\<lambda>overflow.
     bind_v (if overflow then vm_invoke_exception VX_STACK_OVERFLOW else ret_v ()) (\<lambda>_.
     bind_v (get_v v_state) (\<lambda>st.
     bind_v (if st = VM_STATE_EXCEPTION then handle_exception l
             else bind_v vm_locate_tcblock (\<lambda>_. ret_v l)) (\<lambda>l'.
     bind_v (vm_garbage_collect (e_release env)) (\<lambda>_.
     bind_v (get_v v_pc) (\<lambda>pc.
     bind_v (if pc = 0xFFFF then vm_set_state VM_STATE_INIT else ret_v ()) (\<lambda>_. ret_v l')))))))"

definition vm_step :: "vm_env \<Rightarrow> locals \<Rightarrow> locals vm" where
  "vm_step env l = bind_v (fetch_execute env l) (finish_step env)"

partial_function (option) vm_run :: "vm_env \<Rightarrow> locals \<Rightarrow> locals vm" where
  "vm_run env l vm =
     (if v_state vm \<noteq> VM_STATE_RUN then Some (Inr (l, vm))
      else case vm_step env l vm of
          None \<Rightarrow> None
        | Some r \<Rightarrow> (case r of Inl e \<Rightarrow> Some (Inl e) | Inr (l', vm') \<Rightarrow> vm_run env l' vm'))"

primrec push_all_args :: "addr list \<Rightarrow> unit vm" where
  "push_all_args [] = ret_v ()"
| "push_all_args (p # ps) = bind_v (vm_push_stack p) (\<lambda>_. push_all_args ps)"

definition vm_decode :: "vm_env \<Rightarrow> addr list \<Rightarrow> locals vm" where
  "vm_decode env args =
     bind_v (get_v v_package) (\<lambda>pkg.
     bind_v (push_all_args args) (\<lambda>_.
     bind_v (vm_push_base 0) (\<lambda>_.
     bind_v (vm_push_base 0xFFFF) (\<lambda>_.
     bind_v (get_v v_state) (\<lambda>st.
     bind_v (if st \<noteq> VM_STATE_EXCEPTION then vm_set_state VM_STATE_RUN else ret_v ()) (\<lambda>_.
       vm_run env \<lparr>l_base = pkg, l_obj = (if args = [] then None else Some (last args))\<rparr>))))))"

text \<open>\<^verbatim>\<open>vm_init\<close> clears the machine and creates the heap; \<open>raw\<close> is the block \<^verbatim>\<open>malloc\<close> returned.\<close>

definition vm_init :: "(addr \<times> (addr \<Rightarrow> alloc_chain) \<times> (addr \<Rightarrow> u8)) option \<Rightarrow> (addr \<Rightarrow> vm_object) \<Rightarrow>
    pk_entry list \<Rightarrow> nat \<Rightarrow> vm_instance result" where
  "vm_init raw mem info heap_size =
     (case m_heap_create raw heap_size of
        None \<Rightarrow> Inl Null_Deref
      | Some h \<Rightarrow>
          Inr \<lparr>v_sp = of_nat (VM_MAX_STACK_SIZE - 1), v_bp = 0, v_pc = 0, v_info = info, v_tcs = [],
            v_package = 0, v_heap = m_init_alloc h, v_objs = mem, v_state = VM_STATE_INIT, v_rexec = False,
            v_api = 0, v_num_params = 0, v_ret = 0, v_exception = 0, v_object_list = 0, v_freed = [],
            v_stacks = replicate VM_MAX_STACK_SIZE 0\<rparr>)"

text \<open>
  \<^verbatim>\<open>vm_init_exec\<close>: the result is 0, or 255 when there is no such method. The method record,
  which is not a heap block, is released like the two objects.
\<close>

definition vm_init_exec :: "vm_env \<Rightarrow> u8 list \<Rightarrow> u8 list \<Rightarrow> u8 vm" where
  "vm_init_exec env classname method =
     bind_v (vm_load_class_sta env classname) (\<lambda>cla.
     bind_v (vm_create_object (length method) (Some method)) (\<lambda>mtd.
     bind_v (real_object env cla) (\<lambda>_.
     bind_v (vm_load_method env cla mtd) (\<lambda>m.
       case m of
         None \<Rightarrow> ret_v 255
       | Some (rec, codebase, offset) \<Rightarrow>
           bind_v (upd_v (\<lambda>vm. vm\<lparr>v_package := codebase, v_pc := of_nat offset\<rparr>)) (\<lambda>_.
           bind_v (vm_release_object cla) (\<lambda>_.
           bind_v (vm_release_object mtd) (\<lambda>_.
           bind_v (vm_release_object rec) (\<lambda>_. ret_v 0))))))))"

section \<open>Lemmas on the stack\<close>

lemma vm_push_stack_eq:
  "unat (v_sp vm) < VM_MAX_STACK_SIZE \<Longrightarrow> vm_push_stack x vm =
     Some (Inr ((), vm\<lparr>v_sp := v_sp vm - 1, v_stacks := (v_stacks vm)[unat (v_sp vm) := x]\<rparr>))"
  by (simp add: vm_push_stack_def stack_write_def)

lemma vm_push_base_eq:
  "unat (v_bp vm) < VM_MAX_STACK_SIZE \<Longrightarrow> vm_push_base x vm =
     Some (Inr ((), vm\<lparr>v_bp := v_bp vm + 1, v_stacks := (v_stacks vm)[unat (v_bp vm) := x]\<rparr>))"
  by (simp add: vm_push_base_def stack_write_def)

lemma vm_pop_base_eq:
  "unat (v_bp vm - 1) < VM_MAX_STACK_SIZE \<Longrightarrow> vm_pop_base vm =
     Some (Inr (v_stacks vm ! unat (v_bp vm - 1), vm\<lparr>v_bp := v_bp vm - 1\<rparr>))"
  by (simp add: vm_pop_base_def stack_read_def)

lemma vm_pop_stack_arc_eq:
  assumes "unat (v_sp vm + 1) < VM_MAX_STACK_SIZE" "v_stacks vm ! unat (v_sp vm + 1) = p"
  shows "vm_pop_stack_arc vm = Some (Inr (p, vm\<lparr>v_sp := v_sp vm + 1,
    v_objs := (if p = 0 then v_objs vm else (v_objs vm)(p := (v_objs vm p)\<lparr>o_mgc := o_mgc (v_objs vm p) - 1\<rparr>)),
    v_stacks := (v_stacks vm)[unat (v_sp vm + 1) := 0]\<rparr>))"
  using assms
  by (auto simp: vm_pop_stack_arc_def vm_pop_stack_def stack_read_def stack_write_def mgc_dec_def upd_obj_def
      bind_results split: if_splits)

lemma upd_obj_nz [simp]:
  "p \<noteq> 0 \<Longrightarrow> upd_obj p f = upd_v (\<lambda>vm. vm\<lparr>v_objs := (v_objs vm)(p := f (v_objs vm p))\<rparr>)"
  by (simp add: upd_obj_def)

section \<open>Loading constants\<close>

lemma constant_lens_code: "constant_lens (read_bytes b off 4) = constant_length b off"
  by (simp add: constant_lens_def constant_length_def read_bytes_def)

lemma create_then_unref:
  assumes "heap_ok (v_heap vm)" "length bs < 2 ^ 62"
  shows "creates (bind_v (vm_create_object (length bs) (Some bs)) (\<lambda>p. bind_v (mgc_dec p) (\<lambda>_. ret_v p))) (length bs + 72)
    ((fresh_object bs)\<lparr>o_mgc := VM_MAGIC\<rparr>) vm"
  using vm_create_object_creates [OF assms]
proof (cases rule: createsE)
  case 1
  then show ?thesis by (simp add: creates_def bind_results)
next
  case (2 p vm')
  define vm2 where "vm2 = vm'\<lparr>v_objs := (v_objs vm')(p := (fresh_object bs)\<lparr>o_mgc := VM_MAGIC\<rparr>)\<rparr>"
  have "p \<noteq> 0" "v_objs vm' p = fresh_object bs" using 2(2) by (auto simp: new_object_def)
  then have "mgc_dec p vm' = Some (Inr ((), vm2))"
    by (simp add: mgc_dec_def vm2_def fresh_object_def magic_defs)
  moreover have "new_object vm p ((fresh_object bs)\<lparr>o_mgc := VM_MAGIC\<rparr>) vm2"
    using 2(2) unfolding new_object_def keeps_objs_def vm2_def
    by (cases vm; cases vm') (auto simp: o_len_def)
  moreover have "v_heap vm2 = v_heap vm'" by (simp add: vm2_def)
  ultimately show ?thesis using 2 by (simp add: creates_def bind_results)
qed

lemma vm_load_constant_creates:
  assumes "heap_ok (v_heap vm)" and "constant_length (e_code env) off = Some (len, llen)"
    and "off + 4 \<le> MAX_BUFFER_SIZE" "off + llen + len \<le> MAX_BUFFER_SIZE" "len \<le> VA_OBJECT_MAX_SIZE"
  defines "v \<equiv> read_bytes (e_code env) (off + llen) len"
  shows "creates (vm_load_constant env off) (2 * len + 105) ((fresh_object v)\<lparr>o_mgc := VM_MAGIC\<rparr>) vm"
proof -
  have "vm_load_constant env off = bind_v (m_alloc_v (len + 1)) (\<lambda>b. if b = 0 then err_v Null_Deref
      else bind_v (bind_v (vm_create_object (length v) (Some v)) (\<lambda>p. bind_v (mgc_dec p) (\<lambda>_. ret_v p)))
             (\<lambda>p. bind_v (m_free_v b) (\<lambda>_. ret_v p)))"
    using assms(2-5) unfolding vm_load_constant_def vm_fetch_def v_def
    by (simp add: constant_lens_code bind_assoc cong: if_cong)
  then have "creates (vm_load_constant env off) (len + 1 + 32 + (length v + 72)) ((fresh_object v)\<lparr>o_mgc := VM_MAGIC\<rparr>) vm"
    using buffered_creates [OF assms(1), of "len + 1", OF _ create_then_unref, of v] assms(5)
    by (simp add: v_def request_ok_def sz_chain_def VA_OBJECT_MAX_SIZE_def)
  then show ?thesis by (rule creates_mono) (simp add: v_def)
qed

lemma live_in_heap:
  assumes "heap_ok h" "(a, n) \<in># live h"
  shows "hm_root h \<le> a \<and> a < hm_root h + hm_size h"
proof -
  obtain bs e where hs: "heap_shape h bs e" using assms(1) by (auto simp: heap_ok_iff)
  show ?thesis using live_memD [OF hs assms(2)] hs by (auto simp: heap_shape_def)
qed

lemma execute_OBJCONST: "ibuf ! 0 = INS_OBJCONST \<Longrightarrow> vm_execute env ibuf l = exec_OBJCONST env ibuf l"
  by (simp add: vm_execute_def operators_def is_SYSCALL_def is_F2O_def is_EXTCALL_def ins_defs)

lemma ins_index_code: "ins_index (read_bytes b p 4) = get_operand b (Suc p)"
  by (simp add: ins_index_def get_operand_def load16_def read_bytes_def)

text \<open>What an instruction that pushes one new text object does to the machine.\<close>

definition pushes_text :: "vm_instance \<Rightarrow> u8 list \<Rightarrow> u16 \<Rightarrow> vm_instance \<Rightarrow> bool" where
  "pushes_text vm v n vm' \<longleftrightarrow>
     (\<exists>q. text_object vm' q v \<and> o_mgc (v_objs vm' q) = VM_MAGIC OR 1 \<and>
        (\<exists>m. (q, m) \<in># live (v_heap vm')) \<and> (\<forall>m. (q, m) \<notin># live (v_heap vm)) \<and>
        v_stacks vm' = (v_stacks vm)[unat (v_sp vm) := q]) \<and>
     v_sp vm' = v_sp vm - 1 \<and> v_bp vm' = v_bp vm \<and> v_pc vm' = v_pc vm + n \<and> heap_ok (v_heap vm') \<and>
     hm_root (v_heap vm') = hm_root (v_heap vm) \<and> hm_size (v_heap vm') = hm_size (v_heap vm) \<and>
     (\<forall>a k. (a, k) \<in># live (v_heap vm) \<longrightarrow> (a, k) \<in># live (v_heap vm') \<and> v_objs vm' a = v_objs vm a)"

lemma new_object_frame:
  assumes "new_object vm p ob vm1"
  shows "v_sp vm1 = v_sp vm" "v_bp vm1 = v_bp vm" "v_pc vm1 = v_pc vm" "v_stacks vm1 = v_stacks vm"
proof -
  let ?vm = "vm1\<lparr>v_heap := v_heap vm, v_objs := v_objs vm\<rparr>"
  have "?vm = vm" using assms by (simp only: new_object_def keeps_objs_def)
  then have "v_sp ?vm = v_sp vm" "v_bp ?vm = v_bp vm" "v_pc ?vm = v_pc vm" "v_stacks ?vm = v_stacks vm" by simp_all
  then show "v_sp vm1 = v_sp vm" "v_bp vm1 = v_bp vm" "v_pc vm1 = v_pc vm" "v_stacks vm1 = v_stacks vm" by simp_all
qed

text \<open>
  A running machine outside try-catch blocks, in a program that has none, with a heap the collector can run on.
\<close>

definition ready :: "vm_instance \<Rightarrow> bool" where
  "ready vm \<longleftrightarrow> v_state vm = VM_STATE_RUN \<and> v_tcs vm = [] \<and>
     (\<forall>b\<in>set (v_info vm). pk_tag b \<noteq> PK_TAG_TCBLOCK) \<and> collectable vm"

lemma ready_cong:
  "v_state vm' = v_state vm \<Longrightarrow> v_tcs vm' = v_tcs vm \<Longrightarrow> v_info vm' = v_info vm \<Longrightarrow>
   v_heap vm' = v_heap vm \<Longrightarrow> v_object_list vm' = v_object_list vm \<Longrightarrow>
   (\<And>p. o_release (v_objs vm' p) = o_release (v_objs vm p)) \<Longrightarrow> ready vm' = ready vm"
  using collectable_cong [of vm' vm] by (simp add: ready_def)

lemma ready_new:
  assumes "new_object vm p ob vm1" "ready vm" "quiet (sz_object + o_len ob)" "o_release ob = 0"
  shows "ready (vm1\<lparr>v_objs := (v_objs vm1)(p := fresh_object v), v_sp := x, v_stacks := xs, v_pc := y\<rparr>)"
proof -
  let ?vm = "vm1\<lparr>v_heap := v_heap vm, v_objs := v_objs vm\<rparr>"
  have "?vm = vm" using assms(1) by (simp only: new_object_def keeps_objs_def)
  then have "v_state ?vm = v_state vm" "v_tcs ?vm = v_tcs vm" "v_info ?vm = v_info vm" by simp_all
  moreover have "collectable vm1" using assms(2) by (intro new_object_collectable [OF assms(1) _ assms(3,4)]) (simp add: ready_def)
  moreover have "v_objs vm1 p = ob" using assms(1) by (simp add: new_object_def)
  ultimately show ?thesis
    using assms(2,4) collectable_cong [of "vm1\<lparr>v_objs := (v_objs vm1)(p := fresh_object v), v_sp := x, v_stacks := xs, v_pc := y\<rparr>" vm1]
    by (simp add: ready_def fresh_object_def)
qed

lemma pushes_text_new:
  assumes "new_object vm p ob vm1" "o_bytes ob = v"
  shows "pushes_text vm v n (vm1\<lparr>v_objs := (v_objs vm1)(p := fresh_object v), v_sp := v_sp vm - 1,
      v_stacks := (v_stacks vm)[unat (v_sp vm) := p], v_pc := v_pc vm + n\<rparr>)" (is "pushes_text vm v n ?vm2")
proof -
  from assms(1) have p: "p \<noteq> 0" "(p, sz_object + o_len ob) \<in># live (v_heap vm1)" "\<forall>m. (p, m) \<notin># live (v_heap vm)"
    and k: "heap_ok (v_heap vm1)" "hm_root (v_heap vm1) = hm_root (v_heap vm)" "hm_size (v_heap vm1) = hm_size (v_heap vm)"
      "\<forall>a k. (a, k) \<in># live (v_heap vm) \<longrightarrow> (a, k) \<in># live (v_heap vm1) \<and> v_objs vm1 a = v_objs vm a"
    unfolding new_object_def keeps_objs_def by auto
  have "text_object ?vm2 p v" "o_mgc (v_objs ?vm2 p) = VM_MAGIC OR 1"
    using p(1) by (simp_all add: text_object_def fresh_object_def vm_object_get_type_def magic_defs)
  moreover have "(a, k) \<in># live (v_heap ?vm2) \<and> v_objs ?vm2 a = v_objs vm a" if "(a, k) \<in># live (v_heap vm)" for a k
    using k(4) p(3) that by auto
  moreover have "\<exists>m. (p, m) \<in># live (v_heap ?vm2)" using p(2) by auto
  ultimately show ?thesis
    unfolding pushes_text_def by (intro conjI [OF exI [of _ p]]) (use p k(1-3) new_object_frame(2) [OF assms(1)] in simp_all)
qed

lemma exec_OBJCONST_pushes:
  assumes "heap_ok (v_heap vm)" and "constant_length (e_code env) off = Some (len, llen)"
    and "off + 4 \<le> MAX_BUFFER_SIZE" "off + llen + len \<le> MAX_BUFFER_SIZE" "len \<le> VA_OBJECT_MAX_SIZE"
    and "off = unat (ins_index ibuf) + unat (v_pc vm)" and "unat (v_sp vm) < VM_MAX_STACK_SIZE"
    and "e_null env < hm_root (v_heap vm) \<or> hm_root (v_heap vm) + hm_size (v_heap vm) \<le> e_null env"
  shows "exec_OBJCONST env ibuf l vm = Some (Inl Null_Deref) \<and> heap_rest (v_heap vm) \<le> 2 * len + 105 \<or>
    (\<exists>l' vm'. exec_OBJCONST env ibuf l vm = Some (Inr (l', vm')) \<and>
       pushes_text vm (read_bytes (e_code env) (off + llen) len) 3 vm' \<and>
       heap_rest (v_heap vm) \<le> heap_rest (v_heap vm') + (2 * len + 105) \<and>
       (ready vm \<and> quiet (sz_object + len) \<longrightarrow> ready vm'))"
  using vm_load_constant_creates [OF assms(1-5)]
proof (cases rule: createsE)
  case 1
  then show ?thesis by (simp add: exec_OBJCONST_def bind_results flip: assms(6))
next
  case (2 p vm1)
  let ?v = "read_bytes (e_code env) (off + llen) len"
  note c = 2(1) and n = 2(2)
  from n have p: "p \<noteq> 0" "v_objs vm1 p = (fresh_object ?v)\<lparr>o_mgc := VM_MAGIC\<rparr>" and ok: "heap_ok (v_heap vm1)"
    by (auto simp: new_object_def keeps_objs_def)
  note fr = new_object_frame [OF n]
  have "p \<noteq> e_null env"
    using live_in_heap [OF ok, of p] n assms(8) by (auto simp: new_object_def keeps_objs_def)
  moreover define vm2 where "vm2 = vm1\<lparr>v_objs := (v_objs vm1)(p := fresh_object ?v),
      v_sp := v_sp vm - 1, v_stacks := (v_stacks vm)[unat (v_sp vm) := p], v_pc := v_pc vm + 3\<rparr>"
  ultimately have "exec_OBJCONST env ibuf l vm = Some (Inr (l\<lparr>l_obj := Some p\<rparr>, vm2))"
    using c p assms(7) fr
    by (simp add: exec_OBJCONST_def bind_results real_object_def mgc_inc_def vm_push_stack_eq vm_debug_var_def
        done_v_def vm_add_pc_def fresh_object_def magic_defs flip: assms(6))
  moreover have "pushes_text vm ?v 3 vm2" unfolding vm2_def by (rule pushes_text_new [OF n]) (simp add: fresh_object_def)
  moreover have "v_heap vm2 = v_heap vm1" by (simp add: vm2_def)
  moreover have "ready vm \<and> quiet (sz_object + len) \<longrightarrow> ready vm2"
    unfolding vm2_def using ready_new [OF n] by (simp add: fresh_object_def o_len_def)
  ultimately show ?thesis using 2(3) by auto
qed

section \<open>The end of a round\<close>

lemma locate_loop_none: "\<forall>b\<in>set bs. pk_tag b \<noteq> PK_TAG_TCBLOCK \<Longrightarrow> locate_loop bs vm = Some (Inr ((), vm))"
  by (induction bs) simp_all

text \<open>
  Behind an instruction of a ready machine whose stacks are apart, the round ends in a collection and the
  test for the end of the program.
\<close>

lemma finish_step_ready:
  assumes "ready vm" "v_bp vm < v_sp vm"
  shows "\<exists>vm'. vm_garbage_collect (e_release env) vm = Some (Inr ((), vm')) \<and> ready vm' \<and> gc_frame vm vm' \<and>
    heap_rest (v_heap vm') = heap_rest (v_heap vm) \<and>
    (\<forall>a n. (a, n) \<in># referenced vm \<longrightarrow> (a, n) \<in># live (v_heap vm') \<and> v_objs vm' a = v_objs vm a \<and>
       (\<forall>i < length (v_stacks vm). v_stacks vm ! i = a \<longrightarrow> v_stacks vm' ! i = a)) \<and>
    finish_step env l vm = Some (Inr (l, if v_pc vm = 0xFFFF then vm'\<lparr>v_state := VM_STATE_INIT\<rparr> else vm'))"
proof -
  have c: "collectable vm" and st: "v_state vm = VM_STATE_RUN" "v_tcs vm = []" "\<forall>b\<in>set (v_info vm). pk_tag b \<noteq> PK_TAG_TCBLOCK"
    using assms(1) by (auto simp: ready_def)
  from vm_garbage_collect_collectable [OF c, of "e_release env"] obtain vm' where
    v: "vm_garbage_collect (e_release env) vm = Some (Inr ((), vm'))" "collectable vm'" "gc_frame vm vm'"
      "heap_rest (v_heap vm') = heap_rest (v_heap vm)"
      "\<forall>a n. (a, n) \<in># referenced vm \<longrightarrow> (a, n) \<in># live (v_heap vm') \<and> v_objs vm' a = v_objs vm a \<and>
         (\<forall>i < length (v_stacks vm). v_stacks vm ! i = a \<longrightarrow> v_stacks vm' ! i = a)" by blast
  have fr: "v_state vm' = v_state vm" "v_tcs vm' = v_tcs vm" "v_info vm' = v_info vm" "v_pc vm' = v_pc vm"
    using v(3) by (cases vm; cases vm'; simp add: gc_frame_def)+
  have "ready vm'" using v(2) st fr by (simp add: ready_def)
  moreover have "vm_locate_tcblock vm = Some (Inr ((), vm))"
    using st by (simp add: vm_locate_tcblock_def bind_results locate_loop_none)
  then have "finish_step env l vm = Some (Inr (l, if v_pc vm = 0xFFFF then vm'\<lparr>v_state := VM_STATE_INIT\<rparr> else vm'))"
    using assms(2) st v(1) fr
    by (simp add: finish_step_def bind_results vm_set_state_def VM_STATE_RUN_def VM_STATE_EXCEPTION_def)
  ultimately show ?thesis using v by blast
qed

section \<open>Properties\<close>

text \<open>C4: A constant of the source program reaches the operand stack. Push a value of at most 4096 bytes
  as the last constant of the pool, let the generated code, which has no switch instruction, load it at place
  p, and link: then executing the instruction at p of the linked code pushes a new object whose contents are that value, moves to the next
  instruction and keeps every live object; the machine dereferences NULL only when the heap has not twice the
  length and 105 bytes left.\<close>

theorem compiled_constant_executes:
  assumes "is_push_constant v st0 = Inr (st, i)" and "parses (il_code st) sz 0"
    and "sz + il_cpindex st + 4 \<le> 65536"
    and "\<forall>q \<in> set (ins_starts (il_code st) sz 0). ins_class (il_code st q) \<noteq> C_Switch"
    and "p \<in> set (ins_starts (il_code st) sz 0)" and "il_code st p = INS_OBJCONST"
    and "get_operand (il_code st) (Suc p) = i" and "length v \<le> VA_OBJECT_MAX_SIZE"
    and "heap_ok (v_heap vm)" and "v_pc vm = of_nat p" and "unat (v_sp vm) < VM_MAX_STACK_SIZE"
    and "e_null env < hm_root (v_heap vm) \<or> hm_root (v_heap vm) + hm_size (v_heap vm) \<le> e_null env"
  shows "\<exists>st'. is_link_code sz st = Inr (st', sz + il_cpindex st) \<and>
    (let env' = env\<lparr>e_code := il_code st'\<rparr>; ibuf = read_bytes (il_code st') p 4 in
     vm_execute env' ibuf l vm = Some (Inl Null_Deref) \<and> heap_rest (v_heap vm) \<le> 2 * length v + 105 \<or>
     (\<exists>l' vm'. vm_execute env' ibuf l vm = Some (Inr (l', vm')) \<and> pushes_text vm v 3 vm'))"
proof -
  have cc: "ins_class (il_code st p) = C_Const" by (simp add: assms(6) class_defs)
  have "sz + il_cpindex st < 65536" using assms(3) by simp
  from linked_constant [OF assms(1,2) this assms(4,5) cc assms(7)] obtain st'
    where lk: "is_link_code sz st = Inr (st', sz + il_cpindex st)" "il_code st' p = il_code st p"
      and cv: "constant_value (il_code st') (p + unat (get_operand (il_code st') (Suc p))) = Some v"
      and cb: "constant_before (il_code st') (p + unat (get_operand (il_code st') (Suc p))) (sz + il_cpindex st)"
    by blast
  define off where "off = p + unat (get_operand (il_code st') (Suc p))"
  define env' where "env' = env\<lparr>e_code := il_code st'\<rparr>"
  define ibuf where "ibuf = read_bytes (il_code st') p 4"
  obtain len llen where cl: "constant_length (il_code st') off = Some (len, llen)"
    and v: "v = read_bytes (il_code st') (off + llen) len" and bd: "off < sz + il_cpindex st" "off + llen + len \<le> sz + il_cpindex st"
    using cv cb by (auto simp: constant_value_def constant_before_def off_def split: option.splits)
  have "p < 65536" using ins_starts_ge [OF assms(5)] assms(3) by simp
  then have pc: "unat (v_pc vm) = p" using assms(10) by (simp add: unat_of_nat)
  have "ibuf ! 0 = INS_OBJCONST" using lk(2) assms(6) by (simp add: ibuf_def read_bytes_def)
  then have ex: "vm_execute env' ibuf l = exec_OBJCONST env' ibuf l" by (rule execute_OBJCONST)
  have "off = unat (ins_index ibuf) + unat (v_pc vm)"
    by (simp add: off_def pc ibuf_def ins_index_code)
  moreover have "len \<le> VA_OBJECT_MAX_SIZE" using v assms(8) by simp
  moreover have "length v = len" using v by simp
  ultimately have "exec_OBJCONST env' ibuf l vm = Some (Inl Null_Deref) \<and> heap_rest (v_heap vm) \<le> 2 * length v + 105 \<or>
      (\<exists>l' vm'. exec_OBJCONST env' ibuf l vm = Some (Inr (l', vm')) \<and> pushes_text vm v 3 vm')"
    using exec_OBJCONST_pushes [OF assms(9), of env' off len llen ibuf l] cl bd assms(3,11,12) v
    by (auto simp: env'_def MAX_BUFFER_SIZE_def)
  with lk(1) ex show ?thesis unfolding env'_def ibuf_def Let_def by auto
qed

theorem compiled_constant_executes_witness:
  "\<exists>st i st'. is_push_constant [65] (jump_demo\<lparr>il_cpindex := 0\<rparr>) = Inr (st, i) \<and> is_link_code 7 st = Inr (st', 9) \<and>
    (let env = no_env\<lparr>e_code := il_code st'\<rparr>; ibuf = read_bytes (il_code st') 0 4; l = \<lparr>l_base = 0, l_obj = None\<rparr> in
     \<exists>l' vm'. vm_execute env ibuf l demo_vm = Some (Inr (l', vm')) \<and> pushes_text demo_vm [65] 3 vm')"
proof -
  have c: "ins_class 16 = C_Const" "ins_class 70 = C_Jump" "ins_class 126 = C_Plain" by (simp_all add: class_defs)
  let ?st = "jump_demo\<lparr>il_data := write_bytes 1 [65] (write_bytes 0 [1] (il_data jump_demo)), il_cpindex := 2\<rparr>"
  have pu: "is_push_constant [65] (jump_demo\<lparr>il_cpindex := 0\<rparr>) = Inr (?st, 0)"
    by (simp add: is_push_constant_def constant_header_def MAX_BUFFER_SIZE_def Let_def)
  note ev = jump_demo_def il_empty_def ins_len_def ins_defs c get_operand_def load16_def end_swap16_shifts
  have s: "ins_starts (il_code ?st) 7 0 = [0, 3, 6]" by (simp add: ins_starts.simps ev)
  have p: "parses (il_code ?st) 7 0" by (simp add: parses.simps ev)
  have vm: "heap_ok (v_heap demo_vm)" "v_pc demo_vm = of_nat 0" "unat (v_sp demo_vm) < VM_MAX_STACK_SIZE"
      "e_null no_env < hm_root (v_heap demo_vm) \<or> hm_root (v_heap demo_vm) + hm_size (v_heap demo_vm) \<le> e_null no_env"
    using demo_heap_ok by (simp_all add: demo_vm_def VM_MAX_STACK_SIZE_def no_env_def)
  have st: "7 + il_cpindex ?st + 4 \<le> 65536" "\<forall>q \<in> set (ins_starts (il_code ?st) 7 0). ins_class (il_code ?st q) \<noteq> C_Switch"
    "0 \<in> set (ins_starts (il_code ?st) 7 0)" "il_code ?st 0 = INS_OBJCONST" "get_operand (il_code ?st) (Suc 0) = 0"
    "length [65 :: u8] \<le> VA_OBJECT_MAX_SIZE"
    by (simp_all only: s) (simp_all add: ev VA_OBJECT_MAX_SIZE_def)
  have "105 + 2 < heap_rest (v_heap demo_vm)"
    by (simp add: demo_vm_def heap_rest_shape [OF demo_heap_shape])
  with compiled_constant_executes [OF pu p st vm, of "\<lparr>l_base = 0, l_obj = None\<rparr>"] pu show ?thesis
    by (auto simp: Let_def)
qed

text \<open>C16: A call returns behind itself. \<^verbatim>\<open>INS_CALL\<close> saves package and return address and jumps; when the
  called code leaves the base pointer and the two frame words as it found them, \<^verbatim>\<open>INS_RET\<close> continues at
  the instruction behind the call, in the caller's package, with the caller's base pointer.\<close>

theorem call_returns:
  assumes "length (v_stacks vm) = VM_MAX_STACK_SIZE" and "unat (v_bp vm) + 1 < VM_MAX_STACK_SIZE"
  shows "\<exists>vm1. exec_CALL index l vm = Some (Inr (l, vm1)) \<and>
    v_pc vm1 = index + v_pc vm \<and> v_package vm1 = l_base l \<and> v_bp vm1 = v_bp vm + 2 \<and>
    (\<forall>l2 vm2. v_bp vm2 = v_bp vm1 \<and>
       v_stacks vm2 ! unat (v_bp vm) = v_stacks vm1 ! unat (v_bp vm) \<and>
       v_stacks vm2 ! (unat (v_bp vm) + 1) = v_stacks vm1 ! (unat (v_bp vm) + 1) \<longrightarrow>
       exec_RET l2 vm2 = Some (Inr (l2\<lparr>l_base := v_package vm\<rparr>,
         vm2\<lparr>v_bp := v_bp vm, v_pc := v_pc vm + 3, v_package := v_package vm\<rparr>)))"
proof -
  have bp1: "unat (v_bp vm + 1) = unat (v_bp vm) + 1"
    using assms(2) by (simp add: unat_word_ariths VM_MAX_STACK_SIZE_def)
  define vm1 where "vm1 = vm\<lparr>v_bp := v_bp vm + 2,
    v_stacks := (v_stacks vm)[unat (v_bp vm) := v_package vm, unat (v_bp vm) + 1 := unat (v_pc vm) + 3],
    v_package := l_base l, v_pc := index + v_pc vm\<rparr>"
  have "exec_CALL index l vm = Some (Inr (l, vm1))"
    using assms bp1 by (simp add: exec_CALL_def exec_JMP_def bind_results vm_push_base_eq vm1_def add.assoc)
  moreover have "exec_RET l2 vm2 = Some (Inr (l2\<lparr>l_base := v_package vm\<rparr>,
      vm2\<lparr>v_bp := v_bp vm, v_pc := v_pc vm + 3, v_package := v_package vm\<rparr>))"
    if "v_bp vm2 = v_bp vm + 2" "v_stacks vm2 ! unat (v_bp vm) = v_package vm"
      "v_stacks vm2 ! (unat (v_bp vm) + 1) = unat (v_pc vm) + 3" for l2 vm2
  proof -
    have 1: "v_bp vm2 - 1 = v_bp vm + 1" "v_bp vm + 1 - 1 = v_bp vm" using that(1) by simp_all
    have "vm_pop_base vm2 = Some (Inr (unat (v_pc vm) + 3, vm2\<lparr>v_bp := v_bp vm + 1\<rparr>))"
      using vm_pop_base_eq [of vm2] 1 bp1 that(3) assms(2) by simp
    then show ?thesis
      using that 1 bp1 assms(2)
      by (simp add: exec_RET_def bind_results vm_set_pc_def vm_pop_base_eq)
  qed
  ultimately show ?thesis using assms by (auto simp: vm1_def)
qed

theorem call_returns_witness:
  "\<exists>vm1. exec_CALL 7 \<lparr>l_base = 5, l_obj = None\<rparr> demo_vm = Some (Inr (\<lparr>l_base = 5, l_obj = None\<rparr>, vm1)) \<and>
     v_pc vm1 = 7 \<and>
     exec_RET \<lparr>l_base = 5, l_obj = None\<rparr> vm1 =
       Some (Inr (\<lparr>l_base = 0, l_obj = None\<rparr>, vm1\<lparr>v_bp := 0, v_pc := 3, v_package := 0\<rparr>))"
proof -
  have d: "length (v_stacks demo_vm) = VM_MAX_STACK_SIZE" "unat (v_bp demo_vm) + 1 < VM_MAX_STACK_SIZE"
    "v_pc demo_vm = 0" "v_package demo_vm = 0" "v_bp demo_vm = 0"
    by (simp_all add: demo_vm_def VM_MAX_STACK_SIZE_def)
  from call_returns [OF d(1,2), of 7 "\<lparr>l_base = 5, l_obj = None\<rparr>"] d(3-) show ?thesis by fastforce
qed

text \<open>The code generator and the machine disagree on three opcodes. \<^verbatim>\<open>INS_NOP\<close>, \<^verbatim>\<open>INS_MOD\<close> and
  \<^verbatim>\<open>INS_JTRUE\<close> belong to the instructions the generator emits and the linker keeps, and the machine answers
  each of them with the exception for an unknown instruction.\<close>

theorem generated_but_unknown:
  "\<forall>op \<in> {INS_NOP, INS_MOD, INS_JTRUE}. ins_class op \<in> {C_Plain, C_Jump} \<and>
     (\<forall>env ibuf l vm. ibuf ! 0 = op \<longrightarrow> vm_execute env ibuf l vm =
        Some (Inr (l, vm\<lparr>v_state := VM_STATE_EXCEPTION, v_exception := VX_UNKNOWN_INSTRUCTION\<rparr>)))"
proof -
  have "vm_execute env ibuf l vm = Some (Inr (l, vm\<lparr>v_state := VM_STATE_EXCEPTION, v_exception := VX_UNKNOWN_INSTRUCTION\<rparr>))"
    if "ibuf ! 0 = INS_NOP \<or> ibuf ! 0 = INS_MOD \<or> ibuf ! 0 = INS_JTRUE" for env ibuf l vm
    using that
    by (elim disjE) (simp_all add: vm_execute_def operators_def comparisons_def is_SYSCALL_def is_F2O_def
        is_EXTCALL_def ins_defs vm_invoke_exception_def vm_set_state_def bind_results)
  then show ?thesis by (auto simp: class_defs)
qed

theorem generated_but_unknown_witness:
  "vm_execute no_env [INS_MOD, 0, 0, 0] \<lparr>l_base = 0, l_obj = None\<rparr> demo_vm =
     Some (Inr (\<lparr>l_base = 0, l_obj = None\<rparr>, demo_vm\<lparr>v_state := VM_STATE_EXCEPTION, v_exception := VX_UNKNOWN_INSTRUCTION\<rparr>))"
  using generated_but_unknown by (metis (no_types, lifting) insertI1 insert_commute nth_Cons_0)

end
