(* ===== verification/VM_Machine.thy ===== *)
theory VM_Machine
  imports VM_Exec
begin

text \<open>
  The machine as a program sees it. The abstract machine works on byte strings: an operand stack, the
  variables of the current frame, constants, integer arithmetic and comparison on decimal text, and jumps.
  \<open>vm_step\<close>, one round of the loop of \<^verbatim>\<open>vm_decode\<close> with the stack check, the try-catch lookup, the garbage
  collection and the end test behind the switch, refines it; the abstraction relation contains the reference
  counts (the count of every object is the number of stack slots and variables that hold it) and what the
  collector needs to run.
\<close>

section \<open>The abstract machine\<close>

type_synonym text_state = "u16 \<times> u8 list list \<times> u8 list list"

definition op_at :: "buf \<Rightarrow> u16 \<Rightarrow> u8 \<Rightarrow> bool" where
  "op_at code pc opc \<longleftrightarrow> unat pc + 4 \<le> MAX_BUFFER_SIZE \<and> code (unat pc) = opc"

definition operand_at :: "buf \<Rightarrow> u16 \<Rightarrow> u16" where
  "operand_at code pc = get_operand code (Suc (unat pc))"

definition var_at :: "buf \<Rightarrow> u16 \<Rightarrow> nat" where
  "var_at code pc = unat (code (Suc (unat pc)))"

text \<open>
  The steps; \<open>room\<close> bounds the operand stack and \<open>maxlen\<close> the constants. A value may be referenced at most
  fifteen times, the width of the reference count. A constant must not have one of the lengths (88 plus a
  multiple of 16 below 128, modulo 256) that the collector takes for garbage, see \<open>gc_calls_length\<close>.
\<close>

inductive text_step :: "buf \<Rightarrow> nat \<Rightarrow> nat \<Rightarrow> text_state \<Rightarrow> text_state \<Rightarrow> bool"
  for code :: buf and room maxlen :: nat where
  const: "op_at code pc INS_OBJCONST \<Longrightarrow> off = unat pc + unat (operand_at code pc) \<Longrightarrow>
     constant_value code off = Some v \<Longrightarrow> constant_before code off (MAX_BUFFER_SIZE - 3) \<Longrightarrow>
     length v \<le> min maxlen VA_OBJECT_MAX_SIZE \<Longrightarrow> quiet (sz_object + length v) \<Longrightarrow> Suc (length vs) < room \<Longrightarrow>
     text_step code room maxlen (pc, vs, vars) (pc + 3, v # vs, vars)"
| binary: "op_at code pc opc \<Longrightarrow> opc \<in> set operators \<Longrightarrow> int32 a \<Longrightarrow> int32 b \<Longrightarrow> int_fun opc a b = Some c \<Longrightarrow> int32 c \<Longrightarrow>
     text_step code room maxlen (pc, show_int b # show_int a # vs, vars) (pc + 1, show_int c # vs, vars)"
| compare: "op_at code pc opc \<Longrightarrow> opc \<in> set comparisons \<Longrightarrow> int32 a \<Longrightarrow> int32 b \<Longrightarrow> int32 (a - b) \<Longrightarrow>
     int_cmp_fun opc a b = Some t \<Longrightarrow>
     text_step code room maxlen (pc, show_int b # show_int a # vs, vars) (pc + 1, truth_text t # vs, vars)"
| jfalse: "op_at code pc INS_JFALSE \<Longrightarrow>
     text_step code room maxlen (pc, truth_text t # vs, vars) (pc + (if t then 3 else operand_at code pc), vs, vars)"
| jmp: "op_at code pc INS_JMP \<Longrightarrow> text_step code room maxlen (pc, vs, vars) (pc + operand_at code pc, vs, vars)"
| push: "op_at code pc INS_OBJPUSH \<Longrightarrow> k = var_at code pc \<Longrightarrow> k < length vars \<Longrightarrow> Suc (length vs) < room \<Longrightarrow>
     count (mset vs + mset vars) (vars ! k) < 15 \<Longrightarrow>
     text_step code room maxlen (pc, vs, vars) (pc + 2, vars ! k # vs, vars)"
| pop: "op_at code pc INS_OBJPOP \<Longrightarrow> k = var_at code pc \<Longrightarrow> k < length vars \<Longrightarrow>
     text_step code room maxlen (pc, v # vs, vars) (pc + 2, vs, vars[k := v])"
| store: "op_at code pc INS_OBJSTORE \<Longrightarrow> k = var_at code pc \<Longrightarrow> k < length vars \<Longrightarrow>
     count (mset (v # vs) + mset vars) v < 15 \<Longrightarrow>
     text_step code room maxlen (pc, v # vs, vars) (pc + 2, v # vs, vars[k := v])"

section \<open>The abstraction relation\<close>

text \<open>The addresses in the operand stack, the top first, and in the variables.\<close>

definition operands :: "vm_instance \<Rightarrow> nat \<Rightarrow> addr list" where
  "operands vm n = take n (drop (Suc (unat (v_sp vm))) (v_stacks vm))"

definition variables :: "vm_instance \<Rightarrow> nat \<Rightarrow> addr list" where
  "variables vm n = map (\<lambda>j. v_stacks vm ! (unat (v_bp vm) - Suc j)) [0..<n]"

text \<open>A text object of the heap whose reference count is its multiplicity in \<open>R\<close>.\<close>

definition counted :: "vm_instance \<Rightarrow> addr multiset \<Rightarrow> addr \<Rightarrow> bool" where
  "counted vm R p \<longleftrightarrow>
     p \<noteq> 0 \<and> o_type (v_objs vm p) = VM_OBJ_TYPE_ANY \<and> count R p \<le> 15 \<and>
     o_mgc (v_objs vm p) = VM_MAGIC + of_nat (count R p) \<and> (\<exists>n. (p, n) \<in># live (v_heap vm))"

definition refs :: "vm_instance \<Rightarrow> nat \<Rightarrow> nat \<Rightarrow> addr multiset" where
  "refs vm n k = mset (operands vm n) + mset (variables vm k)"

definition contents :: "vm_instance \<Rightarrow> addr list \<Rightarrow> u8 list list" where
  "contents vm ps = map (\<lambda>p. o_bytes (v_objs vm p)) ps"

text \<open>
  The machine without the counts: stack layout, heap, the literal \<^verbatim>\<open>VM_NULL_OBJECT\<close> outside the heap, and a
  running machine on whose heap the collector works.
\<close>

definition layout :: "vm_env \<Rightarrow> nat \<Rightarrow> vm_instance \<Rightarrow> nat \<Rightarrow> nat \<Rightarrow> bool" where
  "layout env room vm n k \<longleftrightarrow>
     length (v_stacks vm) = VM_MAX_STACK_SIZE \<and> unat (v_bp vm) + room < VM_MAX_STACK_SIZE \<and>
     unat (v_sp vm) + n = unat (v_bp vm) + room \<and> n < room \<and> k \<le> unat (v_bp vm) \<and> heap_ok (v_heap vm) \<and>
     (e_null env < hm_root (v_heap vm) \<or> hm_root (v_heap vm) + hm_size (v_heap vm) \<le> e_null env) \<and> ready vm"

fun text_rel :: "vm_env \<Rightarrow> nat \<Rightarrow> vm_instance \<Rightarrow> text_state \<Rightarrow> bool" where
  "text_rel env room vm (pc, vs, vars) \<longleftrightarrow>
     v_pc vm = pc \<and> layout env room vm (length vs) (length vars) \<and>
     contents vm (operands vm (length vs)) = vs \<and> contents vm (variables vm (length vars)) = vars \<and>
     (\<forall>p \<in># refs vm (length vs) (length vars). counted vm (refs vm (length vs) (length vars)) p)"

section \<open>Counts\<close>

lemma count_image_le: "count A x \<le> count (image_mset f A) (f x)"
  by (induction A) auto

lemma count_byte: "c \<le> 15 \<Longrightarrow> (VM_MAGIC + of_nat c) AND VM_MAGIC_MASK = VM_MAGIC"
proof -
  assume "c \<le> 15"
  then have "c \<in> {0, 1, 2, 3, 4, 5, 6, 7, 8, 9, 10, 11, 12, 13, 14, 15}"
    unfolding insert_iff empty_iff by presburger
  then show ?thesis by (auto simp: magic_defs)
qed

lemma counted_text: "counted vm R p \<Longrightarrow> text_object vm p (o_bytes (v_objs vm p))"
  by (simp add: counted_def text_object_def vm_object_get_type_def count_byte)

definition with_mgc :: "vm_instance \<Rightarrow> addr \<Rightarrow> u8 \<Rightarrow> vm_instance" where
  "with_mgc vm p m = vm\<lparr>v_objs := (v_objs vm)(p := (v_objs vm p)\<lparr>o_mgc := m\<rparr>)\<rparr>"

lemma with_mgc_simps [simp]:
  "v_heap (with_mgc vm p m) = v_heap vm" "v_stacks (with_mgc vm p m) = v_stacks vm" "v_sp (with_mgc vm p m) = v_sp vm"
  "v_bp (with_mgc vm p m) = v_bp vm" "v_pc (with_mgc vm p m) = v_pc vm"
  "o_bytes (v_objs (with_mgc vm p m) q) = o_bytes (v_objs vm q)"
  "contents (with_mgc vm p m) ps = contents vm ps"
  by (simp_all add: with_mgc_def contents_def)

lemma ready_simps [simp]:
  "ready (with_mgc vm p m) = ready vm" "ready (vm\<lparr>v_sp := x\<rparr>) = ready vm" "ready (vm\<lparr>v_stacks := xs\<rparr>) = ready vm"
  "ready (vm\<lparr>v_pc := y\<rparr>) = ready vm" "ready (vm\<lparr>v_package := b\<rparr>) = ready vm" "ready (vm\<lparr>v_rexec := c\<rparr>) = ready vm"
  by (rule ready_cong; simp add: with_mgc_def)+

lemma counted_dec:
  assumes "counted vm R p" "p \<in># R" "counted vm R q"
  shows "counted (with_mgc vm p (o_mgc (v_objs vm p) - 1)) (R - {#p#}) q"
proof -
  obtain c where c: "count R p = Suc c" using assms(2) by (metis count_eq_zero_iff not0_implies_Suc)
  show ?thesis using assms c by (cases "q = p") (auto simp: counted_def with_mgc_def)
qed

lemma counted_inc:
  assumes "counted vm R p" "count R p < 15" "counted vm R q"
  shows "counted (with_mgc vm p (o_mgc (v_objs vm p) + 1)) (add_mset p R) q"
  using assms by (cases "q = p") (auto simp: counted_def with_mgc_def)

lemma counted_frame:
  "counted vm R p \<Longrightarrow> v_objs vm' p = v_objs vm p \<Longrightarrow> v_heap vm' = v_heap vm \<Longrightarrow> counted vm' R p"
  by (simp add: counted_def)

section \<open>Moving the stack pointers\<close>

lemma layout_room:
  assumes "layout env room vm n k"
  shows "unat (v_bp vm) < unat (v_sp vm)" "unat (v_sp vm) < VM_MAX_STACK_SIZE" "unat (v_sp vm) + n < VM_MAX_STACK_SIZE"
    "unat (v_sp vm - 1) = unat (v_sp vm) - 1" "unat (v_sp vm + 1) = Suc (unat (v_sp vm))"
proof -
  show l: "unat (v_bp vm) < unat (v_sp vm)" "unat (v_sp vm) < VM_MAX_STACK_SIZE" "unat (v_sp vm) + n < VM_MAX_STACK_SIZE"
    using assms by (auto simp: layout_def)
  then have "1 \<le> v_sp vm" by (simp add: word_le_nat_alt)
  then show "unat (v_sp vm - 1) = unat (v_sp vm) - 1" by (simp add: unat_sub)
  show "unat (v_sp vm + 1) = Suc (unat (v_sp vm))"
    using l(2) by (simp add: unat_word_ariths VM_MAX_STACK_SIZE_def)
qed

lemma operands_push:
  assumes "layout env room vm n k" "v_sp vm' = v_sp vm - 1" "v_stacks vm' = (v_stacks vm)[unat (v_sp vm) := p]"
  shows "operands vm' (Suc n) = p # operands vm n"
proof -
  have "unat (v_sp vm) < length (v_stacks vm)" using assms(1) layout_room(2) [OF assms(1)] by (simp add: layout_def)
  then have "drop (unat (v_sp vm)) ((v_stacks vm)[unat (v_sp vm) := p]) = p # drop (Suc (unat (v_sp vm))) (v_stacks vm)"
    by (simp add: Cons_nth_drop_Suc [symmetric])
  moreover have "Suc (unat (v_sp vm) - 1) = unat (v_sp vm)" using layout_room(1) [OF assms(1)] by simp
  ultimately show ?thesis using layout_room(4) [OF assms(1)] by (simp add: operands_def assms(2,3))
qed

lemma operands_pop:
  assumes "layout env room vm (Suc n) k" "v_sp vm' = v_sp vm + 1" "v_stacks vm' = (v_stacks vm)[unat (v_sp vm + 1) := x]"
  shows "operands vm (Suc n) = v_stacks vm ! unat (v_sp vm + 1) # operands vm' n"
proof -
  have "Suc (unat (v_sp vm)) < length (v_stacks vm)" using assms(1) layout_room(3) [OF assms(1)] by (simp add: layout_def)
  then show ?thesis
    using layout_room(5) [OF assms(1)] by (simp add: operands_def assms(2,3) Cons_nth_drop_Suc [symmetric])
qed

lemma variables_frame:
  assumes "v_bp vm' = v_bp vm" "v_stacks vm' = (v_stacks vm)[i := x]" "unat (v_bp vm) \<le> i" "k \<le> unat (v_bp vm)"
  shows "variables vm' k = variables vm k"
  using assms by (auto simp: variables_def)

lemma operands_frame:
  assumes "v_sp vm' = v_sp vm" "v_stacks vm' = (v_stacks vm)[i := x]" "i \<le> unat (v_sp vm)"
  shows "operands vm' n = operands vm n"
  using assms by (simp add: operands_def)

lemma length_variables [simp]: "length (variables vm k) = k"
  by (simp add: variables_def)

lemma variables_set:
  assumes "v_bp vm' = v_bp vm" "v_stacks vm' = (v_stacks vm)[unat (v_bp vm) - Suc j := p]"
    and "j < k" "k \<le> unat (v_bp vm)" "unat (v_bp vm) \<le> length (v_stacks vm)"
  shows "variables vm' k = (variables vm k)[j := p]"
proof (rule nth_equalityI)
  fix i assume "i < length (variables vm' k)"
  then have "i < k" by simp
  then show "variables vm' k ! i = (variables vm k)[j := p] ! i"
    using assms by (auto simp: variables_def nth_list_update)
qed simp

lemma contents_simps [simp]:
  "contents vm [] = []" "contents vm (p # ps) = o_bytes (v_objs vm p) # contents vm ps"
  "contents vm (ps[j := p]) = (contents vm ps)[j := o_bytes (v_objs vm p)]"
  by (simp_all add: contents_def map_update)

lemma contents_cong: "(\<And>p. p \<in> set ps \<Longrightarrow> v_objs vm' p = v_objs vm p) \<Longrightarrow> contents vm' ps = contents vm ps"
  by (simp add: contents_def)

section \<open>Pushing and popping\<close>

lemma pop_rel:
  assumes rel: "text_rel env room vm (pc, v # vs, vars)"
  obtains p vm' where "vm_pop_stack_arc vm = Some (Inr (p, vm'))" "text_rel env room vm' (pc, vs, vars)"
    "text_object vm' p v" "counted vm' (refs vm' (length vs) (length vars)) p"
    "count (refs vm' (length vs) (length vars)) p < 15" "v_heap vm' = v_heap vm"
    "\<And>q bs. text_object vm q bs \<Longrightarrow> text_object vm' q bs"
proof -
  let ?n = "length vs" and ?k = "length vars"
  define p where "p = v_stacks vm ! unat (v_sp vm + 1)"
  define vm' where "vm' = (with_mgc vm p (o_mgc (v_objs vm p) - 1))\<lparr>v_sp := v_sp vm + 1,
    v_stacks := (v_stacks vm)[unat (v_sp vm + 1) := 0]\<rparr>"
  have lay: "layout env room vm (Suc ?n) ?k" using rel by simp
  have ops: "operands vm (Suc ?n) = p # operands vm' ?n"
    unfolding p_def by (rule operands_pop [OF lay]) (simp_all add: vm'_def)
  have vars': "variables vm' ?k = variables vm ?k"
    by (rule variables_frame) (use lay layout_room [OF lay] in \<open>auto simp: vm'_def layout_def\<close>)
  have R: "refs vm (Suc ?n) ?k = add_mset p (refs vm' ?n ?k)" by (simp add: refs_def ops vars')
  have cnt: "counted vm' (refs vm' ?n ?k) q" if "q \<in># refs vm (Suc ?n) ?k" for q
  proof -
    have "counted vm (add_mset p (refs vm' ?n ?k)) p" "counted vm (add_mset p (refs vm' ?n ?k)) q"
      using rel that by (auto simp: R)
    from counted_dec [OF this(1) _ this(2)]
    have "counted (with_mgc vm p (o_mgc (v_objs vm p) - 1)) (refs vm' ?n ?k) q" by simp
    then show ?thesis by (rule counted_frame) (simp_all add: vm'_def)
  qed
  then have cp: "counted vm' (refs vm' ?n ?k) p" using R by simp
  have lt: "count (refs vm' ?n ?k) p < 15" using rel R by (auto simp: counted_def)
  from cp have "p \<noteq> 0" by (simp add: counted_def)
  then have step: "vm_pop_stack_arc vm = Some (Inr (p, vm'))"
    using vm_pop_stack_arc_eq [of vm p] layout_room [OF lay] by (simp add: p_def vm'_def with_mgc_def)
  have cts: "contents vm' ps = contents vm ps" for ps
    by (simp add: vm'_def contents_def)
  have bs: "o_bytes (v_objs vm p) = v" "contents vm (operands vm' ?n) = vs" "contents vm (variables vm' ?k) = vars"
    using rel ops vars' by simp_all
  have "text_rel env room vm' (pc, vs, vars)"
    using rel cnt R lay layout_room(5) [OF lay] by (auto simp: cts bs) (auto simp: vm'_def layout_def)
  moreover have tp: "text_object vm' p v"
    using counted_text [OF cp] bs(1) by (simp add: vm'_def)
  moreover have "text_object vm' q b" if "text_object vm q b" for q b
  proof (cases "q = p")
    case True
    then show ?thesis using tp that bs(1) by (simp add: text_object_def)
  next
    case False
    then show ?thesis using that by (simp add: text_object_def vm'_def with_mgc_def)
  qed
  moreover have "v_heap vm' = v_heap vm" by (simp add: vm'_def)
  ultimately show thesis using that step cp lt by blast
qed

lemma push_rel:
  assumes rel: "text_rel env room vm (pc, vs, vars)" and push: "pushes_text vm v d vm'" and "Suc (length vs) < room"
    and rd: "ready vm'"
  shows "text_rel env room vm' (pc + d, v # vs, vars)"
proof -
  let ?n = "length vs" and ?k = "length vars"
  obtain q where q: "text_object vm' q v" "o_mgc (v_objs vm' q) = VM_MAGIC OR 1" "\<exists>m. (q, m) \<in># live (v_heap vm')"
      "\<forall>m. (q, m) \<notin># live (v_heap vm)" "v_stacks vm' = (v_stacks vm)[unat (v_sp vm) := q]"
    and sp: "v_sp vm' = v_sp vm - 1" "v_bp vm' = v_bp vm" "v_pc vm' = v_pc vm + d"
    and hp: "heap_ok (v_heap vm')" "hm_root (v_heap vm') = hm_root (v_heap vm)" "hm_size (v_heap vm') = hm_size (v_heap vm)"
    and keep: "\<forall>a k. (a, k) \<in># live (v_heap vm) \<longrightarrow> (a, k) \<in># live (v_heap vm') \<and> v_objs vm' a = v_objs vm a"
    using push by (auto simp: pushes_text_def)
  have lay: "layout env room vm ?n ?k" using rel by simp
  have ops: "operands vm' (Suc ?n) = q # operands vm ?n" by (rule operands_push [OF lay sp(1) q(5)])
  have vars': "variables vm' ?k = variables vm ?k"
    by (rule variables_frame [OF sp(2) q(5)]) (use lay layout_room [OF lay] in \<open>auto simp: layout_def\<close>)
  have R: "refs vm' (Suc ?n) ?k = add_mset q (refs vm ?n ?k)" by (simp add: refs_def ops vars')
  have old: "v_objs vm' p = v_objs vm p \<and> p \<noteq> q \<and> counted vm' (add_mset q (refs vm ?n ?k)) p" if "p \<in># refs vm ?n ?k" for p
  proof -
    have c: "counted vm (refs vm ?n ?k) p" using rel that by simp
    then obtain m where "(p, m) \<in># live (v_heap vm)" by (auto simp: counted_def)
    with keep q(4) have "v_objs vm' p = v_objs vm p" "p \<noteq> q" "(p, m) \<in># live (v_heap vm')" by auto
    with c show ?thesis by (auto simp: counted_def)
  qed
  then have "q \<notin># refs vm ?n ?k" by blast
  then have "counted vm' (add_mset q (refs vm ?n ?k)) q"
    using q(1-3) by (auto simp: counted_def text_object_def magic_defs not_in_iff)
  moreover have "contents vm' (operands vm ?n) = vs" "contents vm' (variables vm ?k) = vars"
    using rel old contents_cong [of "operands vm ?n" vm' vm] contents_cong [of "variables vm ?k" vm' vm]
    by (simp_all add: refs_def)
  moreover have "layout env room vm' (Suc ?n) ?k"
    using lay layout_room [OF lay] sp hp q(5) assms(3) rd by (auto simp: layout_def)
  ultimately show ?thesis using rel old sp(3) q(1) by (auto simp: ops vars' R text_object_def)
qed

lemma frame_simps [simp]:
  "operands (vm\<lparr>v_pc := x\<rparr>) n = operands vm n" "variables (vm\<lparr>v_pc := x\<rparr>) n = variables vm n"
  "refs (vm\<lparr>v_pc := x\<rparr>) n k = refs vm n k" "contents (vm\<lparr>v_pc := x\<rparr>) ps = contents vm ps"
  "counted (vm\<lparr>v_pc := x\<rparr>) R p = counted vm R p" "layout env room (vm\<lparr>v_pc := x\<rparr>) n k = layout env room vm n k"
  "text_rel env room (vm\<lparr>v_package := b\<rparr>) a = text_rel env room vm a"
  "text_rel env room (vm\<lparr>v_rexec := r\<rparr>) a = text_rel env room vm a"
  by (simp_all add: operands_def variables_def refs_def contents_def counted_def layout_def)
    (cases a; simp add: operands_def variables_def refs_def contents_def counted_def layout_def)+

lemma text_rel_pc: "text_rel env room vm (pc, vs, vars) \<Longrightarrow> text_rel env room (vm\<lparr>v_pc := x\<rparr>) (x, vs, vars)"
  by simp

section \<open>Instructions\<close>

text \<open>
  What an instruction does: it reaches a machine in the relation and takes at most \<open>c\<close> bytes of the heap,
  or fewer are left.
\<close>

definition leads_to :: "vm_env \<Rightarrow> nat \<Rightarrow> nat \<Rightarrow> locals vm \<Rightarrow> vm_instance \<Rightarrow> text_state \<Rightarrow> bool" where
  "leads_to env room c m vm a \<longleftrightarrow> m vm = Some (Inl Null_Deref) \<and> heap_rest (v_heap vm) \<le> c \<or>
     (\<exists>l vm'. m vm = Some (Inr (l, vm')) \<and> text_rel env room vm' a \<and>
        heap_rest (v_heap vm) \<le> heap_rest (v_heap vm') + c)"

lemma leads_to_free:
  "m vm = Some (Inr (l, vm')) \<Longrightarrow> text_rel env room vm' a \<Longrightarrow> v_heap vm' = v_heap vm \<Longrightarrow> leads_to env room c m vm a"
  by (auto simp: leads_to_def)

lemma leads_to_mono: "leads_to env room c m vm a \<Longrightarrow> c \<le> d \<Longrightarrow> leads_to env room d m vm a"
  unfolding leads_to_def by (meson add_left_mono le_trans)

lemma push_new_leads:
  assumes "new_object vm p (fresh_object v) vm1" "text_rel env room vm (pc, vs, vars)" "Suc (length vs) < room"
    and "quiet (sz_object + length v)"
  shows "leads_to env room c (bind_v (vm_push_stack p) (\<lambda>_. done_v d p l)) vm1 (pc + d, v # vs, vars)"
proof -
  note fr = new_object_frame [OF assms(1)]
  have lay: "layout env room vm (length vs) (length vars)" using assms(2) by simp
  have ob: "v_objs vm1 p = fresh_object v" using assms(1) by (simp add: new_object_def)
  define vm2 where "vm2 = vm1\<lparr>v_objs := (v_objs vm1)(p := fresh_object v), v_sp := v_sp vm - 1,
      v_stacks := (v_stacks vm)[unat (v_sp vm) := p], v_pc := v_pc vm + d\<rparr>"
  have "(v_objs vm1)(p := fresh_object v) = v_objs vm1" using ob by auto
  then have "bind_v (vm_push_stack p) (\<lambda>_. done_v d p l) vm1 = Some (Inr (l\<lparr>l_obj := Some p\<rparr>, vm2))"
    using fr layout_room(2) [OF lay]
    by (simp add: bind_results vm_push_stack_eq done_v_def vm_add_pc_def vm2_def)
  moreover have "pushes_text vm v d vm2"
    unfolding vm2_def by (rule pushes_text_new [OF assms(1)]) (simp add: fresh_object_def)
  moreover have "v_heap vm2 = v_heap vm1" by (simp add: vm2_def)
  moreover have "ready vm2"
    unfolding vm2_def by (rule ready_new [OF assms(1)]) (use lay assms(4) in \<open>simp_all add: layout_def o_len_def fresh_object_def\<close>)
  ultimately show ?thesis by (blast intro: leads_to_free push_rel [OF assms(2) _ assms(3)])
qed

lemma binary_leads:
  assumes rel: "text_rel env room vm (pc, w # v # vs, vars)"
    and f: "\<And>op1 op2 vm. heap_ok (v_heap vm) \<Longrightarrow> text_object vm op1 v \<Longrightarrow> text_object vm op2 w \<Longrightarrow>
      creates (f op2 op1) c (fresh_object x) vm"
    and qx: "quiet (sz_object + length x)"
  shows "leads_to env room c (bind_v vm_pop_stack_arc (\<lambda>op2. bind_v vm_pop_stack_arc (\<lambda>op1.
      bind_v (f op2 op1) (\<lambda>p. bind_v (vm_push_stack p) (\<lambda>_. done_v 1 p l))))) vm (pc + 1, x # vs, vars)"
proof -
  from pop_rel [OF rel] obtain p2 vm1 where 1: "vm_pop_stack_arc vm = Some (Inr (p2, vm1))"
    "text_rel env room vm1 (pc, v # vs, vars)" "text_object vm1 p2 w" "v_heap vm1 = v_heap vm" by metis
  from pop_rel [OF 1(2)] obtain p1 vm2 where 2: "vm_pop_stack_arc vm1 = Some (Inr (p1, vm2))"
    "text_rel env room vm2 (pc, vs, vars)" "text_object vm2 p1 v" "text_object vm2 p2 w" "v_heap vm2 = v_heap vm1"
    using 1(3) by metis
  have ok: "heap_ok (v_heap vm2)" and room: "Suc (length vs) < room"
    using 2(2) rel by (auto simp: layout_def)
  have hp: "v_heap vm2 = v_heap vm" using 1(4) 2(5) by simp
  from f [OF ok 2(3,4)] show ?thesis
  proof (cases rule: createsE)
    case 1
    then show ?thesis using \<open>vm_pop_stack_arc vm = _\<close> 2(1) hp by (simp add: leads_to_def bind_results)
  next
    case (2 p vm3)
    from push_new_leads [OF 2(2) \<open>text_rel env room vm2 _\<close> room qx, of 0 1 l]
    show ?thesis
      using \<open>vm_pop_stack_arc vm = _\<close> \<open>vm_pop_stack_arc vm1 = _\<close> 2(1,3) hp
      by (auto simp: leads_to_def bind_results simp del: text_rel.simps)
  qed
qed

lemma quiet_small: "n < 128 \<Longrightarrow> quiet n"
proof -
  assume n: "n < 128"
  then have "\<not> bit n 7" by (simp add: bit_iff_odd)
  then have "\<not> bit ((of_nat n :: u8) AND VM_MAGIC_MASK_ZERO) 7" by (simp add: bit_and_iff bit_of_nat_iff)
  moreover have "bit VM_MAGIC 7" by (simp add: magic_defs bit_iff_odd)
  ultimately show ?thesis by (auto simp: quiet_def gc_dead_def)
qed

lemma false_text: "is_false (truth_text t) = ret_v (\<not> t)"
  by (cases t) (simp_all add: is_false_def truth_text_def ascii_def Let_def)

lemma JFALSE_leads:
  assumes "text_rel env room vm (pc, truth_text t # vs, vars)"
  shows "leads_to env room c (exec_JFALSE ibuf l) vm (pc + (if t then 3 else ins_index ibuf), vs, vars)"
proof -
  from pop_rel [OF assms] obtain p vm1 where 1: "vm_pop_stack_arc vm = Some (Inr (p, vm1))"
    "text_rel env room vm1 (pc, vs, vars)" "text_object vm1 p (truth_text t)" "v_heap vm1 = v_heap vm" by metis
  have "v_pc vm1 = pc" using 1(2) by simp
  then have "exec_JFALSE ibuf l vm = Some (Inr (l, vm1\<lparr>v_pc := pc + (if t then 3 else ins_index ibuf)\<rparr>))"
    using 1(1,3) by (simp add: exec_JFALSE_def bind_results text_object_def false_text vm_add_pc_def)
  then show ?thesis by (rule leads_to_free) (use text_rel_pc [OF 1(2)] 1(4) in \<open>simp_all del: text_rel.simps\<close>)
qed

lemma variable_address:
  assumes "text_rel env room vm (pc, vs, vars)" "j < length vars"
  defines "i \<equiv> unat (v_bp vm) - Suc j"
  shows "Suc j \<le> unat (v_bp vm)" "i < VM_MAX_STACK_SIZE" "v_stacks vm ! i = variables vm (length vars) ! j"
    "variables vm (length vars) ! j \<in># refs vm (length vs) (length vars)"
    "o_bytes (v_objs vm (variables vm (length vars) ! j)) = vars ! j"
proof -
  show "Suc j \<le> unat (v_bp vm)" "i < VM_MAX_STACK_SIZE" "v_stacks vm ! i = variables vm (length vars) ! j"
    using assms by (auto simp: layout_def variables_def)
  show "variables vm (length vars) ! j \<in># refs vm (length vs) (length vars)"
    using assms(2) by (simp add: refs_def)
  have "contents vm (variables vm (length vars)) ! j = vars ! j" using assms(1) by simp
  then show "o_bytes (v_objs vm (variables vm (length vars) ! j)) = vars ! j"
    using assms(2) by (simp add: contents_def)
qed

lemma OBJPUSH_leads:
  assumes rel: "text_rel env room vm (pc, vs, vars)" and j: "unat (ibuf ! 1) < length vars"
    and "Suc (length vs) < room" and "count (mset vs + mset vars) (vars ! unat (ibuf ! 1)) < 15"
  shows "leads_to env room c (exec_OBJPUSH ibuf l) vm (pc + 2, vars ! unat (ibuf ! 1) # vs, vars)"
proof -
  let ?n = "length vs" and ?k = "length vars" and ?j = "unat (ibuf ! 1)"
  define p where "p = variables vm ?k ! ?j"
  note va = variable_address [OF rel j, folded p_def]
  have cp: "counted vm (refs vm ?n ?k) p" using rel va(4) by simp
  have lay: "layout env room vm ?n ?k" using rel by simp
  have "image_mset (\<lambda>p. o_bytes (v_objs vm p)) (refs vm ?n ?k) = mset vs + mset vars"
    using rel by (simp add: refs_def contents_def flip: mset_map)
  then have lt: "count (refs vm ?n ?k) p < 15"
    using assms(4) count_image_le [of "refs vm ?n ?k" p "\<lambda>p. o_bytes (v_objs vm p)"] va(5) by simp
  define vm' where "vm' = (with_mgc vm p (o_mgc (v_objs vm p) + 1))\<lparr>v_sp := v_sp vm - 1,
      v_stacks := (v_stacks vm)[unat (v_sp vm) := p], v_pc := pc + 2\<rparr>"
  have ops: "operands vm' (Suc ?n) = p # operands vm ?n" by (rule operands_push [OF lay]) (simp_all add: vm'_def)
  have vars': "variables vm' ?k = variables vm ?k"
    by (rule variables_frame [of _ _ "unat (v_sp vm)" p]) (use lay layout_room [OF lay] in \<open>auto simp: vm'_def layout_def\<close>)
  have R: "refs vm' (Suc ?n) ?k = add_mset p (refs vm ?n ?k)" by (simp add: refs_def ops vars')
  have "counted vm' (add_mset p (refs vm ?n ?k)) q" if "q \<in># add_mset p (refs vm ?n ?k)" for q
    by (rule counted_frame [OF counted_inc [OF cp lt]]) (use that rel va(4) in \<open>auto simp: vm'_def\<close>)
  moreover have cts: "contents vm' ps = contents vm ps" for ps by (simp add: vm'_def contents_def)
  moreover have "layout env room vm' (Suc ?n) ?k"
    using lay layout_room [OF lay] assms(3) by (auto simp: vm'_def layout_def)
  ultimately have "text_rel env room vm' (pc + 2, vars ! ?j # vs, vars)"
    using rel va(5) by (auto simp: ops vars' R) (simp_all add: vm'_def)
  moreover have "exec_OBJPUSH ibuf l vm = Some (Inr (l\<lparr>l_obj := Some p\<rparr>, vm'))"
    using va(1-3) cp rel layout_room(2) [OF lay]
    by (simp add: exec_OBJPUSH_def base_index_def stack_read_def bind_results counted_def mgc_inc_def vm_push_stack_eq
        vm_debug_var_def done_v_def vm_add_pc_def vm'_def with_mgc_def)
  moreover have "v_heap vm' = v_heap vm" by (simp add: vm'_def)
  ultimately show ?thesis by (blast intro: leads_to_free)
qed

lemma store_leads:
  assumes rel: "text_rel env room vm (pc, vs, vars)" and j: "unat (ibuf ! 1) < length vars"
    and cp: "counted vm (refs vm (length vs) (length vars)) p" "count (refs vm (length vs) (length vars)) p < 15"
    and v: "o_bytes (v_objs vm p) = v"
  shows "leads_to env room c (store_variable ibuf p l) vm (pc + 2, vs, vars[unat (ibuf ! 1) := v])"
proof -
  let ?n = "length vs" and ?k = "length vars" and ?j = "unat (ibuf ! 1)"
  define old where "old = variables vm ?k ! ?j"
  define i where "i = unat (v_bp vm) - Suc ?j"
  have idx: "unat (v_bp vm) - Suc (unat (ibuf ! Suc 0)) = i" by (simp add: i_def)
  note va = variable_address [OF rel j, folded old_def i_def]
  have lay: "layout env room vm ?n ?k" using rel by simp
  have p0: "p \<noteq> 0" "old \<noteq> 0" using cp(1) rel va(4) by (auto simp: counted_def)
  show ?thesis
  proof (cases "old = p")
    case True
    then have "vars[?j := v] = vars" using va(5) v by auto
    moreover have "store_variable ibuf p l vm = Some (Inr (l\<lparr>l_obj := Some p\<rparr>, vm\<lparr>v_pc := pc + 2\<rparr>))"
      using va(1-3) True p0 rel
      by (simp add: store_variable_def base_index_def stack_read_def bind_results vm_debug_var_def done_v_def vm_add_pc_def
          idx)
    ultimately show ?thesis using text_rel_pc [OF rel, of "pc + 2"] by (auto intro: leads_to_free simp del: text_rel.simps)
  next
    case False
    define vm1 where "vm1 = (with_mgc vm old (o_mgc (v_objs vm old) - 1))\<lparr>v_stacks := (v_stacks vm)[i := p]\<rparr>"
    define vm2 where "vm2 = (with_mgc vm1 p (o_mgc (v_objs vm1 p) + 1))\<lparr>v_pc := pc + 2\<rparr>"
    have st: "store_variable ibuf p l vm = Some (Inr (l\<lparr>l_obj := Some p\<rparr>, vm2))"
      using va(1-3) False p0 rel
      by (simp add: store_variable_def base_index_def stack_read_def stack_write_def bind_results mgc_dec_def mgc_inc_def
          vm_debug_var_def done_v_def vm_add_pc_def vm1_def vm2_def with_mgc_def idx)
    have ops: "operands vm2 ?n = operands vm ?n"
      by (rule operands_frame [of _ _ i p]) (use layout_room(1) [OF lay] in \<open>simp_all add: vm1_def vm2_def i_def\<close>)
    have vars': "variables vm2 ?k = (variables vm ?k)[?j := p]"
      by (rule variables_set) (use lay j in \<open>auto simp: vm1_def vm2_def i_def layout_def\<close>)
    have mem: "old \<in># mset (variables vm ?k)" using j by (simp add: old_def)
    have R: "refs vm2 ?n ?k = add_mset p (refs vm ?n ?k - {#old#})"
      using j diff_union_single_conv [OF mem, of "mset (operands vm ?n)"]
      by (simp add: refs_def ops vars' mset_update old_def)
    have co: "counted vm (refs vm ?n ?k) old" using rel va(4) by simp
    have c1: "counted vm1 (refs vm ?n ?k - {#old#}) q" if "counted vm (refs vm ?n ?k) q" for q
      by (rule counted_frame [OF counted_dec [OF co va(4) that]]) (simp_all add: vm1_def)
    have lt: "count (refs vm ?n ?k - {#old#}) p < 15" using cp(2) by simp
    have c2: "counted vm2 (add_mset p (refs vm ?n ?k - {#old#})) q" if "counted vm (refs vm ?n ?k) q" for q
      by (rule counted_frame [OF counted_inc [OF c1 [OF cp(1)] lt c1 [OF that]]]) (simp_all add: vm2_def)
    have "counted vm2 (refs vm2 ?n ?k) q" if "q \<in># refs vm2 ?n ?k" for q
      using that c2 cp(1) rel by (auto simp: R dest: in_diffD)
    moreover have cts: "contents vm2 ps = contents vm ps" for ps by (simp add: vm1_def vm2_def contents_def)
    moreover have "layout env room vm2 ?n ?k" using lay by (simp add: vm1_def vm2_def layout_def)
    moreover have "o_bytes (v_objs vm2 p) = v" "v_pc vm2 = pc + 2" using v by (simp_all add: vm1_def vm2_def)
    ultimately have "text_rel env room vm2 (pc + 2, vs, vars[?j := v])"
      using rel by (simp add: ops vars')
    with st show ?thesis by (rule leads_to_free) (simp add: vm1_def vm2_def)
  qed
qed

lemma OBJPOP_leads:
  assumes "text_rel env room vm (pc, v # vs, vars)" "unat (ibuf ! 1) < length vars"
  shows "leads_to env room c (exec_OBJPOP ibuf l) vm (pc + 2, vs, vars[unat (ibuf ! 1) := v])"
proof -
  from pop_rel [OF assms(1)] obtain p vm1 where 1: "vm_pop_stack_arc vm = Some (Inr (p, vm1))"
    "text_rel env room vm1 (pc, vs, vars)" "text_object vm1 p v" "counted vm1 (refs vm1 (length vs) (length vars)) p"
    "count (refs vm1 (length vs) (length vars)) p < 15" "v_heap vm1 = v_heap vm" by metis
  have "o_bytes (v_objs vm1 p) = v" using 1(3) by (simp add: text_object_def)
  from store_leads [OF 1(2) assms(2) 1(4,5) this, of c l] 1(1,6) show ?thesis
    by (simp add: leads_to_def exec_OBJPOP_def bind_results)
qed

lemma OBJSTORE_leads:
  assumes rel: "text_rel env room vm (pc, v # vs, vars)" and "unat (ibuf ! 1) < length vars"
    and "count (mset (v # vs) + mset vars) v < 15"
  shows "leads_to env room c (exec_OBJSTORE ibuf l) vm (pc + 2, v # vs, vars[unat (ibuf ! 1) := v])"
proof -
  let ?n = "length (v # vs)" and ?k = "length vars"
  have lay: "layout env room vm ?n ?k" using rel by simp
  define p where "p = v_stacks vm ! Suc (unat (v_sp vm))"
  have "operands vm ?n = p # operands (vm\<lparr>v_sp := v_sp vm + 1, v_stacks := (v_stacks vm)[unat (v_sp vm + 1) := 0]\<rparr>) (length vs)"
    using operands_pop [of env room vm "length vs" ?k _ 0] lay layout_room(5) [OF lay] by (simp add: p_def)
  then have v: "o_bytes (v_objs vm p) = v" and pR: "p \<in># refs vm ?n ?k"
    using rel by (auto simp: refs_def)
  then have cp: "counted vm (refs vm ?n ?k) p" using rel by simp
  have "image_mset (\<lambda>p. o_bytes (v_objs vm p)) (refs vm ?n ?k) = mset (v # vs) + mset vars"
    using rel by (simp add: refs_def contents_def flip: mset_map)
  then have lt: "count (refs vm ?n ?k) p < 15"
    using assms(3) count_image_le [of "refs vm ?n ?k" p "\<lambda>p. o_bytes (v_objs vm p)"] v by simp
  have "exec_OBJSTORE ibuf l vm = store_variable ibuf p l vm"
    using layout_room(3) [OF lay] by (simp add: exec_OBJSTORE_def stack_read_def bind_results p_def)
  with store_leads [OF rel assms(2) cp lt v, of c l] show ?thesis by (simp add: leads_to_def)
qed

section \<open>Simulation\<close>

text \<open>\<open>n\<close> rounds of a machine that may fail.\<close>

primrec rounds :: "('c \<Rightarrow> (c_error + 'c) option) \<Rightarrow> nat \<Rightarrow> 'c \<Rightarrow> (c_error + 'c) option" where
  "rounds f 0 c = Some (Inr c)"
| "rounds f (Suc n) c =
     (case f c of None \<Rightarrow> None | Some r \<Rightarrow> (case r of Inl e \<Rightarrow> Some (Inl e) | Inr c' \<Rightarrow> rounds f n c'))"

text \<open>
  The interface between a machine and its specification: each abstract step is one round of the machine.
  A round takes at most \<open>cost\<close> of a resource and gives up with \<open>failure\<close> only when no more is left.
\<close>

locale simulation =
  fixes astep :: "'a \<Rightarrow> 'a \<Rightarrow> bool" and round :: "'c \<Rightarrow> (c_error + 'c) option"
    and rel :: "'c \<Rightarrow> 'a \<Rightarrow> bool" and failure :: c_error and resource :: "'c \<Rightarrow> nat" and cost :: nat
  assumes sim: "astep a a' \<Longrightarrow> rel c a \<Longrightarrow>
    round c = Some (Inl failure) \<and> resource c \<le> cost \<or>
    (\<exists>c'. round c = Some (Inr c') \<and> rel c' a' \<and> resource c \<le> resource c' + cost)"
begin

lemma sim_rounds:
  "(astep ^^ n) a a' \<Longrightarrow> rel c a \<Longrightarrow>
     rounds round n c = Some (Inl failure) \<and> resource c \<le> n * cost \<or>
     (\<exists>c'. rounds round n c = Some (Inr c') \<and> rel c' a' \<and> resource c \<le> resource c' + n * cost)"
proof (induction n arbitrary: a c)
  case (Suc n)
  from Suc.prems(1) obtain b where b: "astep a b" "(astep ^^ n) b a'" by (meson relpowp_Suc_D2)
  from sim [OF b(1) Suc.prems(2)] show ?case
  proof (elim disjE exE conjE)
    fix c' assume "round c = Some (Inr c')" "rel c' b" "resource c \<le> resource c' + cost"
    with Suc.IH [OF b(2), of c'] show ?case by fastforce
  qed simp
qed simp

lemma sim_enough:
  "(astep ^^ n) a a' \<Longrightarrow> rel c a \<Longrightarrow> n * cost < resource c \<Longrightarrow> \<exists>c'. rounds round n c = Some (Inr c') \<and> rel c' a'"
  using sim_rounds by fastforce

end

lemma fetch_execute_leads:
  assumes "unat (v_pc vm) + 4 \<le> MAX_BUFFER_SIZE"
    and "leads_to env room c (vm_execute env (read_bytes (e_code env) (unat (v_pc vm)) 4) l) (vm\<lparr>v_rexec := False\<rparr>) a"
  shows "leads_to env room c (fetch_execute env l) vm a"
  using assms by (simp add: leads_to_def fetch_execute_def vm_fetch_def bind_results)

lemma ibuf_simps [simp]:
  "read_bytes b p 4 ! 0 = b p" "read_bytes b p 4 ! Suc 0 = b (Suc p)"
  by (simp_all add: read_bytes_def)

lemmas dispatch = vm_execute_def Let_def is_SYSCALL_def is_F2O_def is_EXTCALL_def

lemma execute_operator:
  "ibuf ! 0 \<in> set operators \<Longrightarrow> vm_execute env ibuf l = exec_operator env (ibuf ! 0) l"
  unfolding operators_def by (simp, elim disjE) (simp_all add: dispatch ins_defs operators_def)

lemma execute_compare:
  "ibuf ! 0 \<in> set comparisons \<Longrightarrow> vm_execute env ibuf l = exec_compare env (ibuf ! 0) l"
  unfolding comparisons_def by (simp, elim disjE) (simp_all add: dispatch ins_defs operators_def comparisons_def)

lemma execute_single:
  "ibuf ! 0 = INS_JFALSE \<Longrightarrow> vm_execute env ibuf l = exec_JFALSE ibuf l"
  "ibuf ! 0 = INS_JMP \<Longrightarrow> vm_execute env ibuf l = exec_JMP (ins_index ibuf) l"
  "ibuf ! 0 = INS_OBJPUSH \<Longrightarrow> vm_execute env ibuf l = exec_OBJPUSH ibuf l"
  "ibuf ! 0 = INS_OBJPOP \<Longrightarrow> vm_execute env ibuf l = exec_OBJPOP ibuf l"
  "ibuf ! 0 = INS_OBJSTORE \<Longrightarrow> vm_execute env ibuf l = exec_OBJSTORE ibuf l"
  by (simp_all add: dispatch operators_def ins_defs)

lemma execute_step:
  assumes "text_step (e_code env) room maxlen (pc, vs, vars) a'" and rel: "text_rel env room vm (pc, vs, vars)"
  shows "leads_to env room (2 * maxlen + 128) (vm_execute env (read_bytes (e_code env) (unat pc) 4) l) vm a'"
  using assms(1)
proof cases
  case (const off v)
  obtain len llen where cl: "constant_length (e_code env) off = Some (len, llen)"
    and v: "v = read_bytes (e_code env) (off + llen) len" and bd: "off + 4 \<le> MAX_BUFFER_SIZE" "off + llen + len \<le> MAX_BUFFER_SIZE"
    using const by (auto simp: constant_value_def constant_before_def MAX_BUFFER_SIZE_def split: option.splits)
  let ?ib = "read_bytes (e_code env) (unat pc) 4"
  have "off = unat (ins_index ?ib) + unat (v_pc vm)" "heap_ok (v_heap vm)" "unat (v_sp vm) < VM_MAX_STACK_SIZE"
    "e_null env < hm_root (v_heap vm) \<or> hm_root (v_heap vm) + hm_size (v_heap vm) \<le> e_null env" "len \<le> VA_OBJECT_MAX_SIZE"
    using rel const v layout_room(2) by (auto simp: layout_def ins_index_code operand_at_def)
  with exec_OBJCONST_pushes [of vm env off len llen ?ib l] cl bd v
  have "exec_OBJCONST env ?ib l vm = Some (Inl Null_Deref) \<and> heap_rest (v_heap vm) \<le> 2 * len + 105 \<or>
    (\<exists>l' vm'. exec_OBJCONST env ?ib l vm = Some (Inr (l', vm')) \<and> pushes_text vm v 3 vm' \<and>
       heap_rest (v_heap vm) \<le> heap_rest (v_heap vm') + (2 * len + 105) \<and> ready vm')"
    using rel const v by (auto simp: layout_def)
  then have "leads_to env room (2 * len + 105) (exec_OBJCONST env ?ib l) vm (pc + 3, v # vs, vars)"
    using push_rel [OF rel] const unfolding leads_to_def by metis
  moreover have "2 * len + 105 \<le> 2 * maxlen + 128" using const v by simp
  moreover have "vm_execute env ?ib l = exec_OBJCONST env ?ib l"
    using const by (intro execute_OBJCONST) (simp add: op_at_def)
  ultimately show ?thesis using const by (auto intro: leads_to_mono simp del: text_rel.simps)
next
  case (binary opc a b c vs')
  then have "vm_execute env (read_bytes (e_code env) (unat pc) 4) l = exec_operator env opc l"
    by (subst execute_operator) (simp_all add: op_at_def)
  moreover have "leads_to env room 128 (exec_operator env opc l) vm (pc + 1, show_int c # vs', vars)"
    unfolding exec_operator_def
    by (rule binary_leads [OF _ operation_new])
      (use rel binary show_int_length [of c] in \<open>auto simp: sz_object_def intro!: quiet_small simp del: text_rel.simps\<close>)
  ultimately show ?thesis using binary by (auto intro: leads_to_mono)
next
  case (compare opc a b t vs')
  then have "vm_execute env (read_bytes (e_code env) (unat pc) 4) l = exec_compare env opc l"
    by (subst execute_compare) (simp_all add: op_at_def)
  moreover have "leads_to env room 128 (exec_compare env opc l) vm (pc + 1, truth_text t # vs', vars)"
    unfolding exec_compare_def
    by (rule binary_leads [OF _ compare_new])
      (use rel compare in \<open>auto simp: sz_object_def truth_text_def ascii_def intro!: quiet_small simp del: text_rel.simps\<close>)
  ultimately show ?thesis using compare by (auto intro: leads_to_mono)
next
  case (jfalse t vs')
  with rel JFALSE_leads [of env room vm pc t vs' vars "2 * maxlen + 128" "read_bytes (e_code env) (unat pc) 4" l] show ?thesis
    by (cases t) (simp_all add: op_at_def operand_at_def ins_index_code execute_single del: text_rel.simps)
next
  case jmp
  have "exec_JMP (operand_at (e_code env) pc) l vm =
      Some (Inr (l, vm\<lparr>v_package := l_base l, v_pc := pc + operand_at (e_code env) pc\<rparr>))"
    using rel by (simp add: exec_JMP_def add.commute)
  moreover have "text_rel env room (vm\<lparr>v_package := l_base l, v_pc := pc + operand_at (e_code env) pc\<rparr>)
      (pc + operand_at (e_code env) pc, vs, vars)"
    by (rule text_rel_pc [of _ _ "vm\<lparr>v_package := l_base l\<rparr>" pc]) (use rel in \<open>simp del: text_rel.simps\<close>)
  ultimately show ?thesis
    using jmp by (simp add: leads_to_def op_at_def operand_at_def ins_index_code execute_single del: text_rel.simps)
next
  case (push k)
  then show ?thesis
    using OBJPUSH_leads [OF rel, of "read_bytes (e_code env) (unat pc) 4" "2 * maxlen + 128" l]
    by (simp add: op_at_def var_at_def execute_single del: text_rel.simps)
next
  case (pop k v vs')
  then show ?thesis
    using OBJPOP_leads [of env room vm pc v vs' vars "read_bytes (e_code env) (unat pc) 4" "2 * maxlen + 128" l] rel
    by (simp add: op_at_def var_at_def execute_single del: text_rel.simps)
next
  case (store k v vs')
  then show ?thesis
    using OBJSTORE_leads [of env room vm pc v vs' vars "read_bytes (e_code env) (unat pc) 4" "2 * maxlen + 128" l] rel
    by (simp add: op_at_def var_at_def execute_single del: text_rel.simps)
qed

section \<open>Whole rounds\<close>

text \<open>
  The relation between two rounds of the loop: at the program counter 0xFFFF the loop has left the running
  state.
\<close>

definition machine_rel :: "vm_env \<Rightarrow> nat \<Rightarrow> vm_instance \<Rightarrow> text_state \<Rightarrow> bool" where
  "machine_rel env room vm a \<longleftrightarrow>
     v_state vm = (if fst a = 0xFFFF then VM_STATE_INIT else VM_STATE_RUN) \<and>
     text_rel env room (vm\<lparr>v_state := VM_STATE_RUN\<rparr>) a"

text \<open>An object with a reference is not garbage.\<close>

lemma counted_referenced:
  assumes "counted vm R p" "p \<in># R"
  shows "\<exists>n. (p, n) \<in># referenced vm"
proof -
  have "count R p \<noteq> 0" "count R p \<le> 15" using assms by (auto simp: counted_def)
  then have "count R p \<in> {1, 2, 3, 4, 5, 6, 7, 8, 9, 10, 11, 12, 13, 14, 15}"
    unfolding insert_iff empty_iff by presburger
  then have "\<not> gc_dead (o_mgc (v_objs vm p))" using assms(1) by (auto simp: counted_def gc_dead_def magic_defs)
  with assms(1) show ?thesis by (auto simp: counted_def referenced_def)
qed

text \<open>The collection keeps the relation: no operand and no variable moves.\<close>

lemma collected_rel:
  assumes rel: "text_rel env room vm (pc, vs, vars)" and fr: "gc_frame vm vm'" and rd: "ready vm'"
    and keep: "\<forall>a n. (a, n) \<in># referenced vm \<longrightarrow> (a, n) \<in># live (v_heap vm') \<and> v_objs vm' a = v_objs vm a \<and>
       (\<forall>i < length (v_stacks vm). v_stacks vm ! i = a \<longrightarrow> v_stacks vm' ! i = a)"
  shows "text_rel env room vm' (pc, vs, vars)"
proof -
  let ?n = "length vs" and ?k = "length vars"
  have f: "v_sp vm' = v_sp vm" "v_bp vm' = v_bp vm" "v_pc vm' = v_pc vm" "length (v_stacks vm') = length (v_stacks vm)"
    "hm_root (v_heap vm') = hm_root (v_heap vm)" "hm_size (v_heap vm') = hm_size (v_heap vm)"
    using fr gc_frame_fields [OF fr] by (auto simp: gc_frame_def)
  have lay: "layout env room vm ?n ?k" using rel by simp
  have ref: "\<exists>n. (p, n) \<in># referenced vm" if "p \<in># refs vm ?n ?k" for p
    using rel that counted_referenced by auto
  have slot: "v_stacks vm' ! i = v_stacks vm ! i" if "i < length (v_stacks vm)" "v_stacks vm ! i \<in># refs vm ?n ?k" for i
    using keep ref [OF that(2)] that(1) by blast
  have ops: "operands vm' ?n = operands vm ?n"
  proof (rule nth_equalityI)
    fix i assume "i < length (operands vm' ?n)"
    then have i: "i < ?n" "Suc (unat (v_sp vm)) + i < length (v_stacks vm)" by (auto simp: operands_def f)
    then have "operands vm ?n ! i = v_stacks vm ! (Suc (unat (v_sp vm)) + i)" "i < length (operands vm ?n)"
      by (auto simp: operands_def)
    moreover from this have "v_stacks vm ! (Suc (unat (v_sp vm)) + i) \<in># refs vm ?n ?k"
      by (metis refs_def nth_mem set_mset_mset union_iff)
    moreover have "operands vm' ?n ! i = v_stacks vm' ! (Suc (unat (v_sp vm)) + i)"
      using i f(4) by (simp add: operands_def f)
    ultimately show "operands vm' ?n ! i = operands vm ?n ! i" using slot i(2) by simp
  qed (simp add: operands_def f)
  have vars': "variables vm' ?k = variables vm ?k"
  proof (rule nth_equalityI)
    fix j assume "j < length (variables vm' ?k)"
    then have j: "j < ?k" by simp
    note va = variable_address [OF rel j]
    have "unat (v_bp vm) - Suc j < length (v_stacks vm)" using va(2) lay by (simp add: layout_def)
    with slot va(3,4) j show "variables vm' ?k ! j = variables vm ?k ! j" by (simp add: variables_def f)
  qed simp
  have R: "refs vm' ?n ?k = refs vm ?n ?k" by (simp add: refs_def ops vars')
  have ob: "v_objs vm' p = v_objs vm p" "\<exists>n. (p, n) \<in># live (v_heap vm')" if "p \<in># refs vm ?n ?k" for p
    using ref [OF that] keep by blast+
  have cts: "contents vm' (operands vm ?n) = contents vm (operands vm ?n)"
    "contents vm' (variables vm ?k) = contents vm (variables vm ?k)"
    by (rule contents_cong; use ob(1) in \<open>simp add: refs_def\<close>)+
  have "heap_ok (v_heap vm')" using rd tidy_ok by (simp add: ready_def collectable_def)
  then have "layout env room vm' ?n ?k" using lay rd by (simp add: layout_def f)
  moreover have "counted vm' (refs vm ?n ?k) p" if "p \<in># refs vm ?n ?k" for p
  proof -
    have "counted vm (refs vm ?n ?k) p" using rel that by simp
    with ob [OF that] show ?thesis by (simp add: counted_def)
  qed
  ultimately show ?thesis using rel f(3) by (simp add: ops vars' R cts)
qed

lemma finish_step_rel:
  assumes rel: "text_rel env room vm a"
  shows "\<exists>vm'. finish_step env l vm = Some (Inr (l, vm')) \<and> machine_rel env room vm' a \<and>
    heap_rest (v_heap vm') = heap_rest (v_heap vm)"
proof -
  obtain pc vs vars where a: "a = (pc, vs, vars)" by (cases a)
  have lay: "layout env room vm (length vs) (length vars)" and pc: "v_pc vm = pc" using rel by (simp_all add: a)
  have "v_bp vm < v_sp vm" using layout_room(1) [OF lay] by (simp add: word_less_nat_alt)
  moreover have "ready vm" using lay by (simp add: layout_def)
  ultimately obtain vm' where v: "ready vm'" "gc_frame vm vm'" "heap_rest (v_heap vm') = heap_rest (v_heap vm)"
      "\<forall>a n. (a, n) \<in># referenced vm \<longrightarrow> (a, n) \<in># live (v_heap vm') \<and> v_objs vm' a = v_objs vm a \<and>
         (\<forall>i < length (v_stacks vm). v_stacks vm ! i = a \<longrightarrow> v_stacks vm' ! i = a)"
    and fin: "finish_step env l vm = Some (Inr (l, if v_pc vm = 0xFFFF then vm'\<lparr>v_state := VM_STATE_INIT\<rparr> else vm'))"
    using finish_step_ready [of vm env l] by blast
  have rel': "text_rel env room vm' a" using collected_rel [OF _ v(2,1,4)] rel by (simp only: a)
  have st: "v_state vm' = VM_STATE_RUN" using v(1) by (simp add: ready_def)
  then have eq: "vm'\<lparr>v_state := VM_STATE_RUN\<rparr> = vm'" by (cases vm') simp
  define vm2 where "vm2 = (if v_pc vm = 0xFFFF then vm'\<lparr>v_state := VM_STATE_INIT\<rparr> else vm')"
  have "vm2\<lparr>v_state := VM_STATE_RUN\<rparr> = vm'" using eq by (simp add: vm2_def)
  moreover have "v_state vm2 = (if fst a = 0xFFFF then VM_STATE_INIT else VM_STATE_RUN)"
    using st by (simp add: vm2_def a pc)
  ultimately have "machine_rel env room vm2 a" using rel' by (simp only: machine_rel_def)
  moreover have "heap_rest (v_heap vm2) = heap_rest (v_heap vm)" using v(3) by (simp add: vm2_def)
  ultimately show ?thesis using fin by (auto simp: vm2_def)
qed

text \<open>A state from which a step is possible is a state of a running machine.\<close>

lemma machine_rel_running:
  assumes "text_step code room maxlen a b" "machine_rel env room vm a"
  shows "v_state vm = VM_STATE_RUN" "text_rel env room vm a" "unat (v_pc vm) + 4 \<le> MAX_BUFFER_SIZE"
proof -
  have pc: "unat (fst a) + 4 \<le> MAX_BUFFER_SIZE" using assms(1) by cases (auto simp: op_at_def)
  then have "fst a \<noteq> 0xFFFF" by (auto simp: MAX_BUFFER_SIZE_def)
  then show st: "v_state vm = VM_STATE_RUN" using assms(2) by (simp add: machine_rel_def)
  then have "vm\<lparr>v_state := VM_STATE_RUN\<rparr> = vm" by (cases vm) simp
  then show rel: "text_rel env room vm a" using assms(2) by (simp add: machine_rel_def)
  show "unat (v_pc vm) + 4 \<le> MAX_BUFFER_SIZE" using pc rel by (cases a) simp
qed

interpretation tm: simulation "text_step (e_code env) room maxlen" "\<lambda>(l, vm). vm_step env l vm" "\<lambda>(l, vm). machine_rel env room vm"
  Null_Deref "\<lambda>(l, vm). heap_rest (v_heap vm)" "2 * maxlen + 128" for env room maxlen
proof
  fix a a' :: text_state and c :: "locals \<times> vm_instance"
  assume st: "text_step (e_code env) room maxlen a a'" and "(case c of (l, vm) \<Rightarrow> machine_rel env room vm) a"
  moreover obtain l vm where c: "c = (l, vm)" by (cases c)
  ultimately have rel: "machine_rel env room vm a" by simp
  obtain pc vs vars where a: "a = (pc, vs, vars)" by (cases a)
  note run = machine_rel_running [OF st rel]
  have "leads_to env room (2 * maxlen + 128) (fetch_execute env l) vm a'"
  proof (rule fetch_execute_leads [OF run(3)])
    have "v_pc vm = pc" using run(2) by (simp add: a)
    with st run(2) show "leads_to env room (2 * maxlen + 128)
        (vm_execute env (read_bytes (e_code env) (unat (v_pc vm)) 4) l) (vm\<lparr>v_rexec := False\<rparr>) a'"
      by (auto simp: a simp del: text_rel.simps intro!: execute_step)
  qed
  then show "(case c of (l, vm) \<Rightarrow> vm_step env l vm) = Some (Inl Null_Deref) \<and>
        (case c of (l, vm) \<Rightarrow> heap_rest (v_heap vm)) \<le> 2 * maxlen + 128 \<or>
      (\<exists>c'. (case c of (l, vm) \<Rightarrow> vm_step env l vm) = Some (Inr c') \<and> (case c' of (l, vm) \<Rightarrow> machine_rel env room vm) a' \<and>
        (case c of (l, vm) \<Rightarrow> heap_rest (v_heap vm)) \<le> (case c' of (l, vm) \<Rightarrow> heap_rest (v_heap vm)) + (2 * maxlen + 128))"
    unfolding leads_to_def
  proof (elim disjE exE conjE)
    fix l' vm1
    assume ex: "fetch_execute env l vm = Some (Inr (l', vm1))" "heap_rest (v_heap vm) \<le> heap_rest (v_heap vm1) + (2 * maxlen + 128)"
      and "text_rel env room vm1 a'"
    from finish_step_rel [OF this(3), of l'] obtain vm' where "finish_step env l' vm1 = Some (Inr (l', vm'))"
      "machine_rel env room vm' a'" "heap_rest (v_heap vm') = heap_rest (v_heap vm1)" by blast
    with ex show ?thesis by (auto simp: c vm_step_def bind_results)
  qed (simp add: c vm_step_def bind_results)
qed

text \<open>The rounds of the simulation are the rounds of the interpreter loop, which goes on while the machine runs.\<close>

lemma rounds_run:
  assumes "(text_step (e_code env) room maxlen ^^ n) a a'" "machine_rel env room vm a"
    and "rounds (\<lambda>(l, vm). vm_step env l vm) n (l, vm) = Some (Inr (l', vm'))"
  shows "vm_run env l vm = vm_run env l' vm'"
  using assms
proof (induction n arbitrary: a l vm)
  case (Suc n)
  from Suc.prems(1) obtain b where b: "text_step (e_code env) room maxlen a b" "(text_step (e_code env) room maxlen ^^ n) b a'"
    by (meson relpowp_Suc_D2)
  obtain l1 vm1 where v1: "vm_step env l vm = Some (Inr (l1, vm1))"
    and rest: "rounds (\<lambda>(l, vm). vm_step env l vm) n (l1, vm1) = Some (Inr (l', vm'))"
    using Suc.prems(3) by (auto split: option.splits sum.splits)
  have "machine_rel env room vm1 b" using tm.sim [OF b(1), of "(l, vm)"] Suc.prems(2) v1 by auto
  from Suc.IH [OF b(2) this rest] v1 machine_rel_running(1) [OF b(1) Suc.prems(2)]
  show ?case by (simp add: vm_run.simps [of env l vm])
qed simp

section \<open>Properties\<close>


text \<open>Code that adds two constants and jumps to the end of the program.\<close>

definition sum_code :: buf where
  "sum_code i = (if i < 15 then [INS_OBJCONST, 0, 10, INS_OBJCONST, 0, 10, INS_ADD, INS_JMP, 0xFF, 0xF8, 2, 52, 48, 1, 50] ! i
     else 0)"

lemma sum_code_steps: "(text_step sum_code 1999 2 ^^ 4) (0, [], []) (0xFFFF, [[52, 50]], [])"
proof -
  have code: "sum_code 0 = INS_OBJCONST" "sum_code 3 = INS_OBJCONST" "sum_code 6 = INS_ADD" "sum_code 7 = INS_JMP"
    by (simp_all add: sum_code_def)
  have opd: "operand_at sum_code 0 = 10" "operand_at sum_code 3 = 10" "operand_at sum_code 7 = 0xFFF8"
    by (simp_all add: operand_at_def get_operand_def load16_def end_swap16_shifts sum_code_def)
  have cl: "constant_length sum_code 10 = Some (2, 1)" "constant_length sum_code 13 = Some (1, 1)"
    by (simp_all add: constant_length_def sum_code_def)
  have cv: "constant_value sum_code 10 = Some [52, 48]" "constant_value sum_code 13 = Some [50]"
    "constant_before sum_code 10 (MAX_BUFFER_SIZE - 3)" "constant_before sum_code 13 (MAX_BUFFER_SIZE - 3)"
    by (simp_all add: constant_value_def constant_before_def cl read_bytes_def MAX_BUFFER_SIZE_def numeral_2_eq_2)
      (simp_all add: sum_code_def)
  have sh: "show_int 40 = [52, 48]" "show_int 2 = [50]" "show_int 42 = [52, 50]"
    by (simp_all add: show_int_def show_nat.simps)
  have qu: "quiet (sz_object + length [52, 48 :: u8])" "quiet (sz_object + length [50 :: u8])"
    by (rule quiet_small; simp add: sz_object_def)+
  have 1: "text_step sum_code 1999 2 (0, [], []) (3, [[52, 48]], [])"
    using text_step.const [of sum_code 0 10 "[52, 48]" 2 "[]" 1999 "[]"] code opd cv qu(1)
    by (simp add: op_at_def MAX_BUFFER_SIZE_def VA_OBJECT_MAX_SIZE_def)
  have 2: "text_step sum_code 1999 2 (3, [[52, 48]], []) (6, [[50], [52, 48]], [])"
    using text_step.const [of sum_code 3 13 "[50]" 2 "[[52, 48]]" 1999 "[]"] code opd cv qu(2)
    by (simp add: op_at_def MAX_BUFFER_SIZE_def VA_OBJECT_MAX_SIZE_def)
  have 3: "text_step sum_code 1999 2 (6, [[50], [52, 48]], []) (7, [[52, 50]], [])"
    using text_step.binary [of sum_code 6 INS_ADD 40 2 42 1999 2 "[]" "[]"] code sh
    by (simp add: op_at_def MAX_BUFFER_SIZE_def operators_def int32_def int_fun_def)
  have 4: "text_step sum_code 1999 2 (7, [[52, 50]], []) (0xFFFF, [[52, 50]], [])"
    using text_step.jmp [of sum_code 7 1999 2 "[[52, 50]]" "[]"] code opd
    by (simp add: op_at_def MAX_BUFFER_SIZE_def)
  have "(text_step sum_code 1999 2 ^^ Suc (Suc (Suc (Suc 0)))) (0, [], []) (0xFFFF, [[52, 50]], [])"
    by (rule relpowp_Suc_I, rule relpowp_Suc_I, rule relpowp_Suc_I, rule relpowp_Suc_I, rule relpowp_0_I) (rule 1 2 3 4)+
  then show ?thesis by (simp add: eval_nat_numeral)
qed


end
