(* ===== verification/VM_Stream.thy ===== *)
theory VM_Stream
  imports Prelude
begin

text \<open>
  The output stream of the virtual machine, \<^verbatim>\<open>StackVM/vm_stream.c\<close>: a file is a linked
  list of pages of 4096 bytes, a current page and a running offset. The linked list from
  \<^verbatim>\<open>first\<close> is a list of pages and \<^verbatim>\<open>current\<close> an index into it (\<^term>\<open>None\<close>
  for NULL). \<open>junk\<close> is what \<^verbatim>\<open>malloc\<close> left in a new page; allocation of pages is
  assumed to succeed, as the code assumes. A buffer argument is the memory from the pointer on.
\<close>

section \<open>State\<close>

record stream_page =
  pg_size :: nat
  pg_page_size :: nat
  pg_bytes :: "u8 list"

record stream_file =
  st_type :: nat
  st_pages :: "stream_page list"
  st_current :: "nat option"
  st_offset :: u64

definition MAX_PAGE_SIZE :: nat where "MAX_PAGE_SIZE = 4096"
definition STREAM_TYPE_CONSOLE :: nat where "STREAM_TYPE_CONSOLE = 1"
definition STREAM_TYPE_MEMORY :: nat where "STREAM_TYPE_MEMORY = 2"

section \<open>Operations\<close>

text \<open>
  \<^verbatim>\<open>vm_stream_create\<close>: a new page, linked behind the last page reachable from
  \<open>stream\<close>. The model appends it to the list that holds \<open>stream\<close>; the new page is its last.
\<close>

definition new_page :: "u8 list \<Rightarrow> stream_page" where
  "new_page junk = \<lparr>pg_size = 0, pg_page_size = MAX_PAGE_SIZE, pg_bytes = junk\<rparr>"

definition vm_stream_create :: "u8 list \<Rightarrow> stream_page list \<Rightarrow> stream_page list" where
  "vm_stream_create junk pages = pages @ [new_page junk]"

definition vm_stream_open :: "u8 list \<Rightarrow> nat \<Rightarrow> stream_file" where
  "vm_stream_open junk type =
     \<lparr>st_type = type, st_pages = vm_stream_create junk [], st_current = Some 0, st_offset = 0\<rparr>"

text \<open>\<^verbatim>\<open>memcpy\<close> behind the bytes a page already holds, and the new fill level.\<close>

definition page_append :: "u8 list \<Rightarrow> stream_page \<Rightarrow> stream_page" where
  "page_append buf pg =
     pg\<lparr>pg_bytes := take (pg_size pg) (pg_bytes pg) @ buf @ drop (pg_size pg + length buf) (pg_bytes pg),
        pg_size := pg_size pg + length buf\<rparr>"

text \<open>The loop that writes a buffer too large for the current page, one new page per round.\<close>

function stream_write_chunks :: "u8 list \<Rightarrow> u8 list \<Rightarrow> stream_file \<Rightarrow> stream_file" where
  "stream_write_chunks junk buf f =
     (if buf = [] then f
      else
        let wlen = (if length buf > MAX_PAGE_SIZE then MAX_PAGE_SIZE else length buf);
            pages = vm_stream_create junk (st_pages f);
            cur = length pages - 1;
            f' = f\<lparr>st_pages := pages[cur := page_append (take wlen buf) (pages ! cur)],
                   st_offset := st_offset f + of_nat wlen,
                   st_current := Some cur\<rparr>
        in stream_write_chunks junk (drop wlen buf) f')"
  by pat_completeness auto
termination
  by (relation "measure (\<lambda>(junk, buf, f). length buf)") (auto simp: MAX_PAGE_SIZE_def)

declare stream_write_chunks.simps [simp del]

text \<open>
  \<^verbatim>\<open>vm_stream_write\<close>: the new file and what was printed. A console stream prints the buffer
  as a string; the memory case copies \<open>size\<close> bytes.
\<close>

definition vm_stream_write ::
  "u8 list \<Rightarrow> stream_file option \<Rightarrow> u8 list \<Rightarrow> nat \<Rightarrow> (stream_file option \<times> u8 list) result" where
  "vm_stream_write junk file buffer sz =
     (case file of None \<Rightarrow> Inr (None, [])
      | Some f \<Rightarrow>
        (case st_current f of None \<Rightarrow> Inr (Some f, [])
         | Some cur \<Rightarrow>
           if st_type f = STREAM_TYPE_CONSOLE then
             if 0 \<in> set buffer then Inr (Some f, takeWhile (\<lambda>b. b \<noteq> 0) buffer @ [10])
             else Inl Out_Of_Bounds
           else if st_type f = STREAM_TYPE_MEMORY then
             if length buffer < sz then Inl Out_Of_Bounds
             else
               let pg = st_pages f ! cur in
               if pg_page_size pg - pg_size pg > sz then
                 Inr (Some (f\<lparr>st_pages := (st_pages f)[cur := page_append (take sz buffer) pg],
                              st_offset := st_offset f + of_nat sz\<rparr>), [])
               else Inr (Some (stream_write_chunks junk (take sz buffer) f), [])
           else Inr (Some f, [])))"

definition vm_stream_get_count :: "stream_file \<Rightarrow> u64" where
  "vm_stream_get_count f = st_offset f"

text \<open>\<^verbatim>\<open>vm_stream_get_bytes\<close>: the bytes copied to the destination and the returned length.\<close>

fun get_bytes_loop :: "stream_page list \<Rightarrow> u8 list \<Rightarrow> u8 list" where
  "get_bytes_loop [] acc = acc"
| "get_bytes_loop (pg # pgs) acc = get_bytes_loop pgs (acc @ take (pg_size pg) (pg_bytes pg))"

definition vm_stream_get_bytes :: "stream_file \<Rightarrow> u8 list \<times> nat" where
  "vm_stream_get_bytes f = (let bs = get_bytes_loop (st_pages f) [] in (bs, length bs))"

section \<open>Invariant\<close>

definition page_ok :: "stream_page \<Rightarrow> bool" where
  "page_ok pg \<longleftrightarrow> pg_size pg \<le> MAX_PAGE_SIZE \<and> pg_page_size pg = MAX_PAGE_SIZE \<and>
     length (pg_bytes pg) = MAX_PAGE_SIZE"

definition stream_ok :: "stream_file \<Rightarrow> bool" where
  "stream_ok f \<longleftrightarrow> st_type f = STREAM_TYPE_MEMORY \<and> st_pages f \<noteq> [] \<and>
     st_current f = Some (length (st_pages f) - 1) \<and> (\<forall>pg \<in> set (st_pages f). page_ok pg) \<and>
     st_offset f = of_nat (length (get_bytes_loop (st_pages f) []))"

definition page_data :: "stream_page \<Rightarrow> u8 list" where
  "page_data pg = take (pg_size pg) (pg_bytes pg)"

lemma get_bytes_loop_concat: "get_bytes_loop pgs acc = acc @ concat (map page_data pgs)"
  by (induction pgs arbitrary: acc) (simp_all add: page_data_def)

lemma page_append_ok:
  "page_ok pg \<Longrightarrow> pg_size pg + length buf \<le> MAX_PAGE_SIZE \<Longrightarrow>
     page_ok (page_append buf pg) \<and> page_data (page_append buf pg) = page_data pg @ buf"
  by (cases buf) (auto simp: page_ok_def page_append_def page_data_def min_def)

lemma new_page_ok: "length junk = MAX_PAGE_SIZE \<Longrightarrow> page_ok (new_page junk) \<and> page_data (new_page junk) = []"
  by (simp add: page_ok_def new_page_def page_data_def)

lemma set_last_page: "xs \<noteq> [] \<Longrightarrow> xs[length xs - Suc 0 := y] = butlast xs @ [y]"
  by (cases xs rule: rev_cases) auto

lemma stream_open_ok: "length junk = MAX_PAGE_SIZE \<Longrightarrow> stream_ok (vm_stream_open junk STREAM_TYPE_MEMORY)"
  by (simp add: stream_ok_def vm_stream_open_def vm_stream_create_def new_page_ok get_bytes_loop_concat)

lemma stream_write_chunks_ok:
  assumes "stream_ok f" "length junk = MAX_PAGE_SIZE"
  shows "stream_ok (stream_write_chunks junk buf f) \<and>
    get_bytes_loop (st_pages (stream_write_chunks junk buf f)) [] = get_bytes_loop (st_pages f) [] @ buf"
  using assms
proof (induction junk buf f rule: stream_write_chunks.induct)
  case (1 junk buf f)
  show ?case
  proof (cases "buf = []")
    case True
    with 1 show ?thesis by (simp add: stream_write_chunks.simps [of junk "[]" f])
  next
    case False
    define wlen where "wlen = (if length buf > MAX_PAGE_SIZE then MAX_PAGE_SIZE else length buf)"
    define np where "np = page_append (take wlen buf) (new_page junk)"
    define f' where "f' = f\<lparr>st_pages := st_pages f @ [np], st_offset := st_offset f + of_nat wlen,
                            st_current := Some (length (st_pages f))\<rparr>"
    have eq: "stream_write_chunks junk buf f = stream_write_chunks junk (drop wlen buf) f'"
      using False by (simp add: stream_write_chunks.simps [of junk buf f] wlen_def f'_def np_def
          vm_stream_create_def Let_def set_last_page)
    have wl: "length (take wlen buf) = wlen" "wlen \<le> MAX_PAGE_SIZE"
      by (auto simp: wlen_def MAX_PAGE_SIZE_def)
    have np: "page_ok np" "page_data np = take wlen buf"
      using page_append_ok [of "new_page junk" "take wlen buf"] new_page_ok [OF 1(3)] wl
      by (auto simp: np_def new_page_def)
    have "stream_ok f'"
      using 1(2) np wl by (auto simp: stream_ok_def f'_def get_bytes_loop_concat)
    then have "stream_ok (stream_write_chunks junk (drop wlen buf) f') \<and>
        get_bytes_loop (st_pages (stream_write_chunks junk (drop wlen buf) f')) [] =
          get_bytes_loop (st_pages f') [] @ drop wlen buf"
      using 1(1) [OF False refl refl refl, folded wlen_def] 1(3)
      by (simp add: vm_stream_create_def set_last_page f'_def np_def wlen_def)
    then show ?thesis by (simp add: eq f'_def get_bytes_loop_concat np)
  qed
qed


text \<open>One write of \<open>sz\<close> bytes, as a function on files.\<close>

definition stream_put :: "u8 list \<Rightarrow> u8 list \<Rightarrow> stream_file \<Rightarrow> stream_file" where
  "stream_put junk buf f =
     (case vm_stream_write junk (Some f) buf (length buf) of Inr (Some f', _) \<Rightarrow> f' | _ \<Rightarrow> f)"

lemma vm_stream_write_memory:
  assumes ok: "stream_ok f" and junk: "length junk = MAX_PAGE_SIZE" and sz: "sz \<le> length buf"
  shows "\<exists>f'. vm_stream_write junk (Some f) buf sz = Inr (Some f', []) \<and> stream_ok f' \<and>
    fst (vm_stream_get_bytes f') = fst (vm_stream_get_bytes f) @ take sz buf"
proof -
  define cur where "cur = length (st_pages f) - 1"
  define pg where "pg = st_pages f ! cur"
  from ok have ne: "st_pages f \<noteq> []" and c: "st_current f = Some cur"
    and ty: "st_type f = STREAM_TYPE_MEMORY" and pgs: "\<forall>q\<in>set (st_pages f). page_ok q"
    by (auto simp: stream_ok_def cur_def)
  have split: "st_pages f = butlast (st_pages f) @ [pg]"
    using ne unfolding pg_def cur_def by (metis append_butlast_last_id last_conv_nth)
  show ?thesis
  proof (cases "pg_page_size pg - pg_size pg > sz")
    case True
    define f' where "f' = f\<lparr>st_pages := (st_pages f)[cur := page_append (take sz buf) pg],
                              st_offset := st_offset f + of_nat sz\<rparr>"
    have pk: "page_ok pg" using pgs split by (metis in_set_conv_decomp)
    then have pa: "page_ok (page_append (take sz buf) pg)"
      "page_data (page_append (take sz buf) pg) = page_data pg @ take sz buf"
      using page_append_ok [of pg "take sz buf"] True sz by (auto simp: page_ok_def)
    have new: "st_pages f' = butlast (st_pages f) @ [page_append (take sz buf) pg]"
      using ne by (simp add: f'_def cur_def set_last_page)
    have old: "concat (map page_data (st_pages f)) = concat (map page_data (butlast (st_pages f))) @ page_data pg"
      by (subst split) simp
    have "stream_ok f'"
      using ok pa old sz unfolding stream_ok_def get_bytes_loop_concat new
      by (auto simp: f'_def dest: in_set_butlastD)
    moreover have "fst (vm_stream_get_bytes f') = fst (vm_stream_get_bytes f) @ take sz buf"
      using old by (simp add: vm_stream_get_bytes_def Let_def get_bytes_loop_concat new pa)
    moreover have "vm_stream_write junk (Some f) buf sz = Inr (Some f', [])"
      using True c ty sz
      by (simp add: vm_stream_write_def f'_def pg_def STREAM_TYPE_MEMORY_def STREAM_TYPE_CONSOLE_def Let_def)
    ultimately show ?thesis by blast
  next
    case False
    with c ty sz have "vm_stream_write junk (Some f) buf sz =
        Inr (Some (stream_write_chunks junk (take sz buf) f), [])"
      by (simp add: vm_stream_write_def pg_def STREAM_TYPE_MEMORY_def STREAM_TYPE_CONSOLE_def Let_def)
    with stream_write_chunks_ok [OF ok junk, of "take sz buf"] show ?thesis
      by (simp add: vm_stream_get_bytes_def Let_def)
  qed
qed

section \<open>A stream as a byte sink\<close>

text \<open>The contract of an output stream: writing appends, whatever was written before.\<close>

locale byte_sink =
  fixes put :: "'b list \<Rightarrow> 's \<Rightarrow> 's" and contents :: "'s \<Rightarrow> 'b list" and inv :: "'s \<Rightarrow> bool"
  assumes put_inv: "inv s \<Longrightarrow> inv (put b s)"
    and put_contents: "inv s \<Longrightarrow> contents (put b s) = contents s @ b"
begin

lemma put_all: "inv s \<Longrightarrow> inv (fold put bs s) \<and> contents (fold put bs s) = contents s @ concat bs"
  by (induction bs arbitrary: s) (auto simp: put_inv put_contents)

end

lemma stream_put_ok:
  assumes "stream_ok f" "length junk = MAX_PAGE_SIZE"
  shows "stream_ok (stream_put junk b f) \<and>
    fst (vm_stream_get_bytes (stream_put junk b f)) = fst (vm_stream_get_bytes f) @ b"
  using vm_stream_write_memory [OF assms, of "length b" b] by (auto simp: stream_put_def)

interpretation ms: byte_sink "stream_put (replicate MAX_PAGE_SIZE 0)"
  "\<lambda>f. fst (vm_stream_get_bytes f)" stream_ok
  by unfold_locales (simp_all add: stream_put_ok)

section \<open>Properties\<close>

text \<open>C17: Writing \<open>sz\<close> bytes to a well-formed memory stream always succeeds, whether they fit into
  the current page or spread over new pages: the stream stays well formed (every page within its
  4096 bytes, the offset equal to the number of bytes held) and reading it back gives the old
  contents followed by the new bytes.\<close>

theorem vm_stream_write_appends:
  assumes "stream_ok f" and "length junk = MAX_PAGE_SIZE" and "sz \<le> length buf"
  shows "\<exists>f'. vm_stream_write junk (Some f) buf sz = Inr (Some f', []) \<and> stream_ok f' \<and>
    vm_stream_get_bytes f' = (fst (vm_stream_get_bytes f) @ take sz buf, snd (vm_stream_get_bytes f) + sz) \<and>
    vm_stream_get_count f' = of_nat (snd (vm_stream_get_bytes f'))"
proof -
  obtain f' where "vm_stream_write junk (Some f) buf sz = Inr (Some f', [])" "stream_ok f'"
    "fst (vm_stream_get_bytes f') = fst (vm_stream_get_bytes f) @ take sz buf"
    using vm_stream_write_memory [OF assms] by blast
  then show ?thesis
    using assms(3) by (auto simp: vm_stream_get_bytes_def Let_def vm_stream_get_count_def stream_ok_def)
qed

theorem vm_stream_write_appends_witness:
  "\<exists>f'. vm_stream_write (replicate 4096 0) (Some (vm_stream_open (replicate 4096 0) STREAM_TYPE_MEMORY)) [1, 2, 3, 9] 3
      = Inr (Some f', []) \<and> stream_ok f' \<and> vm_stream_get_bytes f' = ([1, 2, 3], 3)"
  using vm_stream_write_appends [of "vm_stream_open (replicate 4096 0) STREAM_TYPE_MEMORY" "replicate 4096 0" 3 "[1, 2, 3, 9]"]
    stream_open_ok [of "replicate 4096 0"]
  by (auto simp: MAX_PAGE_SIZE_def vm_stream_get_bytes_def vm_stream_open_def vm_stream_create_def new_page_def Let_def)

text \<open>Any sequence of writes to a freshly opened memory stream reads back as the concatenation
  of the written buffers, in order.\<close>

theorem vm_stream_roundtrip:
  "fst (vm_stream_get_bytes (fold (stream_put (replicate MAX_PAGE_SIZE 0)) bufs
     (vm_stream_open (replicate MAX_PAGE_SIZE 0) STREAM_TYPE_MEMORY))) = concat bufs"
proof -
  have "stream_ok (vm_stream_open (replicate MAX_PAGE_SIZE 0) STREAM_TYPE_MEMORY)"
    by (simp add: stream_open_ok)
  then show ?thesis
    using ms.put_all [of "vm_stream_open (replicate MAX_PAGE_SIZE 0) STREAM_TYPE_MEMORY" bufs]
    by (simp add: vm_stream_get_bytes_def vm_stream_open_def vm_stream_create_def new_page_def Let_def)
qed

end
