(* ===== verification/IL1_Optimizer.thy ===== *)
theory IL1_Optimizer
  imports IL_Streamer
begin

text \<open>
  The first optimiser of the compiler, \<^verbatim>\<open>Stack/il1_optimizer.c\<close>: jump threading, removal of labels
  and of jumps to the next instruction, the load/store peephole and the relocation of jump tables. The
  four loops of \<^verbatim>\<open>is_l1_optimize\<close> are four step functions under one loop combinator. A loop that
  never ends has the value \<open>None\<close>; a crash is an error value. The loop conditions \<^verbatim>\<open>pc != size - rdc\<close> are
  written \<open>pc + rdc \<noteq> size\<close>, which is the same in wrap-around arithmetic. \<^verbatim>\<open>memcpy\<close> is called on
  overlapping regions; the model gives it the meaning of a forward copy. A length that wraps around is an
  access outside the buffer.
\<close>

section \<open>Loops that need not end\<close>

partial_function (option) pass_loop :: "('s \<Rightarrow> bool) \<Rightarrow> ('s \<Rightarrow> 's result option) \<Rightarrow> 's \<Rightarrow> 's result option" where
  "pass_loop fin step s =
     (if fin s then Some (Inr s)
      else Option.bind (step s) (\<lambda>r. case r of Inl e \<Rightarrow> Some (Inl e) | Inr s' \<Rightarrow> pass_loop fin step s'))"

lemma pass_loop_done: "fin s \<Longrightarrow> pass_loop fin step s = Some (Inr s)"
  by (subst pass_loop.simps) simp

lemma pass_loop_step: "\<not> fin s \<Longrightarrow> step s = Some (Inr s') \<Longrightarrow> pass_loop fin step s = pass_loop fin step s'"
  by (subst pass_loop.simps) simp

lemma pass_loop_error: "\<not> fin s \<Longrightarrow> step s = Some (Inl e) \<Longrightarrow> pass_loop fin step s = Some (Inl e)"
  by (subst pass_loop.simps) simp

lemma pass_loop_stuck: "\<not> fin s \<Longrightarrow> step s = None \<Longrightarrow> pass_loop fin step s = None"
  by (subst pass_loop.simps) simp

text \<open>A step that does not change the state is repeated forever.\<close>

lemma pass_loop_diverges:
  assumes "\<not> fin s" "step s = Some (Inr s)"
  shows "pass_loop fin step s = None"
proof (rule ccontr)
  assume "pass_loop fin step s \<noteq> None"
  then obtain r where r: "pass_loop fin step s = Some r" by auto
  have "step s \<noteq> Some (Inr s) \<or> fin s"
  proof (rule pass_loop.raw_induct [where P = "\<lambda>fin step s r. step s \<noteq> Some (Inr s) \<or> fin s", OF _ r])
    fix loop :: "('a \<Rightarrow> bool) \<Rightarrow> ('a \<Rightarrow> 'a result option) \<Rightarrow> 'a \<Rightarrow> 'a result option" and fin step s r
    assume ih: "\<And>fin step s r. loop fin step s = Some r \<Longrightarrow> step s \<noteq> Some (Inr s) \<or> fin s"
      and b: "(if fin s then Some (Inr s) else Option.bind (step s) (case_sum (\<lambda>e. Some (Inl e)) (loop fin step))) = Some r"
    show "step s \<noteq> Some (Inr s) \<or> fin s"
      using ih [of fin step s r] b by (cases "step s"; cases "fin s") auto
  qed
  with assms show False by simp
qed

section \<open>State\<close>

record optrec =
  op_ins :: u8
  op_index :: u16
  op_offset :: u16
  op_opt_offset :: u16

record coderec =
  cd_offset :: u16
  cd_rdc :: u16

record optst =
  os_il :: ilstate
  os_opt :: "optrec list"
  os_cdr :: "coderec list"
  os_pc :: nat
  os_rdc :: nat
  os_size :: nat

abbreviation os_code :: "optst \<Rightarrow> buf" where "os_code s \<equiv> il_code (os_il s)"
abbreviation os_data :: "optst \<Rightarrow> buf" where "os_data s \<equiv> il_data (os_il s)"

definition set_code :: "buf \<Rightarrow> optst \<Rightarrow> optst" where
  "set_code b s = s\<lparr>os_il := (os_il s)\<lparr>il_code := b\<rparr>\<rparr>"

definition set_data :: "buf \<Rightarrow> optst \<Rightarrow> optst" where
  "set_data b s = s\<lparr>os_il := (os_il s)\<lparr>il_data := b\<rparr>\<rparr>"

definition add_pc :: "nat \<Rightarrow> optst \<Rightarrow> optst" where
  "add_pc n s = s\<lparr>os_pc := os_pc s + n\<rparr>"

section \<open>Records\<close>

definition is_l1_push_jump :: "nat \<Rightarrow> nat \<Rightarrow> u8 \<Rightarrow> u16 \<Rightarrow> optst \<Rightarrow> optst" where
  "is_l1_push_jump off opt_off ins index s =
     s\<lparr>os_opt := os_opt s @ [\<lparr>op_ins = ins, op_index = index, op_offset = of_nat off, op_opt_offset = of_nat opt_off\<rparr>]\<rparr>"

text \<open>
  \<^verbatim>\<open>is_l1_backpatch\<close> writes the instruction and its new target for every record of the target, and
  then returns the field \<^verbatim>\<open>offset\<close> of the iterator, which the loop has left at the end of the list.
\<close>

fun backpatch_loop :: "u16 \<Rightarrow> u16 \<Rightarrow> optrec list \<Rightarrow> buf \<Rightarrow> buf \<times> optrec list" where
  "backpatch_loop off opt_off [] b = (b, [])"
| "backpatch_loop off opt_off (r # rs) b =
     backpatch_loop off opt_off rs
       (if op_index r = off
        then put_operand (Suc (unat (op_opt_offset r))) opt_off (b(unat (op_opt_offset r) := op_ins r)) else b)"

definition is_l1_backpatch :: "nat \<Rightarrow> nat \<Rightarrow> optst \<Rightarrow> (optst \<times> u16) result" where
  "is_l1_backpatch off opt_off s =
     (if os_opt s = [] then Inr (s, 0)
      else let (b, iterator) = backpatch_loop (of_nat off) (of_nat opt_off) (os_opt s) (os_code s) in
        case iterator of [] \<Rightarrow> Inl Null_Deref | r # _ \<Rightarrow> Inr (set_code b s, op_offset r))"

definition is_l1_push_coderec :: "nat \<Rightarrow> nat \<Rightarrow> optst \<Rightarrow> optst" where
  "is_l1_push_coderec off rdc s = s\<lparr>os_cdr := os_cdr s @ [\<lparr>cd_offset = of_nat off, cd_rdc = of_nat rdc\<rparr>]\<rparr>"

fun translate_loop :: "u16 \<Rightarrow> u16 \<Rightarrow> u16 \<Rightarrow> coderec list \<Rightarrow> u16" where
  "translate_loop off l rdc [] = l"
| "translate_loop off l rdc [r] =
     (if cd_offset r \<le> off then (cd_offset r - (rdc + cd_rdc r)) + (off - cd_offset r) else l)"
| "translate_loop off l rdc (r # n # rs) =
     (if cd_offset r \<le> off \<and> cd_offset n > off
      then (cd_offset r - (rdc + cd_rdc r)) + (off - cd_offset r)
      else translate_loop off l (rdc + cd_rdc r) (n # rs))"

definition is_l1_translate :: "u16 \<Rightarrow> coderec list \<Rightarrow> u16" where
  "is_l1_translate off cdr = translate_loop off off 0 cdr"

function l1_jumptable_loop :: "coderec list \<Rightarrow> nat \<Rightarrow> nat \<Rightarrow> nat \<Rightarrow> buf \<Rightarrow> buf result" where
  "l1_jumptable_loop cdr jt cp_size i d =
     (if i < cp_size then
        if jt + i + 3 < MAX_BUFFER_SIZE then
          l1_jumptable_loop cdr jt cp_size (i + 4)
            (put_operand (jt + i + 2) (is_l1_translate (get_operand d (jt + i + 2)) cdr) d)
        else Inl Out_Of_Bounds
      else Inr d)"
  by pat_completeness auto
termination by (relation "measure (\<lambda>(cdr, jt, cp_size, i, d). cp_size - i)") auto

declare l1_jumptable_loop.simps [simp del]

definition is_l1_jumptable_reloc :: "nat \<Rightarrow> optst \<Rightarrow> optst result" where
  "is_l1_jumptable_reloc jt_offset s =
     (let d = os_data s; cp_size = unat (d jt_offset); jt = Suc jt_offset in
      if jt + 1 < MAX_BUFFER_SIZE
      then bind_r (l1_jumptable_loop (os_cdr s) jt cp_size 2
                    (put_operand jt (is_l1_translate (get_operand d jt) (os_cdr s)) d)) (\<lambda>d'. Inr (set_data d' s))
      else Inl Out_Of_Bounds)"

definition is_l1_clear_coderec :: "optst \<Rightarrow> optst" where "is_l1_clear_coderec s = s\<lparr>os_cdr := []\<rparr>"
definition is_l1_clear_optrec :: "optst \<Rightarrow> optst" where "is_l1_clear_optrec s = s\<lparr>os_opt := []\<rparr>"

text \<open>Assignments through the label pointer, which is the last record with the offset.\<close>

fun upd_lblrec :: "nat \<Rightarrow> (lblrec \<Rightarrow> lblrec) \<Rightarrow> lblrec list \<Rightarrow> lblrec list" where
  "upd_lblrec off f [] = []"
| "upd_lblrec off f (r # rs) =
     (if lb_offset r = off \<and> (\<forall>q \<in> set rs. lb_offset q \<noteq> off) then f r # rs else r # upd_lblrec off f rs)"

definition upd_label :: "nat \<Rightarrow> (lblrec \<Rightarrow> lblrec) \<Rightarrow> optst \<Rightarrow> optst" where
  "upd_label off f s =
     s\<lparr>os_il := (os_il s)\<lparr>il_lblhead := upd_lblrec (off mod 2 ^ 16) f (il_lblhead (os_il s))\<rparr>\<rparr>"

definition ref_label :: "nat \<Rightarrow> optst \<Rightarrow> optst" where
  "ref_label off s = upd_label off (\<lambda>r. r\<lparr>lb_refcount := lb_refcount r + 1\<rparr>) s"

definition move_label :: "nat \<Rightarrow> nat \<Rightarrow> optst \<Rightarrow> optst" where
  "move_label off pc s = upd_label off (\<lambda>r. r\<lparr>lb_offset := pc\<rparr>) s"

section \<open>Passes\<close>

text \<open>The instructions the passes know: not \<^verbatim>\<open>NOP\<close> and of the F2O group only the first.\<close>

definition l1_class :: "u8 \<Rightarrow> ins_class" where
  "l1_class op = (if op = INS_NOP \<or> (is_F2O op \<and> op \<noteq> INS_F2O) then C_Other else ins_class op)"

text \<open>The chain of unconditional jumps from \<open>index\<close>, which may be a cycle.\<close>

partial_function (option) next_jump :: "buf \<Rightarrow> u16 \<Rightarrow> u16 result option" where
  "next_jump b index =
     (if unat index + 2 < MAX_BUFFER_SIZE then
        if b (unat (get_operand b (Suc (unat index)))) = INS_JMP then next_jump b (get_operand b (Suc (unat index)))
        else Some (Inr (get_operand b (Suc (unat index))))
      else Some (Inl Out_Of_Bounds))"

definition l1_pass1_step :: "optst \<Rightarrow> optst result option" where
  "l1_pass1_step s =
     (let pc = os_pc s; opcode = os_code s pc; operand = os_code s (Suc pc) in
      if Suc pc \<ge> MAX_BUFFER_SIZE then Some (Inl Out_Of_Bounds) else
      case l1_class opcode of
        C_Lbl \<Rightarrow> Some (Inr (add_pc (unat operand + 2) s))
      | C_Plain \<Rightarrow> Some (Inr (add_pc 1 s))
      | C_Sys \<Rightarrow> Some (Inr (add_pc (if operand < 254 then 2 else 4) s))
      | C_Var \<Rightarrow> Some (Inr (add_pc 2 s))
      | C_Store \<Rightarrow> Some (Inr (add_pc 2 s))
      | C_Ctx \<Rightarrow> Some (Inr (add_pc 2 (if opcode = INS_SCTX then ref_label pc s else s)))
      | C_Jump \<Rightarrow>
          if opcode = INS_CALL then Some (Inr (add_pc 3 s))
          else Option.bind (next_jump (os_code s) (of_nat pc)) (\<lambda>r. case r of Inl e \<Rightarrow> Some (Inl e)
            | Inr index \<Rightarrow>
                let s1 = (if pc + 3 \<noteq> unat index then ref_label (unat index) s else s)
                in Some (Inr (add_pc 3 (set_code (put_operand (Suc pc) index (os_code s1)) s1))))
      | C_Other \<Rightarrow> Some (Inr s)
      | _ \<Rightarrow> Some (Inr (add_pc 3 s)))"

text \<open>\<^verbatim>\<open>memcpy(code + dst, code + src, (size - rdc) - pc)\<close>.\<close>

definition move_down :: "nat \<Rightarrow> nat \<Rightarrow> nat \<Rightarrow> buf \<Rightarrow> buf" where
  "move_down dst src n b = (\<lambda>i. if dst \<le> i \<and> i < dst + n then b (src + (i - dst)) else b i)"

definition move_code :: "nat \<Rightarrow> nat \<Rightarrow> optst \<Rightarrow> optst result" where
  "move_code dst src s =
     (if os_rdc s + os_pc s \<le> os_size s \<and> src + (os_size s - os_rdc s - os_pc s) \<le> MAX_BUFFER_SIZE
      then Inr (set_code (move_down dst src (os_size s - os_rdc s - os_pc s) (os_code s)) s)
      else Inl Out_Of_Bounds)"

definition reduce :: "nat \<Rightarrow> optst \<Rightarrow> optst" where
  "reduce n s = (is_l1_push_coderec (os_pc s + os_rdc s) n s)\<lparr>os_rdc := os_rdc s + n\<rparr>"

text \<open>The cases that passes 2 and 3 share: a label is cut out, a jump is dropped, queued or translated.\<close>

definition drop_label :: "optst \<Rightarrow> optst result" where
  "drop_label s =
     (let n = unat (os_code s (Suc (os_pc s))) + 2; s1 = reduce n s in move_code (os_pc s1) (os_pc s1 + n) s1)"

definition relocate_jump :: "optst \<Rightarrow> optst result" where
  "relocate_jump s =
     (let pc = os_pc s; index = get_operand (os_code s) (Suc pc) in
      if pc + 2 \<ge> MAX_BUFFER_SIZE then Inl Out_Of_Bounds
      else if unat index = pc + 3 + os_rdc s then
        bind_r (move_code pc (pc + 3) s) (\<lambda>s1. Inr (reduce 3 s1))
      else if unat index > pc then Inr (add_pc 3 (is_l1_push_jump (pc + os_rdc s) pc (os_code s pc) index s))
      else if unat index < pc then
        Inr (add_pc 3 (set_code (put_operand (Suc pc) (is_l1_translate index (os_cdr s)) (os_code s)) s))
      else Inr s)"

definition after_switch :: "optst \<Rightarrow> optst result" where
  "after_switch s =
     bind_r (is_l1_backpatch (os_pc s + os_rdc s) (os_pc s) s) (\<lambda>(s1, _).
       Inr (move_label (os_pc s1 + os_rdc s1) (os_pc s1) s1))"

definition l1_pass2_body :: "optst \<Rightarrow> optst result" where
  "l1_pass2_body s =
     (let opcode = os_code s (os_pc s) in
      case l1_class opcode of
        C_Lbl \<Rightarrow> drop_label s
      | C_Plain \<Rightarrow> Inr (add_pc 1 s)
      | C_Var \<Rightarrow> Inr (add_pc 2 s) | C_Store \<Rightarrow> Inr (add_pc 2 s)
      | C_Sys \<Rightarrow> Inr (add_pc 2 s) | C_Ctx \<Rightarrow> Inr (add_pc 2 s)
      | C_F2O \<Rightarrow> relocate_jump s
      | C_Jump \<Rightarrow> relocate_jump s
      | C_Other \<Rightarrow> Inr s
      | _ \<Rightarrow> Inr (add_pc 3 s))"

definition l1_pass2_step :: "optst \<Rightarrow> optst result option" where
  "l1_pass2_step s =
     Some (if Suc (os_pc s) \<ge> MAX_BUFFER_SIZE then Inl Out_Of_Bounds else bind_r (l1_pass2_body s) after_switch)"

text \<open>Pass 3 adds the peephole for loads and stores of the same variable.\<close>

definition peephole_var :: "optst \<Rightarrow> optst result" where
  "peephole_var s =
     (let pc = os_pc s; b = os_code s in
      if pc + 3 \<ge> MAX_BUFFER_SIZE then Inl Out_Of_Bounds
      else if b (pc + 2) = INS_OBJPUSH \<and> b (pc + 3) = b (Suc pc) \<and> is_get_lblrec (pc + 2) (os_il s) = None then
        if b pc = INS_OBJPUSH then
          bind_r (move_code (pc + 3) (pc + 4) (reduce 1 (set_code (b(pc + 2 := INS_OBJDUP)) s))) (\<lambda>s1. Inr (add_pc 3 s1))
        else
          bind_r (move_code (pc + 2) (pc + 4) (reduce 2 (set_code (b(pc := INS_OBJSTORE)) s))) (\<lambda>s1. Inr (add_pc 2 s1))
      else Inr (add_pc 2 s))"

definition l1_pass3_body :: "optst \<Rightarrow> optst result" where
  "l1_pass3_body s =
     (let opcode = os_code s (os_pc s) in
      case l1_class opcode of
        C_Lbl \<Rightarrow> drop_label s
      | C_Var \<Rightarrow> peephole_var s
      | C_Plain \<Rightarrow> Inr (add_pc 1 s)
      | C_Store \<Rightarrow> Inr (add_pc 2 s)
      | C_Sys \<Rightarrow> Inr (add_pc 2 s) | C_Ctx \<Rightarrow> Inr (add_pc 2 s)
      | C_F2O \<Rightarrow> relocate_jump s
      | C_Jump \<Rightarrow> relocate_jump s
      | C_Other \<Rightarrow> Inr s
      | _ \<Rightarrow> Inr (add_pc 3 s))"

definition l1_pass3_step :: "optst \<Rightarrow> optst result option" where
  "l1_pass3_step s =
     Some (if Suc (os_pc s) \<ge> MAX_BUFFER_SIZE then Inl Out_Of_Bounds else bind_r (l1_pass3_body s) after_switch)"

definition l1_pass4_step :: "optst \<Rightarrow> optst result option" where
  "l1_pass4_step s =
     Some (let pc = os_pc s; opcode = os_code s pc; operand = os_code s (Suc pc) in
      if Suc pc \<ge> MAX_BUFFER_SIZE then Inl Out_Of_Bounds else
      case l1_class opcode of
        C_Lbl \<Rightarrow> Inr (add_pc (unat operand + 2) s)
      | C_Plain \<Rightarrow> Inr (add_pc 1 s)
      | C_Sys \<Rightarrow> Inr (add_pc 2 s) | C_Ctx \<Rightarrow> Inr (add_pc 2 s)
      | C_Var \<Rightarrow> Inr (add_pc 2 s) | C_Store \<Rightarrow> Inr (add_pc 2 s)
      | C_Switch \<Rightarrow>
          if pc + 2 \<ge> MAX_BUFFER_SIZE then Inl Out_Of_Bounds
          else bind_r (is_l1_jumptable_reloc (unat (get_operand (os_code s) (Suc pc))) s) (\<lambda>s1. Inr (add_pc 3 s1))
      | C_Other \<Rightarrow> Inr s
      | _ \<Rightarrow> Inr (add_pc 3 s))"

definition at_end :: "optst \<Rightarrow> bool" where "at_end s \<longleftrightarrow> os_pc s + os_rdc s = os_size s"

definition is_l1_optimize :: "nat \<Rightarrow> ilstate \<Rightarrow> (ilstate \<times> nat) result option" where
  "is_l1_optimize sz il =
     bind_o (pass_loop at_end l1_pass1_step
               \<lparr>os_il = il, os_opt = [], os_cdr = [], os_pc = 0, os_rdc = 0, os_size = sz\<rparr>) (\<lambda>s1.
     bind_o (pass_loop at_end l1_pass2_step (s1\<lparr>os_il := is_clear_unused_lblrec (os_il s1), os_pc := 0\<rparr>)) (\<lambda>s2.
     bind_o (pass_loop at_end l1_pass3_step
               ((is_l1_clear_optrec (is_l1_clear_coderec s2))
                  \<lparr>os_size := os_size s2 - os_rdc s2, os_rdc := 0, os_pc := 0\<rparr>)) (\<lambda>s3.
     bind_o (pass_loop at_end l1_pass4_step (s3\<lparr>os_pc := 0\<rparr>)) (\<lambda>s4.
       Some (Inr (os_il s4, os_pc s4))))))"


section \<open>Translation of addresses\<close>

text \<open>The bytes removed at or before an address.\<close>

definition removed_upto :: "u16 \<Rightarrow> coderec list \<Rightarrow> u16" where
  "removed_upto off cdr = sum_list (map cd_rdc (filter (\<lambda>r. cd_offset r \<le> off) cdr))"

lemma removed_none: "sorted_wrt (\<lambda>r q. cd_offset r \<le> cd_offset q) (r # rs) \<Longrightarrow> off < cd_offset r \<Longrightarrow>
    filter (\<lambda>q. cd_offset q \<le> off) (r # rs) = []"
  by (auto simp: filter_empty_conv)

lemma translate_loop_sum:
  assumes "sorted_wrt (\<lambda>r q. cd_offset r \<le> cd_offset q) cdr" "cdr \<noteq> []" "cd_offset (hd cdr) \<le> off"
  shows "translate_loop off l rdc cdr = off - (rdc + removed_upto off cdr)"
  using assms
proof (induction off l rdc cdr rule: translate_loop.induct)
  case (2 off l rdc r)
  then show ?case by (simp add: removed_upto_def)
next
  case (3 off l rdc r n rs)
  show ?case
  proof (cases "cd_offset n > off")
    case True
    have "filter (\<lambda>q. cd_offset q \<le> off) (n # rs) = []"
      using 3(2) True by (intro removed_none) auto
    then have "removed_upto off (r # n # rs) = cd_rdc r" using 3(4) by (simp add: removed_upto_def)
    then show ?thesis using 3(4) True by simp
  next
    case False
    then have "translate_loop off l (rdc + cd_rdc r) (n # rs) = off - (rdc + cd_rdc r + removed_upto off (n # rs))"
      using 3 by auto
    moreover have "removed_upto off (r # n # rs) = cd_rdc r + removed_upto off (n # rs)"
      using 3(4) by (simp add: removed_upto_def)
    ultimately show ?thesis using False by (simp add: algebra_simps)
  qed
qed simp

lemma translate_loop_before:
  "sorted_wrt (\<lambda>r q. cd_offset r \<le> cd_offset q) cdr \<Longrightarrow> cdr \<noteq> [] \<Longrightarrow> off < cd_offset (hd cdr) \<Longrightarrow>
   translate_loop off l rdc cdr = l"
proof (induction off l rdc cdr rule: translate_loop.induct)
  case (3 off l rdc r n rs)
  then have "off < cd_offset n" by (auto intro: less_le_trans)
  with 3 show ?case by auto
qed auto

lemma backpatch_crashes:
  assumes "os_opt s \<noteq> []"
  shows "is_l1_backpatch off opt s = Inl Null_Deref"
proof -
  have "snd (backpatch_loop a b rs c) = []" for a b rs c
    by (induction a b rs c rule: backpatch_loop.induct) simp_all
  then obtain c where "backpatch_loop (of_nat off) (of_nat opt) (os_opt s) (os_code s) = (c, [])"
    by (metis prod.collapse)
  with assms show ?thesis by (simp add: is_l1_backpatch_def)
qed

text \<open>A chain of jumps that stays in a set never leaves it.\<close>

lemma next_jump_cycle:
  assumes "\<forall>i \<in> S. unat i + 2 < MAX_BUFFER_SIZE \<and> get_operand b (Suc (unat i)) \<in> S \<and>
      b (unat (get_operand b (Suc (unat i)))) = INS_JMP"
    and r: "next_jump b index = Some y"
  shows "index \<notin> S"
proof -
  have "\<not> (b = b \<and> index \<in> S)"
  proof (rule next_jump.raw_induct [where P = "\<lambda>c index y. \<not> (c = b \<and> index \<in> S)", OF _ r])
    fix loop :: "buf \<Rightarrow> u16 \<Rightarrow> u16 result option" and c :: buf and i :: u16 and y :: "u16 result"
    assume ih: "\<And>c i y. loop c i = Some y \<Longrightarrow> \<not> (c = b \<and> i \<in> S)"
      and e: "(if unat i + 2 < MAX_BUFFER_SIZE then
          if c (unat (get_operand c (Suc (unat i)))) = INS_JMP then loop c (get_operand c (Suc (unat i)))
          else Some (Inr (get_operand c (Suc (unat i)))) else Some (Inl Out_Of_Bounds)) = Some y"
    show "\<not> (c = b \<and> i \<in> S)"
      using ih [of c "get_operand c (Suc (unat i))" y] e assms(1) by auto
  qed
  then show ?thesis by simp
qed

section \<open>Straight-line code\<close>

text \<open>
  Code without labels and jumps as a list of instructions, each a list of bytes, and the peephole
  as a rewriting of that list: a second load of the same variable becomes a duplication, a load right
  after a store to the same variable turns both into a store that keeps the value.
\<close>

definition straight :: "u8 list \<Rightarrow> bool" where
  "straight i = (case i of [] \<Rightarrow> False | op # args \<Rightarrow>
     (case l1_class op of
        C_Plain \<Rightarrow> args = []
      | C_Var \<Rightarrow> length args = 1 | C_Store \<Rightarrow> length args = 1 | C_Ctx \<Rightarrow> length args = 1
      | C_Sys \<Rightarrow> length args = 1 \<and> hd args < 254
      | C_New \<Rightarrow> length args = 2 | C_Ext \<Rightarrow> length args = 2 | C_Const \<Rightarrow> length args = 2
      | _ \<Rightarrow> False))"

fun peep :: "u8 list list \<Rightarrow> u8 list list" where
  "peep [] = []"
| "peep [i] = [i]"
| "peep (i # j # r) =
     (if hd i = INS_OBJPUSH \<and> j = [INS_OBJPUSH, i ! 1] then i # [INS_OBJDUP] # peep r
      else if hd i = INS_OBJPOP \<and> j = [INS_OBJPUSH, i ! 1] then [INS_OBJSTORE, i ! 1] # peep r
      else i # peep (j # r))"

definition code_at :: "buf \<Rightarrow> nat \<Rightarrow> u8 list \<Rightarrow> bool" where
  "code_at b pc xs \<longleftrightarrow> (\<forall>j < length xs. b (pc + j) = xs ! j)"

definition quiet :: "optst \<Rightarrow> bool" where
  "quiet s \<longleftrightarrow> os_opt s = [] \<and> il_lblhead (os_il s) = []"

lemma code_at_simps [simp]:
  "code_at b pc []" "code_at b pc (x # xs) \<longleftrightarrow> b pc = x \<and> code_at b (Suc pc) xs"
  by (auto simp: code_at_def nth_Cons' less_Suc_eq_0_disj)

lemma code_at_append: "code_at b pc (xs @ ys) \<longleftrightarrow> code_at b pc xs \<and> code_at b (pc + length xs) ys"
  by (induction xs arbitrary: pc) simp_all

lemma code_at_cong: "(\<And>j. j < length xs \<Longrightarrow> c (pc' + j) = b (pc + j)) \<Longrightarrow> code_at b pc xs \<Longrightarrow> code_at c pc' xs"
  by (simp add: code_at_def)

lemma straight_cases:
  assumes "straight i"
  obtains (one) op where "i = [op]" "l1_class op = C_Plain"
    | (var) op x where "i = [op, x]" "l1_class op = C_Var"
    | (two) op x where "i = [op, x]" "l1_class op \<in> {C_Store, C_Ctx}"
    | (sys) op x where "i = [op, x]" "l1_class op = C_Sys" "x < 254"
    | (three) op x y where "i = [op, x, y]" "l1_class op \<in> {C_New, C_Ext, C_Const}"
proof -
  obtain op args where i: "i = op # args" using assms by (cases i) (auto simp: straight_def)
  show thesis
    using assms that unfolding i
    by (cases "l1_class op") (auto simp: straight_def length_Suc_conv numeral_2_eq_2)
qed

lemma quiet_after_switch: "quiet s \<Longrightarrow> after_switch s = Inr s"
  by (cases s) (auto simp: quiet_def after_switch_def is_l1_backpatch_def move_label_def upd_label_def)

lemma quiet_add_pc [simp]: "quiet (add_pc n s) = quiet s"
  by (simp add: quiet_def add_pc_def)

lemma pass2_straight:
  assumes "quiet s" "straight i" "code_at (os_code s) (os_pc s) i" "Suc (os_pc s) < MAX_BUFFER_SIZE"
  shows "l1_pass2_step s = Some (Inr (add_pc (length i) s))"
  using assms(2)
proof (cases rule: straight_cases)
qed (use assms in \<open>auto simp: l1_pass2_step_def l1_pass2_body_def quiet_after_switch numeral_2_eq_2 numeral_3_eq_3\<close>)

lemma pass1_straight:
  assumes "quiet s" "straight i" "code_at (os_code s) (os_pc s) i" "Suc (os_pc s) < MAX_BUFFER_SIZE"
  shows "l1_pass1_step s = Some (Inr (add_pc (length i) s))"
proof -
  have r: "ref_label n s = s" for n
    using assms(1) by (cases s) (auto simp: quiet_def ref_label_def upd_label_def)
  show ?thesis
    using assms(2)
  proof (cases rule: straight_cases)
  qed (use assms r in \<open>auto simp: l1_pass1_step_def numeral_2_eq_2 numeral_3_eq_3\<close>)
qed

lemma pass4_straight:
  assumes "quiet s" "straight i" "code_at (os_code s) (os_pc s) i" "Suc (os_pc s) < MAX_BUFFER_SIZE"
  shows "l1_pass4_step s = Some (Inr (add_pc (length i) s))"
  using assms(2)
proof (cases rule: straight_cases)
qed (use assms in \<open>auto simp: l1_pass4_step_def Let_def numeral_2_eq_2 numeral_3_eq_3\<close>)

lemma straight_nonempty: "straight i \<Longrightarrow> 0 < length i"
  by (cases i) (auto simp: straight_def)

text \<open>A pass that only steps over straight-line instructions.\<close>

lemma pass_walk:
  assumes "\<And>s i. quiet s \<Longrightarrow> straight i \<Longrightarrow> code_at (os_code s) (os_pc s) i \<Longrightarrow> Suc (os_pc s) < MAX_BUFFER_SIZE \<Longrightarrow>
      f s = Some (Inr (add_pc (length i) s))"
    and "quiet s" "\<forall>i \<in> set is. straight i" "code_at (os_code s) (os_pc s) (concat is)"
    "os_pc s + os_rdc s + length (concat is) = os_size s" "os_size s < MAX_BUFFER_SIZE"
  shows "pass_loop at_end f s = Some (Inr (add_pc (length (concat is)) s))"
  using assms(2-)
proof (induction "is" arbitrary: s)
  case Nil
  then show ?case by (simp add: pass_loop_done at_end_def add_pc_def)
next
  case (Cons i "is")
  have i: "straight i" "code_at (os_code s) (os_pc s) i" "code_at (os_code s) (os_pc s + length i) (concat is)"
    using Cons.prems by (auto simp: code_at_append)
  have "\<not> at_end s" using Cons.prems(4) straight_nonempty [OF i(1)] unfolding at_end_def concat.simps length_append by linarith
  moreover have "Suc (os_pc s) < MAX_BUFFER_SIZE"
    using straight_nonempty [OF i(1)] Cons.prems(4,5) unfolding concat.simps length_append by linarith
  then have "f s = Some (Inr (add_pc (length i) s))" by (rule assms(1) [OF Cons.prems(1) i(1,2)])
  ultimately have "pass_loop at_end f s = pass_loop at_end f (add_pc (length i) s)"
    using pass_loop_step by metis
  also have "\<dots> = Some (Inr (add_pc (length (concat is)) (add_pc (length i) s)))"
    using Cons.prems i by (intro Cons.IH) (simp_all add: add_pc_def quiet_def)
  finally show ?case by (simp add: add_pc_def add.assoc)
qed

text \<open>What pass 3 does to one instruction or to a matching pair.\<close>

lemma pass3_other:
  assumes "quiet s" "straight i" "code_at (os_code s) (os_pc s) i" "l1_class (hd i) \<noteq> C_Var" "Suc (os_pc s) < MAX_BUFFER_SIZE"
  shows "l1_pass3_step s = Some (Inr (add_pc (length i) s))"
  using assms(2)
proof (cases rule: straight_cases)
qed (use assms in \<open>auto simp: l1_pass3_step_def l1_pass3_body_def quiet_after_switch numeral_2_eq_2 numeral_3_eq_3\<close>)

lemma pass3_var_keep:
  assumes "quiet s" "l1_class op = C_Var" "code_at (os_code s) (os_pc s) [op, x]" "os_pc s + 3 < MAX_BUFFER_SIZE"
    "\<not> (os_code s (os_pc s + 2) = INS_OBJPUSH \<and> os_code s (os_pc s + 3) = x)"
  shows "l1_pass3_step s = Some (Inr (add_pc 2 s))"
  using assms by (auto simp: l1_pass3_step_def l1_pass3_body_def peephole_var_def Let_def quiet_after_switch)

lemma pass3_var_pair:
  assumes "quiet s" "l1_class op = C_Var" "code_at (os_code s) (os_pc s) [op, x, INS_OBJPUSH, x]"
    "os_pc s + os_rdc s + 4 \<le> os_size s" "os_size s + 3 \<le> MAX_BUFFER_SIZE"
  obtains s' n c where "l1_pass3_step s = Some (Inr s')" "quiet s'" "os_size s' = os_size s" "os_data s' = os_data s"
    "n = (if op = INS_OBJPUSH then 3 else 2)" "os_pc s' = os_pc s + n" "os_rdc s' = os_rdc s + (4 - n)"
    "c = (if op = INS_OBJPUSH then [op, x, INS_OBJDUP] else [INS_OBJSTORE, x])"
    "code_at (os_code s') (os_pc s) c" "\<forall>k < os_pc s. os_code s' k = os_code s k"
    "\<forall>k. os_pc s + 4 + k < os_size s - os_rdc s \<longrightarrow> os_code s' (os_pc s + n + k) = os_code s (os_pc s + 4 + k)"
proof -
  let ?pc = "os_pc s" and ?b = "os_code s"
  have nl: "is_get_lblrec k (os_il s) = None" for k using assms(1) by (simp add: is_get_lblrec_def quiet_def)
  define n where "n = (if op = INS_OBJPUSH then 3 else 2 :: nat)"
  define b1 where "b1 = (if op = INS_OBJPUSH then ?b(?pc + 2 := INS_OBJDUP) else ?b(?pc := INS_OBJSTORE))"
  define s1 where "s1 = reduce (4 - n) (set_code b1 s)"
  define s2 where "s2 = set_code (move_down (?pc + n) (?pc + 4) (os_size s - (os_rdc s + (4 - n)) - ?pc) b1) s1"
  have mv: "move_code (?pc + n) (?pc + 4) s1 = Inr s2"
    using assms(4,5) by (auto simp: move_code_def s1_def s2_def reduce_def is_l1_push_coderec_def set_code_def n_def)
  have b: "?b ?pc = op" "?b (Suc ?pc) = x" "?b (?pc + 2) = INS_OBJPUSH" "?b (?pc + 3) = x"
    using assms(3) by (simp_all add: numeral_2_eq_2 numeral_3_eq_3)
  have pv: "peephole_var s = Inr (add_pc n s2)"
    using mv b nl assms(4,5) by (auto simp: peephole_var_def Let_def n_def b1_def s1_def split: if_splits)
  have q: "quiet (add_pc n s2)" using assms(1)
    by (simp add: quiet_def add_pc_def s2_def s1_def reduce_def is_l1_push_coderec_def set_code_def)
  have st: "l1_pass3_step s = Some (Inr (add_pc n s2))"
    using assms pv q b by (simp add: l1_pass3_step_def l1_pass3_body_def quiet_after_switch)
  have flds: "os_size (add_pc n s2) = os_size s" "os_data (add_pc n s2) = os_data s" "os_pc (add_pc n s2) = ?pc + n"
    "os_rdc (add_pc n s2) = os_rdc s + (4 - n)"
    "os_code (add_pc n s2) = move_down (?pc + n) (?pc + 4) (os_size s - (os_rdc s + (4 - n)) - ?pc) b1"
    by (simp_all add: add_pc_def s2_def s1_def reduce_def is_l1_push_coderec_def set_code_def)
  have "code_at (os_code (add_pc n s2)) ?pc (if op = INS_OBJPUSH then [op, x, INS_OBJDUP] else [INS_OBJSTORE, x])"
    unfolding flds(5) using b by (auto simp: move_down_def b1_def n_def numeral_2_eq_2)
  moreover have "\<forall>k < ?pc. os_code (add_pc n s2) k = ?b k"
    unfolding flds(5) by (auto simp: move_down_def b1_def)
  moreover have "\<forall>k. ?pc + 4 + k < os_size s - os_rdc s \<longrightarrow> os_code (add_pc n s2) (?pc + n + k) = ?b (?pc + 4 + k)"
    unfolding flds(5) by (auto simp: move_down_def b1_def n_def)
  ultimately show thesis by (rule that [OF st q flds(1,2) n_def flds(3,4) refl])
qed

lemma peep_straight: "\<forall>i \<in> set is. straight i \<Longrightarrow> \<forall>i \<in> set (peep is). straight i"
proof (induction "is" rule: peep.induct)
  case (3 i j r)
  have "straight [INS_OBJDUP]" "straight [INS_OBJSTORE, x]" for x by (simp_all add: straight_def l1_class_def class_defs)
  with 3 show ?case by auto
qed auto

text \<open>The peephole pass on a suffix of the code, with what it leaves before that suffix unchanged.\<close>

definition peeped :: "optst \<Rightarrow> u8 list list \<Rightarrow> optst \<Rightarrow> bool" where
  "peeped s is s' \<longleftrightarrow> quiet s' \<and> at_end s' \<and> os_size s' = os_size s \<and> os_data s' = os_data s \<and>
     os_pc s' = os_pc s + length (concat is) \<and> code_at (os_code s') (os_pc s) (concat is) \<and>
     (\<forall>k < os_pc s. os_code s' k = os_code s k)"

lemma peeped_step:
  assumes "\<not> at_end s" "l1_pass3_step s = Some (Inr t)" "os_size t = os_size s" "os_data t = os_data s"
    "os_pc t = os_pc s + length c" "code_at (os_code t) (os_pc s) c" "\<forall>k < os_pc s. os_code t k = os_code s k"
    "pass_loop at_end l1_pass3_step t = Some (Inr s') \<and> peeped t is s'" "concat js = c @ concat is"
  shows "pass_loop at_end l1_pass3_step s = Some (Inr s') \<and> peeped s js s'"
proof -
  have "code_at (os_code s') (os_pc s) c"
    using assms(5-8) by (auto simp: peeped_def intro: code_at_cong [OF _ assms(6)])
  then show ?thesis
    using assms pass_loop_step [of at_end s l1_pass3_step t, OF assms(1,2)]
    by (auto simp: peeped_def code_at_append)
qed

lemma l1_class_push: "l1_class INS_OBJPUSH = C_Var"
  by (simp add: l1_class_def class_defs)

lemma pass3_advance:
  assumes "\<not> at_end s" "l1_pass3_step s = Some (Inr (add_pc (length i) s))" "code_at (os_code s) (os_pc s) i"
    "\<exists>s'. pass_loop at_end l1_pass3_step (add_pc (length i) s) = Some (Inr s') \<and> peeped (add_pc (length i) s) is s'"
  shows "\<exists>s'. pass_loop at_end l1_pass3_step s = Some (Inr s') \<and> peeped s (i # is) s'"
proof -
  obtain s' where "pass_loop at_end l1_pass3_step (add_pc (length i) s) = Some (Inr s') \<and> peeped (add_pc (length i) s) is s'"
    using assms(4) by blast
  then have "pass_loop at_end l1_pass3_step s = Some (Inr s') \<and> peeped s (i # is) s'"
    by (intro peeped_step [OF assms(1,2), where c = i]) (use assms(3) in \<open>simp_all add: add_pc_def\<close>)
  then show ?thesis by blast
qed

lemma pass3_peeps:
  assumes "quiet s" "\<forall>i \<in> set is. straight i" "code_at (os_code s) (os_pc s) (concat is)"
    "os_pc s + os_rdc s + length (concat is) = os_size s" "os_size s + 3 \<le> MAX_BUFFER_SIZE"
    "is \<noteq> [] \<Longrightarrow> l1_class (hd (last is)) \<noteq> C_Var"
  shows "\<exists>s'. pass_loop at_end l1_pass3_step s = Some (Inr s') \<and> peeped s (peep is) s'"
  using assms
proof (induction "is" arbitrary: s rule: peep.induct)
  case (3 i j r)
  have ne: "\<not> at_end s" using 3(7) 3(5) straight_nonempty [of i] by (auto simp: at_end_def)
  have ij: "straight i" "straight j" using 3(5) by auto
  consider (pair) "l1_class (hd i) = C_Var" "j = [INS_OBJPUSH, i ! 1]" | (other) "l1_class (hd i) \<noteq> C_Var"
    | (keep) "l1_class (hd i) = C_Var" "j \<noteq> [INS_OBJPUSH, i ! 1]" by blast
  then show ?case
  proof cases
    case other
    then have np: "hd i \<noteq> INS_OBJPUSH" "hd i \<noteq> INS_OBJPOP" by (auto simp: l1_class_def class_defs)
    have p3: "l1_pass3_step s = Some (Inr (add_pc (length i) s))"
      using 3(4,6-8) straight_nonempty [OF ij(1)] by (intro pass3_other ij other) (auto simp: code_at_append)
    have "\<exists>s'. pass_loop at_end l1_pass3_step s = Some (Inr s') \<and> peeped s (i # peep (j # r)) s'"
    proof (rule pass3_advance [OF ne p3])
      show "\<exists>s'. pass_loop at_end l1_pass3_step (add_pc (length i) s) = Some (Inr s') \<and>
          peeped (add_pc (length i) s) (peep (j # r)) s'"
        using 3(4-9) np by (intro 3(3)) (auto simp: add_pc_def quiet_def code_at_append)
    qed (use 3(6) in \<open>simp add: code_at_append\<close>)
    then show ?thesis using np by simp
  next
    case keep
    obtain op x where i: "i = [op, x]" using ij(1) by (cases rule: straight_cases) (use keep in auto)
    have "\<not> (os_code s (os_pc s + 2) = INS_OBJPUSH \<and> os_code s (os_pc s + 3) = x)"
      using ij(2)
    proof (cases rule: straight_cases)
    qed (use 3(6) keep i in \<open>auto simp: code_at_append numeral_2_eq_2 numeral_3_eq_3 l1_class_push\<close>)
    then have p3: "l1_pass3_step s = Some (Inr (add_pc (length i) s))"
      using pass3_var_keep [OF 3(4), of op x] keep i 3(6-8) straight_nonempty [OF ij(2)] by (auto simp: numeral_2_eq_2)
    have "\<exists>s'. pass_loop at_end l1_pass3_step s = Some (Inr s') \<and> peeped s (i # peep (j # r)) s'"
    proof (rule pass3_advance [OF ne p3])
      show "\<exists>s'. pass_loop at_end l1_pass3_step (add_pc (length i) s) = Some (Inr s') \<and>
          peeped (add_pc (length i) s) (peep (j # r)) s'"
        using 3(4-9) keep by (intro 3(3)) (auto simp: add_pc_def quiet_def code_at_append)
    qed (use 3(6) in \<open>simp add: code_at_append\<close>)
    then show ?thesis using keep by simp
  next
    case pair
    obtain op x where i: "i = [op, x]" using ij(1) by (cases rule: straight_cases) (use pair in auto)
    have op: "op = INS_OBJPUSH \<or> op = INS_OBJPOP"
      using pair(1) i by (auto simp: l1_class_def ins_class_def split: if_splits)
    have ca: "code_at (os_code s) (os_pc s) [op, x, INS_OBJPUSH, x]" using 3(6) pair i by simp
    have fit: "os_pc s + os_rdc s + 4 \<le> os_size s" using 3(7) pair i by simp
    obtain t n c where t: "l1_pass3_step s = Some (Inr t)" "quiet t" "os_size t = os_size s" "os_data t = os_data s"
      "n = (if op = INS_OBJPUSH then 3 else 2)" "os_pc t = os_pc s + n" "os_rdc t = os_rdc s + (4 - n)"
      "c = (if op = INS_OBJPUSH then [op, x, INS_OBJDUP] else [INS_OBJSTORE, x])"
      "code_at (os_code t) (os_pc s) c" "\<forall>k < os_pc s. os_code t k = os_code s k"
      "\<forall>k. os_pc s + 4 + k < os_size s - os_rdc s \<longrightarrow> os_code t (os_pc s + n + k) = os_code s (os_pc s + 4 + k)"
      using pass3_var_pair [OF 3(4) _ ca fit 3(8)] pair(1) i by auto
    have rest: "code_at (os_code t) (os_pc t) (concat r)"
    proof (rule code_at_cong)
      show "code_at (os_code s) (os_pc s + 4) (concat r)" using 3(6) pair i by (simp add: code_at_append numeral_eq_Suc)
      show "os_code t (os_pc t + k) = os_code s (os_pc s + 4 + k)" if "k < length (concat r)" for k
        using t(6,11) that 3(7) pair i by (simp add: numeral_eq_Suc)
    qed
    have last: "l1_class (hd (last r)) \<noteq> C_Var" if "r \<noteq> []" using 3(9) that by simp
    have "\<exists>s'. pass_loop at_end l1_pass3_step t = Some (Inr s') \<and> peeped t (peep r) s'"
      using 3(1,2) pair i op t(2,3,6,7,5) rest last 3(5,7,8) by (cases "op = INS_OBJPUSH") (auto simp: ins_defs)
    then obtain s' where s': "pass_loop at_end l1_pass3_step t = Some (Inr s') \<and> peeped t (peep r) s'" by blast
    have "pass_loop at_end l1_pass3_step s = Some (Inr s') \<and> peeped s (peep (i # j # r)) s'"
      by (rule peeped_step [OF ne t(1,3,4) _ t(9,10) s']) (use t(5,6,8) pair i op in \<open>auto simp: ins_defs\<close>)
    then show ?thesis by blast
  qed
next
  case 1
  then show ?case by (intro exI [of _ s]) (simp add: pass_loop_done at_end_def peeped_def)
next
  case (2 i)
  have i: "straight i" "l1_class (hd i) \<noteq> C_Var" "Suc (os_pc s) < MAX_BUFFER_SIZE" "\<not> at_end s"
    using 2 straight_nonempty [of i] by (auto simp: at_end_def)
  have e: "at_end (add_pc (length i) s)" using 2(4) by (simp add: at_end_def add_pc_def)
  have "\<exists>s'. pass_loop at_end l1_pass3_step s = Some (Inr s') \<and> peeped s [i] s'"
    using 2(1,3) e pass_loop_done [of at_end, OF e]
    by (intro pass3_advance [OF i(4)] pass3_other i) (auto simp: peeped_def)
  then show ?case by simp
qed

section \<open>Properties\<close>

text \<open>Translating an address. With the reduction records in the order of their addresses, the optimiser
  translates an address to itself less all bytes removed at or before it. A removal that starts exactly at
  the address is counted too, although it moves only what follows it.\<close>
theorem is_l1_translate_sum:
  assumes "sorted_wrt (\<lambda>r q. cd_offset r \<le> cd_offset q) cdr"
  shows "is_l1_translate off cdr = off - removed_upto off cdr"
proof (cases cdr)
  case (Cons r rs)
  show ?thesis
  proof (cases "cd_offset r \<le> off")
    case True
    then show ?thesis using translate_loop_sum [OF assms, of off off 0] Cons by (simp add: is_l1_translate_def)
  next
    case False
    then have "filter (\<lambda>q. cd_offset q \<le> off) cdr = []" using removed_none [of r rs off] assms Cons by simp
    then show ?thesis using translate_loop_before [OF assms, of off off 0] Cons False
      by (simp add: is_l1_translate_def removed_upto_def)
  qed
qed (simp add: is_l1_translate_def removed_upto_def)

theorem is_l1_translate_sum_witness:
  "is_l1_translate 9 [\<lparr>cd_offset = 4, cd_rdc = 3\<rparr>, \<lparr>cd_offset = 12, cd_rdc = 2\<rparr>] = 6 \<and>
   is_l1_translate 4 [\<lparr>cd_offset = 4, cd_rdc = 3\<rparr>] = 1"
  using is_l1_translate_sum [of "[\<lparr>cd_offset = 4, cd_rdc = 3\<rparr>, \<lparr>cd_offset = 12, cd_rdc = 2\<rparr>]" 9]
    is_l1_translate_sum [of "[\<lparr>cd_offset = 4, cd_rdc = 3\<rparr>]" 4]
  by (simp add: removed_upto_def)

text \<open>C25: A forward jump ends the optimiser. Whenever pass 2 meets a jump, a call or the first F2O
  instruction whose target lies ahead and is not the next instruction, the step reads through a null pointer:
  the record it has just queued makes the backpatch loop run to the end of the list.\<close>
theorem l1_forward_jump_crashes:
  assumes "l1_class (os_code s (os_pc s)) = C_Jump \<or> l1_class (os_code s (os_pc s)) = C_F2O"
    "os_pc s + 2 < MAX_BUFFER_SIZE"
    "unat (get_operand (os_code s) (Suc (os_pc s))) > os_pc s"
    "unat (get_operand (os_code s) (Suc (os_pc s))) \<noteq> os_pc s + 3 + os_rdc s"
    "\<not> at_end s"
  shows "pass_loop at_end l1_pass2_step s = Some (Inl Null_Deref)"
proof -
  let ?s = "add_pc 3 (is_l1_push_jump (os_pc s + os_rdc s) (os_pc s) (os_code s (os_pc s)) (get_operand (os_code s) (Suc (os_pc s))) s)"
  have "relocate_jump s = Inr ?s" using assms by (simp add: relocate_jump_def Let_def)
  then have "l1_pass2_body s = Inr ?s" using assms(1) by (auto simp: l1_pass2_body_def)
  moreover have "os_opt ?s \<noteq> []" by (simp add: add_pc_def is_l1_push_jump_def)
  then have "after_switch ?s = Inl Null_Deref"
    by (simp add: after_switch_def backpatch_crashes)
  ultimately have "l1_pass2_step s = Some (Inl Null_Deref)" using assms(2) by (simp add: l1_pass2_step_def)
  then show ?thesis using pass_loop_error [of at_end s, OF assms(5)] by simp
qed

definition opt_start :: "buf \<Rightarrow> nat \<Rightarrow> optst" where
  "opt_start b sz = \<lparr>os_il = il_empty\<lparr>il_code := b\<rparr>, os_opt = [], os_cdr = [], os_pc = 0, os_rdc = 0, os_size = sz\<rparr>"

theorem l1_forward_jump_crashes_witness:
  "pass_loop at_end l1_pass2_step (opt_start ((\<lambda>_. 0)(0 := INS_JMP, 2 := 4, 3 := INS_RET, 4 := INS_RET)) 5) = Some (Inl Null_Deref)"
proof -
  let ?s = "opt_start ((\<lambda>_. 0)(0 := INS_JMP, 2 := 4, 3 := INS_RET, 4 := INS_RET)) 5"
  have c: "l1_class (os_code ?s (os_pc ?s)) = C_Jump" by (simp add: opt_start_def l1_class_def class_defs)
  have g: "get_operand (os_code ?s) (Suc (os_pc ?s)) = 4"
    by (simp add: opt_start_def get_operand_def load16_def end_swap16_shifts)
  show ?thesis
    by (rule l1_forward_jump_crashes) (use c g in \<open>simp_all add: opt_start_def MAX_BUFFER_SIZE_def at_end_def\<close>)
qed


text \<open>C27: A cycle of unconditional jumps, such as an empty endless loop of the source program, makes the
  optimiser run forever: when pass 1 meets a jump from which the chain of jumps stays in a set of addresses
  that all jump back into the set, its loop has no result.\<close>
theorem l1_jump_cycle_diverges:
  assumes "\<forall>i \<in> S. unat i + 2 < MAX_BUFFER_SIZE \<and> get_operand (os_code s) (Suc (unat i)) \<in> S \<and>
      os_code s (unat (get_operand (os_code s) (Suc (unat i)))) = INS_JMP"
    "of_nat (os_pc s) \<in> S" "os_pc s < 65536" "os_code s (os_pc s) \<in> {INS_JMP, INS_JTRUE, INS_JFALSE}" "\<not> at_end s"
  shows "pass_loop at_end l1_pass1_step s = None"
proof -
  have "next_jump (os_code s) (of_nat (os_pc s)) = None"
  proof (rule ccontr)
    assume "next_jump (os_code s) (of_nat (os_pc s)) \<noteq> None"
    then obtain y where "next_jump (os_code s) (of_nat (os_pc s)) = Some y" by auto
    with next_jump_cycle [OF assms(1)] assms(2) show False by simp
  qed
  moreover have "l1_class (os_code s (os_pc s)) = C_Jump" "os_code s (os_pc s) \<noteq> INS_CALL"
    using assms(4) by (auto simp: l1_class_def class_defs)
  moreover have "os_pc s + 2 < MAX_BUFFER_SIZE"
    using assms(1,2) assms(3) by (auto dest!: bspec [of _ _ "of_nat (os_pc s)"] simp: unat_of_nat)
  ultimately have "l1_pass1_step s = None" by (simp add: l1_pass1_step_def Let_def)
  then show ?thesis using pass_loop_stuck [of at_end s, OF assms(5)] by simp
qed

theorem l1_jump_cycle_diverges_witness:
  "is_l1_optimize 4 (il_empty\<lparr>il_code := (\<lambda>_. 0)(0 := INS_JMP, 3 := INS_RET)\<rparr>) = None"
proof -
  let ?s = "opt_start ((\<lambda>_. 0)(0 := INS_JMP, 3 := INS_RET)) 4"
  have "pass_loop at_end l1_pass1_step ?s = None"
    by (rule l1_jump_cycle_diverges [of "{0}"])
      (simp_all add: opt_start_def MAX_BUFFER_SIZE_def get_operand_def load16_def end_swap16_shifts at_end_def)
  then show ?thesis by (simp add: is_l1_optimize_def opt_start_def)
qed




end
