(* ===== verification/IL2_Optimizer.thy ===== *)
theory IL2_Optimizer
  imports IL1_Optimizer
begin

text \<open>
  The second optimiser of the compiler, \<^verbatim>\<open>Stack/il2_optimizer.c\<close>: it drops local variables that are
  never loaded, renumbers the others, threads jumps, removes the \<^verbatim>\<open>NOP\<close> instructions this leaves and
  relocates jump tables. Its record lists are its own; the state record is the one of the first
  optimiser. Also \<^verbatim>\<open>is_link_optimize\<close> of \<^verbatim>\<open>il_streamer.c\<close>, which runs the optimisers and the linker.
\<close>

section \<open>Records\<close>

definition is_l2_push_jump :: "nat \<Rightarrow> nat \<Rightarrow> u8 \<Rightarrow> u16 \<Rightarrow> optst \<Rightarrow> optst" where
  "is_l2_push_jump off opt_off ins index s =
     s\<lparr>os_opt := os_opt s @ [\<lparr>op_ins = ins, op_index = index, op_offset = of_nat off, op_opt_offset = of_nat opt_off\<rparr>]\<rparr>"

definition is_l2_backpatch :: "nat \<Rightarrow> nat \<Rightarrow> optst \<Rightarrow> (optst \<times> u16) result" where
  "is_l2_backpatch off opt_off s =
     (if os_opt s = [] then Inr (s, 0)
      else let (b, iterator) = backpatch_loop (of_nat off) (of_nat opt_off) (os_opt s) (os_code s) in
        case iterator of [] \<Rightarrow> Inl Null_Deref | r # _ \<Rightarrow> Inr (set_code b s, op_offset r))"

definition is_l2_push_coderec :: "nat \<Rightarrow> nat \<Rightarrow> optst \<Rightarrow> optst" where
  "is_l2_push_coderec off rdc s = s\<lparr>os_cdr := os_cdr s @ [\<lparr>cd_offset = of_nat off, cd_rdc = of_nat rdc\<rparr>]\<rparr>"

definition is_l2_translate :: "u16 \<Rightarrow> coderec list \<Rightarrow> u16" where
  "is_l2_translate off cdr = translate_loop off off 0 cdr"

text \<open>
  \<^verbatim>\<open>is_l2_jumptable_reloc\<close> calls the translation of the first optimiser, whose record list is empty
  when the second one runs.
\<close>

definition is_l2_jumptable_reloc :: "nat \<Rightarrow> optst \<Rightarrow> optst result" where
  "is_l2_jumptable_reloc jt_offset s =
     (let d = os_data s; cp_size = unat (d jt_offset); jt = Suc jt_offset in
      if jt + 1 < MAX_BUFFER_SIZE
      then bind_r (l1_jumptable_loop [] jt cp_size 2
                    (put_operand jt (is_l1_translate (get_operand d jt) []) d)) (\<lambda>d'. Inr (set_data d' s))
      else Inl Out_Of_Bounds)"

definition is_l2_clear_coderec :: "optst \<Rightarrow> optst" where "is_l2_clear_coderec s = s\<lparr>os_cdr := []\<rparr>"
definition is_l2_clear_optrec :: "optst \<Rightarrow> optst" where "is_l2_clear_optrec s = s\<lparr>os_opt := []\<rparr>"

section \<open>Scans over a function\<close>

definition l2_class :: "u8 \<Rightarrow> ins_class" where
  "l2_class op = (if is_F2O op \<and> op \<noteq> INS_F2O then C_Other else ins_class op)"

text \<open>The length by which the scans step; 0 where the code has no case for the opcode.\<close>

definition l2_len :: "buf \<Rightarrow> nat \<Rightarrow> nat" where
  "l2_len b pc =
     (case l2_class (b pc) of
        C_Lbl \<Rightarrow> unat (b (Suc pc)) + 2
      | C_Plain \<Rightarrow> 1
      | C_Sys \<Rightarrow> 2 | C_Ctx \<Rightarrow> 2 | C_Var \<Rightarrow> 2 | C_Store \<Rightarrow> 2
      | C_Other \<Rightarrow> 0
      | _ \<Rightarrow> 3)"

text \<open>
  A scan runs from \<open>pc\<close> to the end of the code or to a \<^verbatim>\<open>RET\<close>; the state is the pc, the code and the
  number of loads seen.
\<close>

type_synonym scan = "nat \<times> buf \<times> nat"

definition scan_end :: "nat \<Rightarrow> scan \<Rightarrow> bool" where
  "scan_end sz s = (case s of (pc, b, n) \<Rightarrow> pc = sz \<or> (Suc pc < MAX_BUFFER_SIZE \<and> b pc = INS_RET))"

definition scan_step :: "(nat \<Rightarrow> buf \<Rightarrow> nat \<Rightarrow> buf \<times> nat) \<Rightarrow> scan \<Rightarrow> scan result option" where
  "scan_step f s = (case s of (pc, b, n) \<Rightarrow>
     if Suc pc \<ge> MAX_BUFFER_SIZE then Some (Inl Out_Of_Bounds)
     else let (b', n') = f pc b n in Some (Inr (pc + l2_len b pc, b', n')))"

definition remove_at :: "u8 \<Rightarrow> nat \<Rightarrow> buf \<Rightarrow> nat \<Rightarrow> buf \<times> nat" where
  "remove_at var_id pc b n =
     (if l2_class (b pc) \<in> {C_Var, C_Store} \<and> b (Suc pc) = var_id then (b(pc := INS_NOP, Suc pc := INS_NOP), n) else (b, n))"

definition is_l2_remove_var :: "nat \<Rightarrow> u8 \<Rightarrow> nat \<Rightarrow> buf \<Rightarrow> buf result option" where
  "is_l2_remove_var start var_id sz b =
     bind_o (pass_loop (scan_end sz) (scan_step (remove_at var_id)) (start, b, 0)) (\<lambda>(pc, b', n). Some (Inr b'))"

definition replace_at :: "u8 \<Rightarrow> u8 \<Rightarrow> nat \<Rightarrow> buf \<Rightarrow> nat \<Rightarrow> buf \<times> nat" where
  "replace_at var_id new_id pc b n =
     (if l2_class (b pc) \<in> {C_Var, C_Store} \<and> b (Suc pc) = var_id then (b(Suc pc := new_id), n) else (b, n))"

definition is_l2_replace_var :: "nat \<Rightarrow> u8 \<Rightarrow> u8 \<Rightarrow> nat \<Rightarrow> buf \<Rightarrow> buf result option" where
  "is_l2_replace_var start var_id new_id sz b =
     bind_o (pass_loop (scan_end sz) (scan_step (replace_at var_id new_id)) (start, b, 0)) (\<lambda>(pc, b', n). Some (Inr b'))"

definition count_at :: "u8 \<Rightarrow> nat \<Rightarrow> buf \<Rightarrow> nat \<Rightarrow> buf \<times> nat" where
  "count_at var_id pc b n = (b, if b pc = INS_OBJPUSH \<and> b (Suc pc) = var_id then Suc n else n)"

text \<open>Without a \<^verbatim>\<open>RET\<close> the function ends without returning a value.\<close>

definition is_l2_count_var_load :: "nat \<Rightarrow> u8 \<Rightarrow> nat \<Rightarrow> buf \<Rightarrow> nat result option" where
  "is_l2_count_var_load start var_id sz b =
     bind_o (pass_loop (scan_end sz) (scan_step (count_at var_id)) (start, b, 0)) (\<lambda>(pc, b', n).
       Some (if pc = sz then Inl Undefined_Value else Inr n))"

section \<open>Passes\<close>

text \<open>The inner loop of \<^verbatim>\<open>INS_SCTX\<close> over \<^verbatim>\<open>d_index\<close> and the loop over the variables of a context.\<close>

fun replace_all :: "nat \<Rightarrow> nat \<Rightarrow> nat list \<Rightarrow> u8 \<Rightarrow> buf \<Rightarrow> buf result option" where
  "replace_all pc sz [] new_id b = Some (Inr b)"
| "replace_all pc sz (d # ds) new_id b =
     bind_o (is_l2_replace_var pc (of_nat d) new_id sz b) (replace_all pc sz ds new_id)"

fun sctx_loop :: "nat \<Rightarrow> nat \<Rightarrow> nat \<Rightarrow> u8 \<Rightarrow> buf \<Rightarrow> (buf \<times> u8) result option" where
  "sctx_loop pc sz 0 sctx_count b = Some (Inr (b, sctx_count))"
| "sctx_loop pc sz (Suc k) sctx_count b =
     bind_o (is_l2_count_var_load pc (of_nat k) sz b) (\<lambda>var_count.
       if var_count = 0 then
         bind_o (is_l2_remove_var pc (of_nat k) sz b) (\<lambda>b1.
         bind_o (replace_all pc sz [k + 2 ..< unat sctx_count] (of_nat k) b1) (\<lambda>b2.
           sctx_loop pc sz k (sctx_count - 1) b2))
       else sctx_loop pc sz k sctx_count b)"

text \<open>Pass 1 also keeps \<^verbatim>\<open>sctx_count\<close>, the number of variables of the open context.\<close>

definition l2_pass1_step :: "optst \<times> u8 \<Rightarrow> (optst \<times> u8) result option" where
  "l2_pass1_step st = (case st of (s, cnt) \<Rightarrow>
     let pc = os_pc s; b = os_code s; opcode = b pc; operand = b (Suc pc) in
     if Suc pc \<ge> MAX_BUFFER_SIZE then Some (Inl Out_Of_Bounds) else
     case l2_class opcode of
       C_Lbl \<Rightarrow> Some (Inr (add_pc (unat operand + 2) s, cnt))
     | C_Plain \<Rightarrow> Some (Inr (add_pc 1 s, cnt))
     | C_Sys \<Rightarrow> Some (Inr (add_pc (if operand < 254 then 2 else 4) s, cnt))
     | C_Var \<Rightarrow> Some (Inr (add_pc 2 s, cnt))
     | C_Store \<Rightarrow> Some (Inr (add_pc 2 s, cnt))
     | C_Ctx \<Rightarrow>
         if opcode = INS_SCTX then
           bind_o (sctx_loop pc (os_size s) (unat operand) operand b) (\<lambda>(b', n).
             Some (Inr (add_pc 2 (set_code (if n = 0 then b'(pc := INS_NOP, Suc pc := INS_NOP) else b'(Suc pc := n)) s), n)))
         else if cnt = 0 then Some (Inr (add_pc 2 (set_code (b(pc := INS_NOP, Suc pc := INS_NOP)) s), cnt))
         else Some (Inr (add_pc 2 (set_code (b(Suc pc := cnt)) s), 0))
     | C_Jump \<Rightarrow>
         if opcode = INS_CALL then Some (Inr (add_pc 3 s, cnt))
         else bind_o (next_jump b (of_nat pc)) (\<lambda>index.
           Some (Inr (add_pc 3 (set_code (put_operand (Suc pc) index b) s), cnt)))
     | C_F2O \<Rightarrow> bind_o (next_jump b (of_nat pc)) (\<lambda>index.
           Some (Inr (add_pc 3 (set_code (put_operand (Suc pc) index b) s), cnt)))
     | C_Other \<Rightarrow> Some (Inr (s, cnt))
     | _ \<Rightarrow> Some (Inr (add_pc 3 s, cnt)))"

definition l2_reduce :: "nat \<Rightarrow> optst \<Rightarrow> optst" where
  "l2_reduce n s = (is_l2_push_coderec (os_pc s + os_rdc s) n s)\<lparr>os_rdc := os_rdc s + n\<rparr>"

definition l2_relocate_jump :: "optst \<Rightarrow> optst result" where
  "l2_relocate_jump s =
     (let pc = os_pc s; index = get_operand (os_code s) (Suc pc) in
      if pc + 2 \<ge> MAX_BUFFER_SIZE then Inl Out_Of_Bounds
      else if unat index = pc + 3 + os_rdc s then
        bind_r (move_code pc (pc + 3) s) (\<lambda>s1. Inr (l2_reduce 3 s1))
      else if unat index > pc then Inr (add_pc 3 (is_l2_push_jump (pc + os_rdc s) pc (os_code s pc) index s))
      else if unat index < pc then
        Inr (add_pc 3 (set_code (put_operand (Suc pc) (is_l2_translate index (os_cdr s)) (os_code s)) s))
      else Inr s)"

definition l2_pass2_body :: "optst \<Rightarrow> optst result" where
  "l2_pass2_body s =
     (let opcode = os_code s (os_pc s) in
      if opcode = INS_NOP then
        (let s1 = l2_reduce 1 s in move_code (os_pc s1) (os_pc s1 + 1) s1)
      else case l2_class opcode of
        C_Lbl \<Rightarrow> Inr (add_pc (unat (os_code s (Suc (os_pc s))) + 2) s)
      | C_Plain \<Rightarrow> Inr (add_pc 1 s)
      | C_Var \<Rightarrow> Inr (add_pc 2 s) | C_Store \<Rightarrow> Inr (add_pc 2 s)
      | C_Sys \<Rightarrow> Inr (add_pc 2 s) | C_Ctx \<Rightarrow> Inr (add_pc 2 s)
      | C_F2O \<Rightarrow> l2_relocate_jump s
      | C_Jump \<Rightarrow> l2_relocate_jump s
      | C_Other \<Rightarrow> Inr s
      | _ \<Rightarrow> Inr (add_pc 3 s))"

definition l2_after_switch :: "optst \<Rightarrow> optst result" where
  "l2_after_switch s =
     bind_r (is_l2_backpatch (os_pc s + os_rdc s) (os_pc s) s) (\<lambda>(s1, _).
       Inr (move_label (os_pc s1 + os_rdc s1) (os_pc s1) s1))"

definition l2_pass2_step :: "optst \<Rightarrow> optst result option" where
  "l2_pass2_step s =
     Some (if Suc (os_pc s) \<ge> MAX_BUFFER_SIZE then Inl Out_Of_Bounds else bind_r (l2_pass2_body s) l2_after_switch)"

definition l2_pass3_step :: "optst \<Rightarrow> optst result option" where
  "l2_pass3_step s =
     Some (let pc = os_pc s; opcode = os_code s pc in
      if Suc pc \<ge> MAX_BUFFER_SIZE then Inl Out_Of_Bounds else
      case l2_class opcode of
        C_Lbl \<Rightarrow> Inr (add_pc (unat (os_code s (Suc pc)) + 2) s)
      | C_Plain \<Rightarrow> Inr (add_pc 1 s)
      | C_Sys \<Rightarrow> Inr (add_pc 2 s) | C_Ctx \<Rightarrow> Inr (add_pc 2 s)
      | C_Var \<Rightarrow> Inr (add_pc 2 s) | C_Store \<Rightarrow> Inr (add_pc 2 s)
      | C_Switch \<Rightarrow>
          if pc + 2 \<ge> MAX_BUFFER_SIZE then Inl Out_Of_Bounds
          else bind_r (is_l2_jumptable_reloc (unat (get_operand (os_code s) (Suc pc))) s) (\<lambda>s1. Inr (add_pc 3 s1))
      | C_Other \<Rightarrow> Inr s
      | _ \<Rightarrow> Inr (add_pc 3 s))"

text \<open>The loops compare with the size cut to 16 bits.\<close>

definition l2_end :: "optst \<Rightarrow> bool" where
  "l2_end s \<longleftrightarrow> os_pc s = unat (of_nat (os_size s) - of_nat (os_rdc s) :: u16)"

definition is_l2_optimize :: "nat \<Rightarrow> ilstate \<Rightarrow> (ilstate \<times> nat) result option" where
  "is_l2_optimize sz il =
     bind_o (pass_loop (\<lambda>(s, cnt). os_pc s = os_size s) l2_pass1_step
               (\<lparr>os_il = il, os_opt = [], os_cdr = [], os_pc = 0, os_rdc = 0, os_size = sz\<rparr>, 0)) (\<lambda>(s1, _).
     bind_o (pass_loop l2_end l2_pass2_step (s1\<lparr>os_pc := 0\<rparr>)) (\<lambda>s2.
     bind_o (pass_loop l2_end l2_pass3_step (s2\<lparr>os_pc := 0\<rparr>)) (\<lambda>s3.
       Some (Inr (os_il (is_l2_clear_optrec (is_l2_clear_coderec s3)), os_pc s3)))))"

section \<open>Optimise and link\<close>

definition IS_OPTIMIZE_L1 :: u8 where "IS_OPTIMIZE_L1 = 1"
definition IS_OPTIMIZE_L2 :: u8 where "IS_OPTIMIZE_L2 = 2"

definition opt_stage :: "bool \<Rightarrow> (nat \<Rightarrow> ilstate \<Rightarrow> (ilstate \<times> nat) result option) \<Rightarrow> ilstate \<Rightarrow> ilstate result option" where
  "opt_stage on f il =
     (if on then bind_o (f (il_code_size il) il) (\<lambda>(il', n). Some (Inr (il'\<lparr>il_code_size := n\<rparr>))) else Some (Inr il))"

definition is_link_optimize :: "u8 \<Rightarrow> ilstate \<Rightarrow> (ilstate \<times> nat) result option" where
  "is_link_optimize mode il =
     bind_o (opt_stage (mode AND IS_OPTIMIZE_L1 \<noteq> 0) is_l1_optimize il) (\<lambda>il1.
     bind_o (opt_stage (mode AND IS_OPTIMIZE_L2 \<noteq> 0) is_l2_optimize il1) (\<lambda>il2.
     bind_o (Some (is_link_code (il_code_size il2) il2)) (\<lambda>(il3, n).
       Some (Inr (il3\<lparr>il_code_size := n\<rparr>, n)))))"


section \<open>Scans on straight-line functions\<close>

text \<open>A scan whose action on each instruction is known, over a function body that ends in \<^verbatim>\<open>RET\<close>.\<close>

lemma l2_len_straight: "straight i \<Longrightarrow> code_at b pc i \<Longrightarrow> l2_len b pc = length i"
proof -
  have c: "l2_class op = l1_class op" if "l1_class op \<noteq> C_Other" for op
    using that by (auto simp: l1_class_def l2_class_def split: if_splits)
  assume "straight i" "code_at b pc i"
  then show ?thesis by (cases rule: straight_cases) (auto simp: l2_len_def c)
qed

definition acts_as :: "(nat \<Rightarrow> buf \<Rightarrow> nat \<Rightarrow> buf \<times> nat) \<Rightarrow> (u8 list \<Rightarrow> u8 list) \<Rightarrow> (u8 list \<Rightarrow> nat) \<Rightarrow> bool" where
  "acts_as f g h \<longleftrightarrow> (\<forall>i. length (g i) = length i) \<and>
     (\<forall>pc b n i. straight i \<longrightarrow> code_at b pc i \<longrightarrow>
        (\<exists>b'. f pc b n = (b', n + h i) \<and> code_at b' pc (g i) \<and> (\<forall>k. k < pc \<or> pc + length i \<le> k \<longrightarrow> b' k = b k)))"

definition body :: "u8 list list \<Rightarrow> bool" where
  "body is \<longleftrightarrow> (\<forall>i \<in> set is. straight i \<and> hd i \<noteq> INS_RET)"

lemma scan_straight:
  assumes a: "acts_as f g h" and "body is" "code_at b pc (concat is @ [INS_RET])"
    "pc + length (concat is) < sz" "sz < MAX_BUFFER_SIZE"
  shows "\<exists>b'. pass_loop (scan_end sz) (scan_step f) (pc, b, n) =
      Some (Inr (pc + length (concat is), b', n + sum_list (map h is))) \<and>
    code_at b' pc (concat (map g is) @ [INS_RET]) \<and>
    (\<forall>k. k < pc \<or> pc + length (concat is) \<le> k \<longrightarrow> b' k = b k)"
  using assms(2-)
proof (induction "is" arbitrary: pc b n)
  case Nil
  then show ?case by (intro exI [of _ b]) (simp add: pass_loop_done scan_end_def)
next
  case (Cons i "is")
  have i: "straight i" "code_at b pc i" "b pc \<noteq> INS_RET" "body is"
    and r: "code_at b (pc + length i) (concat is @ [INS_RET])"
    using Cons.prems straight_nonempty [of i] by (cases i; auto simp: body_def code_at_append)+
  obtain b1 where f: "f pc b n = (b1, n + h i)" "code_at b1 pc (g i)" "\<forall>k. k < pc \<or> pc + length i \<le> k \<longrightarrow> b1 k = b k"
    using a i unfolding acts_as_def by blast
  have gl: "length (g i) = length i" using a by (simp add: acts_as_def)
  have r1: "code_at b1 (pc + length i) (concat is @ [INS_RET])" by (rule code_at_cong [OF _ r]) (simp add: f(3))
  have bd: "pc + length i + length (concat is) < sz" using Cons.prems(3) by simp
  obtain b2 where b2: "pass_loop (scan_end sz) (scan_step f) (pc + length i, b1, n + h i) =
      Some (Inr (pc + length i + length (concat is), b2, n + h i + sum_list (map h is)))"
    "code_at b2 (pc + length i) (concat (map g is) @ [INS_RET])"
    "\<forall>k. k < pc + length i \<or> pc + length i + length (concat is) \<le> k \<longrightarrow> b2 k = b1 k"
    using Cons.IH [OF i(4) r1 bd Cons.prems(4)] by blast
  have "\<not> scan_end sz (pc, b, n)" using i(3) Cons.prems(3) by (simp add: scan_end_def)
  moreover have "scan_step f (pc, b, n) = Some (Inr (pc + length i, b1, n + h i))"
    using f(1) l2_len_straight [OF i(1,2)] bd Cons.prems(4) straight_nonempty [OF i(1)] by (simp add: scan_step_def)
  ultimately have "pass_loop (scan_end sz) (scan_step f) (pc, b, n) =
      Some (Inr (pc + length (concat (i # is)), b2, n + sum_list (map h (i # is))))"
    using b2(1) pass_loop_step [of "scan_end sz" "(pc, b, n)" "scan_step f"] by (simp add: add.assoc)
  moreover have "code_at b2 pc (g i)" using b2(3) gl by (intro code_at_cong [OF _ f(2)]) simp
  ultimately show ?case using b2(2,3) f(3) gl
    by (intro exI [of _ b2]) (simp add: code_at_append)
qed

text \<open>Renaming of one variable in one instruction.\<close>

definition accesses :: "u8 list \<Rightarrow> bool" where
  "accesses i \<longleftrightarrow> length i = 2 \<and> l2_class (hd i) \<in> {C_Var, C_Store}"

definition rename_ins :: "u8 set \<Rightarrow> u8 \<Rightarrow> u8 list \<Rightarrow> u8 list" where
  "rename_ins V w i = (if accesses i \<and> i ! 1 \<in> V then [hd i, w] else i)"

lemma accesses_straight:
  assumes "straight i" "code_at b pc i"
  shows "l2_class (b pc) \<in> {C_Var, C_Store} \<longleftrightarrow> accesses i" "accesses i \<Longrightarrow> i = [b pc, b (Suc pc)]"
proof -
  have c: "l2_class op = l1_class op" if "l1_class op \<noteq> C_Other" for op
    using that by (auto simp: l1_class_def l2_class_def split: if_splits)
  show "l2_class (b pc) \<in> {C_Var, C_Store} \<longleftrightarrow> accesses i"
    using assms(1) by (cases rule: straight_cases) (use assms(2) in \<open>auto simp: accesses_def c\<close>)
  show "accesses i \<Longrightarrow> i = [b pc, b (Suc pc)]"
    using assms(2) by (cases i rule: list.exhaust; cases "tl i") (auto simp: accesses_def)
qed

lemma replace_acts: "acts_as (replace_at v w) (rename_ins {v} w) (\<lambda>_. 0)"
  unfolding acts_as_def
proof (intro conjI allI impI)
  show "length (rename_ins {v} w i) = length i" for i by (auto simp: rename_ins_def accesses_def)
  fix pc b n and i :: "u8 list"
  assume i: "straight i" "code_at b pc i"
  show "\<exists>b'. replace_at v w pc b n = (b', n + 0) \<and> code_at b' pc (rename_ins {v} w i) \<and>
      (\<forall>k. k < pc \<or> pc + length i \<le> k \<longrightarrow> b' k = b k)"
    using accesses_straight [OF i] i(2) by (cases "accesses i") (auto simp: replace_at_def rename_ins_def)
qed

lemma count_acts: "acts_as (count_at v) (\<lambda>i. i) (\<lambda>i. if i = [INS_OBJPUSH, v] then 1 else 0)"
  unfolding acts_as_def
proof (intro conjI allI impI)
  fix pc b n and i :: "u8 list"
  assume i: "straight i" "code_at b pc i"
  have "i = [INS_OBJPUSH, v] \<longleftrightarrow> b pc = INS_OBJPUSH \<and> b (Suc pc) = v"
  proof
    assume p: "b pc = INS_OBJPUSH \<and> b (Suc pc) = v"
    then have "l2_class (b pc) \<in> {C_Var, C_Store}" by (simp add: l2_class_def class_defs)
    with accesses_straight [OF i] p show "i = [INS_OBJPUSH, v]" by simp
  qed (use i(2) in simp)
  then show "\<exists>b'. count_at v pc b n = (b', n + (if i = [INS_OBJPUSH, v] then 1 else 0)) \<and> code_at b' pc i \<and>
      (\<forall>k. k < pc \<or> pc + length i \<le> k \<longrightarrow> b' k = b k)"
    using i(2) by (auto simp: count_at_def)
qed simp

lemma rename_straight:
  assumes "body is"
  shows "body (map (rename_ins V w) is)" "length (concat (map (rename_ins V w) is)) = length (concat is)"
proof -
  have c: "l1_class op = l2_class op" if "l2_class op \<in> {C_Var, C_Store}" for op
    using that by (auto simp: l1_class_def l2_class_def class_defs split: if_splits)
  have "straight (rename_ins V w i) \<and> hd (rename_ins V w i) \<noteq> INS_RET" if "straight i \<and> hd i \<noteq> INS_RET" for i
    using that c by (auto simp: rename_ins_def accesses_def straight_def)
  then show "body (map (rename_ins V w) is)" using assms by (auto simp: body_def)
  have "length (rename_ins V w i) = length i" for i by (auto simp: rename_ins_def accesses_def)
  then show "length (concat (map (rename_ins V w) is)) = length (concat is)" by (simp add: length_concat comp_def)
qed


lemma replace_var_straight:
  assumes "body is" "code_at b pc (concat is @ [INS_RET])" "pc + length (concat is) < sz" "sz < MAX_BUFFER_SIZE"
  shows "\<exists>b'. is_l2_replace_var pc v w sz b = Some (Inr b') \<and>
    code_at b' pc (concat (map (rename_ins {v} w) is) @ [INS_RET]) \<and>
    (\<forall>k. k < pc \<or> pc + length (concat is) \<le> k \<longrightarrow> b' k = b k)"
proof -
  obtain b' where "pass_loop (scan_end sz) (scan_step (replace_at v w)) (pc, b, 0) =
      Some (Inr (pc + length (concat is), b', 0 + sum_list (map (\<lambda>_. 0) is)))"
    "code_at b' pc (concat (map (rename_ins {v} w) is) @ [INS_RET])"
    "\<forall>k. k < pc \<or> pc + length (concat is) \<le> k \<longrightarrow> b' k = b k"
    using scan_straight [OF replace_acts assms, of v w 0] by blast
  then show ?thesis by (intro exI [of _ b']) (simp add: is_l2_replace_var_def)
qed

lemma rename_rename: "w \<notin> V \<Longrightarrow> rename_ins V w (rename_ins {v} w i) = rename_ins (insert v V) w i"
  by (auto simp: rename_ins_def accesses_def)

lemma replace_all_straight:
  assumes "body is" "code_at b pc (concat is @ [INS_RET])" "pc + length (concat is) < sz" "sz < MAX_BUFFER_SIZE"
    "w \<notin> of_nat ` set ds"
  shows "\<exists>b'. replace_all pc sz ds w b = Some (Inr b') \<and>
    code_at b' pc (concat (map (rename_ins (of_nat ` set ds) w) is) @ [INS_RET]) \<and>
    (\<forall>k. k < pc \<or> pc + length (concat is) \<le> k \<longrightarrow> b' k = b k)"
  using assms
proof (induction ds arbitrary: b "is")
  case Nil
  have "rename_ins {} w = (\<lambda>i. i)" by (auto simp: rename_ins_def)
  with Nil show ?case by simp
next
  case (Cons d ds)
  let ?js = "map (rename_ins {of_nat d} w) is"
  obtain b1 where b1: "is_l2_replace_var pc (of_nat d) w sz b = Some (Inr b1)" "code_at b1 pc (concat ?js @ [INS_RET])"
    "\<forall>k. k < pc \<or> pc + length (concat is) \<le> k \<longrightarrow> b1 k = b k"
    using replace_var_straight [OF Cons.prems(1-4)] by blast
  have w: "w \<notin> of_nat ` set ds" using Cons.prems(5) by auto
  obtain b2 where "replace_all pc sz ds w b1 = Some (Inr b2)"
    "code_at b2 pc (concat (map (rename_ins (of_nat ` set ds) w) ?js) @ [INS_RET])"
    "\<forall>k. k < pc \<or> pc + length (concat is) \<le> k \<longrightarrow> b2 k = b1 k"
    using Cons.IH [OF rename_straight(1) [OF Cons.prems(1)] b1(2) _ Cons.prems(4) w] Cons.prems(3)
      rename_straight(2) [OF Cons.prems(1)] by metis
  then show ?case using b1 by (auto simp: comp_def rename_rename [OF w])
qed

text \<open>Without optimisation flags the compiler's last stage is exactly the linker, and records the linked
  size as the code size.\<close>
lemma is_link_optimize_plain:
  "is_link_optimize 0 il = Some (bind_r (is_link_code (il_code_size il) il) (\<lambda>(il', n). Inr (il'\<lparr>il_code_size := n\<rparr>, n)))"
  by (cases "is_link_code (il_code_size il) il") (auto simp: is_link_optimize_def opt_stage_def)

section \<open>Properties\<close>

text \<open>Counting loads. On a function body without labels and jumps that ends in a return, the scan ends
  and returns exactly the number of instructions that load the variable.\<close>
theorem is_l2_count_var_load_exact:
  assumes "body is" "code_at b pc (concat is @ [INS_RET])" "pc + length (concat is) < sz" "sz < MAX_BUFFER_SIZE"
  shows "is_l2_count_var_load pc v sz b = Some (Inr (length (filter (\<lambda>i. i = [INS_OBJPUSH, v]) is)))"
proof -
  have "sum_list (map (\<lambda>i. if i = [INS_OBJPUSH, v] then 1 else 0) is) = length (filter (\<lambda>i. i = [INS_OBJPUSH, v]) is)"
    by (induction "is") auto
  with scan_straight [OF count_acts assms, of v 0] show ?thesis
    using assms(3) by (auto simp: is_l2_count_var_load_def)
qed

theorem is_l2_count_var_load_exact_witness:
  "is_l2_count_var_load 0 1 6 ((\<lambda>_. 0)(0 := INS_OBJPUSH, 1 := 1, 2 := INS_OBJPOP, 3 := 1, 4 := INS_RET)) = Some (Inr 1)"
proof -
  have b: "body [[INS_OBJPUSH, 1], [INS_OBJPOP, 1]]" by (simp add: body_def straight_def l1_class_def class_defs)
  show ?thesis
    using is_l2_count_var_load_exact [OF b, of "(\<lambda>_. 0)(0 := INS_OBJPUSH, 1 := 1, 2 := INS_OBJPOP, 3 := 1, 4 := INS_RET)" 0 6 1]
    by (simp add: MAX_BUFFER_SIZE_def ins_defs)
qed

text \<open>C26: Renumbering. When the optimiser has dropped variable k of a context of c variables, its renumbering
  loop turns every access to any of the variables k + 2 to c - 1 into an access to variable k, and leaves
  variable k + 1 and all other instructions alone: the variables behind the dropped one are not moved down by
  one place but all merged into a single one.\<close>
theorem replace_all_merges:
  assumes "body is" "code_at b pc (concat is @ [INS_RET])" "pc + length (concat is) < sz" "sz < MAX_BUFFER_SIZE" "c < 256"
  shows "\<exists>b'. replace_all pc sz [k + 2 ..< c] (of_nat k) b = Some (Inr b') \<and>
    code_at b' pc (concat (map (rename_ins (of_nat ` {k + 2 ..< c}) (of_nat k)) is) @ [INS_RET])"
proof -
  have "(of_nat k :: u8) \<notin> of_nat ` {k + 2 ..< c}"
  proof
    assume "(of_nat k :: u8) \<in> of_nat ` {k + 2 ..< c}"
    then obtain d where d: "k + 2 \<le> d" "d < c" "(of_nat k :: u8) = of_nat d" by auto
    from d(3) have "unat (of_nat k :: u8) = unat (of_nat d :: u8)" by simp
    then show False using d(1,2) assms(5) by (simp add: unat_of_nat)
  qed
  with replace_all_straight [OF assms(1-4), of "of_nat k" "[k + 2 ..< c]"] show ?thesis by auto
qed

theorem replace_all_merges_witness:
  "(let b = (\<lambda>_. 0)(0 := INS_OBJPUSH, 1 := 2, 2 := INS_OBJPUSH, 3 := 3, 4 := INS_RET) in
    \<exists>b'. replace_all 0 6 [2 ..< 4] 0 b = Some (Inr b') \<and> b' 1 = 0 \<and> b' 3 = 0)"
proof -
  let ?b = "(\<lambda>_. 0)(0 := INS_OBJPUSH, 1 := 2, 2 := INS_OBJPUSH, 3 := 3, 4 := INS_RET)"
  have b: "body [[INS_OBJPUSH, 2], [INS_OBJPUSH, 3]]" by (simp add: body_def straight_def l1_class_def class_defs)
  have t: "{0 + 2 ..< 4 :: nat} = {2, 3}" by auto
  have s: "(of_nat :: nat \<Rightarrow> u8) ` {0 + 2 ..< 4} = {2, 3}" unfolding t by simp
  have a: "accesses [INS_OBJPUSH, x]" for x by (simp add: accesses_def l2_class_def class_defs)
  have r: "rename_ins (of_nat ` {0 + 2 ..< 4}) (of_nat 0) [INS_OBJPUSH, x] = [INS_OBJPUSH, 0]" if "x = 2 \<or> x = 3" for x
    unfolding s using that a by (auto simp: rename_ins_def)
  obtain b' where "replace_all 0 6 [0 + 2 ..< 4] (of_nat 0) ?b = Some (Inr b')"
    "code_at b' 0 (concat (map (rename_ins (of_nat ` {0 + 2 ..< 4}) (of_nat 0)) [[INS_OBJPUSH, 2], [INS_OBJPUSH, 3]]) @ [INS_RET])"
    using replace_all_merges [OF b, of ?b 0 6 4 0] by (auto simp: MAX_BUFFER_SIZE_def numeral_2_eq_2 numeral_3_eq_3 numeral_eq_Suc(1) simp del: replace_all.simps)
  then show ?thesis using r by (auto simp: numeral_2_eq_2 numeral_3_eq_3 simp del: replace_all.simps)
qed

end
