(* ===== verification/PK_Linker.thy ===== *)
theory PK_Linker
  imports PK_Package "HOL-Library.Multiset"
begin

text \<open>
  The package linker, \<^verbatim>\<open>Stack/pkg_linker.c\<close>, which reads a package file back into a store of classes. The file is a list
  of bytes with a position; \<^verbatim>\<open>fread\<close> at its end gives fewer bytes and leaves the rest of its target as it was.
  Offsets are 16 bits wide and are kept by the functions next to the position of the file. A byte that
  was never read is \<^term>\<open>None\<close>. New nodes come from a counter. The target is little-endian.
\<close>

section \<open>Reading\<close>

record lk_state =
  k_pos :: nat
  k_mem :: pk_mem
  k_root :: addr
  k_new :: addr

definition fread_bytes :: "u8 list \<Rightarrow> nat \<Rightarrow> lk_state \<Rightarrow> u8 list \<times> lk_state" where
  "fread_bytes f n s = (let bs = take n (drop (k_pos s) f) in (bs, s\<lparr>k_pos := k_pos s + length bs\<rparr>))"

definition set8 :: "u8 option \<Rightarrow> u8 list \<Rightarrow> u8 option" where
  "set8 t bs = (case bs of [] \<Rightarrow> t | b # _ \<Rightarrow> Some b)"

text \<open>The bytes read over a 16-bit variable.\<close>

definition set16 :: "u16 \<Rightarrow> u8 list \<Rightarrow> u16" where
  "set16 l bs =
     (case bs of
        [] \<Rightarrow> l
      | [b0] \<Rightarrow> (l AND 0xFF00) OR ucast b0
      | b0 # b1 # _ \<Rightarrow> push_bit 8 (ucast b1) OR ucast b0)"

definition swap16 :: "u16 \<Rightarrow> u16" where
  "swap16 x = drop_bit 8 x OR push_bit 8 x"

text \<open>The length: one byte, or two that follow a byte with the high bit set. The result has the tag byte and the length.\<close>

definition read_length :: "u8 list \<Rightarrow> bool \<Rightarrow> u8 \<Rightarrow> u16 \<Rightarrow> u16 \<Rightarrow> lk_state \<Rightarrow> u16 \<times> u8 \<times> u16 \<times> lk_state" where
  "read_length f swap t l off s =
     (let (bs, s1) = fread_bytes f 1 s;
          t1 = (case bs of [] \<Rightarrow> t | b # _ \<Rightarrow> b);
          off1 = off + of_nat (length bs)
      in if t1 AND 0x80 \<noteq> 0 then
           let (cs, s2) = fread_bytes f 2 s1; l1 = set16 l cs
           in (off1 + of_nat (length cs), t1, if swap then swap16 l1 else l1, s2)
         else (off1, t1, ucast t1, s1))"

text \<open>The C string in a zeroed buffer of 4096 bytes after \<open>bs\<close> was read into it and byte \<open>z\<close> was cleared.\<close>

definition buffer_string :: "u8 list \<Rightarrow> nat \<Rightarrow> u8 list result" where
  "buffer_string bs z =
     (if 4096 < length bs \<or> 4096 \<le> z then Inl Out_Of_Bounds else Inr (takeWhile (\<lambda>b. b \<noteq> 0) bs))"

section \<open>The root\<close>

definition lk_set_root :: "addr \<Rightarrow> lk_state \<Rightarrow> lk_state" where
  "lk_set_root root s = s\<lparr>k_root := root\<rparr>"

definition lk_get_root :: "lk_state \<Rightarrow> addr" where
  "lk_get_root s = k_root s"

definition lk_select_class :: "pk_mem \<Rightarrow> addr \<Rightarrow> u8 list \<Rightarrow> addr result option" where
  "lk_select_class m root name = pk_select_class m root name"

definition lk_select_interface :: "pk_mem \<Rightarrow> addr \<Rightarrow> u8 list \<Rightarrow> addr result option" where
  "lk_select_interface m root name = pk_select_class m root name"

definition lk_select_method :: "pk_mem \<Rightarrow> addr \<Rightarrow> u8 list \<Rightarrow> addr result option" where
  "lk_select_method m parent name = pk_select_method m parent name"

section \<open>Classes\<close>

text \<open>The local variables of \<^verbatim>\<open>lk_decode_class_header\<close>.\<close>

record lk_local =
  c_off :: u16
  c_t :: "u8 option"
  c_l :: u16
  c_numargs :: u8
  c_moff :: u16
  c_call :: "u8 option"
  c_ret :: "u8 option"
  c_parent :: addr

text \<open>A new node: the operation on the store gets its address.\<close>

definition set_codebase :: "addr \<Rightarrow> addr \<Rightarrow> lk_state \<Rightarrow> lk_state" where
  "set_codebase a cb s = s\<lparr>k_mem := pk_put a (\<lambda>n. n\<lparr>n_codebase := cb\<rparr>) (k_mem s)\<rparr>"

text \<open>The cases of the loop: whether the function returns, the variables and the state.\<close>

type_synonym lk_step = "(bool \<times> lk_local \<times> lk_state) result option"

definition class_libname :: "u8 list \<Rightarrow> addr \<Rightarrow> u8 \<Rightarrow> lk_local \<Rightarrow> lk_state \<Rightarrow> lk_step" where
  "class_libname f cb t c s =
     (let (off, t1, l, s1) = read_length f False t (c_l c) (c_off c) s;
          (bs, s2) = fread_bytes f (unat l) s1;
          c1 = c\<lparr>c_off := off + of_nat (length bs), c_t := Some t1, c_l := l\<rparr>
      in bind_o (Some (buffer_string bs (unat l))) (\<lambda>nm.
         bind_o (pk_install_interface (k_new s2) [] nm (k_mem s2) (k_root s2)) (\<lambda>(m, root).
           Some (Inr (False, c1\<lparr>c_parent := k_new s2\<rparr>,
             set_codebase (k_new s2) cb (s2\<lparr>k_mem := m, k_root := root, k_new := k_new s2 + 1\<rparr>))))))"

definition class_ia5 :: "u8 list \<Rightarrow> addr \<Rightarrow> u8 \<Rightarrow> lk_local \<Rightarrow> lk_state \<Rightarrow> lk_step" where
  "class_ia5 f cb t c s =
     (let (off, t1, l, s1) = read_length f False t (c_l c) (c_off c) s;
          (bs, s2) = fread_bytes f (unat l) s1;
          c1 = c\<lparr>c_off := off + of_nat (length bs), c_t := Some t1, c_l := l\<rparr>
      in bind_o (Some (buffer_string bs (unat l))) (\<lambda>nm.
         if c_parent c \<noteq> 0 then
           bind_o (Some (strcpy_to 256 nm)) (\<lambda>nm'.
             Some (Inr (False, c1, s2\<lparr>k_mem := pk_put (c_parent c) (\<lambda>n. n\<lparr>n_name := nm'\<rparr>) (k_mem s2)\<rparr>)))
         else
           bind_o (pk_install_class (k_new s2) nm (k_mem s2) (k_root s2)) (\<lambda>(m, root).
             Some (Inr (False, c1\<lparr>c_parent := k_new s2\<rparr>,
               set_codebase (k_new s2) cb (s2\<lparr>k_mem := m, k_root := root, k_new := k_new s2 + 1\<rparr>))))))"

definition register_read :: "addr \<Rightarrow> addr \<Rightarrow> u8 list \<Rightarrow> u8 \<Rightarrow> u8 \<Rightarrow> u8 \<Rightarrow> u16 \<Rightarrow> lk_state \<Rightarrow> lk_state result option" where
  "register_read cb parent nm numargs ct rt moff s =
     bind_o (pk_register_method (k_new s) parent nm numargs ct rt moff 0 (k_mem s)) (\<lambda>(m, p).
       if p = 0 then Some (Inl Null_Deref)
       else Some (Inr (set_codebase p cb (s\<lparr>k_mem := m, k_new := k_new s + 1\<rparr>))))"

definition class_method :: "u8 list \<Rightarrow> addr \<Rightarrow> u8 \<Rightarrow> lk_local \<Rightarrow> lk_state \<Rightarrow> lk_step" where
  "class_method f cb t c s =
     (let (off, t1, l, s1) = read_length f False t (c_l c) (c_off c) s;
          c1 = c\<lparr>c_off := off, c_t := Some t1, c_l := l\<rparr>
      in if l \<le> 3 then Some (Inr (True, c1, s1))
         else
           let (ms, s2) = fread_bytes f 2 s1;
               (ns, s3) = fread_bytes f 1 s2;
               (bs, s4) = fread_bytes f (unat l - 3) s3;
               moff = set16 (c_moff c) ms;
               numargs = (case ns of [] \<Rightarrow> c_numargs c | b # _ \<Rightarrow> b)
           in bind_o (Some (buffer_string bs (unat l - 3))) (\<lambda>nm.
              bind_o (register_read cb (c_parent c) nm numargs 0 0 moff s4) (\<lambda>s5.
                Some (Inr (False, c1\<lparr>c_off := off + of_nat (length ms) + of_nat (length ns) + of_nat (length bs), c_moff := moff,
                  c_numargs := numargs\<rparr>, s5)))))"

text \<open>\<^verbatim>\<open>memcpy\<close> from the zeroed buffer of 16 bytes to the 16 parameter types.\<close>

definition set_params :: "addr \<Rightarrow> u8 list \<Rightarrow> nat \<Rightarrow> pk_mem \<Rightarrow> pk_mem result" where
  "set_params p args n m =
     (if 16 < n then Inl Out_Of_Bounds
      else Inr (pk_put p (\<lambda>x. x\<lparr>n_params := map Some (take n (args @ replicate 16 0)) @ drop n (n_params x)\<rparr>) m))"

definition class_imethod :: "u8 list \<Rightarrow> addr \<Rightarrow> u8 \<Rightarrow> lk_local \<Rightarrow> lk_state \<Rightarrow> lk_step" where
  "class_imethod f cb t c s =
     (let (off, t1, l, s1) = read_length f False t (c_l c) (c_off c) s;
          c1 = c\<lparr>c_off := off, c_t := Some t1, c_l := l\<rparr>
      in if l \<le> 3 then Some (Inr (True, c1, s1))
         else
           let (cs, s2) = fread_bytes f 1 s1;
               (rs, s3) = fread_bytes f 1 s2;
               (ns, s4) = fread_bytes f 1 s3;
               numargs = (case ns of [] \<Rightarrow> c_numargs c | b # _ \<Rightarrow> b);
               (as, s5) = fread_bytes f (unat numargs) s4;
               ct = set8 (c_call c) cs; rt = set8 (c_ret c) rs;
               off1 = off + of_nat (length cs) + of_nat (length rs) + of_nat (length ns) + of_nat (length as);
               c2 = c1\<lparr>c_off := off1, c_call := ct, c_ret := rt, c_numargs := numargs\<rparr>
           in if 16 < length as then Some (Inl Out_Of_Bounds)
              else if unat l \<le> 3 + unat numargs then Some (Inr (True, c2, s5))
              else
                let (bs, s6) = fread_bytes f (unat l - (3 + unat numargs)) s5
                in bind_o (Some (buffer_string bs (unat l - 3))) (\<lambda>nm.
                   case (ct, rt) of
                     (Some cv, Some rv) \<Rightarrow>
                       bind_o (register_read cb (c_parent c) nm numargs cv rv (c_moff c) s6) (\<lambda>s7.
                       bind_o (Some (set_params (k_new s6) as (unat numargs) (k_mem s7))) (\<lambda>m.
                         Some (Inr (False, c2\<lparr>c_off := off1 + of_nat (length bs)\<rparr>, s7\<lparr>k_mem := m\<rparr>))))
                   | _ \<Rightarrow> Some (Inl Undefined_Value)))"

definition class_step :: "u8 list \<Rightarrow> addr \<Rightarrow> lk_local \<Rightarrow> lk_state \<Rightarrow> lk_step" where
  "class_step f cb c s =
     (let (ts, s1) = fread_bytes f 1 s; c1 = c\<lparr>c_off := c_off c + of_nat (length ts)\<rparr>
      in case set8 (c_t c) ts of
           None \<Rightarrow> Some (Inl Undefined_Value)
         | Some t \<Rightarrow>
             if t AND 0x1F = ASN_TAG_CHSTRING then class_libname f cb t c1 s1
             else if t AND 0x1F = ASN_TAG_IA5STRING then class_ia5 f cb t c1 s1
             else if t AND 0x1F = ASN_TAG_OCTSTRING then class_method f cb t c1 s1
             else if t AND 0x1F = ASN_TAG_OBJDESC then class_imethod f cb t c1 s1
             else Some (Inr (False, c1\<lparr>c_off := 0, c_t := Some t\<rparr>, s1)))"

partial_function (option) class_loop ::
  "u8 list \<Rightarrow> addr \<Rightarrow> u16 \<Rightarrow> lk_local \<Rightarrow> lk_state \<Rightarrow> (u16 \<times> lk_state) result option" where
  "class_loop f cb e c s =
     (if c_off c < e then
        (case class_step f cb c s of
           None \<Rightarrow> None
         | Some r \<Rightarrow>
             (case r of
                Inl er \<Rightarrow> Some (Inl er)
              | Inr (ret, c', s') \<Rightarrow> if ret then Some (Inr (c_off c', s')) else class_loop f cb e c' s'))
      else Some (Inr (c_off c, s)))"

definition lk_decode_class_header :: "u8 list \<Rightarrow> u16 \<Rightarrow> u16 \<Rightarrow> addr \<Rightarrow> lk_state \<Rightarrow> (u16 \<times> lk_state) result option" where
  "lk_decode_class_header f off len cb s =
     class_loop f cb (off + len)
       \<lparr>c_off = off, c_t = None, c_l = 0, c_numargs = 0, c_moff = 0, c_call = None, c_ret = None, c_parent = 0\<rparr>
       (s\<lparr>k_pos := unat off\<rparr>)"

definition lk_decode_class_seq :: "u8 list \<Rightarrow> u16 \<Rightarrow> addr \<Rightarrow> lk_state \<Rightarrow> (u16 \<times> lk_state) result option" where
  "lk_decode_class_seq f off cb s =
     (let (ts, s1) = fread_bytes f 1 (s\<lparr>k_pos := unat off\<rparr>); off1 = off + of_nat (length ts)
      in case ts of
           [] \<Rightarrow> Some (Inl Undefined_Value)
         | t # _ \<Rightarrow>
             if t AND 0x1F = ASN_TAG_SEQ then
               (let (off2, t1, l, s2) = read_length f False t 0 off1 s1 in lk_decode_class_header f off2 l cb s2)
             else if t AND 0x1F = ASN_TAG_OCTSTRING \<or> t AND 0x1F = ASN_TAG_INTEGER then
               (let (off2, t1, l, s2) = read_length f False t 0 off1 s1 in Some (Inr (off2 + l, s2)))
             else Some (Inr (0, s1)))"

section \<open>The file\<close>

partial_function (option) header_loop :: "u8 list \<Rightarrow> addr \<Rightarrow> u16 \<Rightarrow> u16 \<Rightarrow> lk_state \<Rightarrow> (u16 \<times> lk_state) result option" where
  "header_loop f cb e off s =
     (if off < e then
        (case lk_decode_class_seq f off cb s of
           None \<Rightarrow> None
         | Some r \<Rightarrow> (case r of Inl er \<Rightarrow> Some (Inl er) | Inr (off', s') \<Rightarrow> header_loop f cb e off' s'))
      else Some (Inr (off, s)))"

definition lk_decode_header_seq :: "u8 list \<Rightarrow> u16 \<Rightarrow> addr \<Rightarrow> lk_state \<Rightarrow> (u16 \<times> lk_state) result option" where
  "lk_decode_header_seq f off cb s =
     (let (ts, s1) = fread_bytes f 1 (s\<lparr>k_pos := unat off\<rparr>); off1 = off + of_nat (length ts)
      in case ts of
           [] \<Rightarrow> Some (Inl Undefined_Value)
         | t # _ \<Rightarrow>
             if t AND 0x1F = ASN_TAG_SEQ then
               (let (off2, t1, l, s2) = read_length f False t 0 off1 s1 in header_loop f cb (off2 + l) off2 s2)
             else Some (Inr (0, s1)))"

text \<open>The code: the block \<^verbatim>\<open>malloc\<close> gives, with the bytes that could be read, or none.\<close>

definition lk_decode_data_seq :: "u8 list \<Rightarrow> u16 \<Rightarrow> lk_state \<Rightarrow> (u8 option list option \<times> lk_state) result" where
  "lk_decode_data_seq f off s =
     (let (ts, s1) = fread_bytes f 1 (s\<lparr>k_pos := unat off\<rparr>); off1 = off + of_nat (length ts)
      in case ts of
           [] \<Rightarrow> Inl Undefined_Value
         | t # _ \<Rightarrow>
             if t AND 0x1F = ASN_TAG_BMPSTRING then
               (let (off2, t1, l, s2) = read_length f True t 0 off1 s1;
                    (bs, s3) = fread_bytes f (unat l) s2
                in Inr (Some (map Some bs @ replicate (unat l - length bs) None), s3))
             else Inr (None, s1))"

text \<open>\<^verbatim>\<open>lk_decode_file\<close> on the bytes of a file; \<open>cb\<close> is the address of the block for the code.\<close>

definition lk_decode_file :: "u8 list \<Rightarrow> addr \<Rightarrow> lk_state \<Rightarrow> (u8 option list option \<times> lk_state) result option" where
  "lk_decode_file f cb s =
     (let (ts, s1) = fread_bytes f 1 (s\<lparr>k_pos := 0\<rparr>); off1 = of_nat (length ts)
      in case ts of
           [] \<Rightarrow> Some (Inl Undefined_Value)
         | t # _ \<Rightarrow>
             let (off2, s2) =
                   (if t AND 0x1F = ASN_TAG_SEQ then
                      (let (off', t1, l, s') = read_length f True t 0 off1 s1 in (off' + l, s'))
                    else (off1, s1))
             in bind_o (if off2 \<noteq> 0 then Some (lk_decode_data_seq f off2 s2) else Some (Inr (None, s2))) (\<lambda>(code, s3).
                bind_o (lk_decode_header_seq f 0 (if code = None then 0 else cb) s3) (\<lambda>(off3, s4).
                  Some (Inr (code, s4)))))"

text \<open>
  \<^verbatim>\<open>lk_decode_method_header\<close>, a method on its own, of a class or of an interface; every other tag registers a
  method without a name. The buffer is zeroed once and the name has no end of its own.
\<close>

definition lk_decode_method_header :: "addr \<Rightarrow> u8 list \<Rightarrow> u16 \<Rightarrow> addr \<Rightarrow> lk_state \<Rightarrow> (u16 \<times> lk_state) result option" where
  "lk_decode_method_header parent f off cb s =
     (let (ts, s1) = fread_bytes f 1 (s\<lparr>k_pos := unat off\<rparr>); off1 = off + of_nat (length ts);
          finish = (\<lambda>off' bs numargs ct rt moff args s'.
            if 4096 < length bs \<or> length bs = 4096 \<and> 0 \<notin> set bs then Some (Inl Out_Of_Bounds)
            else case (ct, rt) of
                (Some cv, Some rv) \<Rightarrow>
                  bind_o (register_read cb parent (takeWhile (\<lambda>b. b \<noteq> 0) bs) numargs cv rv moff s') (\<lambda>s2.
                  bind_o (Some (set_params (k_new s') args (unat numargs) (k_mem s2))) (\<lambda>m.
                    Some (Inr (off', s2\<lparr>k_mem := m\<rparr>))))
              | _ \<Rightarrow> Some (Inl Undefined_Value))
      in case ts of
           [] \<Rightarrow> Some (Inl Undefined_Value)
         | t # _ \<Rightarrow>
             if t AND 0x1F = ASN_TAG_OCTSTRING then
               (let (off2, t1, l, s2) = read_length f False t 0 off1 s1 in
                if l \<le> 3 then Some (Inr (off2, s2))
                else
                  let (ms, s3) = fread_bytes f 2 s2;
                      (ns, s4) = fread_bytes f 1 s3;
                      (bs, s5) = fread_bytes f (unat l) s4
                  in finish (off2 + of_nat (length ms) + of_nat (length ns) + of_nat (length bs)) bs
                       (case ns of [] \<Rightarrow> 0 | b # _ \<Rightarrow> b) None None (set16 0 ms) [] s5)
             else if t AND 0x1F = ASN_TAG_OBJDESC then
               (let (off2, t1, l, s2) = read_length f False t 0 off1 s1 in
                if l \<le> 3 then Some (Inr (off2, s2))
                else
                  let (cs, s3) = fread_bytes f 1 s2;
                      (rs, s4) = fread_bytes f 1 s3;
                      (ns, s5) = fread_bytes f 1 s4;
                      numargs = (case ns of [] \<Rightarrow> 0 | b # _ \<Rightarrow> b);
                      (as, s6) = fread_bytes f (unat numargs) s5;
                      (bs, s7) = fread_bytes f (unat l) s6
                  in if 16 < length as then Some (Inl Out_Of_Bounds)
                     else finish (off2 + of_nat (length cs) + of_nat (length rs) + of_nat (length ns) + of_nat (length as) +
                            of_nat (length bs)) bs numargs (set8 None cs) (set8 None rs) 0 as s7)
             else finish off1 [] 0 None None 0 [] s1)"

section \<open>Clearing\<close>

text \<open>
  \<^verbatim>\<open>lk_clear_entries\<close>: the addresses in the order they are freed. Every node is read as a class: the properties
  of a try-catch block are bytes that were never set, those of a method the first bytes of its name.
\<close>

partial_function (option) free_props :: "pk_mem \<Rightarrow> addr \<Rightarrow> addr list option" where
  "free_props m it =
     (if it = 0 then Some [] else Option.bind (free_props m (n_next (m it))) (\<lambda>xs. Some (it # xs)))"

partial_function (option) clear_loop :: "pk_mem \<Rightarrow> addr \<Rightarrow> addr list result option" where
  "clear_loop m it =
     (if it = 0 then Some (Inr [])
      else if n_tag (m it) = PK_TAG_TCBLOCK \<or> n_tag (m it) = PK_TAG_METHOD \<and> n_name (m it) \<noteq> [] then Some (Inl Undefined_Value)
      else Option.bind
        (if n_tag (m it) \<noteq> PK_TAG_METHOD \<and> n_properties (m it) \<noteq> 0 then free_props m (n_properties (m it)) else Some [])
        (\<lambda>ps. Option.bind (clear_loop m (n_next (m it)))
          (\<lambda>r. case r of Inl e \<Rightarrow> Some (Inl e) | Inr xs \<Rightarrow> Some (Inr (ps @ it # xs)))))"

definition lk_clear_entries :: "lk_state \<Rightarrow> (addr list \<times> lk_state) result option" where
  "lk_clear_entries s = bind_o (clear_loop (k_mem s) (k_root s)) (\<lambda>xs. Some (Inr (xs, s\<lparr>k_root := 0\<rparr>)))"

section \<open>Reading what was written\<close>

definition at :: "u8 list \<Rightarrow> nat \<Rightarrow> u8 list \<Rightarrow> bool" where
  "at f p bs \<longleftrightarrow> take (length bs) (drop p f) = bs"

lemma at_append: "at f p (xs @ ys) \<longleftrightarrow> at f p xs \<and> at f (p + length xs) ys"
proof -
  have "at f p xs" if "at f p (xs @ ys)"
  proof -
    have "take (length xs) (take (length xs + length ys) (drop p f)) = xs" using that by (simp add: at_def)
    then show ?thesis by (simp add: at_def)
  qed
  then show ?thesis by (auto simp: at_def take_add ac_simps)
qed

lemma fread_at: "at f (k_pos s) bs \<Longrightarrow> n = length bs \<Longrightarrow> fread_bytes f n s = (bs, s\<lparr>k_pos := k_pos s + n\<rparr>)"
  by (simp add: at_def fread_bytes_def)

lemma fread_from:
  assumes "at f q bs" "n = length bs" "q' = q + n"
  shows "fread_bytes f n (s\<lparr>k_pos := q\<rparr>) = (bs, s\<lparr>k_pos := q'\<rparr>)"
  using fread_at [of f "s\<lparr>k_pos := q\<rparr>" bs n] assms by simp

lemma read_length_from:
  assumes "at f q [b]" "b AND 0x80 = 0" "q' = q + 1"
  shows "read_length f sw t l off (s\<lparr>k_pos := q\<rparr>) = (off + 1, b, ucast b, s\<lparr>k_pos := q'\<rparr>)"
  using assms fread_from [OF assms(1), of 1 q' s] by (simp add: read_length_def)

lemma tlv_short:
  assumes "length bs < 127"
  shows "tlv t bs = [t, of_nat (length bs)] @ bs" "(of_nat (length bs) :: u8) AND 0x80 = 0"
    "unat (of_nat (length bs) :: u8) = length bs" "ucast (of_nat (length bs) :: u8) = (of_nat (length bs) :: u16)"
proof -
  have l: "(of_nat (length bs) :: u16) < 127" using assms by (simp add: word_less_nat_alt unat_of_nat)
  show u: "unat (of_nat (length bs) :: u8) = length bs" using assms by (simp add: unat_of_nat)
  show "ucast (of_nat (length bs) :: u8) = (of_nat (length bs) :: u16)"
    using assms by (simp add: word_unat_eq_iff unat_of_nat unsigned_ucast_eq take_bit_nat_eq_self)
  show "tlv t bs = [t, of_nat (length bs)] @ bs"
    using l assms by (simp add: tlv_def tlv_header_def word_unat_eq_iff unat_of_nat unsigned_ucast_eq take_bit_nat_def)
  show "(of_nat (length bs) :: u8) AND 0x80 = 0"
  proof (rule bit_word_eqI)
    fix i assume "i < LENGTH(8)"
    have "\<not> bit (length bs) 7" using assms by (simp add: bit_iff_odd)
    moreover have "bit (0x80 :: u8) i \<longleftrightarrow> i = 7"
      using \<open>i < LENGTH(8)\<close> by (auto simp: bit_simps less_Suc_eq numeral_eq_Suc)
    ultimately show "bit ((of_nat (length bs) :: u8) AND 0x80) i = bit (0 :: u8) i"
      by (auto simp: bit_simps)
  qed
qed

lemma unat_short: "length bs < 127 \<Longrightarrow> unat (of_nat (length bs) :: u16) = length bs"
  by (simp add: unat_of_nat)

lemma length_be16 [simp]: "length (be16 x) = 2"
  by (simp add: be16_def)

lemma set16_be16 [simp]: "set16 l (be16 x) = swap16 x"
  unfolding set16_def be16_def swap16_def by simp (rule bit_word_eqI, auto simp: bit_simps dest: bit_imp_le_length)

lemma swap16_swap16: "swap16 (swap16 x) = x"
proof (rule bit_word_eqI)
  fix i assume "i < LENGTH(16)"
  then show "bit (swap16 (swap16 x)) i = bit x i"
    by (cases "i < 8") (auto simp: swap16_def bit_simps dest: bit_imp_le_length)
qed

text \<open>A store in the course of decoding: a package in nodes of its own, and addresses that were not used yet.\<close>

definition lk_ok :: "lk_state \<Rightarrow> (addr \<times> addr list) list \<Rightarrow> pobj list \<Rightarrow> bool" where
  "lk_ok s ls objs \<longleftrightarrow> pk_layout (k_mem s) (k_root s) ls objs \<and> (\<forall>a \<in> set (pk_nodes ls). a < k_new s) \<and> 0 < k_new s"

lemma lk_ok_new: "lk_ok s ls objs \<Longrightarrow> k_new s \<noteq> 0 \<and> k_new s \<notin> set (pk_nodes ls)"
  by (auto simp: lk_ok_def)

lemma lk_ok_pos [simp]: "lk_ok (s\<lparr>k_pos := p\<rparr>) ls objs = lk_ok s ls objs"
  by (simp add: lk_ok_def)

lemma holds_meth_codebase [simp]: "holds_meth iface x (n\<lparr>n_codebase := cb\<rparr>) pm = holds_meth iface x n pm"
  by (simp add: holds_meth_def)

lemma layout_codebase [simp]:
  "pk_layout (pk_put a (\<lambda>n. n\<lparr>n_codebase := cb\<rparr>) m) root ls objs = pk_layout m root ls objs"
proof -
  let ?m = "pk_put a (\<lambda>n. n\<lparr>n_codebase := cb\<rparr>) m"
  have nx: "n_next (?m x) = n_next (m x)" "n_tag (?m x) = n_tag (m x)" "n_name (?m x) = n_name (m x)"
    "n_libname (?m x) = n_libname (m x)" "n_properties (?m x) = n_properties (m x)" "n_start (?m x) = n_start (m x)"
    "n_cblock (?m x) = n_cblock (m x)" "n_numargs (?m x) = n_numargs (m x)" "holds_meth iface y (?m x) pm = holds_meth iface y (m x) pm"
    for x iface y pm by (auto simp: pk_put_def)
  have l: "links ?m p xs = links m p xs" for p xs by (rule links_cong) (simp add: nx)
  have "(\<lambda>y. holds_meth iface x (?m y)) = (\<lambda>y. holds_meth iface x (m y))" for iface x by (simp add: fun_eq_iff nx)
  then have "holds_at ?m lx ob = holds_at m lx ob" for lx ob by (cases lx; cases ob) (simp_all add: nx l)
  then have "holds_at ?m = holds_at m" by blast
  then show ?thesis by (simp add: pk_layout_def l)
qed

lemma lk_ok_codebase [simp]: "lk_ok (set_codebase a cb s) ls objs = lk_ok s ls objs"
  by (simp add: lk_ok_def set_codebase_def)

lemma set_codebase_pos [simp]: "k_pos (set_codebase a cb s) = k_pos s" "k_new (set_codebase a cb s) = k_new s"
  by (simp_all add: set_codebase_def)

lemma layout_rename:
  assumes "pk_layout m root (us @ [(x, [])]) (os @ [PIface lib nm0 []])"
  shows "pk_layout (pk_put x (\<lambda>n. n\<lparr>n_name := nm\<rparr>) m) root (us @ [(x, [])]) (os @ [PIface lib nm []])"
proof -
  let ?m = "pk_put x (\<lambda>n. n\<lparr>n_name := nm\<rparr>) m"
  have len: "length us = length os"
    using assms by (auto simp: pk_layout_def dest: list_all2_lengthD)
  have h: "list_all2 (holds_at m) us os" "holds_at m (x, []) (PIface lib nm0 [])" and d: "distinct (pk_nodes us @ [x])"
    and l: "links m root (map fst us @ [x])"
    using assms len by (auto simp: pk_layout_def list_all2_append)
  have "holds_at ?m (z, qs) o'" if "(z, qs) \<in> set us" "holds_at m (z, qs) o'" for z qs o'
  proof -
    have "x \<notin> set (z # qs)" using pk_nodes_mem [OF that(1)] d by auto
    then have "?m y = m y" if "y \<in> set (z # qs)" for y using that by (auto simp: pk_put_def)
    then show ?thesis using holds_at_cong [of qs ?m m z "n_next (m z)" o'] that(2) by simp
  qed
  then have "list_all2 (holds_at ?m) us os" by (intro list.rel_mono_strong [OF h(1)]) auto
  moreover have "links ?m root (map fst us @ [x])" using l by (subst links_cong [where m = m]) (auto simp: pk_put_def)
  ultimately show ?thesis using h(2) d by (auto simp: pk_layout_def pk_put_def intro!: list_all2_appendI)
qed

text \<open>A new method of the object that was read last, with its parameters.\<close>

lemma register_read_ok:
  assumes ok: "lk_ok s (us @ [(x, ps)]) (os @ [ob])" and ob: "obj_name ob \<noteq> None" and "length nm < 256" "length args = k" "k \<le> 16"
    and pm: "\<And>nd. nd = (method_node x nm na ct rt moff 0)\<lparr>n_codebase := cb,
        n_params := map Some args @ drop k (n_params (pk_blank PK_TAG_METHOD))\<rparr> \<Longrightarrow> holds_meth (is_iface ob) x nd pm"
  shows "\<exists>s' m. register_read cb x nm na ct rt moff s = Some (Inr s') \<and> k_pos s' = k_pos s \<and>
    set_params (k_new s) args k (k_mem s') = Inr m \<and>
    lk_ok (s'\<lparr>k_mem := m\<rparr>) (us @ [(x, ps @ [k_new s])]) (os @ [add_meth pm ob])"
proof -
  define a where "a = k_new s"
  define nd where "nd = method_node x nm na ct rt moff 0"
  define nd' where "nd' = nd\<lparr>n_codebase := cb, n_params := map Some args @ drop k (n_params (pk_blank PK_TAG_METHOD))\<rparr>"
  have L: "pk_layout (k_mem s) (k_root s) (us @ [(x, ps)]) (os @ [ob])" using ok by (simp add: lk_ok_def)
  then have len: "length us = length os" by (auto simp: pk_layout_def dest: list_all2_lengthD)
  have h: "holds_at (k_mem s) (x, ps) ob" and lk: "links (k_mem s) (k_root s) (map fst us @ [x])"
    using L len by (auto simp: pk_layout_def list_all2_append)
  have x0: "x \<noteq> 0" using links_nonzero [OF lk] by simp
  have props: "links (k_mem s) (n_properties (k_mem s x)) ps" using h ob by (cases ob) auto
  have a: "a \<noteq> 0" "a \<notin> set (pk_nodes (us @ [(x, ps)]))" using lk_ok_new [OF ok] by (auto simp: a_def)
  then have ax: "a \<notin> set (x # ps)" by simp
  have "pk_register_method a x nm na ct rt moff 0 (k_mem s) = Some (Inr (attach x ps a ((k_mem s)(a := nd)), a))"
    unfolding nd_def by (rule register_method_attach [OF props ax x0 assms(3)])
  then have 1: "register_read cb x nm na ct rt moff s =
      Some (Inr (set_codebase a cb (s\<lparr>k_mem := attach x ps a ((k_mem s)(a := nd)), k_new := a + 1\<rparr>)))"
    using a by (simp add: register_read_def a_def)
  have 2: "set_params a args k (k_mem (set_codebase a cb (s\<lparr>k_mem := attach x ps a ((k_mem s)(a := nd)), k_new := a + 1\<rparr>))) =
      Inr (attach x ps a ((k_mem s)(a := nd')))"
    using assms(4,5) attach_upd [OF ax, of "k_mem s" nd nd'] attach_new [OF ax, of "k_mem s" nd]
    by (simp add: set_params_def set_codebase_def pk_put_def nd'_def nd_def method_node_def)
  have "\<nexists>st cb k. ob = PBlock st cb k" using ob by auto
  moreover have "n_next nd' = 0" by (simp add: nd'_def nd_def method_node_def pk_blank_def)
  ultimately have "pk_layout (attach x ps a ((k_mem s)(a := nd'))) (k_root s) (us @ [(x, ps @ [a])]) (os @ [add_meth pm ob])"
    using attach_layout [OF L len _ a _ pm] by (simp add: nd'_def nd_def)
  then have "lk_ok ((set_codebase a cb (s\<lparr>k_mem := attach x ps a ((k_mem s)(a := nd)), k_new := a + 1\<rparr>))
      \<lparr>k_mem := attach x ps a ((k_mem s)(a := nd'))\<rparr>) (us @ [(x, ps @ [a])]) (os @ [add_meth pm ob])"
    using ok by (auto simp: lk_ok_def set_codebase_def a_def intro: less_SucI)
  with 1 2 show ?thesis by (simp add: set_codebase_def flip: a_def)
qed

lemma ucast_ucast16: "ucast (ucast (x :: u16) :: 32 word) = x"
  by (rule bit_word_eqI) (auto simp: bit_simps)

text \<open>The variables of the loop at position \<open>p\<close>.\<close>

definition reads :: "nat \<Rightarrow> lk_local \<Rightarrow> lk_state \<Rightarrow> bool" where
  "reads p c s \<longleftrightarrow> c_off c = of_nat p \<and> k_pos s = p"

text \<open>What the linker makes of a method.\<close>

definition dec_cmeth :: "pmeth \<Rightarrow> pmeth" where
  "dec_cmeth pm = pm\<lparr>pm_offset := swap16 (pm_offset pm), pm_event := 0xFF, pm_alias := [], pm_call := 0, pm_ret := 0\<rparr>"

definition dec_imeth :: "pmeth \<Rightarrow> pmeth" where
  "dec_imeth pm = pm\<lparr>pm_offset := 0, pm_event := 0xFF, pm_alias := []\<rparr>"

definition good_name :: "u8 list \<Rightarrow> bool" where
  "good_name nm \<longleftrightarrow> nm \<noteq> [] \<and> 0 \<notin> set nm"

lemma string_read: "0 \<notin> set bs \<Longrightarrow> length bs < 127 \<Longrightarrow> z < 4096 \<Longrightarrow> buffer_string bs z = Inr bs"
  by (auto simp: buffer_string_def takeWhile_eq_all_conv)

lemma tag_masks:
  "ASN_TAG_CHSTRING AND 0x1F = ASN_TAG_CHSTRING" "ASN_TAG_IA5STRING AND 0x1F = ASN_TAG_IA5STRING"
  "ASN_TAG_OCTSTRING AND 0x1F = ASN_TAG_OCTSTRING" "ASN_TAG_OBJDESC AND 0x1F = ASN_TAG_OBJDESC"
  "ASN_TAG_INTEGER AND 0x1F = ASN_TAG_INTEGER" "ASN_TAG_BMPSTRING AND 0x1F = ASN_TAG_BMPSTRING"
  "(ASN_TAG_SEQ OR ASN_TAG_CONSTRUCTED) AND 0x1F = ASN_TAG_SEQ"
  by (simp_all add: asn_tags)

lemma class_step_tag:
  assumes "at f (k_pos s) [t]"
  shows "class_step f cb c s =
    (let c1 = c\<lparr>c_off := c_off c + 1\<rparr>; s1 = s\<lparr>k_pos := k_pos s + 1\<rparr> in
     if t AND 0x1F = ASN_TAG_CHSTRING then class_libname f cb t c1 s1
     else if t AND 0x1F = ASN_TAG_IA5STRING then class_ia5 f cb t c1 s1
     else if t AND 0x1F = ASN_TAG_OCTSTRING then class_method f cb t c1 s1
     else if t AND 0x1F = ASN_TAG_OBJDESC then class_imethod f cb t c1 s1
     else Some (Inr (False, c1\<lparr>c_off := 0, c_t := Some t\<rparr>, s1)))"
  by (simp add: class_step_def fread_at [OF assms] set8_def Let_def)

lemma class_method_step:
  assumes r: "reads p c s" and at: "at f p (enc_cmeth pm)" and nm: "good_name (pm_name pm)" "length (pm_name pm) + 3 < 127"
    and ok: "lk_ok s (us @ [(x, ps)]) (os @ [PClass cn ms])" and x: "c_parent c = x"
  shows "\<exists>c' s'. class_step f cb c s = Some (Inr (False, c', s')) \<and> reads (p + length (enc_cmeth pm)) c' s' \<and> c_parent c' = x \<and>
    lk_ok s' (us @ [(x, ps @ [k_new s])]) (os @ [PClass cn (ms @ [dec_cmeth pm])])"
proof -
  define n where "n = length (pm_name pm)"
  define b where "b = be16 (pm_offset pm) @ [pm_numargs pm] @ pm_name pm"
  define L :: u8 where "L = of_nat (length b)"
  have len: "length b = n + 3" "length b < 127" using nm(2) by (simp_all add: be16_def b_def n_def)
  note short = tlv_short [OF len(2), folded L_def]
  have E: "enc_cmeth pm = [ASN_TAG_OCTSTRING] @ [L] @ be16 (pm_offset pm) @ [pm_numargs pm] @ pm_name pm"
    using short(1) [of ASN_TAG_OCTSTRING] by (simp add: enc_cmeth_def b_def)
  have pos: "k_pos s = p" "c_off c = of_nat p" using r by (simp_all add: reads_def)
  have at1: "at f p [ASN_TAG_OCTSTRING]" "at f (p + 1) [L]" "at f (p + 2) (be16 (pm_offset pm))" "at f (p + 4) [pm_numargs pm]"
      "at f (p + 5) (pm_name pm)"
    using at unfolding E at_append by (simp_all add: be16_def numeral_eq_Suc)
  have l: "unat (of_nat (length b) :: u16) = n + 3" unfolding unat_short [OF len(2)] by (rule len(1))
  have l3: "\<not> (of_nat (length b) :: u16) \<le> 3" using l nm(1) by (simp add: word_le_nat_alt good_name_def n_def)
  have str: "buffer_string (pm_name pm) n = Inr (pm_name pm)" by (rule string_read) (use nm in \<open>auto simp: good_name_def n_def\<close>)
  let ?s4 = "s\<lparr>k_pos := p + 5 + n\<rparr>"
  have ok4: "lk_ok ?s4 (us @ [(x, ps)]) (os @ [PClass cn ms])" using ok by simp
  have "obj_name (PClass cn ms) \<noteq> None" "length (pm_name pm) < 256" using nm by simp_all
  from register_read_ok [where s = ?s4 and args = "[]" and k = 0 and na = "pm_numargs pm" and ct = 0 and rt = 0
      and moff = "swap16 (pm_offset pm)" and cb = cb and pm = "dec_cmeth pm", OF ok4 this] obtain s' m where
    s': "register_read cb x (pm_name pm) (pm_numargs pm) 0 0 (swap16 (pm_offset pm)) ?s4 = Some (Inr s')" "k_pos s' = p + 5 + n"
      "set_params (k_new s) [] 0 (k_mem s') = Inr m"
      "lk_ok (s'\<lparr>k_mem := m\<rparr>) (us @ [(x, ps @ [k_new s])]) (os @ [PClass cn (ms @ [dec_cmeth pm])])"
    by (auto simp: holds_meth_def method_node_def dec_cmeth_def pk_blank_def ucast_ucast16)
  have "m = k_mem s'" using s'(3) by (simp add: set_params_def pk_put_def)
  then have ok': "lk_ok s' (us @ [(x, ps @ [k_new s])]) (os @ [PClass cn (ms @ [dec_cmeth pm])])" using s'(4) by simp
  note reads = read_length_from [OF at1(2) short(2), of "p + 2"] fread_from [OF at1(3), of 2 "p + 4"] fread_from [OF at1(4), of 1 "p + 5"]
    fread_from [OF at1(5) n_def refl]
  define c1 where "c1 = c\<lparr>c_off := c_off c + 1\<rparr>"
  have "class_step f cb c s = class_method f cb ASN_TAG_OCTSTRING c1 (s\<lparr>k_pos := p + 1\<rparr>)"
    using pos by (simp add: class_step_tag [OF at1(1) [folded pos(1)]] tag_masks Let_def asn_tags c1_def)
  also have "\<dots> = Some (Inr (False, c1\<lparr>c_t := Some L, c_l := of_nat (length b), c_off := c_off c1 + 1 + 2 + 1 + of_nat n,
      c_moff := swap16 (pm_offset pm), c_numargs := pm_numargs pm\<rparr>, s'))"
    using reads l l3 x by (simp add: class_method_def Let_def short(4) str s'(1) c1_def flip: n_def)
  finally have "class_step f cb c s = Some (Inr (False, c1\<lparr>c_t := Some L, c_l := of_nat (length b), c_off := c_off c1 + 1 + 2 + 1 + of_nat n,
      c_moff := swap16 (pm_offset pm), c_numargs := pm_numargs pm\<rparr>, s'))" .
  moreover have "length (enc_cmeth pm) = 5 + n" by (simp add: E be16_def n_def)
  ultimately show ?thesis using ok' s'(2) pos x by (auto simp: reads_def c1_def)
qed

lemma class_imethod_step:
  assumes r: "reads p c s" and at: "at f p (enc_imeth pm)" and nm: "good_name (pm_name pm)"
    and len: "length (pm_params pm) + length (pm_name pm) + 3 < 127" "length (pm_params pm) \<le> 16" "unat (pm_numargs pm) = length (pm_params pm)"
    and ok: "lk_ok s (us @ [(x, ps)]) (os @ [PIface lib cn ms])" and x: "c_parent c = x" "c_moff c = 0"
  shows "\<exists>c' s'. class_step f cb c s = Some (Inr (False, c', s')) \<and> reads (p + length (enc_imeth pm)) c' s' \<and> c_parent c' = x \<and>
    c_moff c' = 0 \<and> lk_ok s' (us @ [(x, ps @ [k_new s])]) (os @ [PIface lib cn (ms @ [dec_imeth pm])])"
proof -
  define n where "n = length (pm_name pm)"
  define k where "k = length (pm_params pm)"
  define b where "b = [pm_call pm, pm_ret pm, pm_numargs pm] @ pm_params pm @ pm_name pm"
  define L :: u8 where "L = of_nat (length b)"
  have lb: "length b = n + k + 3" "length b < 127" using len(1) by (simp_all add: b_def n_def k_def)
  note short = tlv_short [OF lb(2), folded L_def]
  have E: "enc_imeth pm = [ASN_TAG_OBJDESC] @ [L] @ [pm_call pm] @ [pm_ret pm] @ [pm_numargs pm] @ pm_params pm @ pm_name pm"
    using short(1) [of ASN_TAG_OBJDESC] by (simp add: enc_imeth_def b_def)
  have pos: "k_pos s = p" "c_off c = of_nat p" using r by (simp_all add: reads_def)
  have at1: "at f p [ASN_TAG_OBJDESC]" "at f (p + 1) [L]" "at f (p + 2) [pm_call pm]" "at f (p + 3) [pm_ret pm]"
      "at f (p + 4) [pm_numargs pm]" "at f (p + 5) (pm_params pm)" "at f (p + 5 + k) (pm_name pm)"
    using at unfolding E at_append by (simp_all add: k_def numeral_eq_Suc)
  have l: "unat (of_nat (length b) :: u16) = n + k + 3" unfolding unat_short [OF lb(2)] by (rule lb(1))
  have n0: "0 < n" using nm by (simp add: good_name_def n_def)
  have l3: "\<not> (of_nat (length b) :: u16) \<le> 3" using l n0 by (simp add: word_le_nat_alt)
  have na: "unat (pm_numargs pm) = k" using len(3) by (simp add: k_def)
  then have na16: "pm_numargs pm \<le> 16" using len(2) by (simp add: word_le_nat_alt k_def)
  have str: "buffer_string (pm_name pm) (n + k) = Inr (pm_name pm)"
    by (rule string_read) (use nm len in \<open>auto simp: good_name_def n_def k_def\<close>)
  let ?s6 = "s\<lparr>k_pos := p + 5 + k + n\<rparr>"
  have ok6: "lk_ok ?s6 (us @ [(x, ps)]) (os @ [PIface lib cn ms])" using ok by simp
  have hm: "holds_meth True x ((method_node x (pm_name pm) (pm_numargs pm) (pm_call pm) (pm_ret pm) 0 0)\<lparr>n_codebase := cb,
      n_params := map Some (pm_params pm) @ drop k (n_params (pk_blank PK_TAG_METHOD))\<rparr>) (dec_imeth pm)"
    by (simp add: holds_meth_def method_node_def dec_imeth_def pk_blank_def na16 len(3))
  have "obj_name (PIface lib cn ms) \<noteq> None" "length (pm_name pm) < 256" "length (pm_params pm) = k" "k \<le> 16"
    using len by (simp_all add: k_def)
  from register_read_ok [where s = ?s6 and args = "pm_params pm" and k = k and na = "pm_numargs pm" and ct = "pm_call pm"
      and rt = "pm_ret pm" and moff = 0 and cb = cb and pm = "dec_imeth pm", OF ok6 this] obtain s' m where
    s': "register_read cb x (pm_name pm) (pm_numargs pm) (pm_call pm) (pm_ret pm) 0 ?s6 = Some (Inr s')" "k_pos s' = p + 5 + k + n"
      "set_params (k_new s) (pm_params pm) k (k_mem s') = Inr m"
      "lk_ok (s'\<lparr>k_mem := m\<rparr>) (us @ [(x, ps @ [k_new s])]) (os @ [PIface lib cn (ms @ [dec_imeth pm])])"
    using hm by auto
  note reads = read_length_from [OF at1(2) short(2), of "p + 2"] fread_from [OF at1(3), of 1 "p + 3"] fread_from [OF at1(4), of 1 "p + 4"]
    fread_from [OF at1(5), of 1 "p + 5"] fread_from [OF at1(6) k_def refl] fread_from [OF at1(7) n_def refl]
  define c1 where "c1 = c\<lparr>c_off := c_off c + 1\<rparr>"
  have "class_step f cb c s = class_imethod f cb ASN_TAG_OBJDESC c1 (s\<lparr>k_pos := p + 1\<rparr>)"
    using pos by (simp add: class_step_tag [OF at1(1) [folded pos(1)]] tag_masks Let_def asn_tags c1_def)
  also have "\<dots> = Some (Inr (False, c1\<lparr>c_t := Some L, c_l := of_nat (length b), c_call := Some (pm_call pm), c_ret := Some (pm_ret pm),
      c_numargs := pm_numargs pm, c_off := c_off c1 + 1 + 1 + 1 + 1 + of_nat k + of_nat n\<rparr>, s'\<lparr>k_mem := m\<rparr>))"
    using reads l l3 x n0 len(2) by (simp add: class_imethod_def Let_def short(4) str s'(1,3) c1_def set8_def na flip: n_def k_def)
  finally have "class_step f cb c s = Some (Inr (False, c1\<lparr>c_t := Some L, c_l := of_nat (length b), c_call := Some (pm_call pm),
      c_ret := Some (pm_ret pm), c_numargs := pm_numargs pm, c_off := c_off c1 + 1 + 1 + 1 + 1 + of_nat k + of_nat n\<rparr>, s'\<lparr>k_mem := m\<rparr>))" .
  moreover have "length (enc_imeth pm) = 5 + k + n" by (simp add: E n_def k_def)
  ultimately show ?thesis using s'(2,4) pos x by (auto simp: reads_def c1_def)
qed

text \<open>Names start an object; the name of an interface follows that of its library.\<close>

lemma install_class_ok:
  assumes ok: "lk_ok s ls objs" and "length nm < 256"
  shows "\<exists>m r. pk_install_class (k_new s) nm (k_mem s) (k_root s) = Some (Inr (m, r)) \<and>
    lk_ok (s\<lparr>k_mem := m, k_root := r, k_new := k_new s + 1\<rparr>) (ls @ [(k_new s, [])]) (objs @ [PClass nm []])"
proof -
  let ?nd = "(pk_blank PK_TAG_CLASS)\<lparr>n_name := nm\<rparr>"
  have L: "pk_layout (k_mem s) (k_root s) ls objs" using ok by (simp add: lk_ok_def)
  obtain m r where "pk_add_object ((k_mem s)(k_new s := ?nd)) (k_root s) (k_new s) = Some (m, r)"
      "pk_layout m r (ls @ [(k_new s, [])]) (objs @ [PClass nm []])"
    using add_object_layout [OF L, of "k_new s" ?nd "PClass nm []"] lk_ok_new [OF ok] by (auto simp: pk_blank_def)
  with assms show ?thesis
    by (auto simp: pk_install_class_def pk_create_class_def strcpy_to_def lk_ok_def intro: less_SucI)
qed

lemma install_interface_ok:
  assumes ok: "lk_ok s ls objs" and "length lib < 256"
  shows "\<exists>m r. pk_install_interface (k_new s) [] lib (k_mem s) (k_root s) = Some (Inr (m, r)) \<and>
    lk_ok (s\<lparr>k_mem := m, k_root := r, k_new := k_new s + 1\<rparr>) (ls @ [(k_new s, [])]) (objs @ [PIface lib [] []])"
proof -
  let ?nd = "(pk_blank PK_TAG_INTERFACE)\<lparr>n_name := [], n_libname := lib, n_parent := Some 0\<rparr>"
  have L: "pk_layout (k_mem s) (k_root s) ls objs" using ok by (simp add: lk_ok_def)
  obtain m r where "pk_add_object ((k_mem s)(k_new s := ?nd)) (k_root s) (k_new s) = Some (m, r)"
      "pk_layout m r (ls @ [(k_new s, [])]) (objs @ [PIface lib [] []])"
    using add_object_layout [OF L, of "k_new s" ?nd "PIface lib [] []"] lk_ok_new [OF ok] by (auto simp: pk_blank_def)
  with assms show ?thesis
    by (auto simp: pk_install_interface_def pk_create_interface_def strcpy_to_def lk_ok_def intro: less_SucI)
qed

text \<open>The three places a name is read at.\<close>

lemma name_reads:
  assumes "at f p (tlv t nm)" "length nm < 127"
  defines "L \<equiv> of_nat (length nm) :: u8"
  shows "at f p [t]"
    "read_length f False t' l off (s\<lparr>k_pos := p + 1\<rparr>) = (off + 1, L, of_nat (length nm), s\<lparr>k_pos := p + 2\<rparr>)"
    "fread_bytes f (length nm) (s\<lparr>k_pos := p + 2\<rparr>) = (nm, s\<lparr>k_pos := p + length (tlv t nm)\<rparr>)"
    "length (tlv t nm) = 2 + length nm"
proof -
  note short = tlv_short [OF assms(2), folded L_def]
  have at1: "at f p [t]" "at f (p + 1) [L]" "at f (p + 2) nm"
    using assms(1) unfolding short(1) at_append [of f p "[t, L]"] using at_append [of f p "[t]" "[L]"] by simp_all
  show "at f p [t]" by (rule at1(1))
  show "read_length f False t' l off (s\<lparr>k_pos := p + 1\<rparr>) = (off + 1, L, of_nat (length nm), s\<lparr>k_pos := p + 2\<rparr>)"
    using read_length_from [OF at1(2) short(2), of "p + 2"] by (simp add: short(4))
  show "fread_bytes f (length nm) (s\<lparr>k_pos := p + 2\<rparr>) = (nm, s\<lparr>k_pos := p + length (tlv t nm)\<rparr>)"
    by (rule fread_from [OF at1(3) refl]) (simp add: short(1))
  show "length (tlv t nm) = 2 + length nm" by (simp add: short(1))
qed

lemma class_name_step:
  assumes r: "reads p c s" and at: "at f p (tlv ASN_TAG_IA5STRING nm)" and nm: "0 \<notin> set nm" "length nm < 127"
    and ok: "lk_ok s ls objs" and c: "c_parent c = 0"
  shows "\<exists>c' s'. class_step f cb c s = Some (Inr (False, c', s')) \<and> reads (p + length (tlv ASN_TAG_IA5STRING nm)) c' s' \<and>
    c_parent c' = k_new s \<and> lk_ok s' (ls @ [(k_new s, [])]) (objs @ [PClass nm []])"
proof -
  note rd = name_reads [OF at nm(2)]
  have pos: "k_pos s = p" "c_off c = of_nat p" using r by (simp_all add: reads_def)
  let ?q = "p + length (tlv ASN_TAG_IA5STRING nm)"
  have str: "buffer_string nm (length nm) = Inr nm" by (rule string_read) (use nm in auto)
  have "lk_ok (s\<lparr>k_pos := ?q\<rparr>) ls objs" using ok by simp
  from install_class_ok [OF this, of nm] nm obtain m r where
    m: "pk_install_class (k_new s) nm (k_mem s) (k_root s) = Some (Inr (m, r))"
      "lk_ok (s\<lparr>k_pos := ?q, k_mem := m, k_root := r, k_new := k_new s + 1\<rparr>) (ls @ [(k_new s, [])]) (objs @ [PClass nm []])"
    by auto
  let ?s' = "set_codebase (k_new s) cb (s\<lparr>k_pos := ?q, k_mem := m, k_root := r, k_new := k_new s + 1\<rparr>)"
  define c1 where "c1 = c\<lparr>c_off := c_off c + 1\<rparr>"
  have "class_step f cb c s = class_ia5 f cb ASN_TAG_IA5STRING c1 (s\<lparr>k_pos := p + 1\<rparr>)"
    using pos by (simp add: class_step_tag [OF rd(1) [folded pos(1)]] tag_masks Let_def asn_tags c1_def)
  also have "\<dots> = Some (Inr (False, c1\<lparr>c_off := c_off c1 + 1 + of_nat (length nm), c_t := Some (of_nat (length nm)),
      c_l := of_nat (length nm), c_parent := k_new s\<rparr>, ?s'))"
    unfolding class_ia5_def rd(2) using c m(1) by (simp add: Let_def unat_short [OF nm(2)] rd(3) [simplified] str c1_def)
  finally show ?thesis using m(2) pos by (simp add: reads_def c1_def rd(4))
qed

lemma class_lib_step:
  assumes r: "reads p c s" and at: "at f p (tlv ASN_TAG_CHSTRING lib)" and lib: "0 \<notin> set lib" "length lib < 127"
    and ok: "lk_ok s ls objs" and c: "c_moff c = 0"
  shows "\<exists>c' s'. class_step f cb c s = Some (Inr (False, c', s')) \<and> reads (p + length (tlv ASN_TAG_CHSTRING lib)) c' s' \<and>
    c_parent c' = k_new s \<and> k_new s \<noteq> 0 \<and> c_moff c' = 0 \<and> lk_ok s' (ls @ [(k_new s, [])]) (objs @ [PIface lib [] []])"
proof -
  note rd = name_reads [OF at lib(2)]
  have pos: "k_pos s = p" "c_off c = of_nat p" using r by (simp_all add: reads_def)
  let ?q = "p + length (tlv ASN_TAG_CHSTRING lib)"
  have str: "buffer_string lib (length lib) = Inr lib" by (rule string_read) (use lib in auto)
  have "lk_ok (s\<lparr>k_pos := ?q\<rparr>) ls objs" using ok by simp
  from install_interface_ok [OF this, of lib] lib obtain m r where
    m: "pk_install_interface (k_new s) [] lib (k_mem s) (k_root s) = Some (Inr (m, r))"
      "lk_ok (s\<lparr>k_pos := ?q, k_mem := m, k_root := r, k_new := k_new s + 1\<rparr>) (ls @ [(k_new s, [])]) (objs @ [PIface lib [] []])"
    by auto
  let ?s' = "set_codebase (k_new s) cb (s\<lparr>k_pos := ?q, k_mem := m, k_root := r, k_new := k_new s + 1\<rparr>)"
  define c1 where "c1 = c\<lparr>c_off := c_off c + 1\<rparr>"
  have "class_step f cb c s = class_libname f cb ASN_TAG_CHSTRING c1 (s\<lparr>k_pos := p + 1\<rparr>)"
    using pos by (simp add: class_step_tag [OF rd(1) [folded pos(1)]] tag_masks Let_def asn_tags c1_def)
  also have "\<dots> = Some (Inr (False, c1\<lparr>c_off := c_off c1 + 1 + of_nat (length lib), c_t := Some (of_nat (length lib)),
      c_l := of_nat (length lib), c_parent := k_new s\<rparr>, ?s'))"
    unfolding class_libname_def rd(2) using m(1) by (simp add: Let_def unat_short [OF lib(2)] rd(3) [simplified] str c1_def)
  finally show ?thesis using m(2) pos c lk_ok_new [OF ok] by (simp add: reads_def c1_def rd(4))
qed

lemma class_rename_step:
  assumes r: "reads p c s" and at: "at f p (tlv ASN_TAG_IA5STRING nm)" and nm: "0 \<notin> set nm" "length nm < 127"
    and ok: "lk_ok s (us @ [(x, [])]) (os @ [PIface lib nm0 []])" and c: "c_parent c = x" "x \<noteq> 0" "c_moff c = 0"
  shows "\<exists>c' s'. class_step f cb c s = Some (Inr (False, c', s')) \<and> reads (p + length (tlv ASN_TAG_IA5STRING nm)) c' s' \<and>
    c_parent c' = x \<and> c_moff c' = 0 \<and> lk_ok s' (us @ [(x, [])]) (os @ [PIface lib nm []])"
proof -
  note rd = name_reads [OF at nm(2)]
  have pos: "k_pos s = p" "c_off c = of_nat p" using r by (simp_all add: reads_def)
  have str: "buffer_string nm (length nm) = Inr nm" by (rule string_read) (use nm in auto)
  let ?s' = "s\<lparr>k_pos := p + length (tlv ASN_TAG_IA5STRING nm), k_mem := pk_put x (\<lambda>n. n\<lparr>n_name := nm\<rparr>) (k_mem s)\<rparr>"
  have ok': "lk_ok ?s' (us @ [(x, [])]) (os @ [PIface lib nm []])"
    using ok layout_rename [of "k_mem s" "k_root s" us x os lib nm0 nm] by (auto simp: lk_ok_def)
  define c1 where "c1 = c\<lparr>c_off := c_off c + 1\<rparr>"
  have "class_step f cb c s = class_ia5 f cb ASN_TAG_IA5STRING c1 (s\<lparr>k_pos := p + 1\<rparr>)"
    using pos by (simp add: class_step_tag [OF rd(1) [folded pos(1)]] tag_masks Let_def asn_tags c1_def)
  also have "\<dots> = Some (Inr (False, c1\<lparr>c_off := c_off c1 + 1 + of_nat (length nm), c_t := Some (of_nat (length nm)),
      c_l := of_nat (length nm)\<rparr>, ?s'))"
    unfolding class_ia5_def rd(2) using c nm
    by (simp add: Let_def unat_short [OF nm(2)] rd(3) [simplified] str c1_def strcpy_to_def)
  finally show ?thesis using ok' pos c by (simp add: reads_def c1_def rd(4))
qed

text \<open>Methods with a name, and for interfaces one type for each of at most 16 parameters.\<close>

definition good_meth :: "bool \<Rightarrow> pmeth \<Rightarrow> bool" where
  "good_meth iface pm \<longleftrightarrow>
     good_name (pm_name pm) \<and> (iface \<longrightarrow> length (pm_params pm) \<le> 16 \<and> unat (pm_numargs pm) = length (pm_params pm))"

definition dec_meth :: "bool \<Rightarrow> pmeth \<Rightarrow> pmeth" where
  "dec_meth iface = (if iface then dec_imeth else dec_cmeth)"

lemma enc_meth_length:
  "length (enc_meth False pm) \<le> 128 \<Longrightarrow> length (pm_name pm) + 3 < 127"
  "length (enc_meth True pm) \<le> 128 \<Longrightarrow> length (pm_params pm) + length (pm_name pm) + 3 < 127"
  "0 < length (enc_meth iface pm)"
  using tlv_length [of ASN_TAG_OCTSTRING "be16 (pm_offset pm) @ [pm_numargs pm] @ pm_name pm"]
    tlv_length [of ASN_TAG_OBJDESC "[pm_call pm, pm_ret pm, pm_numargs pm] @ pm_params pm @ pm_name pm"]
  by (auto simp: enc_meth_def enc_cmeth_def enc_imeth_def word_less_nat_alt unat_of_nat split: if_splits)

lemma meth_step:
  assumes r: "reads p c s" and at: "at f p (enc_meth (is_iface ob) pm)" and pm: "good_meth (is_iface ob) pm"
    and len: "length (enc_meth (is_iface ob) pm) \<le> 128" and ok: "lk_ok s (us @ [(x, ps)]) (os @ [ob])" and ob: "obj_name ob \<noteq> None"
    and c: "c_parent c = x" "is_iface ob \<longrightarrow> c_moff c = 0"
  shows "\<exists>c' s'. class_step f cb c s = Some (Inr (False, c', s')) \<and> reads (p + length (enc_meth (is_iface ob) pm)) c' s' \<and>
    c_parent c' = x \<and> (is_iface ob \<longrightarrow> c_moff c' = 0) \<and>
    lk_ok s' (us @ [(x, ps @ [k_new s])]) (os @ [add_meth (dec_meth (is_iface ob) pm) ob])"
proof (cases ob)
  case (PClass cn ms)
  have "length (pm_name pm) + 3 < 127" using enc_meth_length(1) [of pm] len PClass by simp
  with class_method_step [OF r, of f pm us x ps os cn ms cb] at pm ok c(1) PClass show ?thesis
    by (auto simp: enc_meth_def dec_meth_def good_meth_def)
next
  case (PIface lib cn ms)
  have "length (pm_params pm) + length (pm_name pm) + 3 < 127" using enc_meth_length(2) [of pm] len PIface by simp
  with class_imethod_step [OF r, of f pm us x ps os lib cn ms cb] at pm ok c PIface show ?thesis
    by (auto simp: enc_meth_def dec_meth_def good_meth_def)
qed (use ob in auto)

lemma class_loop_step:
  assumes "reads p c s" "p < e" "e < 65536" "class_step f cb c s = Some (Inr (False, c', s'))"
  shows "class_loop f cb (of_nat e) c s = class_loop f cb (of_nat e) c' s'"
proof -
  have "c_off c < of_nat e" using assms(1-3) by (simp add: reads_def word_less_nat_alt unat_of_nat)
  then show ?thesis using assms(4) by (simp add: class_loop.simps [of f cb "of_nat e" c s])
qed

lemma class_loop_end: "reads e c s \<Longrightarrow> class_loop f cb (of_nat e) c s = Some (Inr (of_nat e, s))"
  by (simp add: class_loop.simps [of f cb "of_nat e" c s] reads_def)

lemma add_meth_kind [simp]: "is_iface (add_meth pm ob) = is_iface ob" "obj_name (add_meth pm ob) = obj_name ob"
  by (cases ob; simp)+

lemma meths_loop:
  assumes "reads p c s" "at f p (concat (map (enc_meth (is_iface ob)) ms))" "\<forall>pm \<in> set ms. good_meth (is_iface ob) pm"
    and "length (concat (map (enc_meth (is_iface ob)) ms)) \<le> 128" "e = p + length (concat (map (enc_meth (is_iface ob)) ms))" "e < 65536"
    and "lk_ok s (us @ [(x, ps)]) (os @ [ob])" "obj_name ob \<noteq> None" "c_parent c = x" "is_iface ob \<longrightarrow> c_moff c = 0"
  shows "\<exists>s' ps'. class_loop f cb (of_nat e) c s = Some (Inr (of_nat e, s')) \<and>
    lk_ok s' (us @ [(x, ps')]) (os @ [fold add_meth (map (dec_meth (is_iface ob)) ms) ob])"
  using assms
proof (induction ms arbitrary: p c s ob ps)
  case Nil
  then show ?case using class_loop_end [of e c s f cb] by auto
next
  case (Cons pm ms)
  let ?n = "length (enc_meth (is_iface ob) pm)"
  have at: "at f p (enc_meth (is_iface ob) pm)" "at f (p + ?n) (concat (map (enc_meth (is_iface ob)) ms))"
    using Cons.prems(2) by (simp_all add: at_append)
  have good: "good_meth (is_iface ob) pm" and n: "?n \<le> 128" using Cons.prems(3,4) by simp_all
  from meth_step [OF Cons.prems(1) at(1) good n Cons.prems(7-10), of cb] obtain c' s' where
    st: "class_step f cb c s = Some (Inr (False, c', s'))" "reads (p + ?n) c' s'" "c_parent c' = x" "is_iface ob \<longrightarrow> c_moff c' = 0"
      "lk_ok s' (us @ [(x, ps @ [k_new s])]) (os @ [add_meth (dec_meth (is_iface ob) pm) ob])" by blast
  have "p < e" using Cons.prems(5) enc_meth_length(3) [of "is_iface ob" pm] by simp
  from class_loop_step [OF Cons.prems(1) this Cons.prems(6) st(1)]
  have step: "class_loop f cb (of_nat e) c s = class_loop f cb (of_nat e) c' s'" .
  have "\<exists>s'' ps'. class_loop f cb (of_nat e) c' s' = Some (Inr (of_nat e, s'')) \<and>
      lk_ok s'' (us @ [(x, ps')]) (os @ [fold add_meth (map (dec_meth (is_iface (add_meth (dec_meth (is_iface ob) pm) ob))) ms)
        (add_meth (dec_meth (is_iface ob) pm) ob)])"
    by (rule Cons.IH [OF st(2) _ _ _ _ Cons.prems(6) st(5) _ st(3)]) (use Cons.prems at st in auto)
  with step show ?case by simp
qed

text \<open>Objects.\<close>

fun good_obj :: "pobj \<Rightarrow> bool" where
  "good_obj (PClass nm ms) \<longleftrightarrow> 0 \<notin> set nm \<and> (\<forall>pm \<in> set ms. good_meth False pm)"
| "good_obj (PIface lib nm ms) \<longleftrightarrow> 0 \<notin> set lib \<and> 0 \<notin> set nm \<and> (\<forall>pm \<in> set ms. good_meth True pm)"
| "good_obj (PBlock st cb n) \<longleftrightarrow> False"

fun dec_obj :: "pobj \<Rightarrow> pobj" where
  "dec_obj (PClass nm ms) = PClass nm (map dec_cmeth ms)"
| "dec_obj (PIface lib nm ms) = PIface lib nm (map dec_imeth ms)"
| "dec_obj (PBlock st cb n) = PBlock st cb n"

lemma fold_add_meth:
  "fold add_meth pms (PClass nm ms) = PClass nm (ms @ pms)"
  "fold add_meth pms (PIface lib nm ms) = PIface lib nm (ms @ pms)"
  by (induction pms arbitrary: ms) simp_all

definition start_local :: "u16 \<Rightarrow> lk_local" where
  "start_local off = \<lparr>c_off = off, c_t = None, c_l = 0, c_numargs = 0, c_moff = 0, c_call = None, c_ret = None, c_parent = 0\<rparr>"

lemma class_body:
  assumes at: "at f p (tlv ASN_TAG_IA5STRING nm @ concat (map enc_cmeth ms))"
    and g: "good_obj (PClass nm ms)" and len: "length (tlv ASN_TAG_IA5STRING nm @ concat (map enc_cmeth ms)) < 127"
    and e: "e = p + length (tlv ASN_TAG_IA5STRING nm @ concat (map enc_cmeth ms))" "e < 65536"
    and ok: "lk_ok s ls objs" and r: "reads p (start_local (of_nat p)) s"
  shows "\<exists>s' ls'. class_loop f cb (of_nat e) (start_local (of_nat p)) s = Some (Inr (of_nat e, s')) \<and>
    lk_ok s' ls' (objs @ [dec_obj (PClass nm ms)])"
proof -
  let ?t = "tlv ASN_TAG_IA5STRING nm"
  have nm: "0 \<notin> set nm" "length nm < 127" using g len tlv_length_le(1) [of nm ASN_TAG_IA5STRING] by auto
  have at1: "at f p ?t" "at f (p + length ?t) (concat (map enc_cmeth ms))" using at by (simp_all add: at_append)
  have "c_parent (start_local (of_nat p)) = 0" by (simp add: start_local_def)
  from class_name_step [OF r at1(1) nm ok this, of cb] obtain c' s' where
    st: "class_step f cb (start_local (of_nat p)) s = Some (Inr (False, c', s'))" "reads (p + length ?t) c' s'"
      "c_parent c' = k_new s" "lk_ok s' (ls @ [(k_new s, [])]) (objs @ [PClass nm []])" by blast
  have "p < e" using e(1) name_reads(4) [OF at1(1) nm(2)] by simp
  note step = class_loop_step [OF r this e(2) st(1)]
  have kinds: "is_iface (PClass nm []) = False" "enc_meth False = enc_cmeth" "dec_meth False = dec_cmeth"
    by (simp_all add: enc_meth_def dec_meth_def)
  have "\<exists>s'' ps'. class_loop f cb (of_nat e) c' s' = Some (Inr (of_nat e, s'')) \<and>
      lk_ok s'' (ls @ [(k_new s, ps')]) (objs @ [fold add_meth (map dec_cmeth ms) (PClass nm [])])"
    by (rule meths_loop [where ob = "PClass nm []", unfolded kinds, OF st(2) at1(2) _ _ _ e(2) st(4) _ st(3)])
      (use g len e(1) in simp_all)
  with step show ?thesis by (auto simp: fold_add_meth)
qed

lemma iface_body:
  assumes at: "at f p (tlv ASN_TAG_CHSTRING lib @ tlv ASN_TAG_IA5STRING nm @ concat (map enc_imeth ms))"
    and g: "good_obj (PIface lib nm ms)"
    and len: "length (tlv ASN_TAG_CHSTRING lib @ tlv ASN_TAG_IA5STRING nm @ concat (map enc_imeth ms)) < 127"
    and e: "e = p + length (tlv ASN_TAG_CHSTRING lib @ tlv ASN_TAG_IA5STRING nm @ concat (map enc_imeth ms))" "e < 65536"
    and ok: "lk_ok s ls objs" and r: "reads p (start_local (of_nat p)) s"
  shows "\<exists>s' ls'. class_loop f cb (of_nat e) (start_local (of_nat p)) s = Some (Inr (of_nat e, s')) \<and>
    lk_ok s' ls' (objs @ [dec_obj (PIface lib nm ms)])"
proof -
  let ?l = "tlv ASN_TAG_CHSTRING lib" and ?t = "tlv ASN_TAG_IA5STRING nm"
  have nm: "0 \<notin> set nm" "length nm < 127" and lib: "0 \<notin> set lib" "length lib < 127"
    using g len tlv_length_le(1) [of nm ASN_TAG_IA5STRING] tlv_length_le(1) [of lib ASN_TAG_CHSTRING] by auto
  have at1: "at f p ?l" "at f (p + length ?l) ?t" "at f (p + length ?l + length ?t) (concat (map enc_imeth ms))"
    using at by (simp_all add: at_append)
  have l: "0 < length ?l" "0 < length ?t"
    using tlv_length_le(1) [of lib ASN_TAG_CHSTRING] tlv_length_le(1) [of nm ASN_TAG_IA5STRING] by linarith+
  have "c_moff (start_local (of_nat p)) = 0" by (simp add: start_local_def)
  from class_lib_step [OF r at1(1) lib ok this, of cb] obtain c1 s1 where
    st: "class_step f cb (start_local (of_nat p)) s = Some (Inr (False, c1, s1))" "reads (p + length ?l) c1 s1"
      "c_parent c1 = k_new s" "k_new s \<noteq> 0" "c_moff c1 = 0" "lk_ok s1 (ls @ [(k_new s, [])]) (objs @ [PIface lib [] []])" by blast
  from class_rename_step [OF st(2) at1(2) nm st(6,3,4,5), of cb] obtain c2 s2 where
    st2: "class_step f cb c1 s1 = Some (Inr (False, c2, s2))" "reads (p + length ?l + length ?t) c2 s2"
      "c_parent c2 = k_new s" "c_moff c2 = 0" "lk_ok s2 (ls @ [(k_new s, [])]) (objs @ [PIface lib nm []])" by blast
  have "p < e" "p + length ?l < e" using e(1) l by simp_all
  note step = class_loop_step [OF r this(1) e(2) st(1)] class_loop_step [OF st(2) this(2) e(2) st2(1)]
  have kinds: "is_iface (PIface lib nm []) = True" "enc_meth True = enc_imeth" "dec_meth True = dec_imeth"
    by (simp_all add: enc_meth_def dec_meth_def)
  have "\<exists>s'' ps'. class_loop f cb (of_nat e) c2 s2 = Some (Inr (of_nat e, s'')) \<and>
      lk_ok s'' (ls @ [(k_new s, ps')]) (objs @ [fold add_meth (map dec_imeth ms) (PIface lib nm [])])"
    by (rule meths_loop [where ob = "PIface lib nm []", unfolded kinds, OF st2(2) at1(3) _ _ _ e(2) st2(5) _ st2(3)])
      (use g len e(1) st2(4) in simp_all)
  with step show ?thesis by (auto simp: fold_add_meth)
qed

text \<open>Elements of the header: tag and length, as every decoding function starts.\<close>

lemma element_reads:
  assumes "at f p (tlv t bs)" "length bs < 127"
  shows "fread_bytes f 1 (s\<lparr>k_pos := p\<rparr>) = ([t], s\<lparr>k_pos := p + 1\<rparr>)"
    "read_length f sw t' l off (s\<lparr>k_pos := p + 1\<rparr>) = (off + 1, of_nat (length bs), of_nat (length bs), s\<lparr>k_pos := p + 2\<rparr>)"
    "at f (p + 2) bs"
proof -
  note short = tlv_short [OF assms(2)]
  have at1: "at f p [t]" "at f (p + 1) [of_nat (length bs)]" "at f (p + 2) bs"
    using assms(1) unfolding short(1) at_append [of f p "[t, of_nat (length bs)]"]
    using at_append [of f p "[t]" "[of_nat (length bs)]"] by simp_all
  show "fread_bytes f 1 (s\<lparr>k_pos := p\<rparr>) = ([t], s\<lparr>k_pos := p + 1\<rparr>)" by (rule fread_from [OF at1(1)]) simp_all
  show "read_length f sw t' l off (s\<lparr>k_pos := p + 1\<rparr>) = (off + 1, of_nat (length bs), of_nat (length bs), s\<lparr>k_pos := p + 2\<rparr>)"
    using read_length_from [OF at1(2) short(2), of "p + 2" sw t' l off s] unfolding short(4) by simp
  show "at f (p + 2) bs" by (rule at1(3))
qed

lemma skip_step:
  assumes "at f p (tlv t bs)" "length bs < 127" "t = ASN_TAG_OCTSTRING \<or> t = ASN_TAG_INTEGER" "p < 65536"
  shows "lk_decode_class_seq f (of_nat p) cb s = Some (Inr (of_nat (p + length (tlv t bs)), s\<lparr>k_pos := p + 2\<rparr>))"
proof -
  have "unat (of_nat p :: u16) = p" using assms(4) by (simp add: unat_of_nat)
  moreover have "length (tlv t bs) = 2 + length bs" using tlv_short(1) [OF assms(2), of t] by simp
  moreover note element_reads(1) [OF assms(1,2), of s]
    element_reads(2) [OF assms(1,2), of False t 0 "of_nat p + 1" s]
  ultimately show ?thesis using assms(3) by (auto simp: lk_decode_class_seq_def Let_def asn_tags)
qed

lemma obj_seq_step:
  assumes at: "at f p (enc_obj ob)" and g: "good_obj ob" and len: "length (enc_obj ob) < 127" "p + length (enc_obj ob) < 65536"
    and ok: "lk_ok s ls objs"
  shows "\<exists>s' ls'. lk_decode_class_seq f (of_nat p) cb s = Some (Inr (of_nat (p + length (enc_obj ob)), s')) \<and>
    lk_ok s' ls' (objs @ [dec_obj ob])"
proof -
  obtain B where B: "enc_obj ob = tlv (ASN_TAG_SEQ OR ASN_TAG_CONSTRUCTED) B"
    and body: "B = (case ob of PClass nm ms \<Rightarrow> tlv ASN_TAG_IA5STRING nm @ concat (map enc_cmeth ms)
      | PIface lib nm ms \<Rightarrow> tlv ASN_TAG_CHSTRING lib @ tlv ASN_TAG_IA5STRING nm @ concat (map enc_imeth ms) | _ \<Rightarrow> [])"
    using g by (cases ob) auto
  have lB: "length B < 127" using len(1) tlv_length_le(1) [of B "ASN_TAG_SEQ OR ASN_TAG_CONSTRUCTED"] by (simp add: B)
  have lE: "length (enc_obj ob) = 2 + length B" using tlv_short(1) [OF lB, of "ASN_TAG_SEQ OR ASN_TAG_CONSTRUCTED"] by (simp add: B)
  let ?e = "p + 2 + length B"
  have u: "unat (of_nat q :: u16) = q" if "q < 65536" for q using that by (simp add: unat_of_nat)
  have e: "?e < 65536" and p: "unat (of_nat p :: u16) = p" "unat (of_nat (p + 2) :: u16) = p + 2"
    using len(2) lE by (simp, intro u, simp, intro u, simp)
  note rd = element_reads [OF at [unfolded B] lB]
  let ?s = "s\<lparr>k_pos := p + 2\<rparr>"
  have "lk_decode_class_seq f (of_nat p) cb s = lk_decode_class_header f (of_nat (p + 2)) (of_nat (length B)) cb ?s"
    using p(1) rd(1) [of s] rd(2) [of False "ASN_TAG_SEQ OR ASN_TAG_CONSTRUCTED" 0 "of_nat p + 1" s]
    by (simp add: lk_decode_class_seq_def Let_def asn_tags)
  also have "\<dots> = class_loop f cb (of_nat ?e) (start_local (of_nat (p + 2))) ?s"
    using p(2) by (simp add: lk_decode_class_header_def start_local_def add.assoc)
  finally have 1: "lk_decode_class_seq f (of_nat p) cb s = class_loop f cb (of_nat ?e) (start_local (of_nat (p + 2))) ?s" .
  have ok': "lk_ok ?s ls objs" using ok by simp
  have r: "reads (p + 2) (start_local (of_nat (p + 2))) ?s" by (simp add: reads_def start_local_def)
  have "\<exists>s' ls'. class_loop f cb (of_nat ?e) (start_local (of_nat (p + 2))) ?s = Some (Inr (of_nat ?e, s')) \<and>
      lk_ok s' ls' (objs @ [dec_obj ob])"
  proof (cases ob)
    case (PClass nm ms)
    then have b: "B = tlv ASN_TAG_IA5STRING nm @ concat (map enc_cmeth ms)" using body by simp
    from class_body [OF rd(3) [unfolded b] g [unfolded PClass] lB [unfolded b] refl e [unfolded b] ok' r]
    show ?thesis unfolding b PClass .
  next
    case (PIface lib nm ms)
    then have b: "B = tlv ASN_TAG_CHSTRING lib @ tlv ASN_TAG_IA5STRING nm @ concat (map enc_imeth ms)" using body by simp
    from iface_body [OF rd(3) [unfolded b] g [unfolded PIface] lB [unfolded b] refl e [unfolded b] ok' r]
    show ?thesis unfolding b PIface .
  qed (use g in auto)
  moreover have "p + length (enc_obj ob) = ?e" using lE by simp
  ultimately show ?thesis unfolding 1 by simp
qed

lemma header_loop_step:
  assumes "p < e" "e < 65536" "lk_decode_class_seq f (of_nat p) cb s = Some (Inr (off, s'))"
  shows "header_loop f cb (of_nat e) (of_nat p) s = header_loop f cb (of_nat e) off s'"
proof -
  have "(of_nat p :: u16) < of_nat e" using assms(1,2) by (simp add: word_less_nat_alt unat_of_nat)
  then show ?thesis using assms(3) by (simp add: header_loop.simps [of f cb "of_nat e" "of_nat p" s])
qed

lemma skips_loop:
  assumes "at f p (concat (map (\<lambda>(t, bs). tlv t bs) els))" "\<forall>(t, bs) \<in> set els. t = ASN_TAG_OCTSTRING \<or> t = ASN_TAG_INTEGER"
    and "length (concat (map (\<lambda>(t, bs). tlv t bs) els)) < 127" "p + length (concat (map (\<lambda>(t, bs). tlv t bs) els)) \<le> e" "e < 65536"
  shows "\<exists>q. header_loop f cb (of_nat e) (of_nat p) s =
    header_loop f cb (of_nat e) (of_nat (p + length (concat (map (\<lambda>(t, bs). tlv t bs) els)))) (s\<lparr>k_pos := q\<rparr>)"
  using assms
proof (induction els arbitrary: p s)
  case Nil
  show ?case by (rule exI [of _ "k_pos s"]) simp
next
  case (Cons el els)
  obtain t bs where el: "el = (t, bs)" by fastforce
  let ?n = "length (tlv t bs)" and ?r = "concat (map (\<lambda>(t, bs). tlv t bs) els)"
  have at: "at f p (tlv t bs)" "at f (p + ?n) ?r" using Cons.prems(1) by (simp_all add: el at_append)
  have l: "length bs < 127" "0 < ?n" "p < e" "p < 65536" using Cons.prems tlv_length_le(1) [of bs t] by (auto simp: el)
  from skip_step [OF at(1) l(1) _ l(4), of cb s] Cons.prems(2)
  have "lk_decode_class_seq f (of_nat p) cb s = Some (Inr (of_nat (p + ?n), s\<lparr>k_pos := p + 2\<rparr>))" by (auto simp: el)
  note step = header_loop_step [OF l(3) Cons.prems(5) this]
  have "\<exists>q. header_loop f cb (of_nat e) (of_nat (p + ?n)) (s\<lparr>k_pos := p + 2\<rparr>) =
      header_loop f cb (of_nat e) (of_nat (p + ?n + length ?r)) (s\<lparr>k_pos := p + 2\<rparr>\<lparr>k_pos := q\<rparr>)"
    by (rule Cons.IH [OF at(2)]) (use Cons.prems in \<open>auto simp: el\<close>)
  then obtain q where "header_loop f cb (of_nat e) (of_nat (p + ?n)) (s\<lparr>k_pos := p + 2\<rparr>) =
      header_loop f cb (of_nat e) (of_nat (p + ?n + length ?r)) (s\<lparr>k_pos := q\<rparr>)" by auto
  with step have "header_loop f cb (of_nat e) (of_nat p) s = header_loop f cb (of_nat e) (of_nat (p + ?n + length ?r)) (s\<lparr>k_pos := q\<rparr>)"
    by simp
  moreover have "p + length (concat (map (\<lambda>(t, bs). tlv t bs) (el # els))) = p + ?n + length ?r" by (simp add: el)
  ultimately show ?case by metis
qed

definition entry_elements :: "pmeth \<Rightarrow> (u8 \<times> u8 list) list" where
  "entry_elements p =
     (if pm_alias p \<noteq> [] then [(ASN_TAG_OCTSTRING, be16 (pm_offset p) @ pm_alias p)] else []) @
     (if pm_event p \<noteq> 0xFF then [(ASN_TAG_INTEGER, be16 (pm_offset p) @ [pm_event p])] else [])"

lemma entries_elements:
  "concat (map enc_entry ms) = concat (map (\<lambda>(t, bs). tlv t bs) (concat (map entry_elements ms)))"
  "\<forall>(t, bs) \<in> set (concat (map entry_elements ms)). t = ASN_TAG_OCTSTRING \<or> t = ASN_TAG_INTEGER"
  by (induction ms) (auto simp: enc_entry_def entry_elements_def split: if_splits)

lemma objs_loop:
  assumes "at f p (concat (map enc_obj obs))" "\<forall>ob \<in> set obs. good_obj ob" "length (concat (map enc_obj obs)) < 127"
    and "e = p + length (concat (map enc_obj obs))" "e < 65536" "lk_ok s ls objs"
  shows "\<exists>s' ls'. header_loop f cb (of_nat e) (of_nat p) s = Some (Inr (of_nat e, s')) \<and> lk_ok s' ls' (objs @ map dec_obj obs)"
  using assms
proof (induction obs arbitrary: p s ls objs)
  case Nil
  have "header_loop f cb (of_nat e) (of_nat e) s = Some (Inr (of_nat e, s))"
    by (simp add: header_loop.simps [of f cb "of_nat e" "of_nat e" s])
  with Nil show ?case by auto
next
  case (Cons ob obs)
  let ?n = "length (enc_obj ob)"
  have at: "at f p (enc_obj ob)" "at f (p + ?n) (concat (map enc_obj obs))" using Cons.prems(1) by (simp_all add: at_append)
  have l: "?n < 127" "p + ?n < 65536" and g: "good_obj ob" using Cons.prems by simp_all
  have n: "0 < ?n" using g tlv_length_le(1) by (cases ob) (simp_all add: tlv_length)
  from obj_seq_step [OF at(1) g l Cons.prems(6), of cb] obtain s1 ls1 where
    s1: "lk_decode_class_seq f (of_nat p) cb s = Some (Inr (of_nat (p + ?n), s1))" "lk_ok s1 ls1 (objs @ [dec_obj ob])" by blast
  have "p < e" using Cons.prems(4) n by simp
  note step = header_loop_step [OF this Cons.prems(5) s1(1)]
  have "\<exists>s' ls'. header_loop f cb (of_nat e) (of_nat (p + ?n)) s1 = Some (Inr (of_nat e, s')) \<and>
      lk_ok s' ls' ((objs @ [dec_obj ob]) @ map dec_obj obs)"
    by (rule Cons.IH [OF at(2) _ _ _ Cons.prems(5) s1(2)]) (use Cons.prems in auto)
  with step show ?case by simp
qed

text \<open>The code, whose length is put in order in both forms.\<close>

lemma data_seq_at:
  assumes at: "at f q (tlv ASN_TAG_BMPSTRING codes)" and q: "q < 65536" "length codes < 65536"
  shows "\<exists>r. lk_decode_data_seq f (of_nat q) s = Inr (Some (map Some codes), s\<lparr>k_pos := r\<rparr>)"
proof -
  define l :: u16 where "l = of_nat (length codes)"
  have ul: "unat l = length codes" "unat (of_nat q :: u16) = q" using q by (simp_all add: l_def unat_of_nat)
  obtain H where H: "tlv_header ASN_TAG_BMPSTRING l = ASN_TAG_BMPSTRING # H" and E: "tlv ASN_TAG_BMPSTRING codes = [ASN_TAG_BMPSTRING] @ H @ codes"
    by (cases "l < 127") (simp_all add: tlv_def tlv_header_def l_def)
  have at1: "at f q [ASN_TAG_BMPSTRING]" "at f (q + 1) H" "at f (q + 1 + length H) codes" using at unfolding E at_append by simp_all
  have 1: "fread_bytes f 1 (s\<lparr>k_pos := q\<rparr>) = ([ASN_TAG_BMPSTRING], s\<lparr>k_pos := q + 1\<rparr>)" by (rule fread_from [OF at1(1)]) simp_all
  have "\<exists>off t. read_length f True ASN_TAG_BMPSTRING 0 (of_nat q + 1) (s\<lparr>k_pos := q + 1\<rparr>) = (off, t, l, s\<lparr>k_pos := q + 1 + length H\<rparr>)"
  proof (cases "l < 127")
    case True
    then have short: "length codes < 127" using ul(1) by (simp add: word_less_nat_alt)
    have "H = [of_nat (length codes)]" using H True tlv_short(1) [OF short, of ASN_TAG_BMPSTRING] E by simp
    with at1(2) read_length_from [OF _ tlv_short(2) [OF short], of f "q + 1" "q + 2" True ASN_TAG_BMPSTRING 0 "of_nat q + 1" s]
    show ?thesis by (simp add: l_def tlv_short(4) [OF short])
  next
    case False
    then have "H = [0x82] @ be16 l" using H by (simp add: tlv_header_def be16_def)
    with at1(2) have "at f (q + 1) [0x82]" "at f (q + 2) (be16 l)" "length H = 3" by (simp_all only: at_append) simp_all
    then have rd: "fread_bytes f 1 (s\<lparr>k_pos := q + 1\<rparr>) = ([0x82], s\<lparr>k_pos := q + 2\<rparr>)"
        "fread_bytes f 2 (s\<lparr>k_pos := q + 2\<rparr>) = (be16 l, s\<lparr>k_pos := q + 1 + length H\<rparr>)"
      by (auto intro: fread_from)
    have "(0x82 :: u8) AND 0x80 \<noteq> 0" by simp
    then show ?thesis
      by (simp only: read_length_def rd Let_def prod.case list.case if_True set16_be16 swap16_swap16 not_False_eq_True) blast
  qed
  then obtain off t where 2: "read_length f True ASN_TAG_BMPSTRING 0 (of_nat q + 1) (s\<lparr>k_pos := q + 1\<rparr>) = (off, t, l, s\<lparr>k_pos := q + 1 + length H\<rparr>)"
    by blast
  have 3: "fread_bytes f (length codes) (s\<lparr>k_pos := q + 1 + length H\<rparr>) = (codes, s\<lparr>k_pos := q + 1 + length H + length codes\<rparr>)"
    by (rule fread_from [OF at1(3) refl refl])
  show ?thesis
    using 1 2 3 by (auto simp: lk_decode_data_seq_def Let_def ul asn_tags)
qed

lemma decode_package:
  assumes g: "\<forall>ob \<in> set objs. good_obj ob" and len: "length (enc_header objs) < 127" "length codes < 65536" and ok: "lk_ok s ls objs0"
  shows "\<exists>s' ls'. lk_decode_file (enc_package objs codes) cb s = Some (Inr (Some (map Some codes), s')) \<and>
    lk_ok s' ls' (objs0 @ map dec_obj objs)"
proof -
  define f where "f = enc_package objs codes"
  let ?S = "ASN_TAG_SEQ OR ASN_TAG_CONSTRUCTED" and ?H = "enc_header objs"
  let ?q = "2 + length ?H" and ?es = "concat (map enc_entry (concat (map obj_methods objs)))" and ?os = "concat (map enc_obj objs)"
  have lt: "length (tlv ?S ?H) = ?q" using tlv_short(1) [OF len(1), of ?S] by simp
  have "at f 0 f" by (simp add: at_def)
  then have at1: "at f 0 (tlv ?S ?H)" "at f ?q (tlv ASN_TAG_BMPSTRING codes)"
    using lt at_append [of f 0 "tlv ?S ?H" "tlv ASN_TAG_BMPSTRING codes"] by (simp_all add: f_def enc_package_def)
  note rd = element_reads [OF at1(1) len(1)]
  have at2: "at f 2 ?es" "at f (2 + length ?es) ?os" using rd(3) by (simp_all add: enc_header_def at_append numeral_2_eq_2)
  have q: "?q < 65536" "(of_nat ?q :: u16) \<noteq> 0" using len(1) by (simp, simp only: word_unat_eq_iff unat_of_nat) simp
  obtain r where data: "lk_decode_data_seq f (of_nat ?q) (s\<lparr>k_pos := 2\<rparr>) = Inr (Some (map Some codes), s\<lparr>k_pos := r\<rparr>)"
    using data_seq_at [OF at1(2) q(1) len(2), of "s\<lparr>k_pos := 2\<rparr>"] by auto
  have "\<exists>r'. header_loop f cb (of_nat ?q) (of_nat 2) (s\<lparr>k_pos := 2\<rparr>) =
      header_loop f cb (of_nat ?q) (of_nat (2 + length ?es)) (s\<lparr>k_pos := 2\<rparr>\<lparr>k_pos := r'\<rparr>)"
    unfolding entries_elements(1)
    by (rule skips_loop [OF at2(1) [unfolded entries_elements(1)] entries_elements(2) _ _ q(1)])
      (use len(1) in \<open>simp_all add: enc_header_def flip: entries_elements(1)\<close>)
  then obtain r' where 1: "header_loop f cb (of_nat ?q) (of_nat 2) (s\<lparr>k_pos := 2\<rparr>) =
      header_loop f cb (of_nat ?q) (of_nat (2 + length ?es)) (s\<lparr>k_pos := r'\<rparr>)" by auto
  have ok': "lk_ok (s\<lparr>k_pos := r'\<rparr>) ls objs0" using ok by simp
  have "\<exists>s' ls'. header_loop f cb (of_nat ?q) (of_nat (2 + length ?es)) (s\<lparr>k_pos := r'\<rparr>) = Some (Inr (of_nat ?q, s')) \<and>
      lk_ok s' ls' (objs0 @ map dec_obj objs)"
    by (rule objs_loop [OF at2(2) g _ _ q(1) ok']) (use len(1) in \<open>simp_all add: enc_header_def\<close>)
  then obtain s' ls' where 2: "header_loop f cb (of_nat ?q) (of_nat (2 + length ?es)) (s\<lparr>k_pos := r'\<rparr>) = Some (Inr (of_nat ?q, s'))"
      "lk_ok s' ls' (objs0 @ map dec_obj objs)" by blast
  have 3: "lk_decode_header_seq f 0 cb (s\<lparr>k_pos := r\<rparr>) = Some (Inr (of_nat ?q, s'))"
    using rd(1) [of s] rd(2) [of False ?S 0 1 s] 1 2(1) by (simp add: lk_decode_header_seq_def Let_def asn_tags numeral_2_eq_2)
  have "lk_decode_file f cb s = Some (Inr (Some (map Some codes), s'))"
    using rd(1) [of s] rd(2) [of True ?S 0 1 s] q(2) data 3 by (simp add: lk_decode_file_def Let_def asn_tags numeral_2_eq_2)
  with 2(2) show ?thesis unfolding f_def by blast
qed

text \<open>C7: From calls to a decoded package. A package of classes and interfaces without try-catch blocks, whose methods all
  have names, built by any sequence of calls, is written by \<^verbatim>\<open>pk_file_flush\<close> to a file that \<^verbatim>\<open>lk_decode_file\<close>
  reads back: the code comes back byte for byte, and the classes and interfaces, with the names and argument counts of
  their methods and the argument types of the methods of interfaces, are appended to those the linker already had.
  The round trip needs a header below 127 bytes, whose lengths all have the short form, names without NUL, at most 16
  arguments of a method of an interface, as many as its argument count, and less than 65000 bytes of code. It is not
  exact (\<open>dec_obj\<close> says how): a method of a class comes back with the two bytes of its offset exchanged and with call
  type and return type 0, a method of an interface with offset 0, and aliases and events are skipped.\<close>
theorem package_roundtrip:
  assumes "calls_objs cs [] = Some objs" "distinct (map call_addr cs)" "0 \<notin> call_addr ` set cs"
    and "\<forall>ob \<in> set objs. good_obj ob" "length (enc_header objs) < 127" "length codes < 65000" "lk_ok s ls objs0"
  shows "\<exists>m' root b' file s' ls'. pk_calls cs (m, 0) = Some (Inr (m', root)) \<and>
    pk_file_flush m' root codes b = Some (Inr (file, b')) \<and>
    lk_decode_file file cb s = Some (Inr (Some (map Some codes), s')) \<and>
    pk_layout (k_mem s') (k_root s') ls' (objs0 @ map dec_obj objs)"
proof -
  have "pk_layout m 0 [] []" by (simp add: pk_layout_def)
  from calls_layout [OF this assms(2,3) _ assms(1)] obtain m' root ls1 where
    m': "pk_calls cs (m, 0) = Some (Inr (m', root))" "pk_layout m' root ls1 objs" by auto
  have "length (enc_package objs codes) + 4 \<le> PKG_BUFFER_SIZE"
    using assms(5,6) tlv_length_le(2) [of "ASN_TAG_SEQ OR ASN_TAG_CONSTRUCTED" "enc_header objs"]
      tlv_length_le(2) [of ASN_TAG_BMPSTRING codes] by (simp add: enc_package_def PKG_BUFFER_SIZE_def)
  from file_flush_encodes [OF layout_holds [OF m'(2)] this, of b] obtain b' where
    "pk_file_flush m' root codes b = Some (Inr (enc_package objs codes, b'))" by blast
  moreover have "length codes < 65536" using assms(6) by simp
  from decode_package [OF assms(4,5) this assms(7), of cb] obtain s' ls' where
    "lk_decode_file (enc_package objs codes) cb s = Some (Inr (Some (map Some codes), s'))"
    "lk_ok s' ls' (objs0 @ map dec_obj objs)" by blast
  ultimately show ?thesis using m'(1) by (auto simp: lk_ok_def)
qed

theorem package_roundtrip_witness:
  "\<exists>m' root b' file s' ls'. pk_calls [Call_Class 1 [65], Call_Method 2 [65] [109] 0 1 0x1234 0 []] (\<lambda>_. pk_blank 0, 0) =
      Some (Inr (m', root)) \<and>
    pk_file_flush m' root [7, 8, 9] (\<lambda>_. 0) = Some (Inr (file, b')) \<and>
    lk_decode_file file 100 \<lparr>k_pos = 0, k_mem = \<lambda>_. pk_blank 0, k_root = 0, k_new = 1\<rparr> = Some (Inr (Some [Some 7, Some 8, Some 9], s')) \<and>
    pk_layout (k_mem s') (k_root s') ls' [PClass [65] [new_meth [109] 0 0 0x3412 []]]"
proof -
  let ?cs = "[Call_Class 1 [65], Call_Method 2 [65] [109] 0 1 0x1234 0 []]" and ?m = "\<lambda>_. pk_blank 0"
  let ?objs = "[PClass [65] [new_meth [109] 0 1 0x1234 []]]"
  have 1: "calls_objs ?cs [] = Some ?objs" by simp
  have 2: "\<forall>ob \<in> set ?objs. good_obj ob" by (simp add: good_meth_def good_name_def new_meth_def)
  have 3: "length (enc_header ?objs) < 127" by code_simp
  have 4: "lk_ok \<lparr>k_pos = 0, k_mem = ?m, k_root = 0, k_new = 1\<rparr> [] []" by (simp add: lk_ok_def pk_layout_def)
  have 5: "map dec_obj ?objs = [PClass [65] [new_meth [109] 0 0 0x3412 []]]" by code_simp
  show ?thesis
    using package_roundtrip [OF 1 _ _ 2 3 _ 4, of "[7, 8, 9]" ?m "\<lambda>_. 0" 100] unfolding 5 by simp
qed

section \<open>What the linker misreads\<close>

text \<open>A header in the long form: its end is computed from the two bytes of the length in exchanged order.\<close>

lemma long_header_end:
  assumes "at f 0 [ASN_TAG_SEQ OR ASN_TAG_CONSTRUCTED, 0x82, ucast (drop_bit 8 l), ucast (l :: u16)]"
  shows "lk_decode_header_seq f 0 cb s = header_loop f cb (4 + swap16 l) 4 (s\<lparr>k_pos := 4\<rparr>)"
proof -
  have "at f 0 ([ASN_TAG_SEQ OR ASN_TAG_CONSTRUCTED] @ [0x82] @ be16 l)" using assms by (simp add: be16_def)
  then have at1: "at f 0 [ASN_TAG_SEQ OR ASN_TAG_CONSTRUCTED]" "at f 1 [0x82]" "at f 2 (be16 l)"
    unfolding at_append by (simp_all add: numeral_2_eq_2)
  have rd: "fread_bytes f 1 (s\<lparr>k_pos := 0\<rparr>) = ([ASN_TAG_SEQ OR ASN_TAG_CONSTRUCTED], s\<lparr>k_pos := 1\<rparr>)"
      "fread_bytes f 1 (s\<lparr>k_pos := 1\<rparr>) = ([0x82], s\<lparr>k_pos := 2\<rparr>)" "fread_bytes f 2 (s\<lparr>k_pos := 2\<rparr>) = (be16 l, s\<lparr>k_pos := 4\<rparr>)"
    using at1 by (auto intro: fread_from)
  have "(0x82 :: u8) AND 0x80 \<noteq> 0" by simp
  then have "read_length f False t 0 1 (s\<lparr>k_pos := 1\<rparr>) = (1 + of_nat 1 + of_nat 2, 0x82, swap16 l, s\<lparr>k_pos := 4\<rparr>)" for t
    by (simp only: read_length_def rd Let_def prod.case list.case if_True if_False set16_be16 not_False_eq_True length_be16) simp
  then show ?thesis using rd(1) by (simp add: lk_decode_header_seq_def Let_def asn_tags)
qed

text \<open>C23: A try-catch block in a package. The encoder writes it with tag ENUMERATED, which the linker does not know:
  \<^verbatim>\<open>lk_decode_class_seq\<close> answers it with offset 0, and the header is decoded again from the start of the file, where its
  own tag and length are read as those of a class.\<close>
theorem block_restarts_header:
  assumes "at f p (enc_obj (PBlock st cblk n))" "p < e" "e < 65536"
  shows "\<exists>s'. header_loop f cb (of_nat e) (of_nat p) s = header_loop f cb (of_nat e) 0 s'"
proof -
  have "at f p ([ASN_TAG_ENUM] @ (10 # be32 st @ be32 cblk @ [0, n]))" using assms(1) by (simp add: tlv_def tlv_header_def be32_def)
  then have "at f p [ASN_TAG_ENUM]" unfolding at_append by simp
  then have "fread_bytes f 1 (s\<lparr>k_pos := p\<rparr>) = ([ASN_TAG_ENUM], s\<lparr>k_pos := p + 1\<rparr>)" by (auto intro: fread_from)
  moreover have "unat (of_nat p :: u16) = p" using assms(2,3) by (simp add: unat_of_nat)
  ultimately have "lk_decode_class_seq f (of_nat p) cb s = Some (Inr (0, s\<lparr>k_pos := p + 1\<rparr>))"
    by (simp add: lk_decode_class_seq_def Let_def asn_tags)
  from header_loop_step [OF assms(2,3) this] show ?thesis by blast
qed

theorem block_restarts_header_witness:
  "\<exists>s'. header_loop (enc_package [PBlock 10 20 1] []) 0 14 2 \<lparr>k_pos = 2, k_mem = \<lambda>_. pk_blank 0, k_root = 0, k_new = 1\<rparr> =
    header_loop (enc_package [PBlock 10 20 1] []) 0 14 0 s'"
proof -
  have "at (enc_package [PBlock 10 20 1] []) 2 (enc_obj (PBlock 10 20 1))" by code_simp
  from block_restarts_header [OF this, of 14 0 "\<lparr>k_pos = 2, k_mem = \<lambda>_. pk_blank 0, k_root = 0, k_new = 1\<rparr>"] show ?thesis by simp
qed

section \<open>Freeing\<close>

lemma free_props_links: "links m it ps \<Longrightarrow> free_props m it = Some ps"
proof (induction ps arbitrary: it)
  case Nil
  then show ?case by (simp add: free_props.simps [of m 0])
next
  case (Cons p ps)
  then show ?case by (simp add: free_props.simps [of m p])
qed

lemma clear_loop_layout:
  assumes "links m it (map fst ls)" "list_all2 (holds_at m) ls objs" "\<forall>ob \<in> set objs. obj_name ob \<noteq> None"
  shows "clear_loop m it = Some (Inr (concat (map (\<lambda>(x, ps). ps @ [x]) ls)))"
  using assms
proof (induction ls arbitrary: it objs)
  case Nil
  then show ?case by (simp add: clear_loop.simps [of m 0])
next
  case (Cons l ls)
  obtain x ps where l: "l = (x, ps)" by fastforce
  from Cons.prems obtain ob os where os: "objs = ob # os" "holds_at m (x, ps) ob" "list_all2 (holds_at m) ls os" "obj_name ob \<noteq> None"
      "\<forall>ob \<in> set os. obj_name ob \<noteq> None"
    and x: "it = x" "x \<noteq> 0" "links m (n_next (m x)) (map fst ls)" by (auto simp: l list_all2_Cons1)
  have props: "links m (n_properties (m x)) ps" and tag: "n_tag (m x) = PK_TAG_CLASS \<or> n_tag (m x) = PK_TAG_INTERFACE"
    using os(2,4) by (cases ob; auto)+
  have p0: "n_properties (m x) = 0 \<Longrightarrow> ps = []" using props by (cases ps) auto
  show ?case
    using free_props_links [OF props] Cons.IH [OF x(3) os(3,5)] tag x p0
    by (cases "n_properties (m x) = 0") (auto simp: clear_loop.simps [of m x] l pk_tags)
qed

text \<open>C24: \<^verbatim>\<open>lk_clear_entries\<close> on a store with classes and interfaces in nodes of their own frees every node exactly
  once, every method before its class, and leaves no root: nothing leaks and nothing is freed twice.\<close>
theorem clear_entries_frees:
  assumes "pk_layout (k_mem s) (k_root s) ls objs" "\<forall>ob \<in> set objs. obj_name ob \<noteq> None"
  shows "\<exists>xs. lk_clear_entries s = Some (Inr (xs, s\<lparr>k_root := 0\<rparr>)) \<and> distinct xs \<and> set xs = set (pk_nodes ls) \<and>
    length xs = length (pk_nodes ls)"
proof -
  let ?xs = "concat (map (\<lambda>(x, ps). ps @ [x]) ls)"
  have L: "links (k_mem s) (k_root s) (map fst ls)" "list_all2 (holds_at (k_mem s)) ls objs" "distinct (pk_nodes ls)"
    using assms(1) by (simp_all add: pk_layout_def)
  have "lk_clear_entries s = Some (Inr (?xs, s\<lparr>k_root := 0\<rparr>))"
    by (simp add: lk_clear_entries_def clear_loop_layout [OF L(1,2) assms(2)])
  moreover have m: "mset ?xs = mset (pk_nodes ls)" by (induction ls) auto
  ultimately show ?thesis using L(3) by (metis mset_eq_imp_distinct_iff mset_eq_setD mset_eq_length)
qed

theorem clear_entries_frees_witness:
  "let m = (\<lambda>_. pk_blank 0)(1 := (pk_blank PK_TAG_CLASS)\<lparr>n_properties := 2\<rparr>, 2 := method_node 1 [65] 0 0 0 0 0) in
   \<exists>xs. lk_clear_entries \<lparr>k_pos = 0, k_mem = m, k_root = 1, k_new = 3\<rparr> =
       Some (Inr (xs, \<lparr>k_pos = 0, k_mem = m, k_root = 0, k_new = 3\<rparr>)) \<and> distinct xs \<and> set xs = {1, 2}"
proof -
  define m :: pk_mem where "m = (\<lambda>_. pk_blank 0)(1 := (pk_blank PK_TAG_CLASS)\<lparr>n_properties := 2\<rparr>, 2 := method_node 1 [65] 0 0 0 0 0)"
  have "pk_layout m 1 [(1, [2])] [PClass [] [new_meth [65] 0 0 0 []]]"
    by (simp add: pk_layout_def m_def pk_blank_def method_node_def holds_meth_def new_meth_def)
  with clear_entries_frees [of "\<lparr>k_pos = 0, k_mem = m, k_root = 1, k_new = 3\<rparr>" "[(1, [2])]" "[PClass [] [new_meth [65] 0 0 0 []]]"]
  have "\<exists>xs. lk_clear_entries \<lparr>k_pos = 0, k_mem = m, k_root = 1, k_new = 3\<rparr> =
       Some (Inr (xs, \<lparr>k_pos = 0, k_mem = m, k_root = 0, k_new = 3\<rparr>)) \<and> distinct xs \<and> set xs = {1, 2}" by auto
  then show ?thesis by (simp add: m_def Let_def)
qed

end
