(* ===== verification/SP_State.thy ===== *)
theory SP_State
  imports IL_Streamer PK_Linker C_Text
begin

text \<open>
  The state of the semantic actions of the compiler, \<^verbatim>\<open>Stack/sem_proto.c\<close>, and what all of them use: access to
  symbol records, the stacks, emission at the current offset, labels and jumps with their backpatch lists. The
  actions are called by the generated parser; they call the symbol table, the code generator and the package
  encoder, whose models they use.

  A pointer to a symbol record is its address. Records are in the table, in a saved table, or were created and not
  yet linked (\<open>sp_loose\<close>); an access to a freed one is an access outside every object. Addresses of new records are
  never reused. \<^verbatim>\<open>sp_error\<close> belongs to the generated parser: it formats the message and calls \<^verbatim>\<open>sp_error_push\<close>; the
  model keeps the kind of the message and its argument. Printing is left out; the configuration is that of the compiler
  \<^verbatim>\<open>glome\<close>, in which \<^verbatim>\<open>sm_printf\<close> is empty and \<^verbatim>\<open>SP_MAX_VARS\<close> is not defined.
\<close>

section \<open>State\<close>

definition SYM_UNDEFINED :: nat where "SYM_UNDEFINED = 0xFFFFFFFF"
definition SEM_MAX_STACK :: nat where "SEM_MAX_STACK = 256"
definition LAMBDA_DEPTH :: nat where "LAMBDA_DEPTH = 32"

text \<open>
  A pending instruction. Its argument is a pointer to a symbol record or a number, as the opcode wants it;
  \<^term>\<open>None\<close> when the caller passed none. A list of instructions hangs on a root node, which also
  carries the variable of its scope.
\<close>

record ins_node =
  in_ins :: u8
  in_rec :: "nat option"

record iroot =
  ir_root :: ins_node
  ir_var :: addr
  ir_nodes :: "ins_node list"

record lambda_context =
  lc_context_cntr :: nat
  lc_func :: addr
  lc_exit_func :: addr

record var_context =
  vc_operation :: u8
  vc_var :: nat

text \<open>An array of 256 slots with an index of one byte, which wraps.\<close>

record 'a stack8 =
  s8_slot :: "u8 \<Rightarrow> 'a option"
  s8_index :: u8

record scope_operation =
  so_op_stack :: "ins_node stack8"
  so_varctx_stack :: "var_context stack8"

record try_catch_block =
  tc_start :: "32 word"
  tc_end :: "32 word"
  tc_cblock :: "32 word"
  tc_num_args :: u8

text \<open>Stacks with an \<^verbatim>\<open>int\<close> index are lists with the top first; the queue has its first element first.\<close>

record spstate =
  sp_tab :: symtab
  sp_loose :: "symrec list"
  sp_fresh :: addr
  sp_il :: ilstate
  sp_pk :: pk_mem
  sp_pk_root :: addr
  sp_lk :: lk_state
  current_offset :: nat
  sp_errors :: "(sp_err \<times> u8 list) list"
  sp_offstack :: "nat list"
  sp_symstack :: "addr list"
  sp_symqueue :: "addr list"
  sp_label_index :: nat
  sp_context_cntr :: nat
  sp_api_id :: nat
  sp_current_function :: addr
  sp_end_function_label :: addr
  sp_skip_function_label :: addr
  lambda_stack :: "lambda_context list"
  op_stack :: "ins_node stack8"
  varctx_stack :: "var_context stack8"
  scope_stack :: "scope_operation stack8"
  inode_stack :: "iroot option list"
  method_scope :: "iroot option list"
  loop_stack :: "addr list"
  arr_buffer :: "u8 \<Rightarrow> u8"
  arr_len :: u8
  prog_class :: addr
  construct_buffer :: "u8 list"
  construct_index :: nat
  tc_block :: "try_catch_block list"

section \<open>Actions\<close>

text \<open>An action does not return (\<^term>\<open>None\<close>), fails, or gives a new state and a value.\<close>

type_synonym 'a sp = "spstate \<Rightarrow> (spstate \<times> 'a) result option"

definition ret_p :: "'a \<Rightarrow> 'a sp" where "ret_p x st = Some (Inr (st, x))"
definition err_p :: "c_error \<Rightarrow> 'a sp" where "err_p e st = Some (Inl e)"
definition get_p :: "(spstate \<Rightarrow> 'a) \<Rightarrow> 'a sp" where "get_p f st = Some (Inr (st, f st))"
definition upd_p :: "(spstate \<Rightarrow> spstate) \<Rightarrow> unit sp" where "upd_p f st = Some (Inr (f st, ()))"

definition bind_p :: "'a sp \<Rightarrow> ('a \<Rightarrow> 'b sp) \<Rightarrow> 'b sp" where
  "bind_p m f st = bind_o (m st) (\<lambda>(st', x). f x st')"

text \<open>A result of another component.\<close>

definition res_p :: "'a result \<Rightarrow> 'a sp" where
  "res_p r st = (case r of Inl e \<Rightarrow> Some (Inl e) | Inr x \<Rightarrow> Some (Inr (st, x)))"

definition opt_p :: "'a result option \<Rightarrow> 'a sp" where
  "opt_p r = (case r of None \<Rightarrow> (\<lambda>st. None) | Some x \<Rightarrow> res_p x)"

fun each_p :: "('a \<Rightarrow> unit sp) \<Rightarrow> 'a list \<Rightarrow> unit sp" where
  "each_p f [] = ret_p ()"
| "each_p f (x # xs) = bind_p (f x) (\<lambda>_. each_p f xs)"

definition when_p :: "bool \<Rightarrow> unit sp \<Rightarrow> unit sp" where
  "when_p b m = (if b then m else ret_p ())"

section \<open>Symbol records\<close>

definition sp_recs :: "spstate \<Rightarrow> symrec list" where
  "sp_recs st = symhead (sp_tab st) @ concat (symstack (sp_tab st)) @ sp_loose st"

definition load_rec :: "addr \<Rightarrow> symrec sp" where
  "load_rec a st =
     (if a = 0 then Some (Inl Null_Deref)
      else case find (\<lambda>r. sy_addr r = a) (sp_recs st) of
        None \<Rightarrow> Some (Inl Out_Of_Bounds)
      | Some r \<Rightarrow> Some (Inr (st, r)))"

definition map_rec :: "addr \<Rightarrow> (symrec \<Rightarrow> symrec) \<Rightarrow> symrec list \<Rightarrow> symrec list" where
  "map_rec a f rs = map (\<lambda>r. if sy_addr r = a then f r else r) rs"

definition put_rec :: "addr \<Rightarrow> (symrec \<Rightarrow> symrec) \<Rightarrow> spstate \<Rightarrow> spstate" where
  "put_rec a f st =
     st\<lparr>sp_tab := (sp_tab st)\<lparr>symhead := map_rec a f (symhead (sp_tab st)),
          symstack := map (map_rec a f) (symstack (sp_tab st))\<rparr>,
        sp_loose := map_rec a f (sp_loose st)\<rparr>"

definition store_rec :: "addr \<Rightarrow> (symrec \<Rightarrow> symrec) \<Rightarrow> unit sp" where
  "store_rec a f =
     bind_p (load_rec a) (\<lambda>_.
     upd_p (put_rec a f))"

text \<open>The name as a C string.\<close>

definition rec_name :: "addr \<Rightarrow> u8 list sp" where
  "rec_name a =
     bind_p (load_rec a) (\<lambda>r.
     ret_p (strz (sy_name r)))"

definition sym_addr :: "symrec option \<Rightarrow> addr" where
  "sym_addr r = (case r of None \<Rightarrow> 0 | Some q \<Rightarrow> sy_addr q)"

definition sym_select :: "u8 \<Rightarrow> u8 list \<Rightarrow> addr sp" where
  "sym_select type name = get_p (\<lambda>st. sym_addr (st_sym_select type name (sp_tab st)))"

definition sym_select_s :: "u8 \<Rightarrow> u8 list \<Rightarrow> nat \<Rightarrow> addr sp" where
  "sym_select_s type name len = get_p (\<lambda>st. sym_addr (st_sym_select_s type name len (sp_tab st)))"

definition sym_select_array :: "u8 list \<Rightarrow> nat \<Rightarrow> addr sp" where
  "sym_select_array arrval len = get_p (\<lambda>st. sym_addr (st_sym_select_array arrval len (sp_tab st)))"

text \<open>Inserting with a function of the symbol table that takes the address of the new record.\<close>

definition insert_with :: "(addr \<Rightarrow> symtab \<Rightarrow> symtab result) \<Rightarrow> addr sp" where
  "insert_with ins =
     bind_p (get_p sp_fresh) (\<lambda>a.
     bind_p (get_p sp_tab) (\<lambda>t.
     bind_p (res_p (ins a t)) (\<lambda>t'.
     bind_p (upd_p (\<lambda>st. st\<lparr>sp_tab := t', sp_fresh := Suc a\<rparr>)) (\<lambda>_.
     ret_p a))))"

definition sym_insert :: "u8 \<Rightarrow> u8 list \<Rightarrow> nat \<Rightarrow> addr sp" where
  "sym_insert type name off = insert_with (\<lambda>a. st_sym_insert a type name off)"

definition sym_insert_s :: "u8 \<Rightarrow> u8 list \<Rightarrow> nat \<Rightarrow> nat \<Rightarrow> addr sp" where
  "sym_insert_s type name len off = insert_with (\<lambda>a. st_sym_insert_s a type name len off)"

definition sym_insert_array :: "u8 list \<Rightarrow> nat \<Rightarrow> nat \<Rightarrow> addr sp" where
  "sym_insert_array arrval len off = insert_with (\<lambda>a. st_sym_insert_array a arrval len off)"

definition sym_create :: "u8 \<Rightarrow> u8 list \<Rightarrow> nat \<Rightarrow> addr sp" where
  "sym_create type name off =
     bind_p (get_p sp_fresh) (\<lambda>a.
     bind_p (upd_p (\<lambda>st. st\<lparr>sp_loose := st_sym_create a type name off # sp_loose st, sp_fresh := Suc a\<rparr>)) (\<lambda>_.
     ret_p a))"

text \<open>
  \<^verbatim>\<open>st_sym_add_record\<close> links a created record. Linking a record of the table again, other than the last one, makes
  the list cyclic: the next walk along it never ends.
\<close>

definition sym_add_record :: "addr \<Rightarrow> addr sp" where
  "sym_add_record a =
     bind_p (load_rec a) (\<lambda>r.
     bind_p (get_p (\<lambda>st. a \<in> sy_addr ` set (sp_loose st))) (\<lambda>loose.
     bind_p (get_p sp_tab) (\<lambda>t.
     bind_p (res_p (st_sym_add_record r t)) (\<lambda>t'.
     if loose then bind_p (upd_p (\<lambda>st. st\<lparr>sp_tab := t', sp_loose := filter (\<lambda>q. sy_addr q \<noteq> a) (sp_loose st)\<rparr>)) (\<lambda>_.
       ret_p a)
         else if t' = t then ret_p a
         else (\<lambda>st. None)))))"

text \<open>
  \<^verbatim>\<open>st_sym_dispose\<close> frees a record that is not linked. Freeing one of the table leaves a freed record in the list, which the next walk reads.
\<close>

definition sym_dispose :: "addr \<Rightarrow> unit sp" where
  "sym_dispose a =
     bind_p (load_rec a) (\<lambda>_.
     bind_p (get_p (\<lambda>st. a \<in> sy_addr ` set (sp_loose st))) (\<lambda>loose.
     if loose then upd_p (\<lambda>st. st\<lparr>sp_loose := filter (\<lambda>q. sy_addr q \<noteq> a) (sp_loose st)\<rparr>)
         else err_p Out_Of_Bounds))"

definition sp_error :: "sp_err \<Rightarrow> u8 list \<Rightarrow> unit sp" where
  "sp_error e name = upd_p (\<lambda>st. st\<lparr>sp_errors := sp_errors st @ [(e, name)]\<rparr>)"

text \<open>The format \<^verbatim>\<open>%i\<close> for an unsigned argument, and \<^verbatim>\<open>sprintf\<close> to an array of \<open>n\<close> bytes.\<close>

definition text_i :: "nat \<Rightarrow> u8 list" where
  "text_i n = show_int (to_int32 (int n))"

definition sprintf_to :: "nat \<Rightarrow> u8 list \<Rightarrow> u8 list sp" where
  "sprintf_to n s = (if length s < n then ret_p s else err_p Out_Of_Bounds)"

definition qmark :: u8 where "qmark = 63"

text \<open>Writing a C string over the name of a record.\<close>

definition put_name :: "u8 list \<Rightarrow> symrec \<Rightarrow> symrec" where
  "put_name s r = r\<lparr>sy_name := s @ 0 # drop (Suc (length s)) (sy_name r), sy_length := length s mod 2 ^ 16\<rparr>"

section \<open>Stacks\<close>

definition sp_push_lambda :: "bool sp" where
  "sp_push_lambda st =
     (if length (lambda_stack st) = LAMBDA_DEPTH then Some (Inr (st, False))
      else Some (Inr (st\<lparr>lambda_stack := \<lparr>lc_context_cntr = sp_context_cntr st, lc_func = sp_current_function st,
             lc_exit_func = sp_end_function_label st\<rparr> # lambda_stack st, sp_context_cntr := 0\<rparr>, True)))"

definition sp_pop_lambda :: "bool sp" where
  "sp_pop_lambda st =
     (case lambda_stack st of
        [] \<Rightarrow> Some (Inr (st, False))
      | c # cs \<Rightarrow> Some (Inr (st\<lparr>lambda_stack := cs, sp_context_cntr := lc_context_cntr c, sp_current_function := lc_func c,
             sp_end_function_label := lc_exit_func c\<rparr>, True)))"

definition sp_push_offset :: "unit sp" where
  "sp_push_offset st =
     (if length (sp_offstack st) < SEM_MAX_STACK
      then Some (Inr (st\<lparr>sp_offstack := current_offset st # sp_offstack st\<rparr>, ())) else Some (Inl Out_Of_Bounds))"

definition sp_pop_offset :: "nat sp" where
  "sp_pop_offset st =
     (case sp_offstack st of [] \<Rightarrow> Some (Inl Out_Of_Bounds) | x # xs \<Rightarrow> Some (Inr (st\<lparr>sp_offstack := xs\<rparr>, x)))"

definition sp_push_symrec :: "addr \<Rightarrow> addr sp" where
  "sp_push_symrec rec st =
     (if length (sp_symstack st) < SEM_MAX_STACK
      then Some (Inr (st\<lparr>sp_symstack := rec # sp_symstack st\<rparr>, rec)) else Some (Inl Out_Of_Bounds))"

definition sp_pop_symrec :: "addr sp" where
  "sp_pop_symrec st =
     (case sp_symstack st of [] \<Rightarrow> Some (Inl Out_Of_Bounds) | x # xs \<Rightarrow> Some (Inr (st\<lparr>sp_symstack := xs\<rparr>, x)))"

definition sp_enqueue_symrec :: "addr \<Rightarrow> addr sp" where
  "sp_enqueue_symrec rec st =
     (if length (sp_symqueue st) < SEM_MAX_STACK
      then Some (Inr (st\<lparr>sp_symqueue := sp_symqueue st @ [rec]\<rparr>, rec)) else Some (Inl Out_Of_Bounds))"

definition sp_dequeue_symrec :: "addr sp" where
  "sp_dequeue_symrec st =
     (case sp_symqueue st of [] \<Rightarrow> Some (Inr (st, 0)) | x # xs \<Rightarrow> Some (Inr (st\<lparr>sp_symqueue := xs\<rparr>, x)))"

definition sp_look_symrec :: "addr sp" where
  "sp_look_symrec st = (if sp_symqueue st = [] then Some (Inl Out_Of_Bounds) else Some (Inr (st, last (sp_symqueue st))))"

definition sp_peek_symrec :: "addr sp" where
  "sp_peek_symrec st = (case sp_symstack st of [] \<Rightarrow> Some (Inl Out_Of_Bounds) | x # _ \<Rightarrow> Some (Inr (st, x)))"

definition sp_prev_symrec :: "addr sp" where
  "sp_prev_symrec st = (case sp_symstack st of _ # x # _ \<Rightarrow> Some (Inr (st, x)) | _ \<Rightarrow> Some (Inl Out_Of_Bounds))"

definition sp_clear_symrec :: "unit sp" where
  "sp_clear_symrec = upd_p (\<lambda>st. st\<lparr>sp_symstack := [], sp_symqueue := []\<rparr>)"

definition push8 :: "'a \<Rightarrow> 'a stack8 \<Rightarrow> 'a stack8" where
  "push8 x s = s\<lparr>s8_slot := (s8_slot s)(s8_index s := Some x), s8_index := s8_index s + 1\<rparr>"

text \<open>
  Saving and restoring the two small stacks. The index of the saved ones is a byte too, so the comparison
  with 256 that should stop the push never holds.
\<close>

definition sp_push_varctx_scope_s :: "unit sp" where
  "sp_push_varctx_scope_s st =
     (if unat (s8_index (scope_stack st)) = SEM_MAX_STACK then Some (Inr (st, ()))
      else Some (Inr (st\<lparr>scope_stack := push8 \<lparr>so_op_stack = op_stack st, so_varctx_stack = varctx_stack st\<rparr> (scope_stack st),
             op_stack := (op_stack st)\<lparr>s8_index := 0\<rparr>, varctx_stack := (varctx_stack st)\<lparr>s8_index := 0\<rparr>\<rparr>, ())))"

definition sp_pop_varctx_scope_s :: "unit sp" where
  "sp_pop_varctx_scope_s st =
     (let i = s8_index (scope_stack st) in
      if i = 0 then Some (Inr (st, ()))
      else case s8_slot (scope_stack st) (i - 1) of
        None \<Rightarrow> Some (Inl Null_Deref)
      | Some scope \<Rightarrow> Some (Inr (st\<lparr>scope_stack := (scope_stack st)\<lparr>s8_index := i - 1\<rparr>,
             op_stack := so_op_stack scope, varctx_stack := so_varctx_stack scope\<rparr>, ())))"

definition sp_push_varctx :: "var_context \<Rightarrow> unit sp" where
  "sp_push_varctx vctx = upd_p (\<lambda>st. st\<lparr>varctx_stack := push8 vctx (varctx_stack st)\<rparr>)"

definition sp_pop_varctx :: "var_context option sp" where
  "sp_pop_varctx st =
     (let i = s8_index (varctx_stack st) - 1 in
      Some (Inr (st\<lparr>varctx_stack := (varctx_stack st)\<lparr>s8_index := i\<rparr>\<rparr>, s8_slot (varctx_stack st) i)))"

definition sp_create_varctx :: "u8 \<Rightarrow> nat \<Rightarrow> var_context" where
  "sp_create_varctx operation var = \<lparr>vc_operation = operation, vc_var = var\<rparr>"

definition sp_lhs_clear :: "unit sp" where
  "sp_lhs_clear = upd_p (\<lambda>st. st\<lparr>varctx_stack := (varctx_stack st)\<lparr>s8_index := 0\<rparr>\<rparr>)"

definition sp_push_operation_stack :: "ins_node \<Rightarrow> unit sp" where
  "sp_push_operation_stack inode = upd_p (\<lambda>st. st\<lparr>op_stack := push8 inode (op_stack st)\<rparr>)"

definition sp_create_inode :: "u8 \<Rightarrow> nat \<Rightarrow> ins_node" where
  "sp_create_inode ins rec = \<lparr>in_ins = ins, in_rec = Some rec\<rparr>"

definition sp_push_operation :: "nat \<Rightarrow> u8 \<Rightarrow> unit sp" where
  "sp_push_operation api_id num_args = sp_push_operation_stack (sp_create_inode (INS_SYSCALL + (num_args AND 0x0F)) api_id)"

definition sp_clear_operation_stack :: "unit sp" where
  "sp_clear_operation_stack = upd_p (\<lambda>st. st\<lparr>op_stack := (op_stack st)\<lparr>s8_index := 0\<rparr>\<rparr>)"

definition sp_loop_stack_push :: "addr \<Rightarrow> unit sp" where
  "sp_loop_stack_push lbl st =
     (if length (loop_stack st) < SEM_MAX_STACK
      then Some (Inr (st\<lparr>loop_stack := lbl # loop_stack st\<rparr>, ())) else Some (Inl Out_Of_Bounds))"

definition sp_loop_stack_pop :: "addr sp" where
  "sp_loop_stack_pop st =
     (case loop_stack st of [] \<Rightarrow> Some (Inl Out_Of_Bounds) | x # xs \<Rightarrow> Some (Inr (st\<lparr>loop_stack := xs\<rparr>, x)))"

definition sp_loop_stack_peek :: "addr sp" where
  "sp_loop_stack_peek st = (case loop_stack st of [] \<Rightarrow> Some (Inl Out_Of_Bounds) | x # _ \<Rightarrow> Some (Inr (st, x)))"

section \<open>Emission\<close>

text \<open>\<^verbatim>\<open>is_gencode\<close> with an argument that is a number or a pointer to a record, as the opcode reads it.\<close>

definition gencode_at :: "nat \<Rightarrow> u8 \<Rightarrow> nat option \<Rightarrow> nat sp" where
  "gencode_at off ins arg =
     (let run = (\<lambda>rec num st.
            case is_gencode off ins rec num (sp_il st) of
              Inl e \<Rightarrow> Some (Inl e)
            | Inr (il, n) \<Rightarrow> Some (Inr (st\<lparr>sp_il := il\<rparr>, n)))
      in if ins_class ins = C_Plain \<or> ins_class ins = C_Other then run None 0
         else case arg of
           None \<Rightarrow> err_p Undefined_Value
         | Some v \<Rightarrow>
             if ins_class ins = C_Sys \<or> ins_class ins = C_Ctx then run None v
             else if v = 0 then run None 0
             else bind_p (load_rec v) (\<lambda>r.
     run (Some r) 0))"

definition gencode :: "u8 \<Rightarrow> nat option \<Rightarrow> unit sp" where
  "gencode ins arg =
     bind_p (get_p current_offset) (\<lambda>off.
     bind_p (gencode_at off ins arg) (\<lambda>n.
     upd_p (\<lambda>st. st\<lparr>current_offset := off + n\<rparr>)))"

text \<open>The open jumps of a record are emitted again, now that it has an offset.\<close>

definition patch_jumps :: "addr \<Rightarrow> unit sp" where
  "patch_jumps a =
     bind_p (load_rec a) (\<lambda>r.
     bind_p (each_p (\<lambda>j. bind_p (gencode_at (jr_offset j) (jr_ins j) (Some a)) (\<lambda>_.
         ret_p ())) (sy_list r)) (\<lambda>_.
     store_rec a st_jmp_clear))"

section \<open>Labels and jumps\<close>

definition sp_create_label :: "u8 list \<Rightarrow> addr sp" where
  "sp_create_label prefix =
     bind_p (get_p sp_label_index) (\<lambda>i.
     bind_p (sprintf_to 256 (prefix @ text_i i)) (\<lambda>lblname.
     bind_p (upd_p (\<lambda>st. st\<lparr>sp_label_index := Suc i\<rparr>)) (\<lambda>_.
     bind_p (sym_select SYM_TYPE_LABEL lblname) (\<lambda>a.
     bind_p (if a = 0 then sym_insert SYM_TYPE_LABEL lblname SYM_UNDEFINED else ret_p a) (\<lambda>lbl.
     bind_p (get_p sp_current_function) (\<lambda>f.
     bind_p (store_rec lbl (\<lambda>r. r\<lparr>sy_parent := f\<rparr>)) (\<lambda>_.
     ret_p lbl)))))))"

definition sp_jump_to :: "u8 \<Rightarrow> u8 list \<Rightarrow> unit sp" where
  "sp_jump_to ins lbl =
     bind_p (sym_select SYM_TYPE_LABEL lbl) (\<lambda>a.
     bind_p (if a = 0 then sym_insert SYM_TYPE_LABEL lbl SYM_UNDEFINED else ret_p a) (\<lambda>rec.
     bind_p (load_rec rec) (\<lambda>r.
     bind_p (get_p current_offset) (\<lambda>off.
     bind_p (when_p (sy_offset r = SYM_UNDEFINED) (store_rec rec (st_jmp_add ins off))) (\<lambda>_.
     gencode ins (Some rec))))))"

definition sp_new_label :: "u8 list \<Rightarrow> unit sp" where
  "sp_new_label lbl =
     bind_p (sym_select SYM_TYPE_LABEL lbl) (\<lambda>a.
     bind_p (get_p current_offset) (\<lambda>off.
     bind_p (if a = 0 then ret_p SYM_UNDEFINED else bind_p (load_rec a) (\<lambda>r.
         ret_p (sy_offset r))) (\<lambda>old.
     if old \<noteq> SYM_UNDEFINED then sp_error SP_ERR_MULTI_LABEL lbl
         else bind_p (if a = 0 then sym_insert SYM_TYPE_LABEL lbl off
           else bind_p (store_rec a (\<lambda>r. r\<lparr>sy_offset := off\<rparr>)) (\<lambda>_.
           ret_p a)) (\<lambda>rec.
       bind_p (get_p sp_current_function) (\<lambda>f.
       bind_p (store_rec rec (\<lambda>r. r\<lparr>sy_parent := f\<rparr>)) (\<lambda>_.
       bind_p (gencode INS_LBL (Some rec)) (\<lambda>_.
       patch_jumps rec)))))))"

end
