(* ===== verification/SP_Scope.thy ===== *)
theory SP_Scope
  imports SP_State
begin

text \<open>
  Lazy code of the semantic actions (\<^verbatim>\<open>Stack/sem_proto.c\<close>): instructions of an expression are not emitted but
  hung on the root of the current scope. A scope is a pair of roots on a stack, the current instructions and
  those for after the expression; flushing it emits both, or moves them to the enclosing scope.
\<close>

section \<open>Roots and nodes\<close>

definition sp_push_iroot :: "iroot option \<Rightarrow> unit sp" where
  "sp_push_iroot inode st =
     (if length (inode_stack st) < 2 * SEM_MAX_STACK
      then Some (Inr (st\<lparr>inode_stack := inode # inode_stack st\<rparr>, ())) else Some (Inl Out_Of_Bounds))"

definition sp_pop_iroot :: "iroot option sp" where
  "sp_pop_iroot st =
     (case inode_stack st of [] \<Rightarrow> Some (Inr (st, None)) | r # rs \<Rightarrow> Some (Inr (st\<lparr>inode_stack := rs\<rparr>, r)))"

text \<open>The root at a depth below the top; NULL when there is none.\<close>

definition iroot_at :: "nat \<Rightarrow> spstate \<Rightarrow> iroot option" where
  "iroot_at k st = (if k < length (inode_stack st) then inode_stack st ! k else None)"

definition sp_current_iroot :: "spstate \<Rightarrow> iroot option" where "sp_current_iroot = iroot_at 0"
definition sp_right_iroot :: "spstate \<Rightarrow> iroot option" where "sp_right_iroot = iroot_at 1"
definition sp_left_iroot :: "spstate \<Rightarrow> iroot option" where "sp_left_iroot = iroot_at 2"

definition set_nodes :: "nat \<Rightarrow> ins_node list \<Rightarrow> spstate \<Rightarrow> spstate" where
  "set_nodes k ns st =
     st\<lparr>inode_stack := (inode_stack st)[k := map_option (\<lambda>r. r\<lparr>ir_nodes := ns\<rparr>) (inode_stack st ! k)]\<rparr>"

text \<open>The nodes of a root; none of a NULL one.\<close>

definition nodes_of :: "iroot option \<Rightarrow> ins_node list" where
  "nodes_of r = (case r of None \<Rightarrow> [] | Some q \<Rightarrow> ir_nodes q)"

text \<open>Without a root the instruction is dropped.\<close>

definition sp_push_inode :: "ins_node \<Rightarrow> unit sp" where
  "sp_push_inode inode =
     upd_p (\<lambda>st. case sp_current_iroot st of None \<Rightarrow> st | Some r \<Rightarrow> set_nodes 0 (ir_nodes r @ [inode]) st)"

definition sp_pop_inode :: "ins_node option sp" where
  "sp_pop_inode st =
     (case sp_current_iroot st of
        None \<Rightarrow> Some (Inr (st, None))
      | Some r \<Rightarrow>
          if ir_nodes r = [] then Some (Inr (st, Some (ir_root r)))
          else Some (Inr (set_nodes 0 (butlast (ir_nodes r)) st, Some (last (ir_nodes r)))))"

definition sp_get_inode :: "ins_node option sp" where
  "sp_get_inode =
     get_p (\<lambda>st. map_option (\<lambda>r. if ir_nodes r = [] then ir_root r else last (ir_nodes r)) (sp_current_iroot st))"

definition push_ins :: "u8 \<Rightarrow> nat \<Rightarrow> unit sp" where
  "push_ins ins rec = sp_push_inode (sp_create_inode ins rec)"

text \<open>
  \<^verbatim>\<open>sp_gencode\<close> hangs the instruction on the current scope and emits nothing, so it returns 0. Called without an
  argument it takes what happens to be in the register.
\<close>

definition sp_gencode :: "u8 \<Rightarrow> nat option \<Rightarrow> unit sp" where
  "sp_gencode opcode rec = sp_push_inode \<lparr>in_ins = opcode, in_rec = rec\<rparr>"

section \<open>Emitting a scope\<close>

definition open_call :: "ins_node \<Rightarrow> unit sp" where
  "open_call n =
     (if is_F2O (in_ins n) \<or> in_ins n = INS_CALL then
        (case in_rec n of
           None \<Rightarrow> err_p Undefined_Value
         | Some a \<Rightarrow> bind_p (load_rec a) (\<lambda>r.
     bind_p (get_p current_offset) (\<lambda>off.
     when_p (sy_offset r = SYM_UNDEFINED) (store_rec a (st_jmp_add (in_ins n) off)))))
      else ret_p ())"

definition emit_node :: "ins_node \<Rightarrow> unit sp" where
  "emit_node n =
     bind_p (open_call n) (\<lambda>_.
     gencode (in_ins n) (in_rec n))"

definition sp_clear_current_scope :: "unit sp" where
  "sp_clear_current_scope =
     upd_p (\<lambda>st. case sp_current_iroot st of None \<Rightarrow> st | Some r \<Rightarrow> set_nodes 0 [] st)"

text \<open>
  \<^verbatim>\<open>sp_clone_scope\<close> walks along the current scope and calls \<^verbatim>\<open>sp_gencode\<close> for every node, which appends to the same
  list. \<open>k\<close> is the position of the walk.
\<close>

partial_function (option) clone_loop :: "nat \<Rightarrow> spstate \<Rightarrow> (spstate \<times> unit) result option" where
  "clone_loop k st =
     (case sp_current_iroot st of
        None \<Rightarrow> Some (Inr (st, ()))
      | Some r \<Rightarrow>
          if k < length (ir_nodes r) then
            (case open_call (ir_nodes r ! k) st of
               None \<Rightarrow> None
             | Some (Inl e) \<Rightarrow> Some (Inl e)
             | Some (Inr (st1, _)) \<Rightarrow>
                 (case sp_gencode (in_ins (ir_nodes r ! k)) (in_rec (ir_nodes r ! k)) st1 of
                    None \<Rightarrow> None
                  | Some (Inl e) \<Rightarrow> Some (Inl e)
                  | Some (Inr (st2, _)) \<Rightarrow> clone_loop (Suc k) st2))
          else Some (Inr (st, ())))"

definition sp_clone_scope :: "unit sp" where
  "sp_clone_scope = clone_loop 0"

definition sp_flush_scope_now :: "unit sp" where
  "sp_flush_scope_now =
     bind_p (get_p sp_current_iroot) (\<lambda>root.
     bind_p (get_p sp_right_iroot) (\<lambda>root_after.
     bind_p (each_p emit_node (nodes_of root)) (\<lambda>_.
     bind_p (when_p (root \<noteq> None) (upd_p (set_nodes 0 []))) (\<lambda>_.
     bind_p (each_p emit_node (nodes_of root_after)) (\<lambda>_.
     when_p (root_after \<noteq> None) (upd_p (set_nodes 1 [])))))))"

text \<open>
  \<^verbatim>\<open>sp_flush_scope_s\<close> for a target that is not NULL: the nodes of both roots move behind the nodes of the
  target, which \<open>put\<close> stores.
\<close>

definition move_scope :: "(ins_node list \<Rightarrow> spstate \<Rightarrow> spstate) \<Rightarrow> unit sp" where
  "move_scope put st =
     (case (sp_current_iroot st, sp_right_iroot st) of
        (Some r, Some ra) \<Rightarrow> Some (Inr (set_nodes 1 [] (set_nodes 0 [] (put (ir_nodes r @ ir_nodes ra) st)), ()))
      | _ \<Rightarrow> Some (Inl Null_Deref))"

definition sp_flush_scope :: "unit sp" where
  "sp_flush_scope st =
     (case sp_left_iroot st of
        None \<Rightarrow> sp_flush_scope_now st
      | Some l \<Rightarrow> move_scope (\<lambda>ns. set_nodes 2 (ir_nodes l @ ns)) st)"

section \<open>Scopes of method calls\<close>

definition new_iroot :: "u8 list \<Rightarrow> iroot sp" where
  "new_iroot prefix =
     bind_p (sp_create_label prefix) (\<lambda>lbl.
     ret_p \<lparr>ir_root = sp_create_inode INS_LBL lbl, ir_var = 0, ir_nodes = []\<rparr>)"

definition sp_create_method_scope :: "unit sp" where
  "sp_create_method_scope =
     bind_p (new_iroot [95, 95, 112]) (\<lambda>r.
     bind_p (get_p (\<lambda>st. SEM_MAX_STACK \<le> length (method_scope st))) (\<lambda>full.
     if full then err_p Out_Of_Bounds else upd_p (\<lambda>st. st\<lparr>method_scope := Some r # method_scope st\<rparr>)))"

text \<open>
  \<^verbatim>\<open>sp_destroy_method_scope\<close> clears the slot behind the one it takes, which for the last slot lies behind the array.
\<close>

definition sp_destroy_method_scope :: "unit sp" where
  "sp_destroy_method_scope st =
     (case method_scope st of
        [] \<Rightarrow> Some (Inl Out_Of_Bounds)
      | current # rest \<Rightarrow>
          if SEM_MAX_STACK \<le> Suc (length rest) then Some (Inl Out_Of_Bounds)
          else each_p emit_node (nodes_of current) (st\<lparr>method_scope := rest\<rparr>))"

definition sp_flush_method_param :: "unit sp" where
  "sp_flush_method_param st =
     (case method_scope st of
        [] \<Rightarrow> Some (Inr (st, ()))
      | None # _ \<Rightarrow> sp_flush_scope_now st
      | Some c # rest \<Rightarrow> move_scope (\<lambda>ns st. st\<lparr>method_scope := Some (c\<lparr>ir_nodes := ir_nodes c @ ns\<rparr>) # rest\<rparr>) st)"

section \<open>Opening, merging and closing scopes\<close>

definition sp_merge_scope_left :: "unit sp" where
  "sp_merge_scope_left =
     bind_p sp_pop_iroot (\<lambda>root.
     bind_p sp_pop_iroot (\<lambda>root_after.
     bind_p (get_p sp_current_iroot) (\<lambda>next_root.
     bind_p (get_p sp_right_iroot) (\<lambda>next_root_after.
     bind_p (if nodes_of root = [] then ret_p ()
         else if next_root = None then err_p Null_Deref
         else upd_p (set_nodes 0 (nodes_of root @ nodes_of next_root))) (\<lambda>_.
     if nodes_of root_after = [] then ret_p ()
         else if next_root_after = None then err_p Null_Deref
         else upd_p (set_nodes 1 (nodes_of next_root_after @ nodes_of root_after)))))))"

text \<open>
  \<^verbatim>\<open>sp_merge_scope_right\<close> tests a pointer that is always NULL there, so the nodes of the enclosing scope are
  replaced; the part behind its first \<^verbatim>\<open>return\<close> is never reached.
\<close>

definition sp_merge_scope_right :: "unit sp" where
  "sp_merge_scope_right =
     bind_p sp_pop_iroot (\<lambda>root.
     bind_p sp_pop_iroot (\<lambda>root_after.
     bind_p (get_p sp_current_iroot) (\<lambda>next_root.
     if nodes_of root = [] then ret_p ()
         else if next_root = None then err_p Null_Deref
         else upd_p (set_nodes 0 (nodes_of root)))))"

definition sp_swap_scope :: "unit sp" where
  "sp_swap_scope st =
     (case inode_stack st of
        a # b # rs \<Rightarrow> Some (Inr (st\<lparr>inode_stack := b # a # rs\<rparr>, ()))
      | _ \<Rightarrow> Some (Inl Out_Of_Bounds))"

definition sp_destroy_scope :: "unit sp" where
  "sp_destroy_scope =
     bind_p sp_flush_scope (\<lambda>_.
     bind_p sp_pop_iroot (\<lambda>_.
     bind_p sp_pop_iroot (\<lambda>_.
     ret_p ())))"

definition sp_set_scope_var :: "addr \<Rightarrow> addr sp" where
  "sp_set_scope_var rec =
     bind_p (upd_p (\<lambda>st. case inode_stack st of
         Some r # rs \<Rightarrow> st\<lparr>inode_stack := Some (r\<lparr>ir_var := rec\<rparr>) # rs\<rparr> | _ \<Rightarrow> st)) (\<lambda>_.
     ret_p rec)"

definition sp_get_scope_var :: "addr sp" where
  "sp_get_scope_var = get_p (\<lambda>st. case sp_current_iroot st of None \<Rightarrow> 0 | Some r \<Rightarrow> ir_var r)"

definition sp_create_new_scope :: "addr \<Rightarrow> unit sp" where
  "sp_create_new_scope var =
     bind_p (new_iroot [95, 95, 97]) (\<lambda>a.
     bind_p (sp_push_iroot (Some a)) (\<lambda>_.
     bind_p (new_iroot [95, 95, 122]) (\<lambda>z.
     bind_p (sp_push_iroot (Some z)) (\<lambda>_.
     bind_p (sp_set_scope_var var) (\<lambda>_.
     ret_p ())))))"

section \<open>Left-hand sides\<close>

text \<open>The instructions that load what the stack of variable contexts describes.\<close>

definition load_vctx :: "var_context option \<Rightarrow> unit sp" where
  "load_vctx v =
     (case v of
        None \<Rightarrow> err_p Null_Deref
      | Some vctx \<Rightarrow>
          if vc_operation vctx \<noteq> 0 then sp_gencode (vc_operation vctx) (Some (vc_var vctx))
          else bind_p (load_rec (vc_var vctx)) (\<lambda>r.
     if sy_type r AND 0x0F = SYM_TYPE_CONST then sp_gencode INS_OBJCONST (Some (vc_var vctx))
         else when_p (sy_type r AND 0x0F = SYM_TYPE_VAR) (sp_gencode INS_OBJPUSH (Some (vc_var vctx)))))"

definition load_vctxs :: "u8 \<Rightarrow> unit sp" where
  "load_vctxs windex =
     bind_p (get_p (\<lambda>st. s8_slot (varctx_stack st))) (\<lambda>slot.
     each_p (\<lambda>i. load_vctx (slot (of_nat i))) [0 ..< unat windex])"

definition sp_lhs_get_s :: "u8 \<Rightarrow> unit sp" where
  "sp_lhs_get_s windex =
     bind_p sp_peek_symrec (\<lambda>_.
     load_vctxs windex)"

definition sp_lhs_api_call :: "nat \<Rightarrow> u8 \<Rightarrow> unit sp" where
  "sp_lhs_api_call api_id arg_count = when_p (api_id \<noteq> 0) (push_ins (INS_SYSCALL + arg_count) api_id)"

definition sp_lhs_push_api_call :: "nat \<Rightarrow> unit sp" where
  "sp_lhs_push_api_call api_id = when_p (api_id \<noteq> 0) (sp_push_varctx (sp_create_varctx (INS_SYSCALL + 2) api_id))"

definition sp_lhs_get :: "nat \<Rightarrow> unit sp" where
  "sp_lhs_get api_id =
     (if api_id = 128 then ret_p () else bind_p (get_p (\<lambda>st. s8_index (varctx_stack st))) (\<lambda>i.
     sp_lhs_get_s i))"

definition sp_rhs_get_s :: "u8 \<Rightarrow> unit sp" where
  "sp_rhs_get_s windex =
     bind_p sp_peek_symrec (\<lambda>_.
     bind_p sp_clone_scope (\<lambda>_.
     load_vctxs windex))"

definition sp_rhs_get :: "nat \<Rightarrow> unit sp" where
  "sp_rhs_get api_id =
     (if api_id = 128 then ret_p () else bind_p (get_p (\<lambda>st. s8_index (varctx_stack st))) (\<lambda>i.
     sp_rhs_get_s i))"

definition sp_lhs_lazy_get_s :: "u8 \<Rightarrow> unit sp" where
  "sp_lhs_lazy_get_s windex =
     bind_p sp_peek_symrec (\<lambda>_.
     bind_p sp_clone_scope (\<lambda>_.
     load_vctxs windex))"

definition sp_lhs_lazy_get :: "nat \<Rightarrow> unit sp" where
  "sp_lhs_lazy_get api_id =
     (if api_id = 128 then ret_p () else bind_p (get_p (\<lambda>st. s8_index (varctx_stack st))) (\<lambda>i.
     sp_lhs_lazy_get_s i))"

definition sp_lhs_set :: "nat \<Rightarrow> unit sp" where
  "sp_lhs_set api_id =
     bind_p sp_peek_symrec (\<lambda>_.
     if api_id = 2 then sp_push_operation 1 3 else sp_push_operation 22 3)"

definition sp_lhs_store :: "u8 \<Rightarrow> addr \<Rightarrow> unit sp" where
  "sp_lhs_store ins rec =
     when_p (rec \<noteq> 0) (bind_p (get_p (\<lambda>st. s8_index (op_stack st))) (\<lambda>i.
     bind_p (when_p (i = 0) (bind_p (load_rec rec) (\<lambda>r.
         sp_push_operation_stack (sp_create_inode (if sy_type r AND 0x0F = SYM_TYPE_VAR then INS_OBJPOP else INS_OBJDEL) rec)))) (\<lambda>_.
     sp_push_varctx (sp_create_varctx ins rec))))"

text \<open>The pending stores of an assignment, last first, and then the result is dropped unless it was stored.\<close>

fun pop_operations :: "nat \<Rightarrow> unit sp" where
  "pop_operations 0 = ret_p ()"
| "pop_operations (Suc k) =
     bind_p (get_p (\<lambda>st. s8_slot (op_stack st) (of_nat k))) (\<lambda>n.
     bind_p (upd_p (\<lambda>st. st\<lparr>op_stack := (op_stack st)\<lparr>s8_index := of_nat k\<rparr>\<rparr>)) (\<lambda>_.
     bind_p (case n of None \<Rightarrow> err_p Null_Deref | Some inode \<Rightarrow> sp_push_inode inode) (\<lambda>_.
     pop_operations k)))"

definition sp_end_expr :: "addr \<Rightarrow> unit sp" where
  "sp_end_expr rec =
     (if rec = 0 then ret_p ()
      else bind_p (get_p (\<lambda>st. s8_index (op_stack st))) (\<lambda>i.
           if i \<noteq> 0 then bind_p (pop_operations (unat i)) (\<lambda>_.
             bind_p (get_p (\<lambda>st. s8_slot (op_stack st) 0)) (\<lambda>n.
             (case n of None \<Rightarrow> err_p Null_Deref
                 | Some inode \<Rightarrow> when_p (in_ins inode \<noteq> INS_OBJPOP) (push_ins INS_OBJDEL 0))))
               else bind_p (load_rec rec) (\<lambda>r.
             if sy_type r AND SYM_TYPE_VAR \<noteq> 0 then push_ins INS_OBJPOP rec else push_ins INS_OBJDEL 0)))"

end
