(* ===== verification/SP_Actions.thy ===== *)
theory SP_Actions
  imports SP_Scope
begin

text \<open>
  The semantic actions for constants and for loading and storing values (\<^verbatim>\<open>Stack/sem_proto.c\<close>), at once or into the scope
  for after the expression. What an action returns is left out where it is the current offset.
\<close>

section \<open>Constants\<close>

definition push_pool :: "u8 list \<Rightarrow> nat sp" where
  "push_pool value =
     bind_p (get_p sp_il) (\<lambda>il.
     bind_p (res_p (is_push_constant value il)) (\<lambda>(il', off).
     bind_p (upd_p (\<lambda>st. st\<lparr>sp_il := il'\<rparr>)) (\<lambda>_.
     ret_p (unat off))))"

text \<open>The offset of a constant that is already known is not looked up: the result is 0 then.\<close>

definition sp_push_constant :: "u8 list \<Rightarrow> nat sp" where
  "sp_push_constant symname =
     bind_p (sym_select SYM_TYPE_CONST symname) (\<lambda>var.
     if var \<noteq> 0 then ret_p 0
         else bind_p (push_pool (take (length symname mod 2 ^ 16) symname)) (\<lambda>offset.
       bind_p (sym_insert SYM_TYPE_CONST symname offset) (\<lambda>_.
       ret_p offset)))"

definition sp_push_constant_s :: "u8 list \<Rightarrow> nat \<Rightarrow> nat sp" where
  "sp_push_constant_s symname len =
     bind_p (sym_select_s SYM_TYPE_CONST symname len) (\<lambda>var.
     if var \<noteq> 0 then ret_p 0
         else bind_p (push_pool (take len symname)) (\<lambda>offset.
       bind_p (sym_insert_s SYM_TYPE_CONST symname len offset) (\<lambda>_.
       ret_p offset)))"

definition sp_push_array :: "u8 list \<Rightarrow> nat \<Rightarrow> nat sp" where
  "sp_push_array arrval len =
     bind_p (sym_select_array arrval len) (\<lambda>var.
     if var \<noteq> 0 then ret_p 0
         else bind_p (push_pool (take len arrval)) (\<lambda>offset.
       bind_p (sym_insert_array arrval len offset) (\<lambda>_.
       ret_p offset)))"

definition sp_push_constant_offset :: "u16 \<Rightarrow> addr sp" where
  "sp_push_constant_offset c_offset =
     bind_p (sprintf_to 10 (text_i (unat c_offset))) (\<lambda>sbuffer.
     bind_p (sym_select SYM_TYPE_CONST sbuffer) (\<lambda>var.
     if var \<noteq> 0 then ret_p var
         else bind_p (push_pool sbuffer) (\<lambda>offset.
       sym_insert SYM_TYPE_CONST sbuffer offset)))"

definition sp_push_class :: "u8 list \<Rightarrow> nat sp" where
  "sp_push_class symname =
     bind_p (sym_select SYM_TYPE_CLASS symname) (\<lambda>var.
     if var \<noteq> 0 then ret_p 0
         else bind_p (push_pool (take (length symname mod 2 ^ 16) symname)) (\<lambda>offset.
       bind_p (sym_insert SYM_TYPE_CLASS symname offset) (\<lambda>_.
       ret_p offset)))"

text \<open>The record of a constant, pushed if it is new.\<close>

definition const_rec :: "u8 list \<Rightarrow> addr sp" where
  "const_rec constname =
     bind_p (sym_select SYM_TYPE_CONST constname) (\<lambda>srec.
     if srec \<noteq> 0 then ret_p srec
         else bind_p (sp_push_constant constname) (\<lambda>_.
       sym_select SYM_TYPE_CONST constname))"

section \<open>Bytes of an array constant\<close>

definition sp_new_array_constant :: "unit sp" where
  "sp_new_array_constant = upd_p (\<lambda>st. st\<lparr>arr_len := 0\<rparr>)"

definition sp_push_array_constant :: "u8 list \<Rightarrow> unit sp" where
  "sp_push_array_constant constname =
     upd_p (\<lambda>st. st\<lparr>arr_buffer := (arr_buffer st)(arr_len st := word_of_int (atoi constname)), arr_len := arr_len st + 1\<rparr>)"

section \<open>Loading and storing\<close>

definition sp_load_stack :: "u8 list \<Rightarrow> unit sp" where
  "sp_load_stack varname =
     bind_p (sym_select SYM_TYPE_VAR varname) (\<lambda>rec.
     if rec \<noteq> 0 then sp_gencode INS_OBJPUSH (Some rec) else sp_error SP_ERR_UNDEF_VARIABLE varname)"

definition sp_load_constant :: "u8 list \<Rightarrow> unit sp" where
  "sp_load_constant constname =
     bind_p (const_rec constname) (\<lambda>rec.
     if rec \<noteq> 0 then sp_gencode INS_OBJCONST (Some rec) else sp_error SP_ERR_UNDEF_VARIABLE constname)"

definition sp_load_numeric :: "u8 list \<Rightarrow> unit sp" where
  "sp_load_numeric constname =
     bind_p (const_rec constname) (\<lambda>rec.
     if rec \<noteq> 0 then bind_p (sp_gencode INS_OBJCONST (Some rec)) (\<lambda>_.
       sp_gencode (INS_SYSCALL + 1) (Some 40))
         else sp_error SP_ERR_UNDEF_VARIABLE constname)"

definition array_rec :: "u8 list \<Rightarrow> nat \<Rightarrow> addr sp" where
  "array_rec arrval len =
     bind_p (sym_select_array arrval len) (\<lambda>rec.
     if rec \<noteq> 0 then ret_p rec
         else bind_p (sp_push_array arrval len) (\<lambda>_.
       sym_select_array arrval len))"

definition sp_load_array :: "u8 list \<Rightarrow> u8 \<Rightarrow> unit sp" where
  "sp_load_array arrval len =
     bind_p (array_rec arrval (unat len)) (\<lambda>rec.
     if rec \<noteq> 0 then sp_gencode INS_OBJCONST (Some rec) else sp_error SP_ERR_UNDEF_VARIABLE arrval)"

definition sp_store_stack :: "u8 list \<Rightarrow> unit sp" where
  "sp_store_stack varname =
     bind_p (sym_select SYM_TYPE_VAR varname) (\<lambda>rec.
     if rec \<noteq> 0 then sp_gencode INS_OBJPOP (Some rec) else sp_error SP_ERR_UNDEF_VARIABLE varname)"

definition sp_operation_stack :: "u8 \<Rightarrow> unit sp" where
  "sp_operation_stack ins = sp_gencode ins None"

definition sp_lz_load_stack :: "addr \<Rightarrow> addr sp" where
  "sp_lz_load_stack rec =
     (if rec = 0 then ret_p 0
      else bind_p (load_rec rec) (\<lambda>r.
           bind_p (if sy_type r AND 0x0F = SYM_TYPE_VAR then push_ins INS_OBJPUSH rec
               else when_p (sy_type r AND 0x0F = SYM_TYPE_CONST) (push_ins INS_OBJCONST rec)) (\<lambda>_.
           ret_p rec)))"

definition sp_lz_load_constant :: "u8 list \<Rightarrow> addr sp" where
  "sp_lz_load_constant constname =
     bind_p (const_rec constname) (\<lambda>srec.
     bind_p (push_ins INS_OBJCONST srec) (\<lambda>_.
     ret_p srec))"

definition sp_lz_load_numeric :: "u8 list \<Rightarrow> addr sp" where
  "sp_lz_load_numeric constname =
     bind_p (const_rec constname) (\<lambda>srec.
     bind_p (push_ins INS_OBJCONST srec) (\<lambda>_.
     bind_p (push_ins (INS_SYSCALL + 1) 40) (\<lambda>_.
     ret_p srec)))"

definition sp_lz_load_constant_s :: "u8 list \<Rightarrow> nat \<Rightarrow> addr sp" where
  "sp_lz_load_constant_s constname len =
     bind_p (sym_select_s SYM_TYPE_CONST constname len) (\<lambda>a.
     bind_p (if a \<noteq> 0 then ret_p a
         else bind_p (sp_push_constant_s constname len) (\<lambda>_.
         sym_select_s SYM_TYPE_CONST constname len)) (\<lambda>srec.
     bind_p (push_ins INS_OBJCONST srec) (\<lambda>_.
     ret_p srec)))"

definition sp_lz_load_array :: "u8 list \<Rightarrow> nat \<Rightarrow> addr sp" where
  "sp_lz_load_array arrval len =
     bind_p (array_rec arrval len) (\<lambda>srec.
     bind_p (push_ins INS_OBJCONST srec) (\<lambda>_.
     ret_p srec))"

definition sp_lz_load_array_constant :: "addr sp" where
  "sp_lz_load_array_constant =
     bind_p (get_p arr_len) (\<lambda>len.
     bind_p (get_p arr_buffer) (\<lambda>buf.
     sp_lz_load_array (map (\<lambda>i. buf (of_nat i)) [0 ..< 256]) (unat len)))"

definition sp_lz_load_method :: "u8 list \<Rightarrow> addr sp" where
  "sp_lz_load_method funcname =
     bind_p (sprintf_to 64 (funcname @ [qmark] @ text_i 0)) (\<lambda>fbuffer.
     bind_p (sym_select SYM_TYPE_FUNCTION fbuffer) (\<lambda>a.
     bind_p (if a \<noteq> 0 then ret_p a
         else bind_p (sym_create SYM_TYPE_FUNCTION fbuffer SYM_UNDEFINED) (\<lambda>f.
         sym_add_record f)) (\<lambda>func.
     bind_p (load_rec func) (\<lambda>r.
     bind_p (push_ins (INS_F2O + (sy_ptotal r AND 0x0F)) func) (\<lambda>_.
     ret_p func)))))"

definition sp_lz_load_lambda :: "addr \<Rightarrow> addr sp" where
  "sp_lz_load_lambda lambda =
     bind_p (if lambda \<noteq> 0 then bind_p (load_rec lambda) (\<lambda>r.
         push_ins (INS_F2O + (sy_ptotal r AND 0x0F)) lambda) else ret_p ()) (\<lambda>_.
     bind_p (store_rec lambda (\<lambda>r. r\<lparr>sy_type := sy_type r OR SYM_TYPE_VAR\<rparr>)) (\<lambda>_.
     ret_p lambda))"

text \<open>A variable, or else a function of that name; the parser never passes NULL.\<close>

definition sp_lz_load_variable :: "u8 list \<Rightarrow> addr sp" where
  "sp_lz_load_variable varname =
     bind_p (sym_select SYM_TYPE_VAR varname) (\<lambda>rec.
     if rec \<noteq> 0 then bind_p (push_ins INS_OBJPUSH rec) (\<lambda>_.
       ret_p rec) else sp_lz_load_method varname)"

definition sp_lhs_load_variable :: "u8 list \<Rightarrow> addr sp" where
  "sp_lhs_load_variable varname =
     bind_p (sym_select SYM_TYPE_VAR varname) (\<lambda>rec.
     if rec \<noteq> 0 then bind_p (push_ins INS_OBJPUSH rec) (\<lambda>_.
       ret_p rec) else sp_lz_load_method varname)"

definition sp_lz_store_variable :: "u8 list \<Rightarrow> addr sp" where
  "sp_lz_store_variable varname =
     bind_p (sym_select SYM_TYPE_VAR varname) (\<lambda>rec.
     if rec = 0 then bind_p (sp_error SP_ERR_UNDEF_VARIABLE varname) (\<lambda>_.
       ret_p 0)
         else bind_p (push_ins INS_OBJPOP rec) (\<lambda>_.
       ret_p rec))"

definition sp_lhs_store_variable :: "u8 list \<Rightarrow> addr sp" where
  "sp_lhs_store_variable varname =
     bind_p (sym_select SYM_TYPE_VAR varname) (\<lambda>rec.
     if rec = 0 then bind_p (sp_error SP_ERR_UNDEF_VARIABLE varname) (\<lambda>_.
       ret_p 0)
         else bind_p (push_ins INS_OBJPOP rec) (\<lambda>_.
       ret_p rec))"

definition sp_lz_create_instance :: "u8 list \<Rightarrow> addr sp" where
  "sp_lz_create_instance constname =
     bind_p (get_p sp_pk) (\<lambda>m.
     bind_p (get_p sp_pk_root) (\<lambda>root.
     bind_p (opt_p (pk_select_class m root constname)) (\<lambda>cls.
     if cls = 0 \<or> (n_tag (m cls) \<noteq> PK_TAG_CLASS \<and> n_tag (m cls) \<noteq> PK_TAG_INTERFACE) then ret_p 0
         else bind_p (sym_select SYM_TYPE_CONST constname) (\<lambda>a.
       bind_p (if a \<noteq> 0 then ret_p a
           else bind_p (sp_push_constant constname) (\<lambda>offset.
           bind_p (sym_select SYM_TYPE_CONST constname) (\<lambda>b.
           bind_p (store_rec b (\<lambda>r. r\<lparr>sy_offset := offset\<rparr>)) (\<lambda>_.
           ret_p b)))) (\<lambda>srec.
       bind_p (if n_tag (m cls) = PK_TAG_CLASS then push_ins INS_OBJNEW srec
           else bind_p (push_ins INS_OBJCONST srec) (\<lambda>_.
           push_ins (INS_SYSCALL + 1) 36)) (\<lambda>_.
       ret_p srec))))))"

text \<open>The rest of the loads into the scope for after the expression, for a record that was just loaded.\<close>

definition store_back :: "u8 \<Rightarrow> addr \<Rightarrow> unit sp" where
  "store_back ins rec =
     bind_p (push_ins ins 0) (\<lambda>_.
     bind_p (load_rec rec) (\<lambda>r.
     if sy_type r AND SYM_TYPE_VAR \<noteq> 0 then push_ins INS_OBJPOP rec else push_ins INS_OBJDEL rec))"

definition sp_lz_constant_after_scope :: "u8 list \<Rightarrow> u8 list \<Rightarrow> u8 \<Rightarrow> addr sp" where
  "sp_lz_constant_after_scope dstname constname ins =
     bind_p sp_pop_iroot (\<lambda>temp.
     bind_p (sp_lz_load_variable dstname) (\<lambda>rec.
     bind_p (sp_lz_load_constant constname) (\<lambda>_.
     bind_p (store_back ins rec) (\<lambda>_.
     bind_p (sp_push_iroot temp) (\<lambda>_.
     ret_p rec)))))"

definition sp_lz_array_after_scope :: "u8 list \<Rightarrow> u8 list \<Rightarrow> u8 \<Rightarrow> u8 \<Rightarrow> addr sp" where
  "sp_lz_array_after_scope dstname arrval len ins =
     bind_p sp_pop_iroot (\<lambda>temp.
     bind_p (sp_lz_load_variable dstname) (\<lambda>rec.
     bind_p (sp_lz_load_array arrval (unat len)) (\<lambda>_.
     bind_p (store_back ins rec) (\<lambda>_.
     bind_p (sp_push_iroot temp) (\<lambda>_.
     ret_p rec)))))"

definition sp_lz_variable_after_scope :: "u8 list \<Rightarrow> u8 list \<Rightarrow> u8 \<Rightarrow> addr sp" where
  "sp_lz_variable_after_scope dstname srcname ins =
     bind_p sp_pop_iroot (\<lambda>temp.
     bind_p (sp_lz_load_variable dstname) (\<lambda>rec.
     bind_p (sp_lz_load_variable srcname) (\<lambda>srec.
     if srec = 0 then bind_p (sp_error SP_ERR_UNDEF_VARIABLE srcname) (\<lambda>_.
       ret_p 0)
         else bind_p (store_back ins rec) (\<lambda>_.
       bind_p (sp_push_iroot temp) (\<lambda>_.
       ret_p rec)))))"

definition sp_end_scope :: "unit sp" where
  "sp_end_scope =
     bind_p sp_get_scope_var (\<lambda>rec.
     bind_p (if rec = 0 then ret_p False else bind_p (load_rec rec) (\<lambda>r.
         ret_p (sy_type r AND 0x0F = SYM_TYPE_VAR))) (\<lambda>var.
     if var then bind_p sp_clear_current_scope (\<lambda>_.
            bind_p sp_destroy_scope (\<lambda>_.
            bind_p (rec_name rec) (\<lambda>name.
            bind_p (sp_lz_load_variable name) (\<lambda>_.
            ret_p ()))))
         else sp_merge_scope_right))"

end
