(* ===== verification/SP_Control.thy ===== *)
theory SP_Control
  imports SP_Actions
begin

text \<open>
  The semantic actions that declare names and emit control flow (\<^verbatim>\<open>Stack/sem_proto.c\<close>): classes, functions and their
  bodies, calls, loops and cases.
\<close>

section \<open>Classes and methods\<close>

definition sp_start_class_body :: "u8 list \<Rightarrow> addr sp" where
  "sp_start_class_body name =
     bind_p (get_p sp_fresh) (\<lambda>a.
     bind_p (get_p sp_pk) (\<lambda>m.
     bind_p (get_p sp_pk_root) (\<lambda>root.
     bind_p (opt_p (pk_install_class a name m root)) (\<lambda>(m', root').
     bind_p (upd_p (\<lambda>st. st\<lparr>sp_pk := m', sp_pk_root := root', sp_fresh := Suc a, prog_class := a\<rparr>)) (\<lambda>_.
     ret_p a)))))"

definition sp_end_class_body :: "unit sp" where
  "sp_end_class_body = upd_p (\<lambda>st. st\<lparr>prog_class := 0\<rparr>)"

definition sp_start_interface_body :: "u8 list \<Rightarrow> u8 list \<Rightarrow> addr sp" where
  "sp_start_interface_body name libname =
     bind_p (get_p sp_fresh) (\<lambda>a.
     bind_p (get_p sp_pk) (\<lambda>m.
     bind_p (get_p sp_pk_root) (\<lambda>root.
     bind_p (opt_p (pk_install_interface a name libname m root)) (\<lambda>(m', root').
     bind_p (upd_p (\<lambda>st. st\<lparr>sp_pk := m', sp_pk_root := root', sp_fresh := Suc a, prog_class := a\<rparr>)) (\<lambda>_.
     ret_p a)))))"

definition sp_end_interface_body :: "unit sp" where
  "sp_end_interface_body = upd_p (\<lambda>st. st\<lparr>prog_class := 0\<rparr>)"

text \<open>The field \<^verbatim>\<open>param_types\<close> lies 754 bytes behind the name; a method has room for 16 types.\<close>

definition PARAM_TYPES :: nat where "PARAM_TYPES = 754"

definition sp_register_method :: "addr \<Rightarrow> u8 \<Rightarrow> u8 \<Rightarrow> addr sp" where
  "sp_register_method rec call_type ret_type =
     bind_p (get_p prog_class) (\<lambda>parent.
     if parent = 0 then ret_p 0
         else bind_p (load_rec rec) (\<lambda>r.
       bind_p (get_p sp_fresh) (\<lambda>a.
       bind_p (get_p sp_pk) (\<lambda>m.
       bind_p (get_p current_offset) (\<lambda>off.
       bind_p (opt_p (pk_register_method a parent (strz (sy_name r)) (sy_ptotal r AND 0x7F) call_type ret_type
           (of_nat off) 0 m)) (\<lambda>(m1, meth).
       bind_p (ret_p (unat (sy_ptotal r AND 0x7F))) (\<lambda>n.
       if 16 < n \<or> length (sy_name r) < PARAM_TYPES + n then err_p Out_Of_Bounds
           else bind_p (ret_p (map Some (take n (drop PARAM_TYPES (sy_name r))))) (\<lambda>types.
         bind_p (upd_p (\<lambda>st. st\<lparr>sp_pk := pk_put meth (\<lambda>q. q\<lparr>n_params := types @ drop n (n_params q)\<rparr>) m1, sp_fresh := Suc a\<rparr>)) (\<lambda>_.
         ret_p meth)))))))))"

section \<open>Variables and functions\<close>

definition sp_create_variable :: "u8 list \<Rightarrow> addr sp" where
  "sp_create_variable varname =
     bind_p (sym_select SYM_TYPE_VAR varname) (\<lambda>a.
     bind_p (get_p sp_context_cntr) (\<lambda>i.
     bind_p (if a \<noteq> 0 then ret_p a
         else bind_p (sym_insert SYM_TYPE_VAR varname i) (\<lambda>b.
         bind_p (upd_p (\<lambda>st. st\<lparr>sp_context_cntr := Suc i\<rparr>)) (\<lambda>_.
         ret_p b))) (\<lambda>newvar.
     bind_p (get_p sp_current_function) (\<lambda>f.
     bind_p (store_rec newvar (\<lambda>r. r\<lparr>sy_parent := f\<rparr>)) (\<lambda>_.
     ret_p newvar)))))"

text \<open>A parameter counts for the function that is being declared, unless the count is locked.\<close>

definition sp_create_param :: "u8 list \<Rightarrow> addr sp" where
  "sp_create_param varname =
     bind_p (sym_select SYM_TYPE_VAR varname) (\<lambda>a.
     bind_p (get_p sp_context_cntr) (\<lambda>i.
     bind_p (if a \<noteq> 0 then ret_p a
         else bind_p (sym_insert SYM_TYPE_VAR varname i) (\<lambda>b.
         bind_p (upd_p (\<lambda>st. st\<lparr>sp_context_cntr := Suc i\<rparr>)) (\<lambda>_.
         ret_p b))) (\<lambda>newvar.
     bind_p (get_p sp_current_function) (\<lambda>f.
     bind_p (if f = 0 then ret_p ()
         else bind_p (store_rec newvar (\<lambda>r. r\<lparr>sy_parent := f\<rparr>)) (\<lambda>_.
         store_rec f (\<lambda>r. if sy_ptotal r AND 0x80 = 0 then r\<lparr>sy_pcount := sy_pcount r + 1\<rparr> else r))) (\<lambda>_.
     ret_p newvar)))))"

definition sp_create_lambda_param :: "u8 list \<Rightarrow> addr sp" where
  "sp_create_lambda_param = sp_create_param"

definition sp_create_function :: "u8 list \<Rightarrow> addr sp" where
  "sp_create_function funcname =
     bind_p (sym_select SYM_TYPE_FUNCTION funcname) (\<lambda>a.
     bind_p (if a \<noteq> 0 then ret_p a else sym_create SYM_TYPE_FUNCTION funcname SYM_UNDEFINED) (\<lambda>newfunc.
     bind_p (upd_p (\<lambda>st. st\<lparr>sp_current_function := newfunc, sp_context_cntr := 0\<rparr>)) (\<lambda>_.
     ret_p newfunc)))"

definition sp_declare_interface_function :: "u8 list \<Rightarrow> addr sp" where
  "sp_declare_interface_function funcname =
     bind_p (sym_select SYM_TYPE_FUNCTION funcname) (\<lambda>a.
     bind_p (if a \<noteq> 0 then ret_p a
         else bind_p (sp_push_constant_s funcname (length funcname mod 2 ^ 16)) (\<lambda>offset.
         bind_p (sp_create_function funcname) (\<lambda>f.
         bind_p (sym_add_record f) (\<lambda>_.
         bind_p (store_rec f (\<lambda>r. r\<lparr>sy_type := sy_type r OR SYM_TYPE_CONST, sy_offset := offset\<rparr>)) (\<lambda>_.
         ret_p f))))) (\<lambda>func.
     bind_p (upd_p (\<lambda>st. st\<lparr>sp_current_function := func\<rparr>)) (\<lambda>_.
     ret_p func)))"

definition sp_declare_function :: "u8 list \<Rightarrow> addr sp" where
  "sp_declare_function funcname =
     bind_p (sym_select SYM_TYPE_FUNCTION funcname) (\<lambda>a.
     bind_p (if a \<noteq> 0 then ret_p a else bind_p (sp_create_function funcname) (\<lambda>f.
         sym_add_record f)) (\<lambda>func.
     bind_p (upd_p (\<lambda>st. st\<lparr>sp_current_function := func\<rparr>)) (\<lambda>_.
     ret_p func)))"

definition sp_declare_function_param :: "u8 \<Rightarrow> unit sp" where
  "sp_declare_function_param type =
     bind_p (get_p sp_current_function) (\<lambda>f.
     if f = 0 then ret_p ()
         else bind_p (load_rec f) (\<lambda>r.
       if sy_ptotal r AND 0x80 \<noteq> 0 then ret_p ()
           else if length (sy_name r) \<le> PARAM_TYPES + unat (sy_ptotal r) then err_p Out_Of_Bounds
           else store_rec f (\<lambda>q. q\<lparr>sy_name := (sy_name q)[PARAM_TYPES + unat (sy_ptotal q) := type], sy_ptotal := sy_ptotal q + 1\<rparr>)))"

definition sp_declare_function_extern :: "u8 list \<Rightarrow> unit sp" where
  "sp_declare_function_extern apinum =
     bind_p (get_p sp_current_function) (\<lambda>f.
     if f = 0 then ret_p ()
         else store_rec f (\<lambda>r. r\<lparr>sy_type := sy_type r OR SYM_TYPE_EXTERNAL, sy_offset := nat (atoi apinum mod 2 ^ 64)\<rparr>))"

definition sp_declare_function_end :: "u8 list \<Rightarrow> addr sp" where
  "sp_declare_function_end funcname =
     bind_p (sym_select SYM_TYPE_FUNCTION funcname) (\<lambda>func.
     if func = 0 then ret_p 0
         else bind_p (get_p sp_current_function) (\<lambda>f.
       bind_p (load_rec f) (\<lambda>r.
       bind_p (sprintf_to 256 (strz (sy_name r) @ [qmark] @ text_i (unat (sy_ptotal r)))) (\<lambda>buffer.
       bind_p (sym_select SYM_TYPE_FUNCTION buffer) (\<lambda>b.
       if b \<noteq> 0 then bind_p (sp_error SP_ERR_MULTI_FUNCTION buffer) (\<lambda>_.
         ret_p 0)
           else bind_p (store_rec f (\<lambda>q. q\<lparr>sy_ptotal := sy_ptotal q OR 0x80\<rparr>)) (\<lambda>_.
         bind_p (upd_p (\<lambda>st. st\<lparr>sp_current_function := 0\<rparr>)) (\<lambda>_.
         ret_p func)))))))"

definition sp_install_api :: "u8 list \<Rightarrow> u16 \<Rightarrow> u8 \<Rightarrow> unit sp" where
  "sp_install_api funcname api_id num_args =
     bind_p (sym_select SYM_TYPE_FUNCTION funcname) (\<lambda>a.
     bind_p (if a \<noteq> 0 then ret_p a else bind_p (sp_create_function funcname) (\<lambda>f.
         sym_add_record f)) (\<lambda>func.
     store_rec func (\<lambda>r. r\<lparr>sy_type := sy_type r OR SYM_TYPE_EXTERNAL, sy_offset := unat api_id, sy_ptotal := 0x80 OR num_args\<rparr>)))"

section \<open>Function bodies\<close>

text \<open>The tag of the label record \<^verbatim>\<open>is_get_lblrec\<close> returns, the last one with the offset.\<close>

definition tag_label :: "nat \<Rightarrow> addr \<Rightarrow> lblrec list \<Rightarrow> lblrec list result" where
  "tag_label off tag ls =
     (let hits = filter (\<lambda>i. lb_offset (ls ! i) = off mod 2 ^ 16) [0 ..< length ls] in
      if hits = [] then Inl Null_Deref else Inr (ls[last hits := (ls ! last hits)\<lparr>lb_tag := tag\<rparr>]))"

definition register_public :: "addr \<Rightarrow> unit sp" where
  "register_public newfunc =
     bind_p (sp_register_method newfunc 0 0) (\<lambda>tag.
     bind_p (get_p current_offset) (\<lambda>off.
     bind_p (get_p (\<lambda>st. il_lblhead (sp_il st))) (\<lambda>ls.
     bind_p (res_p (tag_label off tag ls)) (\<lambda>ls'.
     upd_p (\<lambda>st. st\<lparr>sp_il := (sp_il st)\<lparr>il_lblhead := ls'\<rparr>\<rparr>)))))"

definition sp_start_function_body :: "addr \<Rightarrow> bool \<Rightarrow> addr sp" where
  "sp_start_function_body func is_public =
     bind_p (rec_name func) (\<lambda>name.
     bind_p (get_p sp_context_cntr) (\<lambda>i.
     bind_p (sprintf_to 256 (name @ [qmark] @ text_i i)) (\<lambda>funcname.
     bind_p (sym_select SYM_TYPE_FUNCTION funcname) (\<lambda>a.
     bind_p (get_p current_offset) (\<lambda>off.
     bind_p (if a \<noteq> 0 then bind_p (load_rec a) (\<lambda>r.
         if sy_offset r \<noteq> SYM_UNDEFINED then bind_p (sp_error SP_ERR_MULTI_FUNCTION name) (\<lambda>_.
           ret_p 0)
             else bind_p (upd_p (\<lambda>st. st\<lparr>sp_tab := st_sym_update_parent func a (sp_tab st)\<rparr>)) (\<lambda>_.
           bind_p (sym_dispose func) (\<lambda>_.
           bind_p (store_rec a (\<lambda>q. q\<lparr>sy_offset := off\<rparr>)) (\<lambda>_.
           bind_p (upd_p (\<lambda>st. st\<lparr>sp_current_function := a\<rparr>)) (\<lambda>_.
           bind_p (patch_jumps a) (\<lambda>_.
           ret_p a))))))
         else bind_p (sym_select SYM_TYPE_FUNCTION name) (\<lambda>b.
         if b \<noteq> 0 then bind_p (sp_error SP_ERR_MULTI_FUNCTION name) (\<lambda>_.
           ret_p 0)
             else bind_p (sym_add_record func) (\<lambda>_.
           bind_p (store_rec func (\<lambda>q. put_name funcname (q\<lparr>sy_ptotal := sy_pcount q OR 0x80\<rparr>))) (\<lambda>_.
           bind_p (upd_p (\<lambda>st. st\<lparr>sp_current_function := func\<rparr>)) (\<lambda>_.
           ret_p func))))) (\<lambda>newfunc.
     if newfunc = 0 then ret_p 0
         else bind_p (sp_create_label [95, 95, 110]) (\<lambda>lbl.
       bind_p (upd_p (\<lambda>st. st\<lparr>sp_end_function_label := lbl\<rparr>)) (\<lambda>_.
       bind_p (gencode INS_LBL (Some newfunc)) (\<lambda>_.
       bind_p (when_p is_public (register_public newfunc)) (\<lambda>_.
       bind_p (get_p current_offset) (\<lambda>entry.
       bind_p (store_rec newfunc (\<lambda>q. q\<lparr>sy_offset := entry\<rparr>)) (\<lambda>_.
       bind_p (gencode INS_SCTX (Some 0)) (\<lambda>_.
       bind_p (sp_create_variable funcname) (\<lambda>_.
       ret_p newfunc))))))))))))))"

definition sp_exit_function_body :: "unit sp" where
  "sp_exit_function_body =
     bind_p (get_p sp_end_function_label) (\<lambda>e.
     if e = 0 then ret_p () else bind_p (rec_name e) (\<lambda>name.
       sp_jump_to INS_JMP name))"

definition sp_return_function_body :: "unit sp" where
  "sp_return_function_body =
     bind_p (get_p sp_end_function_label) (\<lambda>e.
     bind_p (get_p sp_current_function) (\<lambda>f.
     if e = 0 \<or> f = 0 then ret_p ()
         else bind_p (rec_name f) (\<lambda>fname.
       bind_p (sym_select SYM_TYPE_VAR fname) (\<lambda>retvar.
       bind_p (rec_name retvar) (\<lambda>vname.
       bind_p (sp_store_stack vname) (\<lambda>_.
       bind_p (rec_name e) (\<lambda>name.
       sp_jump_to INS_JMP name)))))))"

definition clear_locals :: "addr \<Rightarrow> unit sp" where
  "clear_locals func =
     upd_p (\<lambda>st. let (t, errs) = st_sym_clear_locals func (sp_tab st) in st\<lparr>sp_tab := t, sp_errors := sp_errors st @ errs\<rparr>)"

definition sp_end_function_body :: "addr \<Rightarrow> unit sp" where
  "sp_end_function_body func =
     (if func = 0 then ret_p ()
      else bind_p (load_rec func) (\<lambda>r.
           bind_p (get_p sp_context_cntr) (\<lambda>n.
           bind_p (gencode_at (sy_offset r) INS_SCTX (Some n)) (\<lambda>_.
           bind_p (get_p sp_end_function_label) (\<lambda>e.
           bind_p (if e = 0 then ret_p ()
               else bind_p (rec_name e) (\<lambda>name.
               bind_p (sp_new_label name) (\<lambda>_.
               upd_p (\<lambda>st. st\<lparr>sp_end_function_label := 0\<rparr>)))) (\<lambda>_.
           bind_p sp_destroy_scope (\<lambda>_.
           bind_p (rec_name func) (\<lambda>fname.
           bind_p (sp_load_stack fname) (\<lambda>_.
           bind_p sp_flush_scope_now (\<lambda>_.
           bind_p (gencode INS_RCTX (Some n)) (\<lambda>_.
           bind_p (gencode INS_RET None) (\<lambda>_.
           bind_p (clear_locals func) (\<lambda>_.
           bind_p (upd_p (\<lambda>st. st\<lparr>sp_context_cntr := 0\<rparr>)) (\<lambda>_.
           bind_p (get_p sp_current_function) (\<lambda>f.
           bind_p (store_rec f (\<lambda>q. q\<lparr>sy_ptotal := sy_ptotal q OR 0x80\<rparr>)) (\<lambda>_.
           upd_p (\<lambda>st. st\<lparr>sp_current_function := 0\<rparr>)))))))))))))))))"

section \<open>Calls\<close>

definition sp_start_api_call :: "u16 \<Rightarrow> u8 \<Rightarrow> addr sp" where
  "sp_start_api_call api_id icount =
     bind_p sp_push_varctx_scope_s (\<lambda>_.
     bind_p (get_p sp_api_id) (\<lambda>i.
     bind_p (sprintf_to 15 ([95, 102] @ text_i (unat api_id) @ [95] @ text_i i)) (\<lambda>buffer.
     bind_p (upd_p (\<lambda>st. st\<lparr>sp_api_id := Suc i\<rparr>)) (\<lambda>_.
     bind_p (sym_select SYM_TYPE_FUNCTION buffer) (\<lambda>a.
     if a \<noteq> 0 then bind_p (store_rec a (\<lambda>r. r\<lparr>sy_pcount := icount\<rparr>)) (\<lambda>_.
       ret_p a)
         else bind_p (sym_create SYM_TYPE_FUNCTION buffer SYM_UNDEFINED) (\<lambda>f.
       bind_p (store_rec f (\<lambda>r. r\<lparr>sy_pcount := icount\<rparr>)) (\<lambda>_.
       bind_p (sym_add_record f) (\<lambda>_.
       bind_p (store_rec f (\<lambda>r. r\<lparr>sy_type := sy_type r OR SYM_TYPE_EXTERNAL, sy_offset := unat api_id\<rparr>)) (\<lambda>_.
       ret_p f)))))))))"

definition sp_start_function_call :: "u8 list \<Rightarrow> u8 \<Rightarrow> addr sp" where
  "sp_start_function_call funcname icount =
     bind_p (sym_select SYM_TYPE_VAR funcname) (\<lambda>fvar.
     if fvar \<noteq> 0 then bind_p (push_ins INS_OBJPUSH fvar) (\<lambda>_.
       bind_p sp_push_varctx_scope_s (\<lambda>_.
       ret_p fvar))
         else bind_p (sym_select SYM_TYPE_FUNCTION funcname) (\<lambda>a.
       bind_p (if a \<noteq> 0 then ret_p a else sym_create SYM_TYPE_FUNCTION funcname SYM_UNDEFINED) (\<lambda>func.
       bind_p (store_rec func (\<lambda>r. r\<lparr>sy_pcount := icount\<rparr>)) (\<lambda>_.
       bind_p sp_push_varctx_scope_s (\<lambda>_.
       ret_p func)))))"

definition sp_push_function_param :: "addr \<Rightarrow> unit sp" where
  "sp_push_function_param funcrec =
     bind_p (if funcrec = 0 then ret_p () else store_rec funcrec (\<lambda>r. r\<lparr>sy_pcount := sy_pcount r + 1\<rparr>)) (\<lambda>_.
     bind_p sp_pop_varctx_scope_s (\<lambda>_.
     sp_push_varctx_scope_s))"

definition check_arguments :: "u8 \<Rightarrow> symrec \<Rightarrow> unit sp" where
  "check_arguments pcount r =
     bind_p (when_p (sy_ptotal r AND 0x80 \<noteq> 0 \<and> pcount < sy_ptotal r AND 0x7F) (sp_error SP_ERR_LESS_ARGUMENTS (strz (sy_name r)))) (\<lambda>_.
     when_p (sy_ptotal r AND 0x80 \<noteq> 0 \<and> sy_ptotal r AND 0x7F < pcount) (sp_error SP_ERR_OVER_ARGUMENTS (strz (sy_name r))))"

definition sp_end_function_call :: "addr \<Rightarrow> addr sp" where
  "sp_end_function_call rec =
     bind_p (rec_name rec) (\<lambda>name.
     bind_p (load_rec rec) (\<lambda>r.
     bind_p (sym_select SYM_TYPE_FUNCTION name) (\<lambda>a.
     bind_p (if a = 0 then ret_p False else bind_p (load_rec a) (\<lambda>q.
         ret_p (sy_type q AND SYM_TYPE_EXTERNAL \<noteq> 0))) (\<lambda>ext.
     if ext then bind_p sp_pop_varctx_scope_s (\<lambda>_.
            bind_p (load_rec a) (\<lambda>q.
            bind_p (push_ins (INS_SYSCALL + sy_pcount q) (sy_offset q mod 2 ^ 16)) (\<lambda>_.
            ret_p a)))
         else if sy_type r AND SYM_TYPE_VAR \<noteq> 0 then bind_p sp_pop_varctx_scope_s (\<lambda>_.
       bind_p (push_ins (INS_SYSCALL + (sy_pcount r + 1)) 31) (\<lambda>_.
       ret_p rec))
         else bind_p (sprintf_to 256 (name @ [qmark] @ text_i (unat (sy_pcount r)))) (\<lambda>funcname.
       bind_p (sym_select SYM_TYPE_FUNCTION funcname) (\<lambda>b.
       bind_p (if b \<noteq> 0 then bind_p (load_rec b) (\<lambda>q.
           bind_p (check_arguments (sy_pcount r) q) (\<lambda>_.
           bind_p (push_ins INS_CALL b) (\<lambda>_.
           bind_p (sym_dispose rec) (\<lambda>_.
           ret_p b))))
           else bind_p (store_rec rec (\<lambda>q. put_name funcname (q\<lparr>sy_ptotal := sy_pcount q OR 0x80\<rparr>))) (\<lambda>_.
           bind_p (push_ins INS_CALL rec) (\<lambda>_.
           ret_p rec))) (\<lambda>frec.
       bind_p sp_pop_varctx_scope_s (\<lambda>_.
       ret_p frec))))))))"

definition sp_lhs_load :: "u16 \<Rightarrow> u8 \<Rightarrow> addr \<Rightarrow> addr sp" where
  "sp_lhs_load api_id num_args rec =
     (if api_id \<noteq> 0 then bind_p (sp_start_api_call api_id (num_args + 1)) (\<lambda>f.
     sp_end_function_call f)
      else bind_p (rec_name rec) (\<lambda>name.
           sp_lz_load_variable name))"

section \<open>Loops\<close>

definition sp_start_loop :: "addr sp" where
  "sp_start_loop =
     bind_p (sp_create_label [95, 95, 108]) (\<lambda>lbl.
     bind_p (rec_name lbl) (\<lambda>name.
     bind_p (sp_new_label name) (\<lambda>_.
     bind_p (sp_loop_stack_push lbl) (\<lambda>_.
     ret_p lbl))))"

definition sp_start_each_loop :: "addr \<Rightarrow> addr sp" where
  "sp_start_each_loop var =
     bind_p (sp_create_label [95, 95, 108]) (\<lambda>lbl.
     bind_p (push_ins (INS_SYSCALL + 1) 28) (\<lambda>_.
     bind_p sp_flush_scope_now (\<lambda>_.
     bind_p (rec_name lbl) (\<lambda>name.
     bind_p (sp_new_label name) (\<lambda>_.
     bind_p (sp_loop_stack_push lbl) (\<lambda>_.
     bind_p (push_ins INS_OBJDUP 0) (\<lambda>_.
     bind_p (push_ins (INS_SYSCALL + 1) 29) (\<lambda>_.
     bind_p (push_ins INS_OBJDUP 0) (\<lambda>_.
     bind_p (push_ins INS_OBJPOP var) (\<lambda>_.
     bind_p (sp_lz_load_constant []) (\<lambda>_.
     bind_p (push_ins INS_CRNE 0) (\<lambda>_.
     ret_p lbl))))))))))))"

definition sp_continue_loop :: "unit sp" where
  "sp_continue_loop =
     bind_p sp_loop_stack_peek (\<lambda>lbl.
     if lbl = 0 then ret_p () else bind_p (rec_name lbl) (\<lambda>name.
       sp_jump_to INS_JMP name))"

definition sp_end_loop :: "unit sp" where
  "sp_end_loop =
     bind_p sp_loop_stack_peek (\<lambda>lbl.
     if lbl = 0 then ret_p () else bind_p (rec_name lbl) (\<lambda>name.
       bind_p (sp_jump_to INS_JMP name) (\<lambda>_.
       bind_p sp_loop_stack_pop (\<lambda>_.
       ret_p ()))))"

definition sp_end_each_loop :: "unit sp" where
  "sp_end_each_loop =
     bind_p sp_end_loop (\<lambda>_.
     push_ins INS_OBJDEL 0)"

section \<open>Cases\<close>

text \<open>
  The jump table of a switch grows in the name of a constant record: two bytes of default target, then four bytes
  for each case, all with the high byte first. From the 125th case on the writes leave the array \<^verbatim>\<open>name[500]\<close>, which C
  does not define; the model follows the layout of the record, in which they land in \<^verbatim>\<open>ext\<close>, \<^verbatim>\<open>param_types\<close> and the
  padding behind them, fields a constant record does not use, and stops at the end of the record.
\<close>

definition put16_name :: "nat \<Rightarrow> nat \<Rightarrow> symrec \<Rightarrow> symrec" where
  "put16_name i v r = r\<lparr>sy_name := (sy_name r)[i := ucast (drop_bit 8 (of_nat v :: u16)), Suc i := ucast (of_nat v :: u16)]\<rparr>"

definition sp_start_case :: "addr sp" where
  "sp_start_case =
     bind_p (sym_insert SYM_TYPE_CONST [] 0) (\<lambda>jumptable.
     bind_p (get_p sp_current_function) (\<lambda>f.
     bind_p (get_p current_offset) (\<lambda>off.
     bind_p (store_rec jumptable (\<lambda>r. st_jmp_add INS_SWITCH off ((put16_name 0 0 r)\<lparr>sy_length := 2, sy_parent := f\<rparr>))) (\<lambda>_.
     bind_p (gencode INS_SWITCH (Some jumptable)) (\<lambda>_.
     ret_p jumptable)))))"

definition sp_label_case_s :: "addr \<Rightarrow> u8 list \<Rightarrow> nat \<Rightarrow> unit sp" where
  "sp_label_case_s jumptable name len =
     bind_p (sym_select_s SYM_TYPE_CONST name len) (\<lambda>rec.
     bind_p (load_rec rec) (\<lambda>c.
     bind_p (load_rec jumptable) (\<lambda>t.
     bind_p (get_p current_offset) (\<lambda>off.
     if length (sy_name t) < sy_length t + 4 then err_p Out_Of_Bounds
         else store_rec jumptable (\<lambda>r. (put16_name (sy_length r + 2) off (put16_name (sy_length r) (sy_offset c) r))
         \<lparr>sy_length := (sy_length r + 4) mod 2 ^ 16\<rparr>)))))"

definition sp_label_case :: "addr \<Rightarrow> u8 list \<Rightarrow> unit sp" where
  "sp_label_case jumptable name = sp_label_case_s jumptable name (length name mod 2 ^ 16)"

definition sp_default_case :: "addr \<Rightarrow> unit sp" where
  "sp_default_case jumptable =
     bind_p (get_p current_offset) (\<lambda>off.
     store_rec jumptable (put16_name 0 off))"

definition sp_end_case :: "addr \<Rightarrow> unit sp" where
  "sp_end_case jumptable =
     bind_p (load_rec jumptable) (\<lambda>t.
     bind_p (get_p current_offset) (\<lambda>off.
     bind_p (if sy_name t ! 0 = 0 \<and> sy_name t ! 1 = 0 then store_rec jumptable (put16_name 0 off) else ret_p ()) (\<lambda>_.
     bind_p (load_rec jumptable) (\<lambda>r.
     if length (sy_name r) < sy_length r then err_p Out_Of_Bounds
         else bind_p (push_pool (take (sy_length r) (sy_name r))) (\<lambda>cp.
       bind_p (store_rec jumptable (\<lambda>q. q\<lparr>sy_offset := cp\<rparr>)) (\<lambda>_.
       patch_jumps jumptable))))))"

end
