(* ===== verification/SP_Lambda.thy ===== *)
theory SP_Lambda
  imports SP_Control
begin

text \<open>
  The remaining semantic actions (\<^verbatim>\<open>Stack/sem_proto.c\<close>): calls of methods, lambda expressions, try-catch blocks, the list of
  errors and the initialisation. \<^verbatim>\<open>sp_import_package\<close> walks a directory and is not modelled.
\<close>

section \<open>Method calls\<close>

definition sp_lz_load_class :: "u8 list \<Rightarrow> addr sp" where
  "sp_lz_load_class classname =
     bind_p (get_p sp_lk) (\<lambda>lk.
     bind_p (opt_p (lk_select_class (k_mem lk) (lk_get_root lk) classname)) (\<lambda>classrec.
     bind_p (when_p (classrec = 0) (sp_error SP_ERR_UNDEF_CLASS classname)) (\<lambda>_.
     bind_p (const_rec classname) (\<lambda>srec.
     bind_p (push_ins INS_OBJNEW srec) (\<lambda>_.
     ret_p srec)))))"

definition sp_start_method_call :: "u8 list \<Rightarrow> addr sp" where
  "sp_start_method_call methname =
     bind_p (sym_create SYM_TYPE_FUNCTION methname SYM_UNDEFINED) (\<lambda>func.
     bind_p (store_rec func (\<lambda>r. r\<lparr>sy_pcount := 0\<rparr>)) (\<lambda>_.
     bind_p sp_push_varctx_scope_s (\<lambda>_.
     ret_p func)))"

definition sp_push_method_param :: "addr \<Rightarrow> unit sp" where
  "sp_push_method_param rec =
     bind_p (if rec = 0 then ret_p () else store_rec rec (\<lambda>r. r\<lparr>sy_pcount := sy_pcount r + 1\<rparr>)) (\<lambda>_.
     bind_p sp_pop_varctx_scope_s (\<lambda>_.
     sp_push_varctx_scope_s))"

text \<open>
  The name of a method goes to the constant pool and its record becomes the argument of the call. The
  selection also finds a function of that name and number of arguments. For a record that is both a constant and a function the code waits for a key
  and takes the record itself.
\<close>

definition sp_end_method_call_scope :: "addr \<Rightarrow> addr sp" where
  "sp_end_method_call_scope methrec =
     bind_p (load_rec methrec) (\<lambda>m.
     bind_p (if sy_type m AND (SYM_TYPE_CONST OR SYM_TYPE_FUNCTION) \<noteq> SYM_TYPE_CONST OR SYM_TYPE_FUNCTION
         then sprintf_to 256 (strz (sy_name m) @ [qmark] @ text_i (unat (sy_pcount m))) else ret_p []) (\<lambda>methname.
     bind_p (if sy_type m AND (SYM_TYPE_CONST OR SYM_TYPE_FUNCTION) \<noteq> SYM_TYPE_CONST OR SYM_TYPE_FUNCTION
         then sym_select (SYM_TYPE_CONST OR SYM_TYPE_FUNCTION) methname else ret_p methrec) (\<lambda>a.
     bind_p (if a \<noteq> 0 then ret_p a
         else bind_p (sp_push_constant methname) (\<lambda>_.
         bind_p (sym_select SYM_TYPE_CONST methname) (\<lambda>b.
         bind_p (store_rec b (\<lambda>r. r\<lparr>sy_ptotal := sy_pcount m OR 0x80\<rparr>)) (\<lambda>_.
         ret_p b)))) (\<lambda>srec.
     bind_p (load_rec srec) (\<lambda>r.
     bind_p (check_arguments (sy_pcount m) r) (\<lambda>_.
     bind_p (push_ins (INS_EXTCALL + sy_pcount m) srec) (\<lambda>_.
     ret_p srec)))))))"

definition sp_end_method_call :: "addr \<Rightarrow> addr sp" where
  "sp_end_method_call methrec =
     bind_p (sp_end_method_call_scope methrec) (\<lambda>srec.
     bind_p sp_pop_varctx_scope_s (\<lambda>_.
     bind_p (sym_dispose methrec) (\<lambda>_.
     ret_p srec)))"

section \<open>Lambda expressions\<close>

definition sp_skip_lambda_body :: "unit sp" where
  "sp_skip_lambda_body =
     bind_p (get_p sp_skip_function_label) (\<lambda>s.
     if s = 0 then ret_p () else bind_p (rec_name s) (\<lambda>name.
       sp_jump_to INS_JMP name))"

definition push_table :: "unit sp" where
  "push_table =
     upd_p (\<lambda>st. st\<lparr>sp_tab := st_push_table (\<lambda>i. sp_fresh st + i) (sp_tab st),
       sp_fresh := sp_fresh st + length (symhead (sp_tab st))\<rparr>)"

definition sp_start_lambda_decl :: "u8 \<Rightarrow> addr sp" where
  "sp_start_lambda_decl icount =
     bind_p (get_p sp_label_index) (\<lambda>i.
     bind_p (upd_p (\<lambda>st. st\<lparr>sp_label_index := Suc i\<rparr>)) (\<lambda>_.
     bind_p (sym_create SYM_TYPE_FUNCTION ([95, 95, 108, 102] @ text_i i) SYM_UNDEFINED) (\<lambda>func.
     bind_p (get_p sp_current_function) (\<lambda>f.
     bind_p (store_rec func (\<lambda>r. r\<lparr>sy_pcount := icount, sy_parent := f\<rparr>)) (\<lambda>_.
     bind_p sp_flush_scope (\<lambda>_.
     bind_p (sp_create_label [95, 95, 108, 120]) (\<lambda>skip.
     bind_p (upd_p (\<lambda>st. st\<lparr>sp_skip_function_label := skip\<rparr>)) (\<lambda>_.
     bind_p sp_skip_lambda_body (\<lambda>_.
     bind_p sp_push_lambda (\<lambda>_.
     bind_p push_table (\<lambda>_.
     bind_p (upd_p (\<lambda>st. st\<lparr>sp_current_function := func\<rparr>)) (\<lambda>_.
     ret_p func))))))))))))"

definition sp_execute_lambda_call :: "addr \<Rightarrow> addr sp" where
  "sp_execute_lambda_call rec =
     bind_p (load_rec rec) (\<lambda>r.
     bind_p (sprintf_to 256 (strz (sy_name r) @ [qmark] @ text_i (unat (sy_pcount r)))) (\<lambda>funcname.
     bind_p (sym_add_record rec) (\<lambda>_.
     bind_p (store_rec rec (\<lambda>q. put_name funcname (q\<lparr>sy_ptotal := sy_pcount q OR 0x80\<rparr>))) (\<lambda>_.
     ret_p rec))))"

definition sp_start_lambda_body :: "addr \<Rightarrow> addr sp" where
  "sp_start_lambda_body func =
     bind_p (load_rec func) (\<lambda>r.
     bind_p (get_p current_offset) (\<lambda>off.
     if sy_offset r \<noteq> SYM_UNDEFINED then bind_p (sp_error SP_ERR_MULTI_FUNCTION (strz (sy_name r))) (\<lambda>_.
       ret_p 0)
         else bind_p (store_rec func (\<lambda>q. q\<lparr>sy_offset := off\<rparr>)) (\<lambda>_.
       bind_p (upd_p (\<lambda>st. st\<lparr>sp_current_function := func\<rparr>)) (\<lambda>_.
       bind_p (sp_create_variable (strz (sy_name r))) (\<lambda>_.
       bind_p (patch_jumps func) (\<lambda>_.
       bind_p sp_push_varctx_scope_s (\<lambda>_.
       bind_p (sp_create_label [95, 95, 108, 110]) (\<lambda>lbl.
       bind_p (upd_p (\<lambda>st. st\<lparr>sp_end_function_label := lbl\<rparr>)) (\<lambda>_.
       bind_p (gencode INS_LBL (Some func)) (\<lambda>_.
       bind_p (get_p current_offset) (\<lambda>entry.
       bind_p (store_rec func (\<lambda>q. q\<lparr>sy_offset := entry\<rparr>)) (\<lambda>_.
       bind_p (gencode INS_SCTX (Some 0)) (\<lambda>_.
       ret_p func)))))))))))))"

text \<open>
  Popping the table frees nothing: the records of the table of the lambda expression stay allocated, and the record of the
  function itself is used afterwards. They become records outside every table.
\<close>

definition pop_table :: "unit sp" where
  "pop_table =
     upd_p (\<lambda>st. if symstack (sp_tab st) = [] then st
       else st\<lparr>sp_tab := st_pop_table (sp_tab st), sp_loose := symhead (sp_tab st) @ sp_loose st\<rparr>)"

definition sp_end_lambda_decl :: "addr \<Rightarrow> addr sp" where
  "sp_end_lambda_decl func =
     (if func = 0 then ret_p 0
      else bind_p (load_rec func) (\<lambda>r.
           bind_p (get_p sp_context_cntr) (\<lambda>n.
           bind_p (gencode_at (sy_offset r) INS_SCTX (Some n)) (\<lambda>_.
           bind_p (get_p sp_end_function_label) (\<lambda>e.
           bind_p (if e = 0 then ret_p () else bind_p (rec_name e) (\<lambda>name.
               sp_new_label name)) (\<lambda>_.
           bind_p (rec_name func) (\<lambda>fname.
           bind_p (sp_load_stack fname) (\<lambda>_.
           bind_p sp_flush_scope_now (\<lambda>_.
           bind_p (gencode INS_RCTX (Some n)) (\<lambda>_.
           bind_p (gencode INS_RET None) (\<lambda>_.
           bind_p (clear_locals func) (\<lambda>_.
           bind_p sp_pop_varctx_scope_s (\<lambda>_.
           bind_p pop_table (\<lambda>_.
           bind_p sp_pop_lambda (\<lambda>_.
           bind_p (get_p sp_skip_function_label) (\<lambda>s.
           bind_p (if s = 0 then ret_p ()
               else bind_p (rec_name s) (\<lambda>sname.
               bind_p (sp_new_label sname) (\<lambda>_.
               upd_p (\<lambda>st. st\<lparr>sp_skip_function_label := 0\<rparr>)))) (\<lambda>_.
           ret_p func)))))))))))))))))"

section \<open>Menus, events and try-catch blocks\<close>

definition sp_install_menu :: "u8 list \<Rightarrow> addr \<Rightarrow> addr sp" where
  "sp_install_menu menuname methrec =
     bind_p (get_p prog_class) (\<lambda>parent.
     if parent = 0 then ret_p methrec
         else bind_p (rec_name methrec) (\<lambda>name.
       bind_p (get_p sp_pk) (\<lambda>m.
       bind_p (opt_p (pk_register_menu parent name menuname m)) (\<lambda>(m', p).
       bind_p (upd_p (\<lambda>st. st\<lparr>sp_pk := m'\<rparr>)) (\<lambda>_.
       bind_p (when_p (p = 0) (sp_error SP_ERR_MUST_PUBLIC name)) (\<lambda>_.
       ret_p methrec))))))"

definition sp_install_event :: "u8 list \<Rightarrow> addr \<Rightarrow> addr sp" where
  "sp_install_event eventname methrec =
     bind_p (get_p prog_class) (\<lambda>parent.
     if parent = 0 then ret_p methrec
         else bind_p (rec_name methrec) (\<lambda>name.
       bind_p (get_p sp_pk) (\<lambda>m.
       bind_p (opt_p (pk_register_event parent name (word_of_int (atoi eventname)) m)) (\<lambda>(m', p).
       bind_p (upd_p (\<lambda>st. st\<lparr>sp_pk := m'\<rparr>)) (\<lambda>_.
       bind_p (when_p (p = 0) (sp_error SP_ERR_MUST_PUBLIC name)) (\<lambda>_.
       ret_p methrec))))))"

definition sp_push_try_catch :: "unit sp" where
  "sp_push_try_catch st =
     (if length (tc_block st) < SEM_MAX_STACK
      then Some (Inr (st\<lparr>tc_block := \<lparr>tc_start = of_nat (current_offset st), tc_end = of_nat (current_offset st), tc_cblock = - 1,
             tc_num_args = 0\<rparr> # tc_block st\<rparr>, ()))
      else Some (Inl Out_Of_Bounds))"

definition sp_set_cblock :: "unit sp" where
  "sp_set_cblock = upd_p (\<lambda>st. case tc_block st of [] \<Rightarrow> st
     | tc # tcs \<Rightarrow> st\<lparr>tc_block := tc\<lparr>tc_end := of_nat (current_offset st), tc_cblock := of_nat (current_offset st)\<rparr> # tcs\<rparr>)"

definition sp_pop_try_catch :: "u8 \<Rightarrow> unit sp" where
  "sp_pop_try_catch num_args =
     bind_p (get_p tc_block) (\<lambda>tcs.
     (case tcs of [] \<Rightarrow> ret_p ()
         | tc # rest \<Rightarrow> bind_p (get_p sp_fresh) (\<lambda>a.
       bind_p (get_p sp_pk) (\<lambda>m.
       bind_p (get_p sp_pk_root) (\<lambda>root.
       bind_p (opt_p (map_option Inr (pk_install_tcblock a (tc_start tc) (tc_cblock tc) num_args m root))) (\<lambda>(m', root').
       upd_p (\<lambda>st. st\<lparr>tc_block := rest, sp_pk := m', sp_pk_root := root', sp_fresh := Suc a\<rparr>)))))))"

section \<open>Imported names, errors and initialisation\<close>

definition sp_start_construct :: "unit sp" where
  "sp_start_construct = upd_p (\<lambda>st. st\<lparr>construct_index := 0, construct_buffer := replicate 256 0\<rparr>)"

definition sp_push_construct :: "u8 list \<Rightarrow> unit sp" where
  "sp_push_construct value st =
     (let i = construct_index st in
      if 256 < i + length value + 1 then Some (Inl Out_Of_Bounds)
      else Some (Inr (st\<lparr>construct_buffer := take i (construct_buffer st) @ value @ 0 # drop (i + length value + 1) (construct_buffer st),
             construct_index := i + length value\<rparr>, ())))"

definition sp_end_construct :: "u8 list sp" where
  "sp_end_construct = get_p (\<lambda>st. strz (construct_buffer st))"

definition sp_error_clear :: "unit sp" where
  "sp_error_clear = upd_p (\<lambda>st. st\<lparr>sp_errors := []\<rparr>)"

definition sp_error_get_enumerator :: "(sp_err \<times> u8 list) list sp" where
  "sp_error_get_enumerator = get_p sp_errors"

definition sp_error_next_record :: "(sp_err \<times> u8 list) list \<Rightarrow> (sp_err \<times> u8 list) list sp" where
  "sp_error_next_record rec = (case rec of [] \<Rightarrow> err_p Null_Deref | _ # rest \<Rightarrow> ret_p rest)"

definition sp_cleanup_parser :: "unit sp" where
  "sp_cleanup_parser =
     upd_p (\<lambda>st. let (t, errs) = st_sym_clear_globals (sp_tab st) in st\<lparr>sp_tab := t, sp_errors := sp_errors st @ errs\<rparr>)"

text \<open>Scopes, loops, saved stacks and the queue keep what the last run left in them.\<close>

definition sp_init_global :: "unit sp" where
  "sp_init_global = upd_p (\<lambda>st. st\<lparr>sp_errors := [], current_offset := 0, sp_offstack := [], sp_symstack := [],
     sp_label_index := 0, sp_context_cntr := 0, sp_current_function := 0, sp_end_function_label := 0, lambda_stack := []\<rparr>)"

section \<open>Reading the program text\<close>

text \<open>A source is a buffer (\<^verbatim>\<open>mode\<close> 1) or a file, here its bytes and a position.\<close>

record pp_config =
  pp_mode :: u8
  pp_codebuffer :: "u8 list"
  pp_length :: int
  pp_index :: int
  pp_file :: "u8 list"
  pp_pos :: int

definition pp_getc :: "pp_config \<Rightarrow> (pp_config \<times> int) result" where
  "pp_getc pfig =
     (if pp_mode pfig = 1 then
        (if pp_length pfig \<le> pp_index pfig then Inr (pfig, - 1)
         else if pp_index pfig < 0 \<or> int (length (pp_codebuffer pfig)) \<le> pp_index pfig then Inl Out_Of_Bounds
         else Inr (pfig\<lparr>pp_index := pp_index pfig + 1\<rparr>, uint (pp_codebuffer pfig ! nat (pp_index pfig))))
      else if 0 \<le> pp_pos pfig \<and> pp_pos pfig < int (length (pp_file pfig))
      then Inr (pfig\<lparr>pp_pos := pp_pos pfig + 1\<rparr>, uint (pp_file pfig ! nat (pp_pos pfig)))
      else Inr (pfig, - 1))"

definition SEEK_SET :: int where "SEEK_SET = 0"
definition SEEK_CUR :: int where "SEEK_CUR = 1"

definition pp_seek :: "int \<Rightarrow> int \<Rightarrow> pp_config \<Rightarrow> pp_config" where
  "pp_seek offset origin pfig =
     (if pp_mode pfig = 1 then
        (if origin = SEEK_CUR then pfig\<lparr>pp_index := to_int32 (pp_index pfig + offset)\<rparr>
         else if origin = SEEK_SET then pfig\<lparr>pp_index := to_int32 offset\<rparr> else pfig)
      else
        (let p = (if origin = SEEK_CUR then pp_pos pfig + offset else if origin = SEEK_SET then offset
                  else int (length (pp_file pfig)) + offset)
         in if p < 0 then pfig else pfig\<lparr>pp_pos := p\<rparr>))"

definition pp_close :: "pp_config \<Rightarrow> pp_config" where
  "pp_close pfig = (if pp_mode pfig = 1 then pfig\<lparr>pp_index := pp_length pfig\<rparr> else pfig)"

definition pp_error :: "pp_config \<Rightarrow> int" where
  "pp_error pfig = (if pp_mode pfig = 1 \<and> pp_length pfig \<le> pp_index pfig then - 1 else 0)"

end
