(* ===== verification/SP_Backpatch.thy ===== *)
theory SP_Backpatch
  imports SP_Lambda
begin

text \<open>
  Jumps of the semantic actions. A jump to a label that has no place yet is noted in the list of the label and
  its operand is written when the label gets its place. For every sequence of the actions that create labels, jump,
  place labels and emit instructions: each jump either waits in the list of its label or holds the offset of the
  label, and after linking it leads there.
\<close>

section \<open>Computing with actions\<close>

lemma bind_p_simps [simp]:
  "bind_p (ret_p x) f st = f x st"
  "bind_p (err_p e) f st = Some (Inl e)"
  "bind_p (get_p g) f st = f (g st) st"
  "bind_p (upd_p u) h st = h () (u st)"
  by (simp_all add: bind_p_def ret_p_def err_p_def get_p_def upd_p_def)

lemma bind_p_assoc [simp]: "bind_p (bind_p m k) f st = bind_p m (\<lambda>x. bind_p (k x) f) st"
proof (cases "m st")
  case (Some r)
  then show ?thesis
    by (cases r) (auto simp: bind_p_def)
qed (simp add: bind_p_def)

lemma bind_p_eval: "m st = Some (Inr (st1, x)) \<Longrightarrow> bind_p m f st = f x st1"
  by (simp add: bind_p_def)

lemma bind_load: "load_rec a st = Some (Inr (st, r)) \<Longrightarrow> bind_p (load_rec a) f st = f r st"
  by (simp add: bind_p_def)

lemma bind_p_Inr_iff:
  "bind_p m f st = Some (Inr y) \<longleftrightarrow> (\<exists>st1 x. m st = Some (Inr (st1, x)) \<and> f x st1 = Some (Inr y))"
proof (cases "m st")
  case (Some r)
  then show ?thesis
    by (cases r) (auto simp: bind_p_def)
qed (simp add: bind_p_def)

lemmas act_defs = ret_p_def err_p_def get_p_def upd_p_def res_p_def when_p_def

section \<open>Code buffers\<close>

lemma starts_gap:
  "p \<in> set (ins_starts b sz pc) \<Longrightarrow> q \<in> set (ins_starts b sz pc) \<Longrightarrow> p < q \<Longrightarrow> p + ins_len b p \<le> q"
proof (induction b sz pc rule: ins_starts.induct)
  case (1 b sz pc)
  show ?case
  proof (cases "pc < sz")
    case True
    have "q \<noteq> pc"
      using 1(2,4) ins_starts_ge [of p b sz pc] by auto
    with 1(3) True have q: "q \<in> set (ins_starts b sz (pc + ins_len b pc))"
      by (simp add: ins_starts.simps [of b sz pc])
    show ?thesis
    proof (cases "p = pc")
      case True
      with ins_starts_ge [OF q] show ?thesis by simp
    next
      case False
      with 1(1) [OF \<open>pc < sz\<close> _ q 1(4)] 1(2) True show ?thesis
        by (simp add: ins_starts.simps [of b sz pc])
    qed
  qed (use 1 in \<open>simp add: ins_starts.simps [of b sz pc]\<close>)
qed

text \<open>Writing the operand of a jump changes neither the sequence of instructions nor another operand.\<close>

lemma walk_put:
  assumes "p \<in> set (ins_starts b sz pc)" "ins_class (b p) = C_Jump"
  shows "parses (put_operand (Suc p) v b) sz pc = parses b sz pc \<and> ins_starts (put_operand (Suc p) v b) sz pc = ins_starts b sz pc"
  using assms
proof (induction b sz pc rule: ins_starts.induct)
  case (1 b sz pc)
  let ?c = "put_operand (Suc p) v b"
  have le: "pc \<le> p" "pc < sz"
    using ins_starts_ge [OF 1(2)] by auto
  have same: "?c pc = b pc"
    using le by simp
  show ?case
  proof (cases "p = pc")
    case True
    then have len: "ins_len ?c pc = 3" "ins_len b pc = 3"
      using 1(3) same by (simp_all add: ins_len_def)
    have "\<forall>i \<ge> pc + 3. ?c i = b i"
      using True by simp
    with walk_cong [of "pc + 3" ?c b sz] len show ?thesis
      by (simp add: parses.simps [of _ sz pc] ins_starts.simps [of _ sz pc])
  next
    case False
    then have "?c (Suc pc) = b (Suc pc)"
      using le by simp
    with same have len: "ins_len ?c pc = ins_len b pc"
      by (rule ins_len_cong)
    have "p \<in> set (ins_starts b sz (pc + ins_len b pc))"
      using 1(2) False le by (simp add: ins_starts.simps [of b sz pc])
    with 1(1) [OF le(2) _ 1(3)] len show ?thesis
      by (simp add: parses.simps [of _ sz pc] ins_starts.simps [of _ sz pc])
  qed
qed

lemma put_other_operand:
  assumes "p \<in> set (ins_starts b sz pc)" "q \<in> set (ins_starts b sz pc)" "p \<noteq> q"
    "ins_class (b p) = C_Jump" "ins_class (b q) = C_Jump"
  shows "get_operand (put_operand (Suc p) v b) (Suc q) = get_operand b (Suc q)"
proof -
  have "ins_len b p = 3" "ins_len b q = 3"
    using assms(4,5) by (simp_all add: ins_len_def)
  with starts_gap [OF assms(1,2)] starts_gap [OF assms(2,1)] assms(3) show ?thesis
    by (intro get_put_operand_other) linarith
qed

lemma put_starts_opcode:
  assumes "p \<in> set (ins_starts b sz pc)" "q \<in> set (ins_starts b sz pc)" "ins_class (b p) = C_Jump"
  shows "put_operand (Suc p) v b q = b q"
proof -
  have "ins_len b p = 3"
    using assms(3) by (simp add: ins_len_def)
  with starts_gap [OF assms(1,2)] show ?thesis
    by (cases "q \<le> p") auto
qed

text \<open>The operands of several jumps.\<close>

definition put_all :: "nat list \<Rightarrow> u16 \<Rightarrow> buf \<Rightarrow> buf" where
  "put_all ps v b = fold (\<lambda>p. put_operand (Suc p) v) ps b"

lemma put_all_walk:
  assumes "set ps \<subseteq> set (ins_starts b sz 0)" "\<forall>p \<in> set ps. ins_class (b p) = C_Jump"
  shows "parses (put_all ps v b) sz 0 = parses b sz 0 \<and> ins_starts (put_all ps v b) sz 0 = ins_starts b sz 0 \<and>
    (\<forall>q \<in> set (ins_starts b sz 0). put_all ps v b q = b q \<and>
      (ins_class (b q) = C_Jump \<longrightarrow>
        get_operand (put_all ps v b) (Suc q) = (if q \<in> set ps then v else get_operand b (Suc q))))"
  using assms
proof (induction ps rule: rev_induct)
  case Nil
  then show ?case by (simp add: put_all_def)
next
  case (snoc p ps)
  let ?b = "put_all ps v b"
  have step: "put_all (ps @ [p]) v b = put_operand (Suc p) v ?b"
    by (simp add: put_all_def)
  have ih: "parses ?b sz 0 = parses b sz 0" "ins_starts ?b sz 0 = ins_starts b sz 0"
    and op: "\<And>q. q \<in> set (ins_starts b sz 0) \<Longrightarrow> ?b q = b q"
    and arg: "\<And>q. q \<in> set (ins_starts b sz 0) \<Longrightarrow> ins_class (b q) = C_Jump \<Longrightarrow>
        get_operand ?b (Suc q) = (if q \<in> set ps then v else get_operand b (Suc q))"
    using snoc by auto
  have p: "p \<in> set (ins_starts ?b sz 0)" "ins_class (?b p) = C_Jump"
    using snoc.prems op ih(2) by auto
  have "get_operand (put_operand (Suc p) v ?b) (Suc q) = (if q \<in> set (ps @ [p]) then v else get_operand b (Suc q))"
    if q: "q \<in> set (ins_starts b sz 0)" "ins_class (b q) = C_Jump" for q
  proof (cases "q = p")
    case False
    then have "get_operand (put_operand (Suc p) v ?b) (Suc q) = get_operand ?b (Suc q)"
      using put_other_operand [of p ?b sz 0 q v] p q op ih(2) by auto
    with False arg [OF q] show ?thesis by simp
  qed simp
  moreover have "put_operand (Suc p) v ?b q = b q" if "q \<in> set (ins_starts b sz 0)" for q
    using put_starts_opcode [of p ?b sz 0 q v] p that op ih(2) by auto
  ultimately show ?case
    unfolding step using walk_put [OF p, of v] ih by auto
qed

text \<open>Code that grows by one instruction.\<close>

lemma starts_prefix:
  "parses b sz pc \<Longrightarrow> \<forall>i < sz. b i = c i \<Longrightarrow> ins_starts c sz pc = ins_starts b sz pc"
proof (induction b sz pc rule: parses.induct)
  case (1 b sz pc)
  show ?case
  proof (cases "pc < sz")
    case True
    have pn: "parses b sz (pc + ins_len b pc)"
      using parses_step 1(2) True by blast
    have "ins_len c pc = ins_len b pc"
      using ins_len_prefix [OF 1(3) True] parses_le [OF pn] by simp
    with 1(1) [OF True pn 1(3)] True show ?thesis
      by (simp add: ins_starts.simps [of _ sz pc])
  qed (simp add: ins_starts.simps [of _ sz pc])
qed

lemma starts_snoc: "parses b sz pc \<Longrightarrow> ins_len b sz = n \<Longrightarrow> ins_starts b (sz + n) pc = ins_starts b sz pc @ [sz]"
proof (induction b sz pc rule: parses.induct)
  case (1 b sz pc)
  have n: "0 < n"
    using 1(3) ins_len_pos by metis
  show ?case
  proof (cases "pc < sz")
    case True
    with 1 parses_step [OF 1(2) True] show ?thesis
      by (simp add: ins_starts.simps [of _ _ pc])
  next
    case False
    with parses_le [OF 1(2)] have "pc = sz" by simp
    with n 1(3) show ?thesis
      by (simp add: ins_starts.simps [of _ _ sz] ins_starts.simps [of _ _ "sz + n"])
  qed
qed

section \<open>Records\<close>

text \<open>Records have addresses of their own, below the next one.\<close>

definition recs_ok :: "spstate \<Rightarrow> bool" where
  "recs_ok st \<longleftrightarrow> distinct (map sy_addr (sp_recs st)) \<and> 0 < sp_fresh st \<and>
     (\<forall>a \<in> set (map sy_addr (sp_recs st)). 0 < a \<and> a < sp_fresh st)"

lemma find_distinct:
  "distinct (map sy_addr rs) \<Longrightarrow> r \<in> set rs \<Longrightarrow> find (\<lambda>q. sy_addr q = sy_addr r) rs = Some r"
  by (induction rs) auto

lemma recs_range: "recs_ok st \<Longrightarrow> r \<in> set (sp_recs st) \<Longrightarrow> 0 < sy_addr r \<and> sy_addr r < sp_fresh st"
  by (simp add: recs_ok_def)

lemma load_rec_in: "recs_ok st \<Longrightarrow> r \<in> set (sp_recs st) \<Longrightarrow> load_rec (sy_addr r) st = Some (Inr (st, r))"
  using recs_range [of st r] by (simp add: load_rec_def recs_ok_def find_distinct)

lemma store_rec_in: "recs_ok st \<Longrightarrow> r \<in> set (sp_recs st) \<Longrightarrow> store_rec (sy_addr r) f st = Some (Inr (put_rec (sy_addr r) f st, ()))"
  by (simp add: store_rec_def bind_p_eval [OF load_rec_in] upd_p_def)

lemma sp_recs_put: "sp_recs (put_rec a f st) = map_rec a f (sp_recs st)"
  by (simp add: sp_recs_def put_rec_def map_rec_def map_concat cong: map_cong)

lemma put_rec_fields [simp]:
  "sp_il (put_rec a f st) = sp_il st" "current_offset (put_rec a f st) = current_offset st"
  "sp_fresh (put_rec a f st) = sp_fresh st" "sp_current_function (put_rec a f st) = sp_current_function st"
  "sp_label_index (put_rec a f st) = sp_label_index st"
  by (simp_all add: put_rec_def)

lemma map_rec_id [simp]: "map_rec a id rs = rs"
  by (auto simp: map_rec_def intro: map_idI)

lemma put_rec_id [simp]: "put_rec a id st = st"
  by (simp add: put_rec_def map_idI)

text \<open>Changes that leave what a selection looks at.\<close>

definition keeps_key :: "(symrec \<Rightarrow> symrec) \<Rightarrow> bool" where
  "keeps_key f \<longleftrightarrow> (\<forall>r. sy_addr (f r) = sy_addr r \<and> sy_type (f r) = sy_type r \<and> sy_length (f r) = sy_length r \<and> sy_name (f r) = sy_name r)"

lemma keeps_key_intros:
  "keeps_key (\<lambda>r. r\<lparr>sy_offset := x\<rparr>)" "keeps_key (\<lambda>r. r\<lparr>sy_parent := p\<rparr>)" "keeps_key (st_jmp_add ins off)" "keeps_key st_jmp_clear"
  by (simp_all add: keeps_key_def st_jmp_add_def st_jmp_clear_def Let_def split: option.split)

lemma map_rec_addr: "keeps_key f \<Longrightarrow> map sy_addr (map_rec a f rs) = map sy_addr rs"
  by (simp add: map_rec_def keeps_key_def)

lemma recs_ok_put:
  assumes "recs_ok st" "keeps_key f"
  shows "recs_ok (put_rec a f st)"
  using assms(1) unfolding recs_ok_def sp_recs_put map_rec_addr [OF assms(2)] put_rec_fields .

lemma select_loop_map:
  assumes "keeps_key f"
  shows "select_loop ty nm n (map_rec a f rs) = map_option (\<lambda>r. if sy_addr r = a then f r else r) (select_loop ty nm n rs)"
proof (induction rs)
  case (Cons r rs)
  let ?r = "if sy_addr r = a then f r else r"
  have m: "map_rec a f (r # rs) = ?r # map_rec a f rs"
    by (simp add: map_rec_def)
  have k: "sy_type ?r = sy_type r" "sy_length ?r = sy_length r" "sy_name ?r = sy_name r"
    using assms by (simp_all add: keeps_key_def)
  show ?case
  proof (cases "(sy_type r AND 0x7F) AND ty \<noteq> 0 \<and> n = sy_length r \<and> take n nm = take n (sy_name r)")
    case True
    then have "select_loop ty nm n (map_rec a f (r # rs)) = Some ?r" "select_loop ty nm n (r # rs) = Some r"
      unfolding m select_loop.simps k by (auto simp only: if_True simp_thms split: if_split)
    then show ?thesis by simp
  next
    case False
    then have "select_loop ty nm n (map_rec a f (r # rs)) = select_loop ty nm n (map_rec a f rs)"
      "select_loop ty nm n (r # rs) = select_loop ty nm n rs"
      unfolding m select_loop.simps k by (auto simp only: if_False simp_thms split: if_split)
    then show ?thesis using Cons.IH by simp
  qed
qed (simp add: map_rec_def)

lemma select_put:
  "keeps_key f \<Longrightarrow> st_sym_select ty nm (sp_tab (put_rec a f st)) =
     map_option (\<lambda>r. if sy_addr r = a then f r else r) (st_sym_select ty nm (sp_tab st))"
  by (simp add: st_sym_select_def st_sym_select_s_def put_rec_def select_loop_map)

lemma select_in: "st_sym_select ty nm (sp_tab st) = Some r \<Longrightarrow> r \<in> set (symhead (sp_tab st))"
  unfolding st_sym_select_def st_sym_select_s_def by (drule select_loop_SomeD) auto

lemma head_in_recs: "r \<in> set (symhead (sp_tab st)) \<Longrightarrow> r \<in> set (sp_recs st)"
  by (simp add: sp_recs_def)

lemma add_record_new:
  assumes "0 \<notin> set (map sy_addr (symhead t))" "sy_addr rec \<notin> set (map sy_addr (symhead t))"
  shows "st_sym_add_record rec t = Inr (append_rec rec t)"
proof (cases "symhead t = []")
  case False
  then have "st_sym_get_prev_record t 0 = Inr (Some (last (symhead t)))"
    using prev_record_last [OF False assms(1)] by (simp add: st_sym_get_prev_record_def)
  moreover have "sy_addr rec \<noteq> sy_addr (last (symhead t))"
    using assms(2) last_in_set [OF False] by (metis image_eqI list.set_map)
  ultimately show ?thesis by (simp add: st_sym_add_record_def append_rec_def)
qed (simp add: st_sym_add_record_def st_sym_get_prev_record_def append_rec_def)

text \<open>A state with a new record at the end of the table.\<close>

definition with_new :: "symrec \<Rightarrow> spstate \<Rightarrow> spstate" where
  "with_new r st = st\<lparr>sp_tab := append_rec r (sp_tab st), sp_fresh := Suc (sp_fresh st)\<rparr>"

lemma with_new_fields [simp]:
  "sp_il (with_new r st) = sp_il st" "current_offset (with_new r st) = current_offset st"
  "sp_current_function (with_new r st) = sp_current_function st" "sp_label_index (with_new r st) = sp_label_index st"
  "symhead (sp_tab (with_new r st)) = symhead (sp_tab st) @ [r]"
  by (simp_all add: with_new_def append_rec_def)

lemma sym_insert_new:
  assumes "recs_ok st"
  shows "sym_insert ty nm off st = Some (Inr (with_new (st_sym_create (sp_fresh st) ty nm off) st, sp_fresh st))"
proof -
  have "st_sym_insert (sp_fresh st) ty nm off (sp_tab st) = Inr (append_rec (st_sym_create (sp_fresh st) ty nm off) (sp_tab st))"
    unfolding st_sym_insert_def st_sym_insert_s_def st_sym_create_def
    by (rule add_record_new) (use recs_range [OF assms head_in_recs] in \<open>fastforce simp: st_sym_create_s_def\<close>)+
  then show ?thesis
    by (simp add: sym_insert_def insert_with_def res_p_def bind_p_def get_p_def upd_p_def ret_p_def with_new_def)
qed

lemma recs_ok_new:
  assumes "recs_ok st" "sy_addr r = sp_fresh st"
  shows "recs_ok (with_new r st)"
proof -
  let ?xs = "symhead (sp_tab st)" and ?ys = "concat (symstack (sp_tab st)) @ sp_loose st"
  have old: "sp_recs st = ?xs @ ?ys" and new: "sp_recs (with_new r st) = ?xs @ r # ?ys" "sp_fresh (with_new r st) = Suc (sp_fresh st)"
    by (simp_all add: sp_recs_def with_new_def append_rec_def)
  have "sy_addr r \<notin> sy_addr ` set (?xs @ ?ys)"
    using recs_range [OF assms(1)] assms(2) unfolding old by fastforce
  moreover have "distinct (map sy_addr (?xs @ ?ys))"
    using assms(1) by (simp only: recs_ok_def old)
  ultimately have "distinct (map sy_addr (?xs @ r # ?ys))"
    by auto
  moreover have "0 < sy_addr q \<and> sy_addr q < Suc (sp_fresh st)" if "q \<in> set (?xs @ r # ?ys)" for q
    using that recs_range [OF assms(1), of q] assms unfolding old recs_ok_def by fastforce
  ultimately show ?thesis
    unfolding recs_ok_def new by auto
qed

lemma select_new:
  "st_sym_select ty nm (sp_tab (with_new r st)) =
     (case st_sym_select ty nm (sp_tab st) of Some q \<Rightarrow> Some q
      | None \<Rightarrow> if sym_matches (ty, nm, length nm mod 2 ^ 16) r then Some r else None)"
  using sym.look_add [of "(ty, nm, length nm mod 2 ^ 16)" r "sp_tab st"]
  by (simp add: st_sym_select_def with_new_def)

abbreviation "label_named nm st \<equiv> st_sym_select SYM_TYPE_LABEL nm (sp_tab st)"

text \<open>Where the label of a name is, when it has a place.\<close>

definition places :: "spstate \<Rightarrow> u8 list \<rightharpoonup> nat" where
  "places st nm = (case label_named nm st of None \<Rightarrow> None
     | Some r \<Rightarrow> if sy_offset r = SYM_UNDEFINED then None else Some (sy_offset r))"

lemma places_Some: "places st nm = Some off \<longleftrightarrow> (\<exists>r. label_named nm st = Some r \<and> sy_offset r = off \<and> off \<noteq> SYM_UNDEFINED)"
  by (auto simp: places_def split: option.splits)

text \<open>Records are never lost, those of the table keep their kind and name, and labels their place.\<close>

definition rec_key :: "symrec \<Rightarrow> addr \<times> u8 \<times> u8 list" where
  "rec_key r = (sy_addr r, sy_type r, sy_name r)"

definition grows :: "spstate \<Rightarrow> spstate \<Rightarrow> bool" where
  "grows st st' \<longleftrightarrow> rec_key ` set (symhead (sp_tab st)) \<subseteq> rec_key ` set (symhead (sp_tab st')) \<and>
     sy_addr ` set (sp_recs st) \<subseteq> sy_addr ` set (sp_recs st') \<and> loop_stack st' = loop_stack st \<and>
     il_cpindex (sp_il st') = il_cpindex (sp_il st) \<and> places st \<subseteq>\<^sub>m places st'"

lemma grows_trans:
  assumes "grows st1 st2" "grows st2 st3"
  shows "grows st1 st3"
  using assms unfolding grows_def by (metis (mono_tags) subset_trans map_le_trans)

lemma grows_cong: "sp_tab st' = sp_tab st \<Longrightarrow> sp_loose st' = sp_loose st \<Longrightarrow> loop_stack st' = loop_stack st \<Longrightarrow>
    il_cpindex (sp_il st') = il_cpindex (sp_il st) \<Longrightarrow> grows st st'"
  unfolding grows_def sp_recs_def places_def map_le_def by (simp only: order_refl simp_thms) (rule ballI, rule TrueI)

lemma grows_put:
  assumes "keeps_key f" and off: "\<And>nm r. label_named nm st = Some r \<Longrightarrow> sy_addr r = a \<Longrightarrow> sy_offset r \<noteq> SYM_UNDEFINED \<Longrightarrow> sy_offset (f r) = sy_offset r"
  shows "grows st (put_rec a f st)"
proof -
  have "map rec_key (map_rec a f rs) = map rec_key rs" for rs
    using assms(1) by (simp add: map_rec_def rec_key_def keeps_key_def)
  then have "rec_key ` set (map_rec a f rs) = rec_key ` set rs" for rs
    by (metis list.set_map)
  moreover have "sy_addr ` set (map_rec a f rs) = sy_addr ` set rs" for rs
    using map_rec_addr [OF assms(1)] by (metis list.set_map)
  moreover have "places st \<subseteq>\<^sub>m places (put_rec a f st)"
    using off by (fastforce simp: map_le_def dom_def places_def select_put [OF assms(1)] split: option.splits)
  moreover have "loop_stack (put_rec a f st) = loop_stack st" "symhead (sp_tab (put_rec a f st)) = map_rec a f (symhead (sp_tab st))"
    "sp_il (put_rec a f st) = sp_il st"
    by (simp_all add: put_rec_def)
  ultimately show ?thesis
    unfolding grows_def sp_recs_put by (simp only: order_refl simp_thms)
qed

lemma grows_new: "grows st (with_new r st)"
proof -
  have "set (sp_recs st) \<subseteq> set (sp_recs (with_new r st))" "loop_stack (with_new r st) = loop_stack st"
    by (auto simp: sp_recs_def with_new_def append_rec_def)
  moreover have "places st \<subseteq>\<^sub>m places (with_new r st)"
    by (auto simp: map_le_def dom_def places_def select_new split: option.splits)
  ultimately show ?thesis
    unfolding grows_def with_new_fields by (simp only: image_mono set_append Un_upper1 simp_thms)
qed

section \<open>The invariant\<close>

text \<open>A jump of the log: its place, its opcode and the name of its label.\<close>

type_synonym jlog = "(nat \<times> u8 \<times> u8 list) list"

abbreviation "sp_code st \<equiv> il_code (sp_il st)"
abbreviation "starts st \<equiv> ins_starts (sp_code st) (current_offset st) 0"

definition code_ok :: "spstate \<Rightarrow> bool" where
  "code_ok st \<longleftrightarrow> parses (sp_code st) (current_offset st) 0 \<and> il_code_size (sp_il st) = current_offset st \<and>
     current_offset st \<le> MAX_BUFFER_SIZE \<and> (\<forall>p \<in> set (starts st). ins_class (sp_code st p) \<noteq> C_Switch)"

definition jump_ok :: "spstate \<Rightarrow> nat \<times> u8 \<times> u8 list \<Rightarrow> bool" where
  "jump_ok st e \<longleftrightarrow> (case e of (p, ins, nm) \<Rightarrow> p \<in> set (starts st) \<and> sp_code st p = ins \<and> ins_class ins = C_Jump \<and>
     (\<exists>r. label_named nm st = Some r \<and>
       (if sy_offset r = SYM_UNDEFINED then \<lparr>jr_ins = ins, jr_offset = p\<rparr> \<in> set (sy_list r)
        else get_operand (sp_code st) (Suc p) = of_nat (sy_offset r))))"

definition is_label :: "symrec \<Rightarrow> bool" where
  "is_label r \<longleftrightarrow> sy_type r AND SYM_TYPE_LABEL \<noteq> 0"

definition labels_ok :: "jlog \<Rightarrow> spstate \<Rightarrow> bool" where
  "labels_ok log st \<longleftrightarrow> (\<forall>r \<in> set (symhead (sp_tab st)). is_label r \<longrightarrow> length (strz (sy_name r)) < 240 \<and>
     (\<forall>j \<in> set (sy_list r). \<exists>nm. (jr_offset j, jr_ins j, nm) \<in> set log \<and> label_named nm st = Some r))"

definition bp_ok :: "jlog \<Rightarrow> spstate \<Rightarrow> bool" where
  "bp_ok log st \<longleftrightarrow> recs_ok st \<and> code_ok st \<and> distinct (map fst log) \<and> (\<forall>e \<in> set log. jump_ok st e) \<and> labels_ok log st"

lemma label_named_is: "label_named nm st = Some r \<Longrightarrow> is_label r"
proof -
  assume "label_named nm st = Some r"
  then have "(sy_type r AND 0x7F) AND (SYM_TYPE_LABEL AND 0x7F) \<noteq> 0"
    unfolding st_sym_select_def st_sym_select_s_def by (drule_tac select_loop_SomeD) auto
  moreover have "(sy_type r AND 0x7F) AND (SYM_TYPE_LABEL AND 0x7F) = sy_type r AND SYM_TYPE_LABEL"
    by (simp add: SYM_TYPE_LABEL_def and.assoc)
  ultimately show ?thesis
    by (simp add: is_label_def)
qed

lemma label_in_recs: "label_named nm st = Some r \<Longrightarrow> r \<in> set (sp_recs st)"
  by (intro head_in_recs select_in)

text \<open>Emission at the current offset.\<close>

lemma gencode_opcode: "is_gencode off op rec num il = Inr (il', n) \<Longrightarrow> 0 < n \<Longrightarrow> il_code il' off = op"
  by (cases "ins_class op")
    (auto simp: is_gencode_def emit_def with_rec_def Let_def is_push_lblrec_def is_create_lblrec_def bind_r_def
      split: if_splits option.splits sum.splits)

definition emitted :: "ilstate \<Rightarrow> nat \<Rightarrow> spstate \<Rightarrow> spstate" where
  "emitted il n st = st\<lparr>sp_il := il, current_offset := current_offset st + n\<rparr>"

lemma emitted_fields [simp]:
  "sp_il (emitted il n st) = il" "current_offset (emitted il n st) = current_offset st + n" "sp_tab (emitted il n st) = sp_tab st"
  "sp_recs (emitted il n st) = sp_recs st" "sp_fresh (emitted il n st) = sp_fresh st" "recs_ok (emitted il n st) = recs_ok st"
  by (simp_all add: emitted_def sp_recs_def recs_ok_def)

lemma gencode_cpindex: "is_gencode off op rec num il = Inr (il', n) \<Longrightarrow> il_cpindex il' = il_cpindex il"
  by (cases "ins_class op")
    (auto simp: is_gencode_def emit_def with_rec_def Let_def is_push_lblrec_def is_create_lblrec_def bind_r_def
      split: if_splits option.splits sum.splits)

lemma grows_emitted: "is_gencode off op rec num (sp_il st) = Inr (il, n) \<Longrightarrow> grows st (emitted il n st)"
  by (rule grows_cong) (simp_all add: emitted_def gencode_cpindex)

lemma emit_code:
  assumes g: "is_gencode (current_offset st) op rec num (sp_il st) = Inr (il, n)" and c: "code_ok st" and op: "ins_class op \<noteq> C_Switch"
  shows "code_ok (emitted il n st)" "starts (emitted il n st) = starts st @ (if n = 0 then [] else [current_offset st])"
    "\<forall>i < current_offset st. il_code il i = sp_code st i"
proof -
  let ?b = "sp_code st" and ?sz = "current_offset st"
  note gl = gencode_length [OF g]
  have agree: "\<forall>i < ?sz. ?b i = il_code il i"
    using gl by simp
  have p: "parses (il_code il) ?sz 0" and s: "ins_starts (il_code il) ?sz 0 = starts st"
    using c parses_prefix [OF _ agree] starts_prefix [OF _ agree] by (simp_all add: code_ok_def)
  show st: "starts (emitted il n st) = starts st @ (if n = 0 then [] else [?sz])"
  proof (cases "n = 0")
    case False
    then have "ins_len (il_code il) ?sz = n"
      using gl by simp
    with starts_snoc [OF p] s False show ?thesis by simp
  qed (use s in simp)
  have "parses (il_code il) (?sz + n) 0"
    using gl p parses_snoc [OF p] by (cases "n = 0") auto
  moreover have "ins_class (il_code il q) \<noteq> C_Switch" if "q \<in> set (starts (emitted il n st))" for q
  proof (cases "q \<in> set (starts st)")
    case True
    then have "il_code il q = ?b q"
      using ins_starts_ge [OF True] agree by simp
    with True c show ?thesis by (simp add: code_ok_def)
  next
    case False
    with that st have "q = ?sz" "0 < n" by (auto split: if_splits)
    with gencode_opcode [OF g] op show ?thesis by simp
  qed
  ultimately show "code_ok (emitted il n st)"
    using c gl by (auto simp: code_ok_def)
  show "\<forall>i < ?sz. il_code il i = ?b i"
    using agree by simp
qed

lemma start_jump_fits: "code_ok st \<Longrightarrow> p \<in> set (starts st) \<Longrightarrow> ins_class (sp_code st p) = C_Jump \<Longrightarrow> p + 3 \<le> current_offset st"
  by (rule reloc_fits) (auto simp: code_ok_def reloc_class_def)

lemma jump_ok_emitted:
  assumes "is_gencode (current_offset st) op rec num (sp_il st) = Inr (il, n)" "code_ok st" "ins_class op \<noteq> C_Switch" "jump_ok st e"
  shows "jump_ok (emitted il n st) e"
proof -
  obtain p ins nm where e: "e = (p, ins, nm)" by (cases e)
  note E = emit_code [OF assms(1-3)]
  have p: "p \<in> set (starts st)" "sp_code st p = ins" "ins_class ins = C_Jump"
    using assms(4) by (auto simp: jump_ok_def e)
  then have "p + 3 \<le> current_offset st"
    using start_jump_fits [OF assms(2)] by simp
  with E(3) have "il_code il p = sp_code st p" "get_operand (il_code il) (Suc p) = get_operand (sp_code st) (Suc p)"
    by (auto intro: get_operand_cong)
  with assms(4) p E(2) show ?thesis
    by (auto simp: jump_ok_def e)
qed

lemma bp_ok_emitted:
  assumes "is_gencode (current_offset st) op rec num (sp_il st) = Inr (il, n)" "ins_class op \<noteq> C_Switch" "bp_ok log st"
  shows "bp_ok log (emitted il n st)"
  using assms(3) emit_code(1) [OF assms(1) _ assms(2)] jump_ok_emitted [OF assms(1) _ assms(2)]
  by (auto simp: bp_ok_def labels_ok_def)

section \<open>Records under the invariant\<close>

text \<open>Changing a record in a way that only drops jumps from its list, or adds jumps of the log that belong to it.\<close>

lemma labels_ok_put:
  assumes k: "keeps_key f" and l: "labels_ok log st" and sub: "set log \<subseteq> set log'"
    and new: "\<And>r j. r \<in> set (symhead (sp_tab st)) \<Longrightarrow> sy_addr r = a \<Longrightarrow> is_label r \<Longrightarrow> j \<in> set (sy_list (f r)) \<Longrightarrow>
      j \<in> set (sy_list r) \<or> (\<exists>nm. (jr_offset j, jr_ins j, nm) \<in> set log' \<and> label_named nm st = Some r)"
  shows "labels_ok log' (put_rec a f st)"
  unfolding labels_ok_def
proof (intro ballI impI)
  fix q
  assume "q \<in> set (symhead (sp_tab (put_rec a f st)))" and lq: "is_label q"
  then obtain r where r: "r \<in> set (symhead (sp_tab st))" and q: "q = (if sy_addr r = a then f r else r)"
    by (auto simp: put_rec_def map_rec_def)
  have lr: "is_label r" "sy_name q = sy_name r"
    using lq q k by (auto simp: is_label_def keeps_key_def split: if_splits)
  have "\<exists>nm. (jr_offset j, jr_ins j, nm) \<in> set log' \<and> label_named nm (put_rec a f st) = Some q" if j: "j \<in> set (sy_list q)" for j
  proof -
    have "\<exists>nm. (jr_offset j, jr_ins j, nm) \<in> set log' \<and> label_named nm st = Some r"
      using l r lr(1) sub new [OF r _ lr(1)] j unfolding q labels_ok_def by (auto split: if_splits) blast+
    then show ?thesis
      using q by (auto simp: select_put [OF k])
  qed
  with l r lr show "length (strz (sy_name q)) < 240 \<and>
      (\<forall>j \<in> set (sy_list q). \<exists>nm. (jr_offset j, jr_ins j, nm) \<in> set log' \<and> label_named nm (put_rec a f st) = Some q)"
    by (auto simp: labels_ok_def)
qed

lemma code_ok_put [simp]: "code_ok (put_rec a f st) = code_ok st"
  by (simp add: code_ok_def)

lemma jump_ok_put:
  assumes "keeps_key f" "jump_ok st (p, ins, nm)"
    "\<And>r. label_named nm st = Some r \<Longrightarrow> sy_addr r = a \<Longrightarrow> sy_offset (f r) = sy_offset r \<and> set (sy_list r) \<subseteq> set (sy_list (f r))"
  shows "jump_ok (put_rec a f st) (p, ins, nm)"
proof -
  obtain r where r: "label_named nm st = Some r"
      "if sy_offset r = SYM_UNDEFINED then \<lparr>jr_ins = ins, jr_offset = p\<rparr> \<in> set (sy_list r)
       else get_operand (sp_code st) (Suc p) = of_nat (sy_offset r)"
    using assms(2) by (auto simp: jump_ok_def)
  let ?q = "if sy_addr r = a then f r else r"
  have "label_named nm (put_rec a f st) = Some ?q"
    by (simp add: select_put [OF assms(1)] r(1))
  moreover have "sy_offset ?q = sy_offset r" "set (sy_list r) \<subseteq> set (sy_list ?q)"
    using assms(3) [OF r(1)] by simp_all
  ultimately show ?thesis
    using assms(2) r(2) unfolding jump_ok_def by (auto split: if_splits)
qed

lemma bp_ok_put:
  assumes "bp_ok log st" "keeps_key f" "\<And>r. sy_offset (f r) = sy_offset r \<and> sy_list (f r) = sy_list r"
  shows "bp_ok log (put_rec a f st)"
proof -
  have "labels_ok log (put_rec a f st)"
    using assms(1,3) by (intro labels_ok_put [OF assms(2), of log]) (auto simp: bp_ok_def)
  moreover have "jump_ok (put_rec a f st) e" if "e \<in> set log" for e
  proof -
    obtain p ins nm where e: "e = (p, ins, nm)"
      by (metis prod_cases3)
    show ?thesis
      unfolding e by (rule jump_ok_put [OF assms(2)]) (use that assms(1,3) e in \<open>simp_all add: bp_ok_def\<close>)
  qed
  ultimately show ?thesis
    using assms(1) recs_ok_put [OF _ assms(2)] by (simp add: bp_ok_def)
qed

lemma create_label_matches:
  "length nm < 2 ^ 16 \<Longrightarrow> sym_matches (SYM_TYPE_LABEL, nm, length nm mod 2 ^ 16) (st_sym_create a SYM_TYPE_LABEL nm off)"
  by (simp add: sym_matches_def st_sym_create_def st_sym_create_s_def SYM_TYPE_LABEL_def)

lemma strz_created: "length nm < 2 ^ 16 \<Longrightarrow> length (strz (sy_name (st_sym_create a ty nm off))) \<le> length nm"
  by (auto simp: strz_def st_sym_create_def st_sym_create_s_def takeWhile_append NAME_ROOM_def takeWhile_replicate
      intro: length_takeWhile_le)

text \<open>A new label.\<close>

lemma bp_ok_new:
  assumes b: "bp_ok log st" and r: "r = st_sym_create (sp_fresh st) SYM_TYPE_LABEL nm off" and nm: "length nm < 240"
  shows "bp_ok log (with_new r st)"
proof -
  have a: "sy_addr r = sp_fresh st" "sy_list r = []" "length (strz (sy_name r)) < 240"
    using strz_created [of nm "sp_fresh st" SYM_TYPE_LABEL off] nm
    by (simp_all add: r) (simp_all add: st_sym_create_def st_sym_create_s_def)
  have old: "label_named n st = Some q \<Longrightarrow> label_named n (with_new r st) = Some q" for n q
    by (simp add: select_new)
  have "jump_ok (with_new r st) e" if "e \<in> set log" for e
    using b that old by (fastforce simp: bp_ok_def jump_ok_def)
  moreover have "labels_ok log (with_new r st)"
    using b a old by (fastforce simp: bp_ok_def labels_ok_def)
  ultimately show ?thesis
    using b recs_ok_new [OF _ a(1)] by (simp add: bp_ok_def code_ok_def)
qed

section \<open>The actions keep the invariant\<close>

lemma is_gencode_jump:
  assumes "ins_class op = C_Jump" "off + 3 \<le> MAX_BUFFER_SIZE"
  shows "is_gencode off op (Some r) num il =
    Inr (il\<lparr>il_code := put_operand (Suc off) (of_nat (sy_offset r)) ((il_code il)(off := op)), il_code_size := max (il_code_size il) (off + 3)\<rparr>, 3)"
  using assms by (simp add: is_gencode_def with_rec_def emit_def)

lemma gencode_at_rec:
  assumes "load_rec a st = Some (Inr (st, r))" "a \<noteq> 0" "ins_class op = C_Jump \<or> ins_class op = C_Lbl"
    "is_gencode off op (Some r) 0 (sp_il st) = Inr (il, n)"
  shows "gencode_at off op (Some a) st = Some (Inr (st\<lparr>sp_il := il\<rparr>, n))"
  using assms by (auto simp: gencode_at_def Let_def bind_load)

lemma gencode_rec:
  assumes "load_rec a st = Some (Inr (st, r))" "a \<noteq> 0" "ins_class op = C_Jump \<or> ins_class op = C_Lbl"
    "is_gencode (current_offset st) op (Some r) 0 (sp_il st) = Inr (il, n)"
  shows "gencode op (Some a) st = Some (Inr (emitted il n st, ()))"
  using gencode_at_rec [OF assms] by (simp add: gencode_def bind_p_eval upd_p_def emitted_def)

text \<open>The record of a label that may be new.\<close>

lemma obtain_label:
  assumes "bp_ok log st" "length nm < 240"
  obtains st1 r where
    "(if sym_addr (label_named nm st) = 0 then sym_insert SYM_TYPE_LABEL nm SYM_UNDEFINED else ret_p (sym_addr (label_named nm st))) st
       = Some (Inr (st1, sy_addr r))"
    "bp_ok log st1" "label_named nm st1 = Some r" "sp_il st1 = sp_il st" "current_offset st1 = current_offset st"
    "grows st st1"
proof (cases "label_named nm st")
  case None
  let ?r = "st_sym_create (sp_fresh st) SYM_TYPE_LABEL nm SYM_UNDEFINED"
  have m: "sym_matches (SYM_TYPE_LABEL, nm, length nm mod 2 ^ 16) ?r"
    using assms(2) by (intro create_label_matches) simp
  have a: "sy_addr ?r = sp_fresh st"
    by (simp add: st_sym_create_def st_sym_create_s_def)
  have ro: "recs_ok st"
    using assms(1) by (simp add: bp_ok_def)
  show ?thesis
  proof (rule that [of "with_new ?r st" ?r])
    show "(if sym_addr (label_named nm st) = 0 then sym_insert SYM_TYPE_LABEL nm SYM_UNDEFINED else ret_p (sym_addr (label_named nm st))) st
       = Some (Inr (with_new ?r st, sy_addr ?r))"
      by (simp add: None sym_addr_def sym_insert_new [OF ro] a)
    show "bp_ok log (with_new ?r st)"
      by (rule bp_ok_new [OF assms(1) refl assms(2)])
    show "label_named nm (with_new ?r st) = Some ?r"
      using m by (simp add: select_new None)
    show "grows st (with_new ?r st)"
      by (rule grows_new)
  qed simp_all
next
  case (Some r)
  then have "0 < sy_addr r"
    using assms(1) recs_range label_in_recs by (auto simp: bp_ok_def)
  with Some assms(1) show ?thesis
    by (intro that [of st r]) (simp_all add: sym_addr_def ret_p_def grows_cong)
qed

lemma st_jmp_add_fields [simp]:
  "sy_offset (st_jmp_add ins off r) = sy_offset r" "sy_list (st_jmp_add ins off r) = sy_list r @ [\<lparr>jr_ins = ins, jr_offset = off\<rparr>]"
  by (simp_all add: st_jmp_add_def st_jmp_get_last_record_def Let_def)

lemma jump_to_keeps:
  assumes b: "bp_ok log st" and nm: "length nm < 240" and op: "ins_class ins = C_Jump" and fit: "current_offset st + 3 \<le> MAX_BUFFER_SIZE"
  shows "\<exists>st'. sp_jump_to ins nm st = Some (Inr (st', ())) \<and> bp_ok ((current_offset st, ins, nm) # log) st' \<and>
    current_offset st' = current_offset st + 3 \<and> grows st st'"
proof -
  let ?off = "current_offset st"
  obtain st1 r where 1: "(if sym_addr (label_named nm st) = 0 then sym_insert SYM_TYPE_LABEL nm SYM_UNDEFINED
        else ret_p (sym_addr (label_named nm st))) st = Some (Inr (st1, sy_addr r))"
    and b1: "bp_ok log st1" and l1: "label_named nm st1 = Some r" and f1: "sp_il st1 = sp_il st" "current_offset st1 = ?off"
    and s1: "grows st st1"
    using obtain_label [OF b nm] by blast
  have ro: "recs_ok st1" and ri: "r \<in> set (sp_recs st1)"
    using b1 label_in_recs [OF l1] by (simp_all add: bp_ok_def)
  define u where "u = (if sy_offset r = SYM_UNDEFINED then st_jmp_add ins ?off else id)"
  have k: "keeps_key u"
    using keeps_key_intros(3) by (simp add: u_def keeps_key_def)
  define st2 where "st2 = put_rec (sy_addr r) u st1"
  have 2: "when_p (sy_offset r = SYM_UNDEFINED) (store_rec (sy_addr r) (st_jmp_add ins ?off)) st1 = Some (Inr (st2, ()))"
    by (simp add: when_p_def store_rec_in [OF ro ri] u_def st2_def ret_p_def)
  have l2: "label_named nm st2 = Some (u r)"
    by (simp add: st2_def select_put [OF k] l1)
  have ro2: "recs_ok st2"
    unfolding st2_def by (rule recs_ok_put [OF ro k])
  have ua: "sy_addr (u r) = sy_addr r" "sy_offset (u r) = sy_offset r"
    using k by (simp_all add: keeps_key_def u_def)
  have ld: "load_rec (sy_addr r) st2 = Some (Inr (st2, u r))"
    using load_rec_in [OF ro2 label_in_recs [OF l2]] ua by simp
  have nz: "sy_addr r \<noteq> 0"
    using recs_range [OF ro ri] by simp
  have f2: "sp_il st2 = sp_il st" "current_offset st2 = ?off"
    by (simp_all add: st2_def f1)
  let ?il = "(sp_il st)\<lparr>il_code := put_operand (Suc ?off) (of_nat (sy_offset r)) ((sp_code st)(?off := ins)),
      il_code_size := max (il_code_size (sp_il st)) (?off + 3)\<rparr>"
  have g: "is_gencode (current_offset st2) ins (Some (u r)) 0 (sp_il st2) = Inr (?il, 3)"
    unfolding f2 by (simp add: is_gencode_jump [OF op fit] ua)
  have run: "sp_jump_to ins nm st = Some (Inr (emitted ?il 3 st2, ()))"
    using gencode_rec [OF ld nz _ g] op
    by (simp add: sp_jump_to_def sym_select_def bind_p_eval 1 bind_load [OF load_rec_in [OF ro ri]] f1 2)
  have c2: "code_ok st2" and sw: "ins_class ins \<noteq> C_Switch"
    using b1 op by (simp_all add: st2_def bp_ok_def)
  note E = emit_code [OF g c2 sw]
  have old: "jump_ok (emitted ?il 3 st2) e" if "e \<in> set log" for e
  proof -
    obtain p i n where e: "e = (p, i, n)"
      by (metis prod_cases3)
    have "jump_ok st2 e"
      unfolding e st2_def by (rule jump_ok_put [OF k]) (use that b1 e in \<open>auto simp: bp_ok_def u_def\<close>)
    then show ?thesis
      by (rule jump_ok_emitted [OF g c2 sw])
  qed
  have "jump_ok (emitted ?il 3 st2) (?off, ins, nm)"
    using E(2) l2 op by (auto simp: jump_ok_def f2 u_def)
  moreover have "?off \<notin> set (map fst log)"
  proof
    assume "?off \<in> set (map fst log)"
    then have "?off \<in> set (starts st1)"
      using b1 by (auto simp: bp_ok_def jump_ok_def)
    then show False
      using ins_starts_ge f1(2) by fastforce
  qed
  moreover have "labels_ok ((?off, ins, nm) # log) st2"
    unfolding st2_def
  proof (rule labels_ok_put [OF k, of log])
    fix q j
    assume q: "q \<in> set (symhead (sp_tab st1))" "sy_addr q = sy_addr r" and j: "j \<in> set (sy_list (u q))"
    have "load_rec (sy_addr r) st1 = Some (Inr (st1, q))"
      using load_rec_in [OF ro head_in_recs [OF q(1)]] q(2) by simp
    then have "q = r"
      using load_rec_in [OF ro ri] by simp
    with j show "j \<in> set (sy_list q) \<or> (\<exists>nm'. (jr_offset j, jr_ins j, nm') \<in> set ((?off, ins, nm) # log) \<and> label_named nm' st1 = Some q)"
      using l1 by (auto simp: u_def split: if_splits)
  qed (use b1 in \<open>auto simp: bp_ok_def\<close>)
  ultimately have "bp_ok ((?off, ins, nm) # log) (emitted ?il 3 st2)"
    using b1 E(1) old ro2 by (simp add: bp_ok_def labels_ok_def)
  moreover have "grows st (emitted ?il 3 st2)"
    unfolding st2_def by (rule grows_trans [OF grows_trans [OF s1 grows_put [OF k]] grows_emitted [OF g [unfolded st2_def]]]) (simp add: u_def)
  ultimately show ?thesis
    using run f2(2) emitted_fields(2) by metis
qed

text \<open>The loop over the open jumps.\<close>

lemma patch_loop:
  assumes "recs_ok st" "r \<in> set (sp_recs st)" "code_ok st"
    "\<forall>j \<in> set js. jr_offset j \<in> set (starts st) \<and> sp_code st (jr_offset j) = jr_ins j \<and> ins_class (jr_ins j) = C_Jump"
  shows "each_p (\<lambda>j. bind_p (gencode_at (jr_offset j) (jr_ins j) (Some (sy_addr r))) (\<lambda>_. ret_p ())) js st =
    Some (Inr (st\<lparr>sp_il := (sp_il st)\<lparr>il_code := put_all (map jr_offset js) (of_nat (sy_offset r)) (sp_code st)\<rparr>\<rparr>, ()))"
  using assms
proof (induction js arbitrary: st)
  case Nil
  then show ?case by (simp add: put_all_def ret_p_def)
next
  case (Cons j js)
  let ?p = "jr_offset j" and ?v = "of_nat (sy_offset r) :: u16"
  let ?b = "put_operand (Suc ?p) ?v (sp_code st)"
  let ?st = "st\<lparr>sp_il := (sp_il st)\<lparr>il_code := ?b\<rparr>\<rparr>"
  have p: "?p \<in> set (starts st)" "sp_code st ?p = jr_ins j" "ins_class (jr_ins j) = C_Jump"
    using Cons.prems(4) by auto
  have fit: "?p + 3 \<le> current_offset st"
    using start_jump_fits [OF Cons.prems(3) p(1)] p by simp
  have same: "(sp_code st)(?p := jr_ins j) = sp_code st"
    using p(2) by (rule fun_upd_idem)
  have sz: "current_offset st \<le> MAX_BUFFER_SIZE" "il_code_size (sp_il st) = current_offset st"
    using Cons.prems(3) by (simp_all add: code_ok_def)
  have "is_gencode ?p (jr_ins j) (Some r) 0 (sp_il st) = Inr ((sp_il st)\<lparr>il_code := ?b\<rparr>, 3)"
    using is_gencode_jump [OF p(3), of ?p r 0 "sp_il st"] fit sz by (simp add: same)
  moreover have "load_rec (sy_addr r) st = Some (Inr (st, r))" "sy_addr r \<noteq> 0"
    using load_rec_in [OF Cons.prems(1,2)] recs_range [OF Cons.prems(1,2)] by simp_all
  ultimately have g: "gencode_at ?p (jr_ins j) (Some (sy_addr r)) st = Some (Inr (?st, 3))"
    using p(3) by (intro gencode_at_rec) auto
  have w: "parses ?b (current_offset st) 0 = parses (sp_code st) (current_offset st) 0" "ins_starts ?b (current_offset st) 0 = starts st"
    using walk_put [OF p(1)] p by auto
  have o: "?b q = sp_code st q" if "q \<in> set (starts st)" for q
    using put_starts_opcode [OF p(1) that] p by simp
  have "code_ok ?st"
    using Cons.prems(3) w o by (simp add: code_ok_def)
  moreover have "recs_ok ?st" "r \<in> set (sp_recs ?st)"
    using Cons.prems(1,2) by (simp_all add: recs_ok_def sp_recs_def)
  moreover have "\<forall>k \<in> set js. jr_offset k \<in> set (starts ?st) \<and> sp_code ?st (jr_offset k) = jr_ins k \<and> ins_class (jr_ins k) = C_Jump"
    using Cons.prems(4) w(2) o by simp
  ultimately show ?case
    using Cons.IH [of ?st] g by (simp add: bind_p_eval put_all_def)
qed

text \<open>The label \<open>r\<close> gets a place that is the current offset: its open jumps are written and its list is emptied.\<close>

definition placed :: "symrec \<Rightarrow> addr \<Rightarrow> lblrec list \<Rightarrow> spstate \<Rightarrow> spstate" where
  "placed r f ls st =
     (let il = sp_il st;
          st' = st\<lparr>sp_il := il\<lparr>il_lblhead := ls, il_code := put_all (map jr_offset (sy_list r)) (of_nat (current_offset st)) (il_code il)\<rparr>\<rparr>
      in put_rec (sy_addr r) (\<lambda>q. st_jmp_clear (q\<lparr>sy_offset := current_offset st, sy_parent := f\<rparr>)) st')"

lemma open_jumps:
  assumes "bp_ok log st" "label_named nm st = Some r" "j \<in> set (sy_list r)"
  obtains nm' where "(jr_offset j, jr_ins j, nm') \<in> set log" "label_named nm' st = Some r"
    "jr_offset j \<in> set (starts st)" "sp_code st (jr_offset j) = jr_ins j" "ins_class (jr_ins j) = C_Jump"
proof -
  obtain nm' where n: "(jr_offset j, jr_ins j, nm') \<in> set log" "label_named nm' st = Some r"
    using assms(1,3) select_in [OF assms(2)] label_named_is [OF assms(2)] unfolding bp_ok_def labels_ok_def by blast
  moreover have "jump_ok st (jr_offset j, jr_ins j, nm')"
    using assms(1) n(1) by (simp add: bp_ok_def)
  ultimately show ?thesis
    by (intro that [of nm']) (auto simp: jump_ok_def)
qed

lemma same_record:
  assumes "recs_ok st" "q \<in> set (sp_recs st)" "r \<in> set (sp_recs st)" "sy_addr q = sy_addr r"
  shows "q = r"
proof -
  have "Some (Inr (st, q)) = (Some (Inr (st, r)) :: (spstate \<times> symrec) result option)"
    unfolding load_rec_in [OF assms(1,2), symmetric] load_rec_in [OF assms(1,3), symmetric] assms(4) by (rule refl)
  then show ?thesis by (simp only: option.inject sum.inject prod.inject)
qed

lemma bp_ok_placed:
  assumes b: "bp_ok log st" and l: "label_named nm st = Some r"
    and u: "sy_offset r = SYM_UNDEFINED \<or> (sy_offset r = current_offset st \<and> sy_list r = [])"
  shows "bp_ok log (placed r f ls st)"
proof -
  let ?ps = "map jr_offset (sy_list r)" and ?v = "of_nat (current_offset st) :: u16"
  let ?b = "put_all ?ps ?v (sp_code st)"
  define st1 where "st1 = st\<lparr>sp_il := (sp_il st)\<lparr>il_lblhead := ls, il_code := ?b\<rparr>\<rparr>"
  define g where "g = (\<lambda>q. st_jmp_clear (q\<lparr>sy_offset := current_offset st, sy_parent := f\<rparr>))"
  have pl: "placed r f ls st = put_rec (sy_addr r) g st1"
    by (simp add: placed_def st1_def g_def Let_def)
  have g: "keeps_key g" "sy_offset (g q) = current_offset st" "sy_list (g q) = []" for q
    by (simp_all add: g_def keeps_key_def st_jmp_clear_def)
  have co: "code_ok st" and ro: "recs_ok st" and cur: "current_offset st \<noteq> SYM_UNDEFINED"
    using b by (auto simp: bp_ok_def code_ok_def MAX_BUFFER_SIZE_def SYM_UNDEFINED_def)
  have ps: "p \<in> set (starts st) \<and> ins_class (sp_code st p) = C_Jump" if "p \<in> set ?ps" for p
    using that open_jumps [OF b l] by (metis (no_types, lifting) imageE list.set_map)
  have W: "parses ?b (current_offset st) 0 = parses (sp_code st) (current_offset st) 0" "ins_starts ?b (current_offset st) 0 = starts st"
    and op: "\<And>q. q \<in> set (starts st) \<Longrightarrow> ?b q = sp_code st q"
    and arg: "\<And>q. q \<in> set (starts st) \<Longrightarrow> ins_class (sp_code st q) = C_Jump \<Longrightarrow>
        get_operand ?b (Suc q) = (if q \<in> set ?ps then ?v else get_operand (sp_code st) (Suc q))"
    using put_all_walk [of ?ps "sp_code st" "current_offset st" ?v] ps by blast+
  have f1: "sp_tab st1 = sp_tab st" "sp_code st1 = ?b" "current_offset st1 = current_offset st" "recs_ok st1"
    using ro by (simp_all add: st1_def recs_ok_def sp_recs_def)
  have c1: "code_ok st1"
    using co W op by (simp add: code_ok_def st1_def)
  have "labels_ok log (put_rec (sy_addr r) g st1)"
    by (rule labels_ok_put [OF g(1), of log]) (use b g(3) f1 in \<open>auto simp: bp_ok_def labels_ok_def\<close>)
  moreover have "jump_ok (put_rec (sy_addr r) g st1) e" if e: "e \<in> set log" for e
  proof -
    obtain p i n where e3: "e = (p, i, n)"
      by (metis prod_cases3)
    from b e obtain q where p: "p \<in> set (starts st)" "sp_code st p = i" "ins_class i = C_Jump" and q: "label_named n st = Some q"
      and w: "if sy_offset q = SYM_UNDEFINED then \<lparr>jr_ins = i, jr_offset = p\<rparr> \<in> set (sy_list q)
        else get_operand (sp_code st) (Suc p) = of_nat (sy_offset q)"
      unfolding bp_ok_def e3 jump_ok_def by blast
    let ?q = "if sy_addr q = sy_addr r then g q else q"
    have lq: "label_named n (put_rec (sy_addr r) g st1) = Some ?q"
      by (simp add: select_put [OF g(1)] f1 q)
    have "if sy_offset ?q = SYM_UNDEFINED then \<lparr>jr_ins = i, jr_offset = p\<rparr> \<in> set (sy_list ?q)
        else get_operand ?b (Suc p) = of_nat (sy_offset ?q)"
    proof (cases "sy_addr q = sy_addr r")
      case True
      then have "q = r"
        using same_record [OF ro label_in_recs [OF q] label_in_recs [OF l]] by simp
      with w u have "p \<in> set ?ps \<or> (?ps = [] \<and> get_operand (sp_code st) (Suc p) = ?v)"
        using cur by (auto simp: image_iff intro!: bexI [of _ "\<lparr>jr_ins = i, jr_offset = p\<rparr>"])
      then have "get_operand ?b (Suc p) = ?v"
        using arg [OF p(1)] p by auto
      with True g cur show ?thesis by simp
    next
      case False
      have "p \<notin> set ?ps"
      proof
        assume "p \<in> set ?ps"
        then obtain j where j: "j \<in> set (sy_list r)" "jr_offset j = p" by auto
        obtain n' where n': "(p, jr_ins j, n') \<in> set log" "label_named n' st = Some r"
          using open_jumps [OF b l j(1)] j(2) by metis
        with e e3 b have "n' = n"
          using eq_key_imp_eq_value [of log p "(i, n)" "(jr_ins j, n')"] by (auto simp: bp_ok_def)
        with n' q False show False by simp
      qed
      with arg [OF p(1)] p w False show ?thesis by simp
    qed
    with lq p op [OF p(1)] W f1 show ?thesis
      by (auto simp: jump_ok_def e3)
  qed
  ultimately show ?thesis
    using b c1 recs_ok_put [OF f1(4) g(1)] unfolding pl by (simp add: bp_ok_def)
qed

lemma map_rec_comp: "keeps_key f \<Longrightarrow> map_rec a g (map_rec a f rs) = map_rec a (\<lambda>r. g (f r)) rs"
  by (simp add: map_rec_def keeps_key_def)

lemma put_rec_comp: "keeps_key f \<Longrightarrow> put_rec a g (put_rec a f st) = put_rec a (\<lambda>r. g (f r)) st"
  by (simp add: put_rec_def map_rec_comp)

lemma put_rec_il: "put_rec a f (st\<lparr>sp_il := il\<rparr>) = (put_rec a f st)\<lparr>sp_il := il\<rparr>"
  by (simp add: put_rec_def)

lemma put_rec_same:
  assumes "\<And>q. q \<in> set (sp_recs st) \<Longrightarrow> sy_addr q = a \<Longrightarrow> f q = q"
  shows "put_rec a f st = st"
proof -
  have "map_rec a f rs = rs" if "set rs \<subseteq> set (sp_recs st)" for rs
    unfolding map_rec_def using that assms by (intro map_idI) auto
  moreover have "set rs \<subseteq> set (sp_recs st)" if "rs \<in> set (symstack (sp_tab st))" for rs
    using that by (auto simp: sp_recs_def)
  ultimately have "map_rec a f (symhead (sp_tab st)) = symhead (sp_tab st)" "map_rec a f (sp_loose st) = sp_loose st"
    "map (map_rec a f) (symstack (sp_tab st)) = symstack (sp_tab st)"
    by (auto simp: sp_recs_def intro!: map_idI)
  then show ?thesis by (simp add: put_rec_def)
qed

text \<open>The end of \<^verbatim>\<open>sp_new_label\<close>, after the label has its offset.\<close>

definition finish_label :: "addr \<Rightarrow> unit sp" where
  "finish_label a = bind_p (get_p sp_current_function) (\<lambda>f.
     bind_p (store_rec a (\<lambda>r. r\<lparr>sy_parent := f\<rparr>)) (\<lambda>_.
     bind_p (gencode INS_LBL (Some a)) (\<lambda>_. patch_jumps a)))"

lemma finish_label_placed:
  assumes b: "bp_ok log st" and l: "label_named nm st = Some r"
  shows "\<exists>ls. finish_label (sy_addr r) (put_rec (sy_addr r) (\<lambda>q. q\<lparr>sy_offset := current_offset st\<rparr>) st) =
    Some (Inr (placed r (sp_current_function st) ls st, ()))"
proof -
  let ?a = "sy_addr r" and ?f = "sp_current_function st" and ?cur = "current_offset st"
  let ?u = "\<lambda>q. q\<lparr>sy_offset := ?cur, sy_parent := ?f\<rparr>"
  define st2 where "st2 = put_rec ?a ?u st"
  have co: "code_ok st" and ro: "recs_ok st" and ri: "r \<in> set (sp_recs st)" and short: "length (strz (sy_name r)) < 240"
    using b label_in_recs [OF l] select_in [OF l] label_named_is [OF l] by (auto simp: bp_ok_def labels_ok_def)
  have k: "keeps_key (\<lambda>q. q\<lparr>sy_offset := ?cur\<rparr>)" "keeps_key ?u"
    by (simp_all add: keeps_key_def)
  have i1: "r\<lparr>sy_offset := ?cur\<rparr> \<in> set (sp_recs (put_rec ?a (\<lambda>q. q\<lparr>sy_offset := ?cur\<rparr>) st))"
    unfolding sp_recs_put map_rec_def using ri by (auto intro!: image_eqI [of _ _ r])
  have 1: "store_rec ?a (\<lambda>q. q\<lparr>sy_parent := ?f\<rparr>) (put_rec ?a (\<lambda>q. q\<lparr>sy_offset := ?cur\<rparr>) st) = Some (Inr (st2, ()))"
    using store_rec_in [OF recs_ok_put [OF ro k(1)] i1, of "\<lambda>q. q\<lparr>sy_parent := ?f\<rparr>"]
    by (simp add: st2_def put_rec_comp [OF k(1)])
  have i2: "?u r \<in> set (sp_recs st2)" and ro2: "recs_ok st2"
    unfolding st2_def sp_recs_put map_rec_def using ri by (auto intro!: image_eqI [of _ _ r] recs_ok_put [OF ro k(2)])
  have nz: "?a \<noteq> 0"
    using recs_range [OF ro ri] by simp
  have ld: "load_rec ?a st2 = Some (Inr (st2, ?u r))"
    using load_rec_in [OF ro2 i2] by simp
  have f2: "sp_il st2 = sp_il st" "current_offset st2 = ?cur"
    by (simp_all add: st2_def)
  define ls where "ls = il_lblhead (sp_il st) @ [\<lparr>lb_offset = ?cur mod 2 ^ 16, lb_refcount = 0, lb_tag = 0, lb_name = strz (sy_name r)\<rparr>]"
  define il where "il = (sp_il st)\<lparr>il_lblhead := ls\<rparr>"
  have c: "ins_class INS_LBL = C_Lbl"
    by (simp add: ins_class_def)
  have g: "is_gencode (current_offset st2) INS_LBL (Some (?u r)) 0 (sp_il st2) = Inr (il, 0)"
    using short co by (simp add: is_gencode_def c f2 is_push_lblrec_def is_create_lblrec_def emit_def code_ok_def il_def ls_def)
  have 2: "gencode INS_LBL (Some ?a) st2 = Some (Inr (emitted il 0 st2, ()))"
    by (rule gencode_rec [OF ld nz _ g]) (simp add: c)
  let ?st3 = "emitted il 0 st2"
  have ro3: "recs_ok ?st3" and i3: "?u r \<in> set (sp_recs ?st3)" and c3: "code_ok ?st3"
    using ro2 i2 co by (simp_all add: code_ok_def f2 il_def)
  have ld3: "load_rec ?a ?st3 = Some (Inr (?st3, ?u r))"
    using load_rec_in [OF ro3 i3] by simp
  have js: "\<forall>j \<in> set (sy_list r). jr_offset j \<in> set (starts ?st3) \<and> sp_code ?st3 (jr_offset j) = jr_ins j \<and> ins_class (jr_ins j) = C_Jump"
    using open_jumps [OF b l] by (simp add: f2 il_def) metis
  let ?il4 = "il\<lparr>il_code := put_all (map jr_offset (sy_list r)) (of_nat ?cur) (sp_code st)\<rparr>"
  have 3: "each_p (\<lambda>j. bind_p (gencode_at (jr_offset j) (jr_ins j) (Some ?a)) (\<lambda>_. ret_p ())) (sy_list r) ?st3 =
      Some (Inr (st2\<lparr>sp_il := ?il4\<rparr>, ()))"
    using patch_loop [OF ro3 i3 c3 js] f2 by (simp add: il_def emitted_def)
  have i4: "?u r \<in> set (sp_recs (st2\<lparr>sp_il := ?il4\<rparr>))" and ro4: "recs_ok (st2\<lparr>sp_il := ?il4\<rparr>)"
    using i2 ro2 by (simp_all add: sp_recs_def recs_ok_def)
  have 4: "store_rec ?a st_jmp_clear (st2\<lparr>sp_il := ?il4\<rparr>) = Some (Inr (placed r ?f ls st, ()))"
    using store_rec_in [OF ro4 i4, of st_jmp_clear]
    by (simp add: placed_def Let_def put_rec_il st2_def put_rec_comp [OF k(2)] il_def)
  have "finish_label ?a (put_rec ?a (\<lambda>q. q\<lparr>sy_offset := ?cur\<rparr>) st) = Some (Inr (placed r ?f ls st, ()))"
    by (simp add: finish_label_def patch_jumps_def bind_p_eval 1 2 bind_load [OF ld3] 3 4)
  then show ?thesis by blast
qed

lemma placed_fields [simp]: "current_offset (placed r f ls st) = current_offset st"
  by (simp add: placed_def Let_def)

lemma grows_placed:
  assumes "bp_ok log st" "label_named nm st = Some r" "sy_offset r = SYM_UNDEFINED \<or> sy_offset r = current_offset st"
  shows "grows st (placed r f ls st)" "places (placed r f ls st) nm = Some (current_offset st)"
proof -
  define u where "u = (\<lambda>q. st_jmp_clear (q\<lparr>sy_offset := current_offset st, sy_parent := f\<rparr>))"
  define st1 where "st1 = st\<lparr>sp_il := (sp_il st)\<lparr>il_lblhead := ls,
      il_code := put_all (map jr_offset (sy_list r)) (of_nat (current_offset st)) (sp_code st)\<rparr>\<rparr>"
  have k: "keeps_key u" and o: "sy_offset (u q) = current_offset st" for q
    by (simp_all add: u_def keeps_key_def st_jmp_clear_def)
  have p: "placed r f ls st = put_rec (sy_addr r) u st1"
    by (simp add: placed_def Let_def u_def st1_def)
  have t: "sp_tab st1 = sp_tab st"
    by (simp add: st1_def)
  have ro: "recs_ok st" and cur: "current_offset st \<noteq> SYM_UNDEFINED"
    using assms(1) by (auto simp: bp_ok_def code_ok_def MAX_BUFFER_SIZE_def SYM_UNDEFINED_def)
  have "grows st st1"
    by (rule grows_cong) (simp_all add: st1_def)
  moreover have "sy_offset (u q) = sy_offset q" if "label_named n st1 = Some q" "sy_addr q = sy_addr r" "sy_offset q \<noteq> SYM_UNDEFINED" for n q
    using same_record [OF ro label_in_recs label_in_recs [OF assms(2)], of n q] that assms(3) by (auto simp: t o)
  ultimately show "grows st (placed r f ls st)"
    unfolding p using grows_trans grows_put [OF k] by metis
  show "places (placed r f ls st) nm = Some (current_offset st)"
    using cur by (simp add: places_def p select_put [OF k] t assms(2) o)
qed

lemma bp_ok_cong:
  assumes "sp_tab st' = sp_tab st" "sp_loose st' = sp_loose st" "sp_fresh st' = sp_fresh st" "sp_il st' = sp_il st"
    "current_offset st' = current_offset st"
  shows "bp_ok log st' = bp_ok log st"
  unfolding bp_ok_def recs_ok_def sp_recs_def code_ok_def jump_ok_def labels_ok_def assms by (rule refl)

lemma bp_ok_errors: "bp_ok log st \<Longrightarrow> bp_ok log (st\<lparr>sp_errors := es\<rparr>)"
  using bp_ok_cong [of "st\<lparr>sp_errors := es\<rparr>" st log] by simp

lemma new_label_keeps:
  assumes b: "bp_ok log st" and nm: "length nm < 240"
  shows "\<exists>st'. sp_new_label nm st = Some (Inr (st', ())) \<and> bp_ok log st' \<and> current_offset st' = current_offset st \<and>
    grows st st' \<and> nm \<in> dom (places st')"
proof (cases "label_named nm st")
  case None
  let ?r = "st_sym_create (sp_fresh st) SYM_TYPE_LABEL nm (current_offset st)" and ?off = "current_offset st"
  let ?st = "with_new ?r st"
  have ro: "recs_ok st"
    using b by (simp add: bp_ok_def)
  have r: "sy_addr ?r = sp_fresh st" "sy_offset ?r = ?off" "sy_list ?r = []"
    by (simp_all add: st_sym_create_def st_sym_create_s_def)
  have b1: "bp_ok log ?st"
    by (rule bp_ok_new [OF b refl nm])
  have l1: "label_named nm ?st = Some ?r"
    using create_label_matches [of nm] nm by (simp add: select_new None)
  have "put_rec (sy_addr ?r) (\<lambda>q. q\<lparr>sy_offset := ?off\<rparr>) ?st = ?st"
  proof (rule put_rec_same)
    fix q
    assume "q \<in> set (sp_recs ?st)" "sy_addr q = sy_addr ?r"
    then have "q = ?r"
      using same_record [of ?st q ?r] b1 label_in_recs [OF l1] by (simp add: bp_ok_def)
    then show "q\<lparr>sy_offset := ?off\<rparr> = q"
      using r(2) by simp
  qed
  with finish_label_placed [OF b1 l1] obtain ls where
    "finish_label (sp_fresh st) ?st = Some (Inr (placed ?r (sp_current_function st) ls ?st, ()))"
    by (auto simp: r)
  moreover have "sp_new_label nm st = finish_label (sp_fresh st) ?st"
    by (simp add: sp_new_label_def finish_label_def sym_select_def None sym_addr_def bind_p_eval sym_insert_new [OF ro])
  moreover have "bp_ok log (placed ?r (sp_current_function st) ls ?st)"
    by (rule bp_ok_placed [OF b1 l1]) (simp add: r)
  moreover have "grows st (placed ?r (sp_current_function st) ls ?st)"
    by (rule grows_trans [OF grows_new grows_placed(1) [OF b1 l1]]) (simp add: r)
  moreover have "nm \<in> dom (places (placed ?r (sp_current_function st) ls ?st))"
    using grows_placed(2) [OF b1 l1] r(2) by (auto simp: dom_def)
  moreover have "current_offset (placed ?r (sp_current_function st) ls ?st) = current_offset st"
    by simp
  ultimately show ?thesis by metis
next
  case (Some r)
  have ro: "recs_ok st" and ri: "r \<in> set (sp_recs st)"
    using b label_in_recs [OF Some] by (simp_all add: bp_ok_def)
  have nz: "sy_addr r \<noteq> 0"
    using recs_range [OF ro ri] by simp
  note ev = sp_new_label_def sym_select_def Some sym_addr_def nz bind_load [OF load_rec_in [OF ro ri]]
  show ?thesis
  proof (cases "sy_offset r = SYM_UNDEFINED")
    case True
    obtain ls where
      "finish_label (sy_addr r) (put_rec (sy_addr r) (\<lambda>q. q\<lparr>sy_offset := current_offset st\<rparr>) st) =
         Some (Inr (placed r (sp_current_function st) ls st, ()))"
      using finish_label_placed [OF b Some] by blast
    moreover have "sp_new_label nm st =
        finish_label (sy_addr r) (put_rec (sy_addr r) (\<lambda>q. q\<lparr>sy_offset := current_offset st\<rparr>) st)"
      using True by (simp add: ev finish_label_def bind_p_eval store_rec_in [OF ro ri])
    moreover have "bp_ok log (placed r (sp_current_function st) ls st)"
      by (rule bp_ok_placed [OF b Some]) (simp add: True)
    moreover have "grows st (placed r (sp_current_function st) ls st)"
      by (rule grows_placed(1) [OF b Some]) (simp add: True)
    moreover have "nm \<in> dom (places (placed r (sp_current_function st) ls st))"
      using grows_placed(2) [OF b Some] True by (auto simp: dom_def)
    ultimately show ?thesis
      using placed_fields by metis
  next
    case False
    then have "sp_new_label nm st = Some (Inr (st\<lparr>sp_errors := sp_errors st @ [(SP_ERR_MULTI_LABEL, nm)]\<rparr>, ()))"
      by (simp add: ev sp_error_def upd_p_def)
    moreover have "grows st (st\<lparr>sp_errors := es\<rparr>)" "nm \<in> dom (places (st\<lparr>sp_errors := es\<rparr>))" for es
      using False by (auto intro: grows_cong simp: places_def Some)
    ultimately show ?thesis
      using bp_ok_errors [OF b] by fastforce
  qed
qed

lemma int32_to_int32: "int32 (to_int32 v)"
proof -
  have "0 \<le> (v + 2 ^ 31) mod 2 ^ 32" "(v + 2 ^ 31) mod 2 ^ 32 < 2 ^ 32"
    by (simp_all add: pos_mod_bound)
  then show ?thesis
    by (simp add: int32_def to_int32_def)
qed

lemma text_i_length: "length (text_i n) < 12"
  using show_int_length [OF int32_to_int32] by (simp add: text_i_def)

lemma bp_ok_label_index: "bp_ok log (st\<lparr>sp_label_index := i\<rparr>) = bp_ok log st"
  by (rule bp_ok_cong) simp_all

lemma create_label_keeps:
  assumes b: "bp_ok log st" and pf: "length prefix < 220"
  shows "\<exists>st' r. sp_create_label prefix st = Some (Inr (st', sy_addr r)) \<and> bp_ok log st' \<and> current_offset st' = current_offset st \<and>
    grows st st' \<and> r \<in> set (symhead (sp_tab st')) \<and> is_label r"
proof -
  let ?nm = "prefix @ text_i (sp_label_index st)" and ?st = "st\<lparr>sp_label_index := Suc (sp_label_index st)\<rparr>"
  have nm: "length ?nm < 240"
    using pf text_i_length [of "sp_label_index st"] by simp
  have b0: "bp_ok log ?st"
    using b bp_ok_label_index by simp
  obtain st1 r where 1: "(if sym_addr (label_named ?nm ?st) = 0 then sym_insert SYM_TYPE_LABEL ?nm SYM_UNDEFINED
        else ret_p (sym_addr (label_named ?nm ?st))) ?st = Some (Inr (st1, sy_addr r))"
    and b1: "bp_ok log st1" and l1: "label_named ?nm st1 = Some r" and f1: "current_offset st1 = current_offset ?st"
    and s1: "grows ?st st1"
    using obtain_label [OF b0 nm] by blast
  let ?f = "\<lambda>q. q\<lparr>sy_parent := sp_current_function st1\<rparr>"
  have k: "keeps_key ?f"
    by (rule keeps_key_intros)
  have "store_rec (sy_addr r) ?f st1 = Some (Inr (put_rec (sy_addr r) ?f st1, ()))"
    using b1 label_in_recs [OF l1] by (intro store_rec_in) (simp_all add: bp_ok_def)
  then have "sp_create_label prefix st = Some (Inr (put_rec (sy_addr r) ?f st1, sy_addr (?f r)))"
    using 1 nm by (simp add: sp_create_label_def sprintf_to_def sym_select_def bind_p_eval ret_p_def)
  moreover have "bp_ok log (put_rec (sy_addr r) ?f st1)"
    by (rule bp_ok_put [OF b1 k]) simp
  moreover have "grows st (put_rec (sy_addr r) ?f st1)"
    by (rule grows_trans [OF grows_trans [OF grows_cong s1] grows_put [OF k]]) simp_all
  moreover have "label_named ?nm (put_rec (sy_addr r) ?f st1) = Some (?f r)"
    by (simp add: select_put [OF k] l1)
  moreover have "current_offset (put_rec (sy_addr r) ?f st1) = current_offset st"
    using f1 by simp
  ultimately show ?thesis
    using select_in label_named_is by metis
qed

text \<open>An instruction whose argument is what its opcode reads.\<close>

definition emit_ok :: "addr set \<Rightarrow> u8 \<Rightarrow> nat option \<Rightarrow> bool" where
  "emit_ok A op arg = (case ins_class op of C_Plain \<Rightarrow> True | C_Other \<Rightarrow> True | C_Sys \<Rightarrow> arg \<noteq> None | C_Ctx \<Rightarrow> arg \<noteq> None
     | C_Lbl \<Rightarrow> False | C_Switch \<Rightarrow> False | _ \<Rightarrow> arg \<in> Some ` A)"

lemma is_gencode_total:
  assumes "off + 4 \<le> MAX_BUFFER_SIZE" "ins_class op \<noteq> C_Lbl"
    "rec \<noteq> None \<or> ins_class op \<in> {C_Plain, C_Other, C_Sys, C_Ctx}"
  shows "\<exists>il n. is_gencode off op rec num il0 = Inr (il, n) \<and> n \<le> 4"
  using assms by (cases "ins_class op") (auto simp: is_gencode_def with_rec_def emit_def Let_def)

lemma emit_keeps:
  assumes b: "bp_ok log st" and ok: "emit_ok A op arg" and A: "A \<subseteq> sy_addr ` set (sp_recs st)"
    and fit: "current_offset st + 4 \<le> MAX_BUFFER_SIZE"
  shows "\<exists>st'. gencode op arg st = Some (Inr (st', ())) \<and> bp_ok log st' \<and> current_offset st' \<le> current_offset st + 4 \<and> grows st st'"
proof -
  have c: "ins_class op \<noteq> C_Lbl" "ins_class op \<noteq> C_Switch"
    using ok by (auto simp: emit_ok_def)
  have ro: "recs_ok st"
    using b by (simp add: bp_ok_def)
  have *: "\<exists>rec num. (rec \<noteq> None \<or> ins_class op \<in> {C_Plain, C_Other, C_Sys, C_Ctx}) \<and>
      (\<forall>il n. is_gencode (current_offset st) op rec num (sp_il st) = Inr (il, n) \<longrightarrow>
        gencode_at (current_offset st) op arg st = Some (Inr (st\<lparr>sp_il := il\<rparr>, n)))"
  proof (cases "ins_class op \<in> {C_Plain, C_Other, C_Sys, C_Ctx}")
    case True
    then show ?thesis
      using ok by (intro exI [of _ None] exI [of _ "if ins_class op \<in> {C_Plain, C_Other} then 0 else the arg"])
        (auto simp: gencode_at_def emit_ok_def)
  next
    case False
    with ok A obtain r where r: "r \<in> set (sp_recs st)" "arg = Some (sy_addr r)"
      by (cases "ins_class op") (auto simp: emit_ok_def)
    with False load_rec_in [OF ro r(1)] recs_range [OF ro r(1)] show ?thesis
      by (intro exI [of _ "Some r"] exI [of _ 0]) (simp add: gencode_at_def bind_load)
  qed
  then obtain rec num il n where g: "is_gencode (current_offset st) op rec num (sp_il st) = Inr (il, n)" and n: "n \<le> 4"
    and run: "gencode_at (current_offset st) op arg st = Some (Inr (st\<lparr>sp_il := il\<rparr>, n))"
    using is_gencode_total [OF fit c(1)] by metis
  have "gencode op arg st = Some (Inr (emitted il n st, ()))"
    by (simp add: gencode_def bind_p_eval run upd_p_def emitted_def)
  with bp_ok_emitted [OF g c(2) b] n grows_emitted [OF g] emitted_fields(2) show ?thesis
    by (metis add_left_mono)
qed

section \<open>Loops\<close>

definition loops_ok :: "spstate \<Rightarrow> bool" where
  "loops_ok st \<longleftrightarrow> (\<forall>a \<in> set (loop_stack st). \<exists>r \<in> set (symhead (sp_tab st)). sy_addr r = a \<and> is_label r)"

lemma label_grows:
  assumes "grows st st'" "r \<in> set (symhead (sp_tab st))" "is_label r"
  shows "\<exists>q \<in> set (symhead (sp_tab st')). sy_addr q = sy_addr r \<and> is_label q"
proof -
  have "rec_key r \<in> rec_key ` set (symhead (sp_tab st'))"
    using assms(1,2) unfolding grows_def by blast
  then show ?thesis
    using assms(3) by (auto simp: rec_key_def is_label_def)
qed

lemma loops_ok_grows:
  assumes "loops_ok st" "grows st st'"
  shows "loops_ok st'"
proof -
  have "loop_stack st' = loop_stack st"
    using assms(2) by (simp only: grows_def)
  with assms(1) label_grows [OF assms(2)] show ?thesis
    unfolding loops_ok_def by metis
qed

text \<open>The name of a label of the table can be used for a jump.\<close>

lemma label_name:
  assumes "bp_ok log st" "r \<in> set (symhead (sp_tab st))" "is_label r"
  shows "rec_name (sy_addr r) st = Some (Inr (st, strz (sy_name r)))" "length (strz (sy_name r)) < 240" "sy_addr r \<noteq> 0"
proof -
  have "recs_ok st" "r \<in> set (sp_recs st)"
    using assms(1) head_in_recs [OF assms(2)] by (simp_all add: bp_ok_def)
  then show "rec_name (sy_addr r) st = Some (Inr (st, strz (sy_name r)))" "sy_addr r \<noteq> 0"
    using recs_range [of st r] by (simp_all add: rec_name_def bind_load [OF load_rec_in] ret_p_def)
  show "length (strz (sy_name r)) < 240"
    using assms by (simp add: bp_ok_def labels_ok_def)
qed

lemma start_loop_keeps:
  assumes b: "bp_ok log st" and l: "loops_ok st" and d: "length (loop_stack st) < SEM_MAX_STACK"
  shows "\<exists>st' a. sp_start_loop st = Some (Inr (st', a)) \<and> bp_ok log st' \<and> current_offset st' = current_offset st \<and> loops_ok st' \<and>
    loop_stack st' = a # loop_stack st \<and> sy_addr ` set (sp_recs st) \<subseteq> sy_addr ` set (sp_recs st') \<and>
    il_cpindex (sp_il st') = il_cpindex (sp_il st) \<and> places st \<subseteq>\<^sub>m places st'"
proof -
  obtain st1 r where 1: "sp_create_label [95, 95, 108] st = Some (Inr (st1, sy_addr r))" "bp_ok log st1"
      "current_offset st1 = current_offset st" "grows st st1" and r: "r \<in> set (symhead (sp_tab st1))" "is_label r"
    using create_label_keeps [OF b, of "[95, 95, 108]"] by auto
  note nm = label_name [OF 1(2) r]
  obtain st2 where 2: "sp_new_label (strz (sy_name r)) st1 = Some (Inr (st2, ()))" "bp_ok log st2"
      "current_offset st2 = current_offset st1" "grows st1 st2"
    using new_label_keeps [OF 1(2) nm(2)] by blast
  let ?st = "st2\<lparr>loop_stack := sy_addr r # loop_stack st2\<rparr>"
  note g = grows_trans [OF 1(4) 2(4)]
  have ls: "loop_stack st2 = loop_stack st"
    using g by (simp only: grows_def)
  have "sp_start_loop st = Some (Inr (?st, sy_addr r))"
    using d by (simp add: sp_start_loop_def bind_p_eval 1(1) nm(1) 2(1) sp_loop_stack_push_def ls ret_p_def)
  moreover have "bp_ok log ?st"
    using 2(2) bp_ok_cong [of ?st st2] by simp
  moreover have "loops_ok ?st"
    using loops_ok_grows [OF l g] label_grows [OF 2(4) r] by (auto simp: loops_ok_def)
  moreover have "sp_recs ?st = sp_recs st2" "loop_stack ?st = sy_addr r # loop_stack st" "current_offset ?st = current_offset st"
    "il_cpindex (sp_il ?st) = il_cpindex (sp_il st2)" "places ?st = places st2"
    using ls 1(3) 2(3) by (simp_all add: sp_recs_def places_def fun_eq_iff)
  ultimately show ?thesis
    using g unfolding grows_def by metis
qed

text \<open>A jump back to the innermost loop.\<close>

lemma loop_jump:
  assumes b: "bp_ok log st" and l: "loops_ok st" and d: "loop_stack st \<noteq> []" and fit: "current_offset st + 3 \<le> MAX_BUFFER_SIZE"
  obtains nm st' where "rec_name (hd (loop_stack st)) st = Some (Inr (st, nm))" "hd (loop_stack st) \<noteq> 0"
    "sp_jump_to INS_JMP nm st = Some (Inr (st', ()))" "bp_ok ((current_offset st, INS_JMP, nm) # log) st'"
    "current_offset st' = current_offset st + 3" "grows st st'"
proof -
  obtain r where r: "r \<in> set (symhead (sp_tab st))" "sy_addr r = hd (loop_stack st)" "is_label r"
    using l d unfolding loops_ok_def by (metis list.set_sel(1))
  note nm = label_name [OF b r(1,3)]
  have c: "ins_class INS_JMP = C_Jump"
    by code_simp
  show ?thesis
    using jump_to_keeps [OF b nm(2) c fit] nm(1,3) r(2) that by metis
qed

section \<open>Sequences of actions\<close>

text \<open>
  What the parser calls for labels, jumps, loops and plain instructions, in any order. The log collects the jumps.
\<close>

datatype lact = Jump u8 "u8 list" | Place "u8 list" | Create "u8 list" | Emit u8 "nat option" | Start_Loop | Continue_Loop | End_Loop

definition loop_target :: "jlog \<Rightarrow> jlog sp" where
  "loop_target log = bind_p (get_p current_offset) (\<lambda>off. bind_p sp_loop_stack_peek (\<lambda>a.
     bind_p (rec_name a) (\<lambda>nm. ret_p ((off, INS_JMP, nm) # log))))"

fun act :: "lact \<Rightarrow> jlog \<Rightarrow> jlog sp" where
  "act (Jump ins nm) log = bind_p (get_p current_offset) (\<lambda>off. bind_p (sp_jump_to ins nm) (\<lambda>_. ret_p ((off, ins, nm) # log)))"
| "act (Place nm) log = bind_p (sp_new_label nm) (\<lambda>_. ret_p log)"
| "act (Create prefix) log = bind_p (sp_create_label prefix) (\<lambda>_. ret_p log)"
| "act (Emit op arg) log = bind_p (gencode op arg) (\<lambda>_. ret_p log)"
| "act Start_Loop log = bind_p sp_start_loop (\<lambda>_. ret_p log)"
| "act Continue_Loop log = bind_p (loop_target log) (\<lambda>log'. bind_p sp_continue_loop (\<lambda>_. ret_p log'))"
| "act End_Loop log = bind_p (loop_target log) (\<lambda>log'. bind_p sp_end_loop (\<lambda>_. ret_p log'))"

fun acts :: "lact list \<Rightarrow> jlog \<Rightarrow> jlog sp" where
  "acts [] log = ret_p log"
| "acts (x # xs) log = bind_p (act x log) (acts xs)"

text \<open>Loops are closed after they are opened and no deeper than the stack; \<open>d\<close> is the depth, \<open>A\<close> has the records of the state.\<close>

fun act_ok :: "addr set \<Rightarrow> nat \<Rightarrow> lact \<Rightarrow> bool" where
  "act_ok A d (Jump ins nm) \<longleftrightarrow> ins_class ins = C_Jump \<and> length nm < 240"
| "act_ok A d (Place nm) \<longleftrightarrow> length nm < 240"
| "act_ok A d (Create prefix) \<longleftrightarrow> length prefix < 220"
| "act_ok A d (Emit op arg) \<longleftrightarrow> emit_ok A op arg"
| "act_ok A d Start_Loop \<longleftrightarrow> d < SEM_MAX_STACK"
| "act_ok A d Continue_Loop \<longleftrightarrow> 0 < d"
| "act_ok A d End_Loop \<longleftrightarrow> 0 < d"

fun depth :: "lact \<Rightarrow> nat \<Rightarrow> nat" where
  "depth Start_Loop d = Suc d"
| "depth End_Loop d = d - 1"
| "depth _ d = d"

fun acts_ok :: "addr set \<Rightarrow> nat \<Rightarrow> lact list \<Rightarrow> bool" where
  "acts_ok A d [] \<longleftrightarrow> True"
| "acts_ok A d (x # xs) \<longleftrightarrow> act_ok A d x \<and> acts_ok A (depth x d) xs"

text \<open>What one action leaves.\<close>

definition after_act :: "lact \<Rightarrow> jlog \<Rightarrow> spstate \<Rightarrow> jlog \<Rightarrow> spstate \<Rightarrow> bool" where
  "after_act x log st log' st' \<longleftrightarrow> bp_ok log' st' \<and> loops_ok st' \<and> length (loop_stack st') = depth x (length (loop_stack st)) \<and>
     current_offset st' \<le> current_offset st + 4 \<and> sy_addr ` set (sp_recs st) \<subseteq> sy_addr ` set (sp_recs st') \<and>
     il_cpindex (sp_il st') = il_cpindex (sp_il st) \<and> places st \<subseteq>\<^sub>m places st' \<and> (\<forall>nm. x = Place nm \<longrightarrow> nm \<in> dom (places st'))"

lemma after_act_grows:
  assumes "bp_ok log' st'" "loops_ok st" "grows st st'" "depth x (length (loop_stack st)) = length (loop_stack st)"
    "current_offset st' \<le> current_offset st + 4" "\<And>nm. x = Place nm \<Longrightarrow> nm \<in> dom (places st')"
  shows "after_act x log st log' st'"
  using assms loops_ok_grows [OF assms(2,3)] unfolding after_act_def grows_def by metis

lemma loop_act_keeps:
  assumes "bp_ok log st" "loops_ok st" "loop_stack st \<noteq> []" "current_offset st + 3 \<le> MAX_BUFFER_SIZE" "x = Continue_Loop \<or> x = End_Loop"
  shows "\<exists>st' log'. act x log st = Some (Inr (st', log')) \<and> after_act x log st log' st'"
proof -
  obtain a as where s: "loop_stack st = a # as"
    using assms(3) by (cases "loop_stack st") auto
  obtain nm st' where j: "rec_name a st = Some (Inr (st, nm))" "a \<noteq> 0" "sp_jump_to INS_JMP nm st = Some (Inr (st', ()))"
      "bp_ok ((current_offset st, INS_JMP, nm) # log) st'" "current_offset st' = current_offset st + 3" "grows st st'"
    using loop_jump [OF assms(1-4)] unfolding s list.sel by metis
  let ?log = "(current_offset st, INS_JMP, nm) # log"
  have s': "loop_stack st' = a # as"
    using j(6) s by (simp only: grows_def)
  have t: "loop_target log st = Some (Inr (st, ?log))" and pk: "sp_loop_stack_peek st = Some (Inr (st, a))"
    by (simp_all add: loop_target_def sp_loop_stack_peek_def s bind_p_eval j(1) ret_p_def)
  from assms(5) show ?thesis
  proof
    assume x: "x = Continue_Loop"
    have "act x log st = Some (Inr (st', ?log))"
      by (simp add: x bind_p_eval t sp_continue_loop_def pk j ret_p_def)
    moreover have "after_act x log st ?log st'"
      by (rule after_act_grows [OF j(4) assms(2) j(6)]) (simp_all add: x j(5))
    ultimately show ?thesis by blast
  next
    assume x: "x = End_Loop"
    let ?st = "st'\<lparr>loop_stack := as\<rparr>"
    have run: "act x log st = Some (Inr (?st, ?log))"
      by (simp add: x bind_p_eval t sp_end_loop_def pk j sp_loop_stack_pop_def s' ret_p_def)
    have "bp_ok ?log ?st"
      using j(4) bp_ok_cong [of ?st st'] by simp
    moreover have "loops_ok ?st"
      using loops_ok_grows [OF assms(2) j(6)] by (simp add: loops_ok_def s')
    moreover have "sp_recs ?st = sp_recs st'" "length (loop_stack ?st) = depth x (length (loop_stack st))"
      "current_offset ?st \<le> current_offset st + 4" "sp_il ?st = sp_il st'" "places ?st = places st'" "\<forall>nm. x \<noteq> Place nm"
      by (simp_all add: sp_recs_def s x j(5) places_def fun_eq_iff)
    ultimately have "after_act x log st ?log ?st"
      using j(6) unfolding after_act_def grows_def by metis
    with run show ?thesis by blast
  qed
qed

lemma act_keeps:
  assumes b: "bp_ok log st" and l: "loops_ok st" and ok: "act_ok A (length (loop_stack st)) x"
    and A: "A \<subseteq> sy_addr ` set (sp_recs st)" and fit: "current_offset st + 4 \<le> MAX_BUFFER_SIZE"
  shows "\<exists>st' log'. act x log st = Some (Inr (st', log')) \<and> after_act x log st log' st'"
proof (cases x)
  case (Jump ins nm)
  then obtain st' where j: "sp_jump_to ins nm st = Some (Inr (st', ()))" "bp_ok ((current_offset st, ins, nm) # log) st'"
      "current_offset st' = current_offset st + 3" "grows st st'"
    using jump_to_keeps [OF b, of nm ins] ok fit by auto
  have "act x log st = Some (Inr (st', (current_offset st, ins, nm) # log))"
    by (simp add: Jump bind_p_eval j(1) ret_p_def)
  moreover have "after_act x log st ((current_offset st, ins, nm) # log) st'"
    by (rule after_act_grows [OF j(2) l j(4)]) (simp_all add: Jump j(3))
  ultimately show ?thesis by blast
next
  case (Place nm)
  then obtain st' where j: "sp_new_label nm st = Some (Inr (st', ()))" "bp_ok log st'" "current_offset st' = current_offset st" "grows st st'"
      "nm \<in> dom (places st')"
    using new_label_keeps [OF b, of nm] ok by (simp only: act_ok.simps) blast
  have "act x log st = Some (Inr (st', log))"
    by (simp add: Place bind_p_eval j(1) ret_p_def)
  moreover have "after_act x log st log st'"
    by (rule after_act_grows [OF j(2) l j(4)]) (use j(5) in \<open>simp_all add: Place j(3)\<close>)
  ultimately show ?thesis by blast
next
  case (Create prefix)
  with ok have "length prefix < 220" by simp
  then obtain st' a where j: "sp_create_label prefix st = Some (Inr (st', a))" "bp_ok log st'" "current_offset st' = current_offset st" "grows st st'"
    using create_label_keeps [OF b, of prefix] by blast
  have "act x log st = Some (Inr (st', log))"
    by (simp add: Create bind_p_eval j(1) ret_p_def)
  moreover have "after_act x log st log st'"
    by (rule after_act_grows [OF j(2) l j(4)]) (simp_all add: Create j(3))
  ultimately show ?thesis by blast
next
  case (Emit op arg)
  then obtain st' where j: "gencode op arg st = Some (Inr (st', ()))" "bp_ok log st'" "current_offset st' \<le> current_offset st + 4" "grows st st'"
    using emit_keeps [OF b _ A fit, of op arg] ok by auto
  have "act x log st = Some (Inr (st', log))"
    by (simp add: Emit bind_p_eval j(1) ret_p_def)
  moreover have "after_act x log st log st'"
    by (rule after_act_grows [OF j(2) l j(4)]) (simp_all add: Emit j(3))
  ultimately show ?thesis by blast
next
  case Start_Loop
  then obtain st' a where j: "sp_start_loop st = Some (Inr (st', a))" "bp_ok log st'" "current_offset st' = current_offset st" "loops_ok st'"
      "loop_stack st' = a # loop_stack st" "sy_addr ` set (sp_recs st) \<subseteq> sy_addr ` set (sp_recs st')" "il_cpindex (sp_il st') = il_cpindex (sp_il st)"
      "places st \<subseteq>\<^sub>m places st'"
    using start_loop_keeps [OF b l] ok by (simp only: act_ok.simps) metis
  have "act x log st = Some (Inr (st', log))"
    by (simp add: Start_Loop bind_p_eval j(1) ret_p_def)
  moreover have "length (loop_stack st') = depth x (length (loop_stack st))" "current_offset st' \<le> current_offset st + 4"
    "\<forall>nm. x \<noteq> Place nm"
    by (simp_all add: Start_Loop j(3,5))
  ultimately show ?thesis
    using j(2,4,6,7,8) unfolding after_act_def by metis
qed (use ok fit in \<open>intro loop_act_keeps [OF b l]; simp\<close>)+

lemma acts_keep:
  assumes "bp_ok log st" "loops_ok st" "acts_ok A (length (loop_stack st)) xs" "A \<subseteq> sy_addr ` set (sp_recs st)"
    "current_offset st + 4 * length xs \<le> MAX_BUFFER_SIZE"
  shows "\<exists>st' log'. acts xs log st = Some (Inr (st', log')) \<and> bp_ok log' st' \<and>
    current_offset st' \<le> current_offset st + 4 * length xs \<and> il_cpindex (sp_il st') = il_cpindex (sp_il st) \<and>
    places st \<subseteq>\<^sub>m places st' \<and> (\<forall>nm. Place nm \<in> set xs \<longrightarrow> nm \<in> dom (places st'))"
  using assms
proof (induction xs arbitrary: st log)
  case Nil
  then show ?case by (simp add: ret_p_def)
next
  case (Cons x xs)
  have ok: "act_ok A (length (loop_stack st)) x" "acts_ok A (depth x (length (loop_stack st))) xs"
    and fit: "current_offset st + 4 \<le> MAX_BUFFER_SIZE"
    using Cons.prems(3,5) by auto
  obtain st1 log1 where 1: "act x log st = Some (Inr (st1, log1))" and a: "after_act x log st log1 st1"
    using act_keeps [OF Cons.prems(1,2) ok(1) Cons.prems(4) fit] by blast
  note f = a [unfolded after_act_def]
  have "A \<subseteq> sy_addr ` set (sp_recs st1)"
    using f Cons.prems(4) by (elim conjE) (rule order_trans)
  moreover have "acts_ok A (length (loop_stack st1)) xs" "current_offset st1 + 4 * length xs \<le> MAX_BUFFER_SIZE"
    using f ok(2) Cons.prems(5) by (elim conjE; simp)+
  ultimately obtain st2 log2 where "acts xs log1 st1 = Some (Inr (st2, log2))" "bp_ok log2 st2"
      "current_offset st2 \<le> current_offset st1 + 4 * length xs" "il_cpindex (sp_il st2) = il_cpindex (sp_il st1)"
      "places st1 \<subseteq>\<^sub>m places st2" "\<And>nm. Place nm \<in> set xs \<Longrightarrow> nm \<in> dom (places st2)"
    using Cons.IH [of log1 st1] f by (elim conjE) metis
  moreover have "current_offset st1 \<le> current_offset st + 4" "il_cpindex (sp_il st1) = il_cpindex (sp_il st)"
    "places st \<subseteq>\<^sub>m places st1" "\<And>nm. x = Place nm \<Longrightarrow> nm \<in> dom (places st1)"
    using f by (elim conjE; simp)+
  moreover have "acts (x # xs) log st = acts xs log1 st1"
    by (simp add: bind_p_eval 1)
  moreover have "places st \<subseteq>\<^sub>m places st2"
    using calculation by (metis map_le_trans)
  moreover have "nm \<in> dom (places st2)" if "Place nm \<in> set (x # xs)" for nm
  proof (cases "x = Place nm")
    case True
    with calculation map_le_implies_dom_le [of "places st1" "places st2"] show ?thesis by blast
  qed (use that calculation in auto)
  moreover have "current_offset st2 \<le> current_offset st + 4 * length (x # xs)" "il_cpindex (sp_il st2) = il_cpindex (sp_il st)"
    using calculation by simp_all
  ultimately show ?case by metis
qed

text \<open>Linking code whose jumps are in order.\<close>

lemma jumps_linked:
  assumes b: "bp_ok log st" and fit: "current_offset st + il_cpindex (sp_il st) \<le> MAX_BUFFER_SIZE"
  shows "\<exists>il n. is_link_code (current_offset st) (sp_il st) = Inr (il, n) \<and>
    (\<forall>(p, ins, nm) \<in> set log. il_code il p = ins \<and>
      (\<exists>r. label_named nm st = Some r \<and>
        (sy_offset r \<noteq> SYM_UNDEFINED \<longrightarrow> of_nat p + get_operand (il_code il) (Suc p) = of_nat (sy_offset r))))"
proof -
  let ?c = "sp_code st" and ?sz = "current_offset st"
  have ps: "parses ?c ?sz 0" and rt: "reloc_tables ?sz ?c (starts st) (il_data (sp_il st)) = Inr (il_data (sp_il st))"
    using b by (simp_all add: bp_ok_def code_ok_def reloc_tables_no_switch)
  obtain il where lk: "is_link_code ?sz (sp_il st) = Inr (il, ?sz + il_cpindex (sp_il st))"
    and op: "\<And>p. p \<in> set (starts st) \<Longrightarrow> il_code il p = ?c p"
    and ar: "\<And>p. p \<in> set (starts st) \<Longrightarrow> reloc_class (ins_class (?c p)) \<Longrightarrow> p + 3 \<le> ?sz \<Longrightarrow>
      get_operand (il_code il) (Suc p) = get_operand (patch ?sz p ?c) (Suc p)"
    using linked_code [OF ps fit rt] by metis
  have "il_code il p = ins \<and> (\<exists>r. label_named nm st = Some r \<and>
      (sy_offset r \<noteq> SYM_UNDEFINED \<longrightarrow> of_nat p + get_operand (il_code il) (Suc p) = of_nat (sy_offset r)))"
    if e: "(p, ins, nm) \<in> set log" for p ins nm
  proof -
    have "jump_ok st (p, ins, nm)"
      using b e by (simp add: bp_ok_def)
    then obtain r where j: "p \<in> set (starts st)" "?c p = ins" "ins_class ins = C_Jump" and r: "label_named nm st = Some r"
      and o: "sy_offset r \<noteq> SYM_UNDEFINED \<longrightarrow> get_operand ?c (Suc p) = of_nat (sy_offset r)"
      by (auto simp: jump_ok_def split: if_splits)
    have "get_operand (il_code il) (Suc p) = get_operand ?c (Suc p) - of_nat p"
      using ar [OF j(1)] j reloc_fits [OF ps j(1)] by (simp add: reloc_class_def patch_def)
    with op [OF j(1)] j(2) r o show ?thesis by simp
  qed
  then have "\<forall>(p, ins, nm) \<in> set log. il_code il p = ins \<and> (\<exists>r. label_named nm st = Some r \<and>
      (sy_offset r \<noteq> SYM_UNDEFINED \<longrightarrow> of_nat p + get_operand (il_code il) (Suc p) = of_nat (sy_offset r)))"
    by blast
  with lk show ?thesis by blast
qed

text \<open>C2: Backpatching is right, from the semantic actions to the linked program. Take any sequence of calls of
  \<^verbatim>\<open>sp_create_label\<close>, \<^verbatim>\<open>sp_new_label\<close>, \<^verbatim>\<open>sp_jump_to\<close>, \<^verbatim>\<open>sp_start_loop\<close>, \<^verbatim>\<open>sp_continue_loop\<close>, \<^verbatim>\<open>sp_end_loop\<close> and of the emission of
  other instructions, with labels used before and after they are placed, that starts in a state in which the
  records are sound, the code parses, and no jump is open; loops are closed as they are opened. If the code fits
  into the buffer, every call returns, \<^verbatim>\<open>is_link_code\<close> succeeds, and in the linked code every jump that was made still
  stands at the offset where it was made, with its opcode, and its operand, added to its offset, is the offset of its label
  whenever the label has a place. Every label that one of the calls placed has one.\<close>

theorem jumps_lead_to_labels:
  assumes "bp_ok [] st" "loops_ok st" "acts_ok (sy_addr ` set (sp_recs st)) (length (loop_stack st)) xs"
    "current_offset st + 4 * length xs + il_cpindex (sp_il st) \<le> MAX_BUFFER_SIZE"
  shows "\<exists>st' log il n. acts xs [] st = Some (Inr (st', log)) \<and> is_link_code (current_offset st') (sp_il st') = Inr (il, n) \<and>
    (\<forall>(p, ins, nm) \<in> set log. il_code il p = ins \<and>
      (\<exists>r. st_sym_select SYM_TYPE_LABEL nm (sp_tab st') = Some r \<and>
        (sy_offset r \<noteq> SYM_UNDEFINED \<longrightarrow> of_nat p + get_operand (il_code il) (Suc p) = of_nat (sy_offset r)))) \<and>
    (\<forall>nm. Place nm \<in> set xs \<longrightarrow> (\<exists>r. st_sym_select SYM_TYPE_LABEL nm (sp_tab st') = Some r \<and> sy_offset r \<noteq> SYM_UNDEFINED))"
proof -
  obtain st' log where a: "acts xs [] st = Some (Inr (st', log))" "bp_ok log st'"
      "current_offset st' \<le> current_offset st + 4 * length xs" "il_cpindex (sp_il st') = il_cpindex (sp_il st)"
      "\<And>nm. Place nm \<in> set xs \<Longrightarrow> nm \<in> dom (places st')"
    using acts_keep [OF assms(1-3) order_refl] add_leD1 [OF assms(4)] by blast
  then have "current_offset st' + il_cpindex (sp_il st') \<le> MAX_BUFFER_SIZE"
    using assms(4) by simp
  with jumps_linked [OF a(2)] obtain il n where "is_link_code (current_offset st') (sp_il st') = Inr (il, n)"
      "\<forall>(p, ins, nm) \<in> set log. il_code il p = ins \<and> (\<exists>r. label_named nm st' = Some r \<and>
        (sy_offset r \<noteq> SYM_UNDEFINED \<longrightarrow> of_nat p + get_operand (il_code il) (Suc p) = of_nat (sy_offset r)))"
    by blast
  moreover have "\<exists>r. label_named nm st' = Some r \<and> sy_offset r \<noteq> SYM_UNDEFINED" if "Place nm \<in> set xs" for nm
    using a(5) [OF that] unfolding dom_def mem_Collect_eq not_None_eq by (auto simp: places_Some)
  ultimately show ?thesis
    using a(1) by blast
qed

text \<open>A loop with an exit that is placed after the jumps to it.\<close>

definition sp_start :: spstate where
  "sp_start = \<lparr>sp_tab = \<lparr>symhead = [], symstack = []\<rparr>, sp_loose = [], sp_fresh = 65536, sp_il = il_empty, sp_pk = (\<lambda>_. pk_blank 0), sp_pk_root = 0,
     sp_lk = \<lparr>k_pos = 0, k_mem = (\<lambda>_. pk_blank 0), k_root = 0, k_new = 65536\<rparr>, current_offset = 0, sp_errors = [], sp_offstack = [], sp_symstack = [], sp_symqueue = [],
     sp_label_index = 0, sp_context_cntr = 0, sp_api_id = 0, sp_current_function = 0, sp_end_function_label = 0,
     sp_skip_function_label = 0, lambda_stack = [], op_stack = \<lparr>s8_slot = (\<lambda>_. None), s8_index = 0\<rparr>,
     varctx_stack = \<lparr>s8_slot = (\<lambda>_. None), s8_index = 0\<rparr>, scope_stack = \<lparr>s8_slot = (\<lambda>_. None), s8_index = 0\<rparr>,
     inode_stack = [], method_scope = [], loop_stack = [], arr_buffer = (\<lambda>_. 0), arr_len = 0, prog_class = 0,
     construct_buffer = [], construct_index = 0, tc_block = []\<rparr>"

definition while_demo :: "lact list" where
  "while_demo = [Start_Loop, Emit INS_OBJDUP None, Jump INS_JFALSE [101], Emit INS_ADD None, Continue_Loop, Jump INS_JMP [101],
     End_Loop, Place [101], Emit INS_RET None]"

lemma sp_start_ok: "bp_ok [] sp_start" "loops_ok sp_start"
  by (simp_all add: bp_ok_def recs_ok_def sp_recs_def sp_start_def code_ok_def labels_ok_def loops_ok_def il_empty_def
      parses.simps [of _ 0 0] ins_starts.simps [of _ 0 0])

theorem jumps_lead_to_labels_witness:
  "bp_ok [] sp_start \<and> loops_ok sp_start \<and> acts_ok {} 0 while_demo \<and>
   (\<exists>st' log il n. acts while_demo [] sp_start = Some (Inr (st', log)) \<and> is_link_code (current_offset st') (sp_il st') = Inr (il, n) \<and>
    (\<forall>(p, ins, nm) \<in> set log. il_code il p = ins \<and>
      (\<exists>r. st_sym_select SYM_TYPE_LABEL nm (sp_tab st') = Some r \<and>
        (sy_offset r \<noteq> SYM_UNDEFINED \<longrightarrow> of_nat p + get_operand (il_code il) (Suc p) = of_nat (sy_offset r)))) \<and>
    (\<forall>nm. Place nm \<in> set while_demo \<longrightarrow> (\<exists>r. st_sym_select SYM_TYPE_LABEL nm (sp_tab st') = Some r \<and> sy_offset r \<noteq> SYM_UNDEFINED)))"
proof -
  have e: "sy_addr ` set (sp_recs sp_start) = {}" "length (loop_stack sp_start) = 0"
    by (simp_all add: sp_recs_def sp_start_def)
  have a: "acts_ok {} 0 while_demo"
    by code_simp
  have f: "current_offset sp_start + 4 * length while_demo + il_cpindex (sp_il sp_start) \<le> MAX_BUFFER_SIZE"
    by (simp add: sp_start_def while_demo_def il_empty_def MAX_BUFFER_SIZE_def)
  show ?thesis
    using jumps_lead_to_labels [OF sp_start_ok, unfolded e, OF a f] sp_start_ok a by (intro conjI)
qed

end
