(* ===== verification/SP_Lazy.thy ===== *)
theory SP_Lazy
  imports SP_Backpatch
begin

text \<open>
  Lazy code. Flushing a scope emits the encodings of its pending instructions in their order, first the current
  ones and then those for after the expression, and notes the calls of functions that are not yet defined. Cloning a
  scope that holds an instruction does not end.
\<close>

section \<open>Encoding of a pending instruction\<close>

definition rec_at :: "spstate \<Rightarrow> addr \<Rightarrow> symrec option" where
  "rec_at st a = find (\<lambda>r. sy_addr r = a) (sp_recs st)"

definition rec_offset :: "spstate \<Rightarrow> addr \<Rightarrow> nat option" where
  "rec_offset st a = map_option sy_offset (rec_at st a)"

definition jumps_at :: "spstate \<Rightarrow> addr \<Rightarrow> jmprec set" where
  "jumps_at st a = (case rec_at st a of None \<Rightarrow> {} | Some r \<Rightarrow> set (sy_list r))"

definition bytes16 :: "u16 \<Rightarrow> u8 list" where
  "bytes16 v = [ucast (drop_bit 8 v), ucast v]"

definition node_bytes :: "spstate \<Rightarrow> ins_node \<Rightarrow> u8 list" where
  "node_bytes st n =
     (let op = in_ins n; arg = (case in_rec n of None \<Rightarrow> 0 | Some a \<Rightarrow> a);
          v = (of_nat (case rec_offset st arg of None \<Rightarrow> 0 | Some off \<Rightarrow> off) :: u16); w = (of_nat arg :: u16)
      in case ins_class op of
        C_Plain \<Rightarrow> [op]
      | C_Var \<Rightarrow> [op, ucast v]
      | C_Store \<Rightarrow> [op, ucast v]
      | C_Sys \<Rightarrow> if w < 254 then [op, ucast w] else [op, 255] @ bytes16 w
      | C_Ctx \<Rightarrow> [op, of_nat arg]
      | C_Other \<Rightarrow> []
      | _ \<Rightarrow> op # bytes16 v)"

lemma rec_at_in: "recs_ok st \<Longrightarrow> r \<in> set (sp_recs st) \<Longrightarrow> rec_at st (sy_addr r) = Some r"
  by (simp add: rec_at_def recs_ok_def find_distinct)

lemma rec_at_put:
  assumes "keeps_key f"
  shows "rec_at (put_rec a f st) b = map_option (\<lambda>r. if b = a then f r else r) (rec_at st b)"
proof -
  have "find (\<lambda>r. sy_addr r = b) (map_rec a f rs) = map_option (\<lambda>r. if b = a then f r else r) (find (\<lambda>r. sy_addr r = b) rs)" for rs
    using assms by (induction rs) (auto simp: map_rec_def keeps_key_def)
  then show ?thesis
    by (simp add: rec_at_def sp_recs_put)
qed

lemma emitted_recs [simp]: "rec_offset (emitted il n st) = rec_offset st" "jumps_at (emitted il n st) = jumps_at st"
  by (simp_all add: rec_at_def rec_offset_def jumps_at_def fun_eq_iff)

lemma set_nodes_fields [simp]:
  "sp_il (set_nodes k ns st) = sp_il st" "current_offset (set_nodes k ns st) = current_offset st" "recs_ok (set_nodes k ns st) = recs_ok st"
  "rec_offset (set_nodes k ns st) = rec_offset st" "jumps_at (set_nodes k ns st) = jumps_at st"
  by (simp_all add: set_nodes_def rec_offset_def jumps_at_def rec_at_def sp_recs_def recs_ok_def fun_eq_iff)

text \<open>Emission appends the encoding.\<close>

lemma write_nil: "write_bytes a [] b = b"
  by (rule ext) (auto simp: write_bytes_def)

lemma write_cons: "write_bytes a (x # xs) b = write_bytes (Suc a) xs (b(a := x))"
  by (rule ext) (auto simp: write_bytes_def nth_Cons' Suc_diff_Suc)

lemma write_append: "write_bytes (a + length xs) ys (write_bytes a xs b) = write_bytes a (xs @ ys) b"
  by (rule ext) (auto simp: write_bytes_def nth_append)

lemma put_operand_write: "put_operand a v b = write_bytes a (bytes16 v) b"
proof
  fix i
  show "put_operand a v b i = write_bytes a (bytes16 v) b i"
    using put_operand_bytes [of a v b]
    by (cases "i = a \<or> i = Suc a") (auto simp: bytes16_def write_bytes_def put_operand_def store16_def)
qed

text \<open>The record an instruction needs.\<close>

definition node_rec :: "spstate \<Rightarrow> ins_node \<Rightarrow> symrec option" where
  "node_rec st n = (case in_rec n of None \<Rightarrow> None | Some a \<Rightarrow> rec_at st a)"

lemma is_gencode_bytes:
  assumes "emit_ok (dom (rec_offset st)) (in_ins n) (in_rec n)" "current_offset st + 4 \<le> MAX_BUFFER_SIZE"
    "rec = (if ins_class (in_ins n) \<in> {C_Plain, C_Other, C_Sys, C_Ctx} then None else node_rec st n)"
    "num = (if ins_class (in_ins n) \<in> {C_Sys, C_Ctx} then the (in_rec n) else 0)"
  shows "\<exists>il. is_gencode (current_offset st) (in_ins n) rec num (sp_il st) = Inr (il, length (node_bytes st n)) \<and>
    il_code il = write_bytes (current_offset st) (node_bytes st n) (sp_code st)"
  using assms
  by (cases "ins_class (in_ins n)")
    (auto simp: emit_ok_def is_gencode_def emit_def with_rec_def node_bytes_def node_rec_def rec_offset_def Let_def
      write_nil write_cons bytes16_def put_operand_write drop_bit_eq_div id_def)

lemma gencode_bytes:
  assumes ok: "emit_ok (dom (rec_offset st)) (in_ins n) (in_rec n)" and fit: "current_offset st + 4 \<le> MAX_BUFFER_SIZE" and ro: "recs_ok st"
  shows "\<exists>il. gencode (in_ins n) (in_rec n) st = Some (Inr (emitted il (length (node_bytes st n)) st, ())) \<and>
    il_code il = write_bytes (current_offset st) (node_bytes st n) (sp_code st) \<and> il_cpindex il = il_cpindex (sp_il st)"
proof -
  let ?c = "ins_class (in_ins n)"
  let ?rec = "if ?c \<in> {C_Plain, C_Other, C_Sys, C_Ctx} then None else node_rec st n"
  let ?num = "if ?c \<in> {C_Sys, C_Ctx} then the (in_rec n) else 0"
  obtain il where il: "is_gencode (current_offset st) (in_ins n) ?rec ?num (sp_il st) = Inr (il, length (node_bytes st n))"
      "il_code il = write_bytes (current_offset st) (node_bytes st n) (sp_code st)"
    using is_gencode_bytes [OF ok fit refl refl] by blast
  have "gencode_at (current_offset st) (in_ins n) (in_rec n) st = Some (Inr (st\<lparr>sp_il := il\<rparr>, length (node_bytes st n)))"
  proof (cases "?c \<in> {C_Plain, C_Other, C_Sys, C_Ctx}")
    case True
    with il(1) ok show ?thesis
      by (auto simp: gencode_at_def emit_ok_def)
  next
    case False
    with ok obtain a where a: "in_rec n = Some a" "a \<in> dom (rec_offset st)"
      by (cases ?c) (auto simp: emit_ok_def)
    then obtain r where r: "rec_at st a = Some r"
      by (auto simp: rec_offset_def)
    then have "r \<in> set (sp_recs st)" "sy_addr r = a"
      by (auto simp: rec_at_def find_Some_iff)
    with load_rec_in [OF ro, of r] recs_range [OF ro, of r] have l: "load_rec a st = Some (Inr (st, r))" "a \<noteq> 0"
      by auto
    from False il(1) a r show ?thesis
      by (simp add: gencode_at_def Let_def bind_load [OF l(1)] l(2) node_rec_def)
  qed
  then have "gencode (in_ins n) (in_rec n) st = Some (Inr (emitted il (length (node_bytes st n)) st, ()))"
    by (simp add: gencode_def bind_p_eval upd_p_def emitted_def)
  with il(2) gencode_cpindex [OF il(1)] show ?thesis by blast
qed

section \<open>Emission of a list\<close>

definition is_call :: "ins_node \<Rightarrow> bool" where
  "is_call n \<longleftrightarrow> is_F2O (in_ins n) \<or> in_ins n = INS_CALL"

text \<open>What emitting nodes leaves: their bytes, and a note for every call of a function without an offset.\<close>

abbreviation "nodes_bytes st ns \<equiv> concat (map (node_bytes st) ns)"

definition emits :: "spstate \<Rightarrow> ins_node list \<Rightarrow> spstate \<Rightarrow> bool" where
  "emits st ns st' \<longleftrightarrow> sp_code st' = write_bytes (current_offset st) (nodes_bytes st ns) (sp_code st) \<and>
     current_offset st' = current_offset st + length (nodes_bytes st ns) \<and> recs_ok st' \<and>
     rec_offset st' = rec_offset st \<and> (\<forall>a. jumps_at st a \<subseteq> jumps_at st' a) \<and>
     (\<forall>i a. i < length ns \<longrightarrow> is_call (ns ! i) \<longrightarrow> in_rec (ns ! i) = Some a \<longrightarrow> rec_offset st a = Some SYM_UNDEFINED \<longrightarrow>
        \<lparr>jr_ins = in_ins (ns ! i), jr_offset = current_offset st + length (nodes_bytes st (take i ns))\<rparr> \<in> jumps_at st' a)"

lemma node_bytes_cong: "rec_offset st' = rec_offset st \<Longrightarrow> node_bytes st' = node_bytes st"
  by (simp add: node_bytes_def fun_eq_iff)

lemma length_node_bytes: "length (node_bytes st n) \<le> 4"
  by (simp add: node_bytes_def bytes16_def Let_def split: ins_class.split)

lemma emits_trans:
  assumes "emits st ns st1" "emits st1 ms st2"
  shows "emits st (ns @ ms) st2"
proof -
  have o: "rec_offset st1 = rec_offset st" and c: "current_offset st1 = current_offset st + length (nodes_bytes st ns)"
    and j: "\<And>a. jumps_at st1 a \<subseteq> jumps_at st2 a"
    using assms by (auto simp: emits_def)
  have n: "node_bytes st1 = node_bytes st"
    using o by (rule node_bytes_cong)
  have "\<lparr>jr_ins = in_ins ((ns @ ms) ! i), jr_offset = current_offset st + length (nodes_bytes st (take i (ns @ ms)))\<rparr> \<in> jumps_at st2 a"
    if "i < length (ns @ ms)" "is_call ((ns @ ms) ! i)" "in_rec ((ns @ ms) ! i) = Some a" "rec_offset st a = Some SYM_UNDEFINED" for i a
  proof (cases "i < length ns")
    case True
    with that assms(1) have "\<lparr>jr_ins = in_ins (ns ! i), jr_offset = current_offset st + length (nodes_bytes st (take i ns))\<rparr> \<in> jumps_at st1 a"
      unfolding emits_def by (simp add: nth_append)
    with True j show ?thesis
      by (auto simp: nth_append)
  next
    case False
    with that assms(2) show ?thesis
      by (auto simp: emits_def nth_append o c n add.assoc dest: spec [of _ "i - length ns"])
  qed
  moreover have "jumps_at st a \<subseteq> jumps_at st2 a" for a
    using assms unfolding emits_def by (meson order_trans)
  ultimately show ?thesis
    using assms unfolding emits_def by (simp add: o c n write_append)
qed

lemma emit_node_emits:
  assumes ok: "emit_ok (dom (rec_offset st)) (in_ins n) (in_rec n)" and fit: "current_offset st + 4 \<le> MAX_BUFFER_SIZE" and ro: "recs_ok st"
  shows "\<exists>st'. emit_node n st = Some (Inr (st', ())) \<and> emits st [n] st' \<and> inode_stack st' = inode_stack st"
proof -
  obtain st1 where 1: "open_call n st = Some (Inr (st1, ()))" "recs_ok st1" "rec_offset st1 = rec_offset st" "sp_il st1 = sp_il st"
      "current_offset st1 = current_offset st" "inode_stack st1 = inode_stack st" "\<And>a. jumps_at st a \<subseteq> jumps_at st1 a"
      "\<And>a. is_call n \<Longrightarrow> in_rec n = Some a \<Longrightarrow> rec_offset st a = Some SYM_UNDEFINED \<Longrightarrow>
        \<lparr>jr_ins = in_ins n, jr_offset = current_offset st\<rparr> \<in> jumps_at st1 a"
  proof (cases "is_call n")
    case False
    then show ?thesis
      using ro by (intro that [of st]) (auto simp: open_call_def is_call_def ret_p_def)
  next
    case True
    then have "ins_class (in_ins n) \<in> {C_F2O, C_Jump, C_Store, C_Var, C_Lbl}"
      by (auto simp: is_call_def ins_class_def)
    with ok have "in_rec n \<in> Some ` dom (rec_offset st)"
      by (auto simp: emit_ok_def)
    then obtain a where a: "in_rec n = Some a" "a \<in> dom (rec_offset st)"
      by blast
    then obtain r where r: "rec_at st a = Some r"
      by (auto simp: rec_offset_def)
    then have ri: "r \<in> set (sp_recs st)" and ra: "sy_addr r = a"
      by (auto simp: rec_at_def find_Some_iff)
    define u where "u = (if sy_offset r = SYM_UNDEFINED then st_jmp_add (in_ins n) (current_offset st) else id)"
    have k: "keeps_key u"
      using keeps_key_intros(3) by (simp add: u_def keeps_key_def)
    have uo: "sy_offset (u q) = sy_offset q" and uj: "set (sy_list q) \<subseteq> set (sy_list (u q))" for q
      by (auto simp: u_def)
    have at: "rec_at (put_rec a u st) b = map_option (\<lambda>q. if b = a then u q else q) (rec_at st b)" for b
      by (rule rec_at_put [OF k])
    show ?thesis
    proof (rule that [of "put_rec a u st"])
      show "open_call n st = Some (Inr (put_rec a u st, ()))"
        using True a load_rec_in [OF ro ri] store_rec_in [OF ro ri, of "st_jmp_add (in_ins n) (current_offset st)"]
        by (simp add: open_call_def is_call_def bind_load ra when_p_def u_def ret_p_def)
      show "recs_ok (put_rec a u st)"
        by (rule recs_ok_put [OF ro k])
      show "rec_offset (put_rec a u st) = rec_offset st"
        by (simp add: rec_offset_def at fun_eq_iff option.map_comp o_def if_distrib uo cong: if_cong)
      show "jumps_at st b \<subseteq> jumps_at (put_rec a u st) b" for b
        using uj by (auto simp: jumps_at_def at split: option.splits)
      show "\<lparr>jr_ins = in_ins n, jr_offset = current_offset st\<rparr> \<in> jumps_at (put_rec a u st) b"
        if "in_rec n = Some b" "rec_offset st b = Some SYM_UNDEFINED" for b
      proof -
        have b: "b = a" "sy_offset r = SYM_UNDEFINED"
          using that a r by (simp_all add: rec_offset_def)
        have "rec_at (put_rec a u st) a = Some (u r)"
          by (simp add: at r)
        then have "jumps_at (put_rec a u st) a = set (sy_list (u r))"
          by (simp only: jumps_at_def option.case)
        then show ?thesis
          unfolding b(1) by (simp add: u_def b(2))
      qed
    qed (simp_all add: put_rec_def)
  qed
  have n: "node_bytes st1 = node_bytes st"
    using 1(3) by (rule node_bytes_cong)
  obtain il where g: "gencode (in_ins n) (in_rec n) st1 = Some (Inr (emitted il (length (node_bytes st n)) st1, ()))"
      "il_code il = write_bytes (current_offset st) (node_bytes st n) (sp_code st)"
    using gencode_bytes [of st1 n] ok fit 1 by (auto simp: n)
  have "emit_node n st = Some (Inr (emitted il (length (node_bytes st n)) st1, ()))"
    by (simp add: emit_node_def bind_p_eval 1(1) g(1))
  moreover have "emits st [n] (emitted il (length (node_bytes st n)) st1)"
    using 1(2-5,7,8) g(2) by (auto simp: emits_def)
  moreover have "inode_stack (emitted il (length (node_bytes st n)) st1) = inode_stack st"
    using 1(6) by (simp add: emitted_def)
  ultimately show ?thesis by blast
qed

lemma emit_nodes_emits:
  assumes "\<forall>n \<in> set ns. emit_ok (dom (rec_offset st)) (in_ins n) (in_rec n)" "current_offset st + 4 * length ns \<le> MAX_BUFFER_SIZE" "recs_ok st"
  shows "\<exists>st'. each_p emit_node ns st = Some (Inr (st', ())) \<and> emits st ns st' \<and> inode_stack st' = inode_stack st"
  using assms
proof (induction ns arbitrary: st)
  case Nil
  then show ?case by (simp add: ret_p_def emits_def write_nil)
next
  case (Cons n ns)
  obtain st1 where 1: "emit_node n st = Some (Inr (st1, ()))" "emits st [n] st1" "inode_stack st1 = inode_stack st"
    using emit_node_emits [of st n] Cons.prems by auto
  then have "rec_offset st1 = rec_offset st" "recs_ok st1" "current_offset st1 \<le> current_offset st + 4"
    using length_node_bytes [of st n] by (auto simp: emits_def)
  then obtain st2 where "each_p emit_node ns st1 = Some (Inr (st2, ()))" "emits st1 ns st2" "inode_stack st2 = inode_stack st1"
    using Cons.IH [of st1] Cons.prems by auto
  with 1 emits_trans [OF 1(2)] show ?case
    by (auto simp: bind_p_eval)
qed

lemma length_nodes_bytes: "length (nodes_bytes st ns) \<le> 4 * length ns"
proof (induction ns)
  case (Cons n ns)
  with length_node_bytes [of st n] show ?case by simp
qed simp

lemma emits_set_nodes: "emits st ns (set_nodes k ms st') = emits st ns st'"
  by (simp add: emits_def)

text \<open>C9: Flushing a scope compiles it. When the records are sound and every pending instruction of the current scope and of
  its part for after the expression has the argument its opcode reads, \<^verbatim>\<open>sp_flush_scope_now\<close> returns, appends to the code
  exactly the encodings of these instructions in their order, moves the current offset behind them, leaves both lists empty and no
  record with another offset, and for every call of a function that is not yet defined notes in the record of the function the opcode and
  the offset at which the call stands.\<close>

theorem flush_scope_emits:
  assumes "recs_ok st" "sp_current_iroot st = Some r" "sp_right_iroot st = Some ra"
    "\<forall>n \<in> set (ir_nodes r @ ir_nodes ra). emit_ok (dom (rec_offset st)) (in_ins n) (in_rec n)"
    "current_offset st + 4 * length (ir_nodes r @ ir_nodes ra) \<le> MAX_BUFFER_SIZE"
  shows "\<exists>st'. sp_flush_scope_now st = Some (Inr (st', ())) \<and>
    il_code (sp_il st') = write_bytes (current_offset st) (concat (map (node_bytes st) (ir_nodes r @ ir_nodes ra))) (il_code (sp_il st)) \<and>
    current_offset st' = current_offset st + length (concat (map (node_bytes st) (ir_nodes r @ ir_nodes ra))) \<and>
    inode_stack st' = (inode_stack st)[0 := Some (r\<lparr>ir_nodes := []\<rparr>), 1 := Some (ra\<lparr>ir_nodes := []\<rparr>)] \<and>
    rec_offset st' = rec_offset st \<and>
    (\<forall>i a. i < length (ir_nodes r @ ir_nodes ra) \<and> is_call ((ir_nodes r @ ir_nodes ra) ! i) \<and>
        in_rec ((ir_nodes r @ ir_nodes ra) ! i) = Some a \<and> rec_offset st a = Some SYM_UNDEFINED \<longrightarrow>
      \<lparr>jr_ins = in_ins ((ir_nodes r @ ir_nodes ra) ! i),
        jr_offset = current_offset st + length (concat (map (node_bytes st) (take i (ir_nodes r @ ir_nodes ra))))\<rparr> \<in> jumps_at st' a)"
proof -
  let ?ns = "ir_nodes r" and ?ms = "ir_nodes ra"
  obtain st1 where 1: "each_p emit_node ?ns st = Some (Inr (st1, ()))" "emits st ?ns st1" "inode_stack st1 = inode_stack st"
    using emit_nodes_emits [of ?ns st] assms by auto
  let ?st1 = "set_nodes 0 [] st1"
  have o: "rec_offset ?st1 = rec_offset st" "recs_ok ?st1" and c: "current_offset ?st1 \<le> current_offset st + 4 * length ?ns"
    using 1(2) length_nodes_bytes [of st ?ns] by (simp_all add: emits_def)
  obtain st2 where 2: "each_p emit_node ?ms ?st1 = Some (Inr (st2, ()))" "emits ?st1 ?ms st2" "inode_stack st2 = inode_stack ?st1"
    using emit_nodes_emits [of ?ms ?st1] assms o c by auto
  have "emits st (?ns @ ?ms) st2"
    by (rule emits_trans [of _ _ ?st1]) (use 1(2) 2(2) in \<open>simp_all add: emits_set_nodes\<close>)
  then have e: "emits st (?ns @ ?ms) (set_nodes 1 [] st2)"
    by (simp add: emits_set_nodes)
  have "sp_flush_scope_now st = Some (Inr (set_nodes 1 [] st2, ()))"
    by (simp add: sp_flush_scope_now_def assms(2,3) nodes_of_def bind_p_eval 1(1) 2(1) when_p_def upd_p_def)
  moreover have "inode_stack (set_nodes 1 [] st2) = (inode_stack st)[0 := Some (r\<lparr>ir_nodes := []\<rparr>), 1 := Some (ra\<lparr>ir_nodes := []\<rparr>)]"
    using assms(2,3) by (simp add: set_nodes_def 2(3) 1(3) sp_current_iroot_def sp_right_iroot_def iroot_at_def split: if_splits)
  ultimately show ?thesis
    using e unfolding emits_def by blast
qed

definition flush_demo :: spstate where
  "flush_demo = sp_start\<lparr>sp_tab := \<lparr>symhead = [st_sym_create 70000 SYM_TYPE_FUNCTION [102] SYM_UNDEFINED], symstack = []\<rparr>, sp_fresh := 70001,
     inode_stack := [Some \<lparr>ir_root = sp_create_inode INS_LBL 0, ir_var = 0,
           ir_nodes = [sp_create_inode INS_OBJDUP 0, sp_create_inode INS_CALL 70000]\<rparr>,
         Some \<lparr>ir_root = sp_create_inode INS_LBL 0, ir_var = 0, ir_nodes = [sp_create_inode (INS_SYSCALL + 1) 28]\<rparr>]\<rparr>"

lemma flush_demo_offset: "rec_offset flush_demo = [70000 \<mapsto> SYM_UNDEFINED]"
  by (auto simp: rec_offset_def rec_at_def sp_recs_def flush_demo_def sp_start_def st_sym_create_def st_sym_create_s_def fun_eq_iff)

lemma demo_classes: "ins_class INS_OBJDUP = C_Plain" "ins_class INS_CALL = C_Jump" "ins_class (INS_SYSCALL + 1) = C_Sys"
  by code_simp+

theorem flush_scope_emits_witness:
  "\<exists>st'. sp_flush_scope_now flush_demo = Some (Inr (st', ())) \<and> current_offset st' = 6 \<and>
     read_bytes (il_code (sp_il st')) 0 6 = [INS_OBJDUP, INS_CALL, 255, 255, INS_SYSCALL + 1, 28] \<and>
     \<lparr>jr_ins = INS_CALL, jr_offset = 1\<rparr> \<in> jumps_at st' 70000"
proof -
  let ?r = "\<lparr>ir_root = sp_create_inode INS_LBL 0, ir_var = 0, ir_nodes = [sp_create_inode INS_OBJDUP 0, sp_create_inode INS_CALL 70000]\<rparr>"
  let ?ra = "\<lparr>ir_root = sp_create_inode INS_LBL 0, ir_var = 0, ir_nodes = [sp_create_inode (INS_SYSCALL + 1) 28]\<rparr>"
  have ro: "recs_ok flush_demo"
    by (simp add: recs_ok_def sp_recs_def flush_demo_def sp_start_def st_sym_create_def st_sym_create_s_def)
  have r: "sp_current_iroot flush_demo = Some ?r" "sp_right_iroot flush_demo = Some ?ra"
    by (simp_all add: sp_current_iroot_def sp_right_iroot_def iroot_at_def flush_demo_def)
  have c: "current_offset flush_demo = 0"
    by (simp add: flush_demo_def sp_start_def)
  have ok: "\<forall>n \<in> set (ir_nodes ?r @ ir_nodes ?ra). emit_ok (dom (rec_offset flush_demo)) (in_ins n) (in_rec n)"
    by (simp add: emit_ok_def sp_create_inode_def demo_classes flush_demo_offset)
  have fit: "current_offset flush_demo + 4 * length (ir_nodes ?r @ ir_nodes ?ra) \<le> MAX_BUFFER_SIZE"
    by (simp add: c MAX_BUFFER_SIZE_def)
  have nb: "node_bytes flush_demo (sp_create_inode INS_OBJDUP 0) = [INS_OBJDUP]"
    "node_bytes flush_demo (sp_create_inode INS_CALL 70000) = [INS_CALL, 255, 255]"
    "node_bytes flush_demo (sp_create_inode (INS_SYSCALL + 1) 28) = [INS_SYSCALL + 1, 28]"
    by (simp_all add: node_bytes_def sp_create_inode_def demo_classes flush_demo_offset bytes16_def SYM_UNDEFINED_def Let_def)
  obtain st' where st': "sp_flush_scope_now flush_demo = Some (Inr (st', ()))"
      "il_code (sp_il st') = write_bytes 0 [INS_OBJDUP, INS_CALL, 255, 255, INS_SYSCALL + 1, 28] (il_code (sp_il flush_demo))"
      "current_offset st' = 6"
    and w: "\<And>i a. i < 3 \<Longrightarrow> is_call ([sp_create_inode INS_OBJDUP 0, sp_create_inode INS_CALL 70000, sp_create_inode (INS_SYSCALL + 1) 28] ! i) \<Longrightarrow>
      in_rec ([sp_create_inode INS_OBJDUP 0, sp_create_inode INS_CALL 70000, sp_create_inode (INS_SYSCALL + 1) 28] ! i) = Some a \<Longrightarrow>
      rec_offset flush_demo a = Some SYM_UNDEFINED \<Longrightarrow>
      \<lparr>jr_ins = in_ins ([sp_create_inode INS_OBJDUP 0, sp_create_inode INS_CALL 70000, sp_create_inode (INS_SYSCALL + 1) 28] ! i),
        jr_offset = length (concat (map (node_bytes flush_demo) (take i [sp_create_inode INS_OBJDUP 0, sp_create_inode INS_CALL 70000,
          sp_create_inode (INS_SYSCALL + 1) 28])))\<rparr> \<in> jumps_at st' a"
    using flush_scope_emits [OF ro r ok fit] by (auto simp: nb c)
  have "\<lparr>jr_ins = INS_CALL, jr_offset = 1\<rparr> \<in> jumps_at st' 70000"
    using w [of 1 70000] by (simp add: is_call_def sp_create_inode_def [of INS_CALL] flush_demo_offset nb)
  with st' show ?thesis
    by (intro exI [of _ st']) (simp add: read_bytes_def write_bytes_def upt_rec)
qed

section \<open>Cloning\<close>

lemma clone_loop_diverges:
  assumes "sp_current_iroot st = Some r" "k < length (ir_nodes r)" "\<forall>n \<in> set (ir_nodes r). \<not> is_call n"
  shows "clone_loop k st = None"
proof (rule ccontr)
  assume "clone_loop k st \<noteq> None"
  then obtain y where y: "clone_loop k st = Some y" by auto
  have "\<not> (\<exists>r. sp_current_iroot st = Some r \<and> k < length (ir_nodes r) \<and> (\<forall>n \<in> set (ir_nodes r). \<not> is_call n))"
  proof (rule clone_loop.raw_induct [OF _ y])
    fix loop k st y
    assume ih: "\<And>k st y. loop k st = Some y \<Longrightarrow>
        \<not> (\<exists>r. sp_current_iroot st = Some r \<and> k < length (ir_nodes r) \<and> (\<forall>n \<in> set (ir_nodes r). \<not> is_call n))"
      and b: "(case sp_current_iroot st of None \<Rightarrow> Some (Inr (st, ()))
        | Some r \<Rightarrow> if k < length (ir_nodes r) then
            (case open_call (ir_nodes r ! k) st of None \<Rightarrow> None | Some (Inl e) \<Rightarrow> Some (Inl e)
             | Some (Inr (st1, _)) \<Rightarrow>
                 (case sp_gencode (in_ins (ir_nodes r ! k)) (in_rec (ir_nodes r ! k)) st1 of None \<Rightarrow> None | Some (Inl e) \<Rightarrow> Some (Inl e)
                  | Some (Inr (st2, _)) \<Rightarrow> loop (Suc k) st2))
          else Some (Inr (st, ()))) = Some y"
    show "\<not> (\<exists>r. sp_current_iroot st = Some r \<and> k < length (ir_nodes r) \<and> (\<forall>n \<in> set (ir_nodes r). \<not> is_call n))"
    proof
      assume "\<exists>r. sp_current_iroot st = Some r \<and> k < length (ir_nodes r) \<and> (\<forall>n \<in> set (ir_nodes r). \<not> is_call n)"
      then obtain r where r: "sp_current_iroot st = Some r" "k < length (ir_nodes r)" and nc: "\<forall>n \<in> set (ir_nodes r). \<not> is_call n"
        by blast
      let ?n = "ir_nodes r ! k"
      let ?m = "\<lparr>in_ins = in_ins ?n, in_rec = in_rec ?n\<rparr>"
      let ?st = "set_nodes 0 (ir_nodes r @ [?m]) st"
      have "\<not> is_call ?n"
        using nc r(2) by simp
      then have "open_call ?n st = Some (Inr (st, ()))"
        by (simp add: open_call_def is_call_def ret_p_def)
      with b r have "loop (Suc k) ?st = Some y"
        by (simp add: sp_gencode_def sp_push_inode_def upd_p_def)
      moreover have "sp_current_iroot ?st = Some (r\<lparr>ir_nodes := ir_nodes r @ [?m]\<rparr>)"
        using r by (cases "inode_stack st") (auto simp: sp_current_iroot_def iroot_at_def set_nodes_def)
      ultimately show False
        using ih [of "Suc k" ?st y] r(2) nc \<open>\<not> is_call ?n\<close> by (auto simp: is_call_def)
    qed
  qed
  with assms show False by blast
qed

text \<open>C28: \<^verbatim>\<open>sp_clone_scope\<close>, which should repeat the pending instructions of the current scope, does not end when the scope holds
  an instruction and none of them is a call or a function object: \<^verbatim>\<open>sp_gencode\<close> hangs each copy at the end of the very list
  that the loop walks along, so the end moves ahead with the walk.\<close>

theorem clone_scope_diverges:
  assumes "sp_current_iroot st = Some r" "ir_nodes r \<noteq> []" "\<forall>n \<in> set (ir_nodes r). \<not> is_call n"
  shows "sp_clone_scope st = None"
  using clone_loop_diverges [OF assms(1) _ assms(3)] assms(2) by (simp add: sp_clone_scope_def)

theorem clone_scope_diverges_witness:
  "sp_clone_scope (sp_start\<lparr>inode_stack := [Some \<lparr>ir_root = sp_create_inode INS_LBL 0, ir_var = 0, ir_nodes = [sp_create_inode INS_OBJDUP 0]\<rparr>]\<rparr>) = None"
proof -
  have "\<not> is_call (sp_create_inode INS_OBJDUP 0)"
    by code_simp
  then show ?thesis
    by (intro clone_scope_diverges) (auto simp: sp_current_iroot_def iroot_at_def)
qed

end
