(* ===== verification/SP_Switch.thy ===== *)
theory SP_Switch
  imports SP_Lazy
begin

text \<open>
  Cases. Between \<^verbatim>\<open>sp_start_case\<close> and \<^verbatim>\<open>sp_end_case\<close> the parser calls \<^verbatim>\<open>sp_label_case\<close> at every case,
  \<^verbatim>\<open>sp_default_case\<close> at the default one, and emits the instructions of the bodies. The constant that the instruction
  \<^verbatim>\<open>INS_SWITCH\<close> refers to is the jump table with the places of the constants and of the bodies.
\<close>

section \<open>The table of a switch\<close>

datatype cact = Case "u8 list" | Default | Body u8 "nat option"

text \<open>The place of the default body, and for each case the offset of its constant and its place.\<close>

type_synonym clog = "nat option \<times> (nat \<times> nat) list"

definition const_offset :: "u8 list \<Rightarrow> spstate \<Rightarrow> nat" where
  "const_offset c st = (case st_sym_select SYM_TYPE_CONST c (sp_tab st) of None \<Rightarrow> 0 | Some r \<Rightarrow> sy_offset r)"

fun case_act :: "addr \<Rightarrow> cact \<Rightarrow> clog \<Rightarrow> clog sp" where
  "case_act a (Case c) (d, es) = bind_p (get_p current_offset) (\<lambda>off. bind_p (get_p (const_offset c)) (\<lambda>v.
     bind_p (sp_label_case a c) (\<lambda>_. ret_p (d, es @ [(v, off)]))))"
| "case_act a Default (d, es) = bind_p (get_p current_offset) (\<lambda>off. bind_p (sp_default_case a) (\<lambda>_. ret_p (Some off, es)))"
| "case_act a (Body op arg) log = bind_p (gencode op arg) (\<lambda>_. ret_p log)"

fun case_acts :: "addr \<Rightarrow> cact list \<Rightarrow> clog \<Rightarrow> clog sp" where
  "case_acts a [] log = ret_p log"
| "case_acts a (x # xs) log = bind_p (case_act a x log) (case_acts a xs)"

definition table_bytes :: "nat \<Rightarrow> (nat \<times> nat) list \<Rightarrow> u8 list" where
  "table_bytes d es = bytes16 (of_nat d) @ concat (map (\<lambda>(v, off). bytes16 (of_nat v) @ bytes16 (of_nat off)) es)"

lemma length_table: "length (table_bytes d es) = 2 + 4 * length es"
  by (induction es) (auto simp: table_bytes_def bytes16_def)

lemma bytes16_zero: "bytes16 v = [0, 0] \<longleftrightarrow> v = 0"
proof
  assume z: "bytes16 v = [0, 0]"
  show "v = 0"
  proof (rule bit_word_eqI)
    fix n
    assume n: "n < LENGTH(16)"
    have "(ucast (drop_bit 8 v) :: u8) = 0" "(ucast v :: u8) = 0"
      using z by (simp_all add: bytes16_def)
    then have "\<not> bit (ucast (drop_bit 8 v) :: u8) (n - 8)" "\<not> bit (ucast v :: u8) n"
      by (simp_all only: bit_0_eq bot_apply bot_bool_def not_False_eq_True)
    with n show "bit v n = bit (0 :: u16) n"
      by (cases "n < 8") (auto simp: bit_simps)
  qed
qed (simp add: bytes16_def)

section \<open>The record of the table\<close>

text \<open>The last record of the table can be changed alone.\<close>

definition last_rec :: "symrec list \<Rightarrow> symrec \<Rightarrow> spstate \<Rightarrow> bool" where
  "last_rec hs t st \<longleftrightarrow> recs_ok st \<and> symhead (sp_tab st) = hs @ [t]"

lemma last_rec_il [simp]: "last_rec hs t (st\<lparr>sp_il := il\<rparr>) = last_rec hs t st"
  by (simp add: last_rec_def recs_ok_def sp_recs_def)

lemma last_rec_load: "last_rec hs t st \<Longrightarrow> load_rec (sy_addr t) st = Some (Inr (st, t))"
  unfolding last_rec_def by (intro load_rec_in) (auto intro: head_in_recs)

lemma last_rec_store:
  assumes l: "last_rec hs t st" and f: "\<And>r. sy_addr (f r) = sy_addr r"
  shows "store_rec (sy_addr t) f st = Some (Inr (put_rec (sy_addr t) f st, ()))" "last_rec hs (f t) (put_rec (sy_addr t) f st)"
proof -
  have ro: "recs_ok st" and h: "symhead (sp_tab st) = hs @ [t]"
    using l by (simp_all add: last_rec_def)
  show "store_rec (sy_addr t) f st = Some (Inr (put_rec (sy_addr t) f st, ()))"
    using ro h by (intro store_rec_in) (auto intro: head_in_recs)
  have "map sy_addr (map_rec a f rs) = map sy_addr rs" for a rs
    using f by (simp add: map_rec_def)
  then have "recs_ok (put_rec (sy_addr t) f st)"
    using ro unfolding recs_ok_def sp_recs_put put_rec_fields by simp
  moreover have "sy_addr t \<notin> sy_addr ` set hs"
    using ro h by (auto simp: recs_ok_def sp_recs_def)
  then have "map_rec (sy_addr t) f (hs @ [t]) = hs @ [f t]"
    unfolding map_rec_def by (auto intro!: map_idI) (metis image_eqI)
  ultimately show "last_rec hs (f t) (put_rec (sy_addr t) f st)"
    by (simp add: last_rec_def put_rec_def h)
qed

lemma put16_take:
  assumes "i + 2 \<le> length xs"
  shows "take (i + 2) ((xs :: u8 list)[i := x, Suc i := y]) = take i xs @ [x, y]"
proof -
  have "xs = take i xs @ xs ! i # xs ! Suc i # drop (i + 2) xs" and l: "length (take i xs) = i"
    using assms by (simp_all add: Cons_nth_drop_Suc)
  then obtain us p q ws where "xs = us @ p # q # ws" "length us = i" by blast
  then show ?thesis by (simp add: list_update_append)
qed

lemma put16_name_fields [simp]:
  "sy_addr (put16_name i v r) = sy_addr r" "sy_length (put16_name i v r) = sy_length r" "sy_list (put16_name i v r) = sy_list r"
  "length (sy_name (put16_name i v r)) = length (sy_name r)" "sy_offset (put16_name i v r) = sy_offset r"
  by (simp_all add: put16_name_def)

lemma put16_name_take: "i + 2 \<le> length (sy_name r) \<Longrightarrow> take (i + 2) (sy_name (put16_name i v r)) = take i (sy_name r) @ bytes16 (of_nat v)"
  using put16_take [of i "sy_name r" "ucast (drop_bit 8 (of_nat v :: u16))" "ucast (of_nat v :: u16)"]
  by (simp add: put16_name_def bytes16_def)

lemma put16_name_first:
  assumes "take n (sy_name r) = x # y # xs" 
  shows "take n (sy_name (put16_name 0 v r)) = bytes16 (of_nat v) @ xs"
proof -
  obtain ws where "sy_name r = x # y # ws" "2 \<le> n"
    using assms by (cases "sy_name r"; cases "tl (sy_name r)"; cases n; cases "n - 1") (auto split: nat.splits)
  with assms show ?thesis
    by (cases n; cases "n - 1") (auto simp: put16_name_def bytes16_def)
qed

text \<open>What holds between the start and the end of a switch.\<close>

definition sw_ok :: "symrec list \<Rightarrow> nat \<Rightarrow> clog \<Rightarrow> symrec \<Rightarrow> spstate \<Rightarrow> bool" where
  "sw_ok hs p log t st \<longleftrightarrow> last_rec hs t st \<and> sy_length t = 2 + 4 * length (snd log) \<and> length (sy_name t) = NAME_ROOM \<and>
     take (sy_length t) (sy_name t) = table_bytes (case fst log of None \<Rightarrow> 0 | Some d \<Rightarrow> d) (snd log) \<and>
     sy_list t = [\<lparr>jr_ins = INS_SWITCH, jr_offset = p\<rparr>] \<and> sp_code st p = INS_SWITCH \<and> p + 3 \<le> current_offset st \<and>
     (\<forall>d. fst log = Some d \<longrightarrow> 0 < d \<and> d \<le> current_offset st)"

lemma const_selected:
  assumes "last_rec hs t st" "select_loop (SYM_TYPE_CONST AND 0x7F) c (length c mod 2 ^ 16) hs = Some r"
  shows "st_sym_select SYM_TYPE_CONST c (sp_tab st) = Some r"
proof -
  have "select_loop ty nm n hs = Some r \<Longrightarrow> select_loop ty nm n (hs @ [t]) = Some r" for ty nm n
    by (induction hs) (auto split: if_splits)
  with assms show ?thesis
    by (simp add: st_sym_select_def st_sym_select_s_def last_rec_def)
qed

text \<open>A case.\<close>

lemma label_case_ok:
  assumes sw: "sw_ok hs p (d, es) t st" and c: "select_loop (SYM_TYPE_CONST AND 0x7F) c (length c mod 2 ^ 16) hs = Some r"
    and room: "6 + 4 * length es \<le> NAME_ROOM"
  shows "\<exists>t' st'. case_act (sy_addr t) (Case c) (d, es) st = Some (Inr (st', (d, es @ [(sy_offset r, current_offset st)]))) \<and>
    sw_ok hs p (d, es @ [(sy_offset r, current_offset st)]) t' st' \<and> sy_addr t' = sy_addr t \<and> sp_il st' = sp_il st \<and>
    current_offset st' = current_offset st"
proof -
  let ?n = "sy_length t" and ?off = "current_offset st"
  let ?f = "\<lambda>q. (put16_name (sy_length q + 2) ?off (put16_name (sy_length q) (sy_offset r) q))\<lparr>sy_length := (sy_length q + 4) mod 2 ^ 16\<rparr>"
  have l: "last_rec hs t st" and n: "?n = 2 + 4 * length es" and nl: "length (sy_name t) = NAME_ROOM"
    and tk: "take ?n (sy_name t) = table_bytes (case d of None \<Rightarrow> 0 | Some x \<Rightarrow> x) es"
    using sw unfolding sw_ok_def fst_conv snd_conv by blast+
  have sel: "st_sym_select SYM_TYPE_CONST c (sp_tab st) = Some r"
    by (rule const_selected [OF l c])
  have "r \<in> set (symhead (sp_tab st))" and ro: "recs_ok st"
    using select_in [OF sel] l by (simp_all add: last_rec_def)
  then have lr: "load_rec (sy_addr r) st = Some (Inr (st, r))" "sy_addr r \<noteq> 0"
    using load_rec_in [OF ro head_in_recs] recs_range [OF ro head_in_recs] by auto
  have room': "?n + 4 \<le> NAME_ROOM" "(?n + 4) mod 2 ^ 16 = ?n + 4"
    using room n by (simp_all add: NAME_ROOM_def)
  let ?st = "put_rec (sy_addr t) ?f st"
  have s: "store_rec (sy_addr t) ?f st = Some (Inr (?st, ()))" "last_rec hs (?f t) ?st"
    by (rule last_rec_store [OF l], simp)+
  have "sp_label_case (sy_addr t) c st = store_rec (sy_addr t) ?f st"
    using room' sel by (simp add: sp_label_case_def sp_label_case_s_def sym_select_s_def st_sym_select_def sym_addr_def
        bind_load [OF lr(1)] bind_load [OF last_rec_load [OF l]] nl)
  then have lc: "sp_label_case (sy_addr t) c st = Some (Inr (?st, ()))"
    by (simp only: s(1))
  have run: "case_act (sy_addr t) (Case c) (d, es) st = Some (Inr (?st, (d, es @ [(sy_offset r, ?off)])))"
    using sel unfolding case_act.simps bind_p_simps bind_p_eval [of "sp_label_case (sy_addr t) c", OF lc] by (simp add: const_offset_def ret_p_def)
  have ln: "sy_length (?f t) = ?n + 2 + 2"
    using room'(2) by simp
  have "take (?n + 2 + 2) (sy_name (?f t)) = take ?n (sy_name t) @ bytes16 (of_nat (sy_offset r)) @ bytes16 (of_nat ?off)"
    using room' nl put16_name_take [of "?n + 2" "put16_name ?n (sy_offset r) t" ?off] put16_name_take [of ?n t "sy_offset r"] by simp
  then have "take (sy_length (?f t)) (sy_name (?f t)) = table_bytes (case d of None \<Rightarrow> 0 | Some x \<Rightarrow> x) (es @ [(sy_offset r, ?off)])"
    unfolding ln using tk by (simp add: table_bytes_def)
  with sw s(2) room'(2) n have "sw_ok hs p (d, es @ [(sy_offset r, ?off)]) (?f t) ?st"
    by (simp add: sw_ok_def)
  moreover have "sy_addr (?f t) = sy_addr t" "sp_il ?st = sp_il st" "current_offset ?st = ?off"
    by simp_all
  ultimately show ?thesis
    using run by blast
qed

text \<open>The default body.\<close>

lemma default_case_ok:
  assumes sw: "sw_ok hs p (d, es) t st"
  shows "\<exists>t' st'. case_act (sy_addr t) Default (d, es) st = Some (Inr (st', (Some (current_offset st), es))) \<and>
    sw_ok hs p (Some (current_offset st), es) t' st' \<and> sy_addr t' = sy_addr t \<and> sp_il st' = sp_il st \<and> current_offset st' = current_offset st"
proof -
  let ?off = "current_offset st" and ?f = "put16_name 0 (current_offset st)"
  have l: "last_rec hs t st" and tk: "take (sy_length t) (sy_name t) = table_bytes (case d of None \<Rightarrow> 0 | Some x \<Rightarrow> x) es"
    using sw unfolding sw_ok_def fst_conv snd_conv by blast+
  let ?st = "put_rec (sy_addr t) ?f st"
  have s: "store_rec (sy_addr t) ?f st = Some (Inr (?st, ()))" "last_rec hs (?f t) ?st"
    by (rule last_rec_store [OF l], simp)+
  have run: "case_act (sy_addr t) Default (d, es) st = Some (Inr (?st, (Some ?off, es)))"
    by (simp add: sp_default_case_def bind_p_eval s(1) ret_p_def)
  have "take (sy_length t) (sy_name (?f t)) = table_bytes ?off es"
    using put16_name_first tk by (simp add: table_bytes_def bytes16_def)
  with sw s(2) have "sw_ok hs p (Some ?off, es) (?f t) ?st"
    unfolding sw_ok_def by simp
  with run show ?thesis
    by (intro exI [of _ "?f t"] exI [of _ ?st]) simp
qed

text \<open>An instruction of a body.\<close>

lemma body_ok:
  assumes sw: "sw_ok hs p log t st" and ok: "emit_ok (sy_addr ` set hs) op arg" and fit: "current_offset st + 4 \<le> MAX_BUFFER_SIZE"
  shows "\<exists>st'. case_act (sy_addr t) (Body op arg) log st = Some (Inr (st', log)) \<and> sw_ok hs p log t st' \<and>
    il_cpindex (sp_il st') = il_cpindex (sp_il st) \<and> current_offset st \<le> current_offset st' \<and> current_offset st' \<le> current_offset st + 4"
proof -
  let ?n = "\<lparr>in_ins = op, in_rec = arg\<rparr>"
  have ro: "recs_ok st" and h: "symhead (sp_tab st) = hs @ [t]"
    using sw by (simp_all add: sw_ok_def last_rec_def)
  have "r \<in> set hs \<Longrightarrow> sy_addr r \<in> dom (rec_offset st)" for r
    using rec_at_in [OF ro head_in_recs, of r] h by (auto simp: rec_offset_def)
  then have "emit_ok (dom (rec_offset st)) op arg"
    using ok by (auto simp: emit_ok_def split: ins_class.splits)
  then obtain il where g: "gencode op arg st = Some (Inr (emitted il (length (node_bytes st ?n)) st, ()))"
      "il_code il = write_bytes (current_offset st) (node_bytes st ?n) (sp_code st)" "il_cpindex il = il_cpindex (sp_il st)"
    using gencode_bytes [of st ?n] fit ro by auto
  let ?st = "emitted il (length (node_bytes st ?n)) st"
  have "case_act (sy_addr t) (Body op arg) log st = Some (Inr (?st, log))"
    by (simp add: bind_p_eval g(1) ret_p_def)
  moreover have "p < current_offset st"
    using sw by (simp add: sw_ok_def)
  then have "sw_ok hs p log t ?st"
    using sw by (auto simp: sw_ok_def last_rec_def g(2))
  ultimately show ?thesis
    using g(3) length_node_bytes [of st ?n] by (intro exI [of _ ?st]) simp
qed

section \<open>Sequences\<close>

fun is_case :: "cact \<Rightarrow> bool" where
  "is_case (Case c) = True"
| "is_case _ = False"

fun cact_ok :: "symrec list \<Rightarrow> cact \<Rightarrow> bool" where
  "cact_ok hs (Case c) \<longleftrightarrow> select_loop (SYM_TYPE_CONST AND 0x7F) c (length c mod 2 ^ 16) hs \<noteq> None"
| "cact_ok hs Default \<longleftrightarrow> True"
| "cact_ok hs (Body op arg) \<longleftrightarrow> emit_ok (sy_addr ` set hs) op arg"

text \<open>The table of a sequence: what each call adds, given the offsets at which the calls are made.\<close>

lemma case_acts_ok:
  assumes "sw_ok hs p log t st" "\<forall>x \<in> set xs. cact_ok hs x" "2 + 4 * (length (snd log) + length (filter is_case xs)) \<le> NAME_ROOM"
    "current_offset st + 4 * length xs \<le> MAX_BUFFER_SIZE"
  shows "\<exists>t' st' log'. case_acts (sy_addr t) xs log st = Some (Inr (st', log')) \<and> sw_ok hs p log' t' st' \<and> sy_addr t' = sy_addr t \<and>
    il_cpindex (sp_il st') = il_cpindex (sp_il st) \<and> current_offset st' \<le> current_offset st + 4 * length xs \<and>
    length (snd log') = length (snd log) + length (filter is_case xs)"
  using assms
proof (induction xs arbitrary: log t st)
  case Nil
  then show ?case by (auto simp: ret_p_def)
next
  case (Cons x xs)
  obtain d es where log: "log = (d, es)" by (cases log)
  have "\<exists>t1 st1 log1. case_act (sy_addr t) x log st = Some (Inr (st1, log1)) \<and> sw_ok hs p log1 t1 st1 \<and> sy_addr t1 = sy_addr t \<and>
      il_cpindex (sp_il st1) = il_cpindex (sp_il st) \<and> current_offset st1 \<le> current_offset st + 4 \<and>
      length (snd log1) = length es + (if is_case x then 1 else 0)"
  proof (cases x)
    case (Case c)
    with Cons.prems obtain r where "select_loop (SYM_TYPE_CONST AND 0x7F) c (length c mod 2 ^ 16) hs = Some r"
      by auto
    from label_case_ok [OF Cons.prems(1) [unfolded log] this] Cons.prems(3) obtain t1 st1 where
      "case_act (sy_addr t) x log st = Some (Inr (st1, (d, es @ [(sy_offset r, current_offset st)])))"
      "sw_ok hs p (d, es @ [(sy_offset r, current_offset st)]) t1 st1" "sy_addr t1 = sy_addr t" "sp_il st1 = sp_il st"
      "current_offset st1 = current_offset st"
      unfolding Case log by auto
    with Case show ?thesis by force
  next
    case Default
    from default_case_ok [OF Cons.prems(1) [unfolded log]] show ?thesis
      unfolding Default log by force
  next
    case (Body op arg)
    with body_ok [OF Cons.prems(1), of op arg] Cons.prems(2,4) show ?thesis
      unfolding Body log by force
  qed
  then obtain t1 st1 log1 where 1: "case_act (sy_addr t) x log st = Some (Inr (st1, log1))" "sw_ok hs p log1 t1 st1" "sy_addr t1 = sy_addr t"
      "il_cpindex (sp_il st1) = il_cpindex (sp_il st)" "current_offset st1 \<le> current_offset st + 4"
      "length (snd log1) = length es + (if is_case x then 1 else 0)"
    by blast
  have "2 + 4 * (length (snd log1) + length (filter is_case xs)) \<le> NAME_ROOM" "current_offset st1 + 4 * length xs \<le> MAX_BUFFER_SIZE"
    using Cons.prems(3,4) 1(5,6) by (auto simp: log split: if_splits)
  then obtain t2 st2 log2 where 2: "case_acts (sy_addr t1) xs log1 st1 = Some (Inr (st2, log2))" "sw_ok hs p log2 t2 st2" "sy_addr t2 = sy_addr t1"
      "il_cpindex (sp_il st2) = il_cpindex (sp_il st1)" "current_offset st2 \<le> current_offset st1 + 4 * length xs"
      "length (snd log2) = length (snd log1) + length (filter is_case xs)"
    using Cons.IH [OF 1(2)] Cons.prems(2) by auto
  have "case_acts (sy_addr t) (x # xs) log st = Some (Inr (st2, log2))"
    using 2(1) by (simp add: bind_p_eval 1(1,3))
  then show ?case
    using 2 1 by (intro exI [of _ t2] exI [of _ st2] exI [of _ log2]) (auto simp: log)
qed

section \<open>A whole switch\<close>

lemma replicate_update: "(replicate n x)[i := x] = replicate n x"
  by (cases "i < n") (auto simp: list_update_same_conv list_update_beyond)

lemma start_case_ok:
  assumes ro: "recs_ok st" and fit: "current_offset st + 3 \<le> MAX_BUFFER_SIZE"
  shows "\<exists>t st'. sp_start_case st = Some (Inr (st', sy_addr t)) \<and> sw_ok (symhead (sp_tab st)) (current_offset st) (None, []) t st' \<and>
    il_cpindex (sp_il st') = il_cpindex (sp_il st) \<and> current_offset st' = current_offset st + 3 \<and> sy_addr t = sp_fresh st"
proof -
  let ?r = "st_sym_create (sp_fresh st) SYM_TYPE_CONST [] 0" and ?off = "current_offset st" and ?hs = "symhead (sp_tab st)"
  let ?u = "\<lambda>q. st_jmp_add INS_SWITCH ?off ((put16_name 0 0 q)\<lparr>sy_length := 2, sy_parent := sp_current_function st\<rparr>)"
  have ra: "sy_addr ?r = sp_fresh st"
    by (simp add: st_sym_create_def st_sym_create_s_def)
  have l1: "last_rec ?hs ?r (with_new ?r st)"
    using recs_ok_new [OF ro ra] by (simp add: last_rec_def)
  have ua: "sy_addr (?u q) = sy_addr q" for q
    using keeps_key_intros(3) by (simp add: keeps_key_def)
  let ?st = "put_rec (sp_fresh st) ?u (with_new ?r st)"
  have s: "store_rec (sp_fresh st) ?u (with_new ?r st) = Some (Inr (?st, ()))" and l2: "last_rec ?hs (?u ?r) ?st"
    using last_rec_store [of _ ?r _ ?u, OF l1 ua] by (simp_all only: ra)
  define t where "t = ?u ?r"
  have ta: "sy_addr t = sp_fresh st" and nz: "sp_fresh st \<noteq> 0"
    using ua ra ro by (simp_all add: t_def recs_ok_def)
  have ld: "load_rec (sp_fresh st) ?st = Some (Inr (?st, t))"
    using last_rec_load [OF l2] by (simp only: t_def [symmetric] ta)
  have c: "ins_class INS_SWITCH = C_Switch"
    by code_simp
  let ?il = "(sp_il st)\<lparr>il_code := put_operand (Suc ?off) (of_nat (sy_offset t)) ((sp_code st)(?off := INS_SWITCH)),
      il_code_size := max (il_code_size (sp_il st)) (?off + 3)\<rparr>"
  have g: "gencode INS_SWITCH (Some (sp_fresh st)) ?st = Some (Inr (emitted ?il 3 ?st, ()))"
    using fit nz by (simp add: gencode_def gencode_at_def c bind_load [OF ld] is_gencode_def with_rec_def emit_def bind_p_eval upd_p_def
        emitted_def)
  have "sp_start_case st = Some (Inr (emitted ?il 3 ?st, sp_fresh st))"
    by (simp add: sp_start_case_def bind_p_eval sym_insert_new [OF ro] s g ret_p_def)
  moreover have "sw_ok ?hs ?off (None, []) t (emitted ?il 3 ?st)"
  proof -
    have "sy_name t = replicate NAME_ROOM 0" "sy_length t = 2" "sy_list t = [\<lparr>jr_ins = INS_SWITCH, jr_offset = ?off\<rparr>]"
      by (simp_all add: t_def st_jmp_add_def st_jmp_get_last_record_def Let_def put16_name_def st_sym_create_def st_sym_create_s_def
          replicate_update)
    moreover have "last_rec ?hs t (emitted ?il 3 ?st)"
      using l2 by (simp only: t_def last_rec_def emitted_fields)
    moreover have "replicate 2 (0 :: u8) = [0, 0]"
      by (simp add: numeral_2_eq_2)
    ultimately show ?thesis
      by (simp add: sw_ok_def table_bytes_def bytes16_def NAME_ROOM_def)
  qed
  ultimately show ?thesis
    by (intro exI [of _ t] exI [of _ "emitted ?il 3 ?st"]) (simp add: ta)
qed

lemma table_start:
  assumes "take n xs = table_bytes d es" "n = 2 + 4 * length es"
  shows "xs ! 0 = 0 \<and> xs ! 1 = 0 \<longleftrightarrow> (of_nat d :: u16) = 0"
proof -
  have "xs ! 0 = take n xs ! 0" "xs ! 1 = take n xs ! 1"
    using assms(2) by simp_all
  then show ?thesis
    using bytes16_zero [of "of_nat d"] by (simp add: assms(1) table_bytes_def bytes16_def)
qed

text \<open>The place of the default body is filled in when there was none.\<close>

lemma default_filled:
  assumes sw: "sw_ok hs p (d, es) t st" and fit: "current_offset st < MAX_BUFFER_SIZE"
  shows "\<exists>t1 st1. (if sy_name t ! 0 = 0 \<and> sy_name t ! 1 = 0 then store_rec (sy_addr t) (put16_name 0 (current_offset st)) else ret_p ()) st =
      Some (Inr (st1, ())) \<and> last_rec hs t1 st1 \<and> sy_addr t1 = sy_addr t \<and> sy_length t1 = sy_length t \<and> length (sy_name t1) = length (sy_name t) \<and>
    take (sy_length t) (sy_name t1) = table_bytes (case d of None \<Rightarrow> current_offset st | Some x \<Rightarrow> x) es \<and> sy_list t1 = sy_list t \<and>
    sp_il st1 = sp_il st \<and> current_offset st1 = current_offset st"
proof -
  have l: "last_rec hs t st" and n: "sy_length t = 2 + 4 * length es"
    and tk: "take (sy_length t) (sy_name t) = table_bytes (case d of None \<Rightarrow> 0 | Some x \<Rightarrow> x) es"
    and d: "\<And>x. d = Some x \<Longrightarrow> 0 < x \<and> x < 65536"
    using sw fit unfolding sw_ok_def fst_conv snd_conv MAX_BUFFER_SIZE_def by auto
  note z = table_start [OF tk n]
  show ?thesis
  proof (cases d)
    case None
    let ?f = "put16_name 0 (current_offset st)"
    have "take (sy_length t) (sy_name (?f t)) = table_bytes (current_offset st) es"
      using put16_name_first tk by (simp add: table_bytes_def bytes16_def)
    moreover have "sy_name t ! 0 = 0 \<and> sy_name t ! 1 = 0"
      using z None by simp
    ultimately show ?thesis
      using last_rec_store [of _ t _ ?f, OF l] None
      by (intro exI [of _ "?f t"] exI [of _ "put_rec (sy_addr t) ?f st"]) simp
  next
    case (Some x)
    then have "(of_nat x :: u16) \<noteq> 0"
      using d by (auto simp: word_of_nat_eq_0_iff dest: nat_dvd_not_less)
    with z Some have "\<not> (sy_name t ! 0 = 0 \<and> sy_name t ! 1 = 0)"
      by simp
    with l tk Some show ?thesis
      by (intro exI [of _ t] exI [of _ st]) (auto simp: ret_p_def)
  qed
qed

lemma end_case_ok:
  assumes sw: "sw_ok hs p (d, es) t st" and cp: "il_cpindex (sp_il st) + 3 + (2 + 4 * length es) \<le> MAX_BUFFER_SIZE"
    and fit: "current_offset st < MAX_BUFFER_SIZE" and room: "2 + 4 * length es \<le> NAME_ROOM"
  shows "\<exists>st'. sp_end_case (sy_addr t) st = Some (Inr (st', ())) \<and>
    constant_value (il_data (sp_il st')) (il_cpindex (sp_il st)) =
      Some (table_bytes (case d of None \<Rightarrow> current_offset st | Some x \<Rightarrow> x) es) \<and>
    sp_code st' p = INS_SWITCH \<and> get_operand (sp_code st') (Suc p) = of_nat (il_cpindex (sp_il st)) \<and> current_offset st' = current_offset st"
proof -
  let ?tab = "table_bytes (case d of None \<Rightarrow> current_offset st | Some x \<Rightarrow> x) es" and ?cp = "il_cpindex (sp_il st)"
  have l: "last_rec hs t st" and n: "sy_length t = 2 + 4 * length es" and nl: "length (sy_name t) = NAME_ROOM"
    and j: "sy_list t = [\<lparr>jr_ins = INS_SWITCH, jr_offset = p\<rparr>]" and pc: "p + 3 \<le> current_offset st"
    using sw unfolding sw_ok_def fst_conv snd_conv by blast+
  obtain t1 st1 where 1: "(if sy_name t ! 0 = 0 \<and> sy_name t ! 1 = 0 then store_rec (sy_addr t) (put16_name 0 (current_offset st)) else ret_p ()) st =
      Some (Inr (st1, ()))" and l1: "last_rec hs t1 st1" and t1: "sy_addr t1 = sy_addr t" "sy_length t1 = sy_length t"
      "length (sy_name t1) = length (sy_name t)" "take (sy_length t) (sy_name t1) = ?tab" "sy_list t1 = sy_list t"
    and f1: "sp_il st1 = sp_il st" "current_offset st1 = current_offset st"
    using default_filled [OF sw fit] by metis
  let ?fill = "if sy_name t ! 0 = 0 \<and> sy_name t ! 1 = 0 then store_rec (sy_addr t) (put16_name 0 (current_offset st)) else ret_p ()"
  have "length (constant_header (length ?tab)) \<le> 3"
    by (simp add: constant_header_def)
  then obtain il i where pu: "is_push_constant ?tab (sp_il st) = Inr (il, i)" and ic: "il_code il = sp_code st"
    using cp by (auto simp: is_push_constant_def Let_def length_table)
  have pg: "constant_value (il_data il) ?cp = Some ?tab" and i: "unat i = ?cp"
    using push_constant_get [OF pu] by (auto simp: pool_get_def)
  let ?st2 = "st1\<lparr>sp_il := il\<rparr>" and ?u = "\<lambda>q. q\<lparr>sy_offset := ?cp\<rparr>"
  have 2: "push_pool ?tab st1 = Some (Inr (?st2, ?cp))"
    by (simp add: push_pool_def f1(1) pu i res_p_def bind_p_def bind_o_def get_p_def upd_p_def ret_p_def)
  have l2: "last_rec hs t1 ?st2"
    using l1 by simp
  let ?st3 = "put_rec (sy_addr t) ?u ?st2"
  have 3: "store_rec (sy_addr t) ?u ?st2 = Some (Inr (?st3, ()))" and l3: "last_rec hs (?u t1) ?st3"
    using last_rec_store [of _ t1 _ ?u, OF l2] t1(1) by simp_all
  have ld: "load_rec (sy_addr t) ?st3 = Some (Inr (?st3, ?u t1))"
    using last_rec_load [OF l3] t1(1) by simp
  have nz: "sy_addr t \<noteq> 0"
    using l recs_range [OF _ head_in_recs, of st t] by (auto simp: last_rec_def)
  have c: "ins_class INS_SWITCH = C_Switch"
    by code_simp
  let ?il = "il\<lparr>il_code := put_operand (Suc p) (of_nat ?cp) ((sp_code st)(p := INS_SWITCH)), il_code_size := max (il_code_size il) (p + 3)\<rparr>"
  let ?st4 = "?st3\<lparr>sp_il := ?il\<rparr>"
  have g: "gencode_at p INS_SWITCH (Some (sy_addr t)) ?st3 = Some (Inr (?st4, 3))"
    using nz pc fit by (simp add: gencode_at_def c bind_load [OF ld] is_gencode_def with_rec_def emit_def ic)
  have l4: "last_rec hs (?u t1) ?st4"
    using l3 by simp
  have k: "sy_addr (st_jmp_clear q) = sy_addr q" for q
    by (simp add: st_jmp_clear_def)
  have 4: "store_rec (sy_addr t) st_jmp_clear ?st4 = Some (Inr (put_rec (sy_addr t) st_jmp_clear ?st4, ()))"
    using last_rec_store(1) [of _ "?u t1" _ st_jmp_clear, OF l4 k] t1(1) by simp
  have run: "sp_end_case (sy_addr t) st = Some (Inr (put_rec (sy_addr t) st_jmp_clear ?st4, ()))"
    unfolding sp_end_case_def bind_load [OF last_rec_load [OF l]] bind_p_simps bind_p_eval [of ?fill st, OF 1]
      bind_load [OF last_rec_load [OF l1, unfolded t1(1)]]
    using room nl t1 n by (simp add: bind_p_eval 2 3 patch_jumps_def bind_load [OF ld] j g 4)
  have "get_operand (sp_code ?st4) (Suc p) = of_nat ?cp" "sp_code ?st4 p = INS_SWITCH"
    by simp_all
  with run pg f1(2) show ?thesis
    by (intro exI [of _ "put_rec (sy_addr t) st_jmp_clear ?st4"]) simp
qed

text \<open>C21: A switch is compiled to the right table. Take a state with sound records and any sequence of cases, default bodies and other
  instructions between \<^verbatim>\<open>sp_start_case\<close> and \<^verbatim>\<open>sp_end_case\<close>, in which the constant of every case is known and the arguments of
  instructions are what their opcodes read. If the table fits into its record, the code into its buffer and the table into the
  pool, every call returns, and afterwards \<^verbatim>\<open>INS_SWITCH\<close> stands where the switch began, with the next place of the pool as
  its operand, and the constant there is the table: first the place of the last default body, or of the end of the
  switch when there was none, then for each case, in order, the offset of its constant and the place of its body.\<close>

theorem switch_table:
  assumes "recs_ok st" "\<forall>x \<in> set xs. cact_ok (symhead (sp_tab st)) x" "2 + 4 * length (filter is_case xs) \<le> NAME_ROOM"
    "current_offset st + 3 + 4 * length xs < MAX_BUFFER_SIZE" "il_cpindex (sp_il st) + 5 + 4 * length (filter is_case xs) \<le> MAX_BUFFER_SIZE"
  shows "\<exists>a st1 d es st2 st3. sp_start_case st = Some (Inr (st1, a)) \<and> case_acts a xs (None, []) st1 = Some (Inr (st2, (d, es))) \<and>
    sp_end_case a st2 = Some (Inr (st3, ())) \<and> length es = length (filter is_case xs) \<and>
    il_code (sp_il st3) (current_offset st) = INS_SWITCH \<and>
    get_operand (il_code (sp_il st3)) (Suc (current_offset st)) = of_nat (il_cpindex (sp_il st)) \<and>
    constant_value (il_data (sp_il st3)) (il_cpindex (sp_il st)) =
      Some (table_bytes (case d of None \<Rightarrow> current_offset st2 | Some x \<Rightarrow> x) es)"
proof -
  obtain t st1 where 1: "sp_start_case st = Some (Inr (st1, sy_addr t))" "sw_ok (symhead (sp_tab st)) (current_offset st) (None, []) t st1"
      "il_cpindex (sp_il st1) = il_cpindex (sp_il st)" "current_offset st1 = current_offset st + 3"
    using start_case_ok [OF assms(1)] assms(4) by auto
  obtain t2 st2 d es where 2: "case_acts (sy_addr t) xs (None, []) st1 = Some (Inr (st2, (d, es)))"
      "sw_ok (symhead (sp_tab st)) (current_offset st) (d, es) t2 st2" "sy_addr t2 = sy_addr t" "il_cpindex (sp_il st2) = il_cpindex (sp_il st1)"
      "current_offset st2 \<le> current_offset st1 + 4 * length xs" "length es = length (filter is_case xs)"
    using case_acts_ok [OF 1(2) assms(2)] assms(3,4) 1(4) by auto
  obtain st3 where "sp_end_case (sy_addr t2) st2 = Some (Inr (st3, ()))"
      "constant_value (il_data (sp_il st3)) (il_cpindex (sp_il st2)) =
        Some (table_bytes (case d of None \<Rightarrow> current_offset st2 | Some x \<Rightarrow> x) es)"
      "sp_code st3 (current_offset st) = INS_SWITCH"
      "get_operand (sp_code st3) (Suc (current_offset st)) = of_nat (il_cpindex (sp_il st2))"
    using end_case_ok [OF 2(2)] assms(3-5) 1(3,4) 2(4-6) by auto
  with 1 2 show ?thesis
    by (intro exI [of _ "sy_addr t"] exI [of _ st1] exI [of _ d] exI [of _ es] exI [of _ st2] exI [of _ st3]) simp
qed

text \<open>Two cases of one constant each.\<close>

definition switch_demo :: spstate where
  "switch_demo = sp_start\<lparr>sp_tab := \<lparr>symhead = [st_sym_create 1 SYM_TYPE_CONST [97] 0, st_sym_create 2 SYM_TYPE_CONST [98] 2], symstack = []\<rparr>\<rparr>"

theorem switch_table_witness:
  "\<exists>a st1 d es st2 st3. sp_start_case switch_demo = Some (Inr (st1, a)) \<and>
    case_acts a [Case [97], Body INS_ADD None, Case [98], Default, Body INS_RET None] (None, []) st1 = Some (Inr (st2, (d, es))) \<and>
    sp_end_case a st2 = Some (Inr (st3, ())) \<and> length es = 2 \<and> il_code (sp_il st3) 0 = INS_SWITCH \<and> get_operand (il_code (sp_il st3)) 1 = 0 \<and>
    constant_value (il_data (sp_il st3)) 0 = Some (table_bytes (case d of None \<Rightarrow> current_offset st2 | Some x \<Rightarrow> x) es)"
proof -
  let ?xs = "[Case [97], Body INS_ADD None, Case [98], Default, Body INS_RET None]"
  have ro: "recs_ok switch_demo"
    by (simp add: recs_ok_def sp_recs_def switch_demo_def sp_start_def st_sym_create_def st_sym_create_s_def)
  have h: "symhead (sp_tab switch_demo) = [st_sym_create 1 SYM_TYPE_CONST [97] 0, st_sym_create 2 SYM_TYPE_CONST [98] 2]"
    and z: "current_offset switch_demo = 0" "il_cpindex (sp_il switch_demo) = 0"
    by (simp_all add: switch_demo_def sp_start_def il_empty_def)
  have cl: "ins_class INS_ADD = C_Plain" "ins_class INS_RET = C_Plain"
    by code_simp+
  have ok: "\<forall>x \<in> set ?xs. cact_ok (symhead (sp_tab switch_demo)) x"
    by (simp add: h emit_ok_def cl st_sym_create_def st_sym_create_s_def SYM_TYPE_CONST_def)
  have f: "2 + 4 * length (filter is_case ?xs) \<le> NAME_ROOM" "current_offset switch_demo + 3 + 4 * length ?xs < MAX_BUFFER_SIZE"
    "il_cpindex (sp_il switch_demo) + 5 + 4 * length (filter is_case ?xs) \<le> MAX_BUFFER_SIZE"
    by (simp_all add: z NAME_ROOM_def MAX_BUFFER_SIZE_def)
  show ?thesis
    using switch_table [OF ro ok f] by (simp add: z numeral_2_eq_2 del: case_acts.simps case_act.simps)
qed

end
