(* ===== verification/CR_AES.thy ===== *)
theory CR_AES
  imports Prelude
begin

text \<open>
  AES-128 as the crypto interface of the virtual machine provides it, \<^verbatim>\<open>crypto/src/cr_aes.c\<close>. The
  state \<^verbatim>\<open>BYTE state[4][4]\<close> is four columns of four bytes, \<^verbatim>\<open>state[i][j]\<close> being byte \<open>j\<close> of column
  \<open>i\<close>. The static array \<^verbatim>\<open>RoundKey\<close> is rebuilt by every call and is a list of bytes here. The
  functions work in place on the source buffer and copy it to the destination.
\<close>

section \<open>Tables\<close>

definition sbox :: "u8 list" where
  "sbox =
    [0x63, 0x7c, 0x77, 0x7b, 0xf2, 0x6b, 0x6f, 0xc5, 0x30, 0x01, 0x67, 0x2b, 0xfe, 0xd7, 0xab, 0x76,
     0xca, 0x82, 0xc9, 0x7d, 0xfa, 0x59, 0x47, 0xf0, 0xad, 0xd4, 0xa2, 0xaf, 0x9c, 0xa4, 0x72, 0xc0,
     0xb7, 0xfd, 0x93, 0x26, 0x36, 0x3f, 0xf7, 0xcc, 0x34, 0xa5, 0xe5, 0xf1, 0x71, 0xd8, 0x31, 0x15,
     0x04, 0xc7, 0x23, 0xc3, 0x18, 0x96, 0x05, 0x9a, 0x07, 0x12, 0x80, 0xe2, 0xeb, 0x27, 0xb2, 0x75,
     0x09, 0x83, 0x2c, 0x1a, 0x1b, 0x6e, 0x5a, 0xa0, 0x52, 0x3b, 0xd6, 0xb3, 0x29, 0xe3, 0x2f, 0x84,
     0x53, 0xd1, 0x00, 0xed, 0x20, 0xfc, 0xb1, 0x5b, 0x6a, 0xcb, 0xbe, 0x39, 0x4a, 0x4c, 0x58, 0xcf,
     0xd0, 0xef, 0xaa, 0xfb, 0x43, 0x4d, 0x33, 0x85, 0x45, 0xf9, 0x02, 0x7f, 0x50, 0x3c, 0x9f, 0xa8,
     0x51, 0xa3, 0x40, 0x8f, 0x92, 0x9d, 0x38, 0xf5, 0xbc, 0xb6, 0xda, 0x21, 0x10, 0xff, 0xf3, 0xd2,
     0xcd, 0x0c, 0x13, 0xec, 0x5f, 0x97, 0x44, 0x17, 0xc4, 0xa7, 0x7e, 0x3d, 0x64, 0x5d, 0x19, 0x73,
     0x60, 0x81, 0x4f, 0xdc, 0x22, 0x2a, 0x90, 0x88, 0x46, 0xee, 0xb8, 0x14, 0xde, 0x5e, 0x0b, 0xdb,
     0xe0, 0x32, 0x3a, 0x0a, 0x49, 0x06, 0x24, 0x5c, 0xc2, 0xd3, 0xac, 0x62, 0x91, 0x95, 0xe4, 0x79,
     0xe7, 0xc8, 0x37, 0x6d, 0x8d, 0xd5, 0x4e, 0xa9, 0x6c, 0x56, 0xf4, 0xea, 0x65, 0x7a, 0xae, 0x08,
     0xba, 0x78, 0x25, 0x2e, 0x1c, 0xa6, 0xb4, 0xc6, 0xe8, 0xdd, 0x74, 0x1f, 0x4b, 0xbd, 0x8b, 0x8a,
     0x70, 0x3e, 0xb5, 0x66, 0x48, 0x03, 0xf6, 0x0e, 0x61, 0x35, 0x57, 0xb9, 0x86, 0xc1, 0x1d, 0x9e,
     0xe1, 0xf8, 0x98, 0x11, 0x69, 0xd9, 0x8e, 0x94, 0x9b, 0x1e, 0x87, 0xe9, 0xce, 0x55, 0x28, 0xdf,
     0x8c, 0xa1, 0x89, 0x0d, 0xbf, 0xe6, 0x42, 0x68, 0x41, 0x99, 0x2d, 0x0f, 0xb0, 0x54, 0xbb, 0x16]"

definition rsbox :: "u8 list" where
  "rsbox =
    [0x52, 0x09, 0x6a, 0xd5, 0x30, 0x36, 0xa5, 0x38, 0xbf, 0x40, 0xa3, 0x9e, 0x81, 0xf3, 0xd7, 0xfb,
     0x7c, 0xe3, 0x39, 0x82, 0x9b, 0x2f, 0xff, 0x87, 0x34, 0x8e, 0x43, 0x44, 0xc4, 0xde, 0xe9, 0xcb,
     0x54, 0x7b, 0x94, 0x32, 0xa6, 0xc2, 0x23, 0x3d, 0xee, 0x4c, 0x95, 0x0b, 0x42, 0xfa, 0xc3, 0x4e,
     0x08, 0x2e, 0xa1, 0x66, 0x28, 0xd9, 0x24, 0xb2, 0x76, 0x5b, 0xa2, 0x49, 0x6d, 0x8b, 0xd1, 0x25,
     0x72, 0xf8, 0xf6, 0x64, 0x86, 0x68, 0x98, 0x16, 0xd4, 0xa4, 0x5c, 0xcc, 0x5d, 0x65, 0xb6, 0x92,
     0x6c, 0x70, 0x48, 0x50, 0xfd, 0xed, 0xb9, 0xda, 0x5e, 0x15, 0x46, 0x57, 0xa7, 0x8d, 0x9d, 0x84,
     0x90, 0xd8, 0xab, 0x00, 0x8c, 0xbc, 0xd3, 0x0a, 0xf7, 0xe4, 0x58, 0x05, 0xb8, 0xb3, 0x45, 0x06,
     0xd0, 0x2c, 0x1e, 0x8f, 0xca, 0x3f, 0x0f, 0x02, 0xc1, 0xaf, 0xbd, 0x03, 0x01, 0x13, 0x8a, 0x6b,
     0x3a, 0x91, 0x11, 0x41, 0x4f, 0x67, 0xdc, 0xea, 0x97, 0xf2, 0xcf, 0xce, 0xf0, 0xb4, 0xe6, 0x73,
     0x96, 0xac, 0x74, 0x22, 0xe7, 0xad, 0x35, 0x85, 0xe2, 0xf9, 0x37, 0xe8, 0x1c, 0x75, 0xdf, 0x6e,
     0x47, 0xf1, 0x1a, 0x71, 0x1d, 0x29, 0xc5, 0x89, 0x6f, 0xb7, 0x62, 0x0e, 0xaa, 0x18, 0xbe, 0x1b,
     0xfc, 0x56, 0x3e, 0x4b, 0xc6, 0xd2, 0x79, 0x20, 0x9a, 0xdb, 0xc0, 0xfe, 0x78, 0xcd, 0x5a, 0xf4,
     0x1f, 0xdd, 0xa8, 0x33, 0x88, 0x07, 0xc7, 0x31, 0xb1, 0x12, 0x10, 0x59, 0x27, 0x80, 0xec, 0x5f,
     0x60, 0x51, 0x7f, 0xa9, 0x19, 0xb5, 0x4a, 0x0d, 0x2d, 0xe5, 0x7a, 0x9f, 0x93, 0xc9, 0x9c, 0xef,
     0xa0, 0xe0, 0x3b, 0x4d, 0xae, 0x2a, 0xf5, 0xb0, 0xc8, 0xeb, 0xbb, 0x3c, 0x83, 0x53, 0x99, 0x61,
     0x17, 0x2b, 0x04, 0x7e, 0xba, 0x77, 0xd6, 0x26, 0xe1, 0x69, 0x14, 0x63, 0x55, 0x21, 0x0c, 0x7d]"

definition Rcon :: "u8 list" where
  "Rcon =
    [0x8d, 0x01, 0x02, 0x04, 0x08, 0x10, 0x20, 0x40, 0x80, 0x1b, 0x36, 0x6c, 0xd8, 0xab, 0x4d, 0x9a,
     0x2f, 0x5e, 0xbc, 0x63, 0xc6, 0x97, 0x35, 0x6a, 0xd4, 0xb3, 0x7d, 0xfa, 0xef, 0xc5, 0x91, 0x39,
     0x72, 0xe4, 0xd3, 0xbd, 0x61, 0xc2, 0x9f, 0x25, 0x4a, 0x94, 0x33, 0x66, 0xcc, 0x83, 0x1d, 0x3a,
     0x74, 0xe8, 0xcb, 0x8d, 0x01, 0x02, 0x04, 0x08, 0x10, 0x20, 0x40, 0x80, 0x1b, 0x36, 0x6c, 0xd8,
     0xab, 0x4d, 0x9a, 0x2f, 0x5e, 0xbc, 0x63, 0xc6, 0x97, 0x35, 0x6a, 0xd4, 0xb3, 0x7d, 0xfa, 0xef,
     0xc5, 0x91, 0x39, 0x72, 0xe4, 0xd3, 0xbd, 0x61, 0xc2, 0x9f, 0x25, 0x4a, 0x94, 0x33, 0x66, 0xcc,
     0x83, 0x1d, 0x3a, 0x74, 0xe8, 0xcb, 0x8d, 0x01, 0x02, 0x04, 0x08, 0x10, 0x20, 0x40, 0x80, 0x1b,
     0x36, 0x6c, 0xd8, 0xab, 0x4d, 0x9a, 0x2f, 0x5e, 0xbc, 0x63, 0xc6, 0x97, 0x35, 0x6a, 0xd4, 0xb3,
     0x7d, 0xfa, 0xef, 0xc5, 0x91, 0x39, 0x72, 0xe4, 0xd3, 0xbd, 0x61, 0xc2, 0x9f, 0x25, 0x4a, 0x94,
     0x33, 0x66, 0xcc, 0x83, 0x1d, 0x3a, 0x74, 0xe8, 0xcb, 0x8d, 0x01, 0x02, 0x04, 0x08, 0x10, 0x20,
     0x40, 0x80, 0x1b, 0x36, 0x6c, 0xd8, 0xab, 0x4d, 0x9a, 0x2f, 0x5e, 0xbc, 0x63, 0xc6, 0x97, 0x35,
     0x6a, 0xd4, 0xb3, 0x7d, 0xfa, 0xef, 0xc5, 0x91, 0x39, 0x72, 0xe4, 0xd3, 0xbd, 0x61, 0xc2, 0x9f,
     0x25, 0x4a, 0x94, 0x33, 0x66, 0xcc, 0x83, 0x1d, 0x3a, 0x74, 0xe8, 0xcb, 0x8d, 0x01, 0x02, 0x04,
     0x08, 0x10, 0x20, 0x40, 0x80, 0x1b, 0x36, 0x6c, 0xd8, 0xab, 0x4d, 0x9a, 0x2f, 0x5e, 0xbc, 0x63,
     0xc6, 0x97, 0x35, 0x6a, 0xd4, 0xb3, 0x7d, 0xfa, 0xef, 0xc5, 0x91, 0x39, 0x72, 0xe4, 0xd3, 0xbd,
     0x61, 0xc2, 0x9f, 0x25, 0x4a, 0x94, 0x33, 0x66, 0xcc, 0x83, 0x1d, 0x3a, 0x74, 0xe8, 0xcb]"

definition getSBoxValue :: "u8 \<Rightarrow> u8" where "getSBoxValue num = sbox ! unat num"
definition getSBoxInvert :: "u8 \<Rightarrow> u8" where "getSBoxInvert num = rsbox ! unat num"

section \<open>State\<close>

datatype col = Col u8 u8 u8 u8
datatype aes_state = St col col col col

fun bytes_of :: "aes_state \<Rightarrow> u8 list" where
  "bytes_of (St (Col a0 a1 a2 a3) (Col b0 b1 b2 b3) (Col c0 c1 c2 c3) (Col d0 d1 d2 d3)) =
     [a0, a1, a2, a3, b0, b1, b2, b3, c0, c1, c2, c3, d0, d1, d2, d3]"

definition col_at :: "u8 list \<Rightarrow> nat \<Rightarrow> col" where
  "col_at xs i = Col (xs ! i) (xs ! (i + 1)) (xs ! (i + 2)) (xs ! (i + 3))"

definition state_of :: "u8 list \<Rightarrow> aes_state" where
  "state_of xs = St (col_at xs 0) (col_at xs 4) (col_at xs 8) (col_at xs 12)"

fun map_col :: "(u8 \<Rightarrow> u8) \<Rightarrow> col \<Rightarrow> col" where
  "map_col f (Col a b c d) = Col (f a) (f b) (f c) (f d)"

fun map_cols :: "(col \<Rightarrow> col) \<Rightarrow> aes_state \<Rightarrow> aes_state" where
  "map_cols f (St a b c d) = St (f a) (f b) (f c) (f d)"

section \<open>Key schedule\<close>

text \<open>One pass of the second loop of \<^verbatim>\<open>KeyExpansion\<close>: four more bytes of the round key.\<close>

definition expand_step :: "nat \<Rightarrow> u8 list \<Rightarrow> u8 list" where
  "expand_step i rk =
     (let t = (\<lambda>j. rk ! ((i - 1) * 4 + j));
          u = (if i mod 4 = 0
               then [getSBoxValue (t 1) XOR Rcon ! (i div 4), getSBoxValue (t 2), getSBoxValue (t 3), getSBoxValue (t 0)]
               else [t 0, t 1, t 2, t 3])
      in rk @ map (\<lambda>j. rk ! ((i - 4) * 4 + j) XOR u ! j) [0, 1, 2, 3])"

definition KeyExpansion :: "u8 list \<Rightarrow> u8 list" where
  "KeyExpansion key = fold expand_step [4 ..< 44] (take 16 key)"

section \<open>Round transformations\<close>

fun xor_col :: "col \<Rightarrow> col \<Rightarrow> col" where
  "xor_col (Col a b c d) (Col a' b' c' d') = Col (a XOR a') (b XOR b') (c XOR c') (d XOR d')"

fun AddRoundKey :: "u8 list \<Rightarrow> nat \<Rightarrow> aes_state \<Rightarrow> aes_state" where
  "AddRoundKey rk round (St a b c d) =
     St (xor_col a (col_at rk (round * 16))) (xor_col b (col_at rk (round * 16 + 4)))
        (xor_col c (col_at rk (round * 16 + 8))) (xor_col d (col_at rk (round * 16 + 12)))"

definition SubBytes :: "aes_state \<Rightarrow> aes_state" where
  "SubBytes = map_cols (map_col getSBoxValue)"

fun ShiftRows :: "aes_state \<Rightarrow> aes_state" where
  "ShiftRows (St (Col a0 a1 a2 a3) (Col b0 b1 b2 b3) (Col c0 c1 c2 c3) (Col d0 d1 d2 d3)) =
     St (Col a0 b1 c2 d3) (Col b0 c1 d2 a3) (Col c0 d1 a2 b3) (Col d0 a1 b2 c3)"

definition xtime :: "u8 \<Rightarrow> u8" where
  "xtime x = push_bit 1 x XOR ((drop_bit 7 x AND 1) * 0x1b)"

fun mix_col :: "col \<Rightarrow> col" where
  "mix_col (Col s0 s1 s2 s3) =
     (let tmp = s0 XOR s1 XOR s2 XOR s3 in
      Col (s0 XOR (xtime (s0 XOR s1) XOR tmp)) (s1 XOR (xtime (s1 XOR s2) XOR tmp))
          (s2 XOR (xtime (s2 XOR s3) XOR tmp)) (s3 XOR (xtime (s3 XOR s0) XOR tmp)))"

definition MixColumns :: "aes_state \<Rightarrow> aes_state" where "MixColumns = map_cols mix_col"

definition Multiply :: "u8 \<Rightarrow> u8 \<Rightarrow> u8" where
  "Multiply x y =
     ((y AND 1) * x) XOR ((drop_bit 1 y AND 1) * xtime x) XOR ((drop_bit 2 y AND 1) * xtime (xtime x)) XOR
     ((drop_bit 3 y AND 1) * xtime (xtime (xtime x))) XOR ((drop_bit 4 y AND 1) * xtime (xtime (xtime (xtime x))))"

fun inv_mix_col :: "col \<Rightarrow> col" where
  "inv_mix_col (Col a b c d) =
     Col (Multiply a 0x0e XOR Multiply b 0x0b XOR Multiply c 0x0d XOR Multiply d 0x09)
         (Multiply a 0x09 XOR Multiply b 0x0e XOR Multiply c 0x0b XOR Multiply d 0x0d)
         (Multiply a 0x0d XOR Multiply b 0x09 XOR Multiply c 0x0e XOR Multiply d 0x0b)
         (Multiply a 0x0b XOR Multiply b 0x0d XOR Multiply c 0x09 XOR Multiply d 0x0e)"

definition InvMixColumns :: "aes_state \<Rightarrow> aes_state" where "InvMixColumns = map_cols inv_mix_col"

definition InvSubBytes :: "aes_state \<Rightarrow> aes_state" where
  "InvSubBytes = map_cols (map_col getSBoxInvert)"

fun InvShiftRows :: "aes_state \<Rightarrow> aes_state" where
  "InvShiftRows (St (Col a0 a1 a2 a3) (Col b0 b1 b2 b3) (Col c0 c1 c2 c3) (Col d0 d1 d2 d3)) =
     St (Col a0 d1 c2 b3) (Col b0 a1 d2 c3) (Col c0 b1 a2 d3) (Col d0 c1 b2 a3)"

section \<open>Cipher\<close>

definition cipher_round :: "u8 list \<Rightarrow> nat \<Rightarrow> aes_state \<Rightarrow> aes_state" where
  "cipher_round rk round s = AddRoundKey rk round (MixColumns (ShiftRows (SubBytes s)))"

definition Cipher :: "u8 list \<Rightarrow> aes_state \<Rightarrow> aes_state" where
  "Cipher rk s =
     (let s1 = fold (cipher_round rk) [1 ..< 10] (AddRoundKey rk 0 s)
      in AddRoundKey rk 10 (ShiftRows (SubBytes s1)))"

definition inv_cipher_round :: "u8 list \<Rightarrow> nat \<Rightarrow> aes_state \<Rightarrow> aes_state" where
  "inv_cipher_round rk round s = InvMixColumns (AddRoundKey rk round (InvSubBytes (InvShiftRows s)))"

definition InvCipher :: "u8 list \<Rightarrow> aes_state \<Rightarrow> aes_state" where
  "InvCipher rk s =
     (let s1 = fold (inv_cipher_round rk) (rev [1 ..< 10]) (AddRoundKey rk 10 s)
      in AddRoundKey rk 0 (InvSubBytes (InvShiftRows s1)))"

text \<open>The result is the destination and the new contents of the source buffer, which are the same.\<close>

definition cr_aes_encode :: "u8 list \<Rightarrow> u8 list \<Rightarrow> u8 list \<times> u8 list" where
  "cr_aes_encode key src =
     (let out = bytes_of (Cipher (KeyExpansion key) (state_of src)) in (out, out @ drop 16 src))"

definition cr_aes_decode :: "u8 list \<Rightarrow> u8 list \<Rightarrow> u8 list \<times> u8 list" where
  "cr_aes_decode key src =
     (let out = bytes_of (InvCipher (KeyExpansion key) (state_of src)) in (out, out @ drop 16 src))"

section \<open>Inverse transformations\<close>

lemma tables_inverse: "map (\<lambda>n. rsbox ! unat (sbox ! n)) [0 ..< 256] = map of_nat [0 ..< 256]"
  by code_simp

lemma getSBox_inverse [simp]: "getSBoxInvert (getSBoxValue x) = x"
proof -
  have lt: "unat x < 256" using unsigned_less [of x] by simp
  have "map (\<lambda>n. rsbox ! unat (sbox ! n)) [0 ..< 256] ! unat x = (map of_nat [0 ..< 256] :: u8 list) ! unat x"
    using tables_inverse by (rule arg_cong)
  then show ?thesis using lt by (simp only: nth_map length_upt nth_upt diff_zero add_0 getSBoxInvert_def getSBoxValue_def of_nat_unat ucast_id)
qed

lemma map_col_inverse: "(\<And>x. g (f x) = x) \<Longrightarrow> map_col g (map_col f c) = c"
  by (cases c) simp

lemma map_cols_inverse: "(\<And>c. g (f c) = c) \<Longrightarrow> map_cols g (map_cols f s) = s"
  by (cases s) simp

lemma InvSubBytes_inverse [simp]: "InvSubBytes (SubBytes s) = s"
  by (simp add: InvSubBytes_def SubBytes_def map_cols_inverse map_col_inverse)

lemma InvShiftRows_inverse [simp]: "InvShiftRows (ShiftRows s) = s"
  by (cases s rule: ShiftRows.cases) simp

lemma AddRoundKey_invol [simp]: "AddRoundKey rk r (AddRoundKey rk r s) = s"
proof -
  have "xor_col (xor_col c d) d = c" for c d by (cases c; cases d) (simp add: xor.assoc)
  then show ?thesis by (cases s) simp
qed

text \<open>Multiplication by \<open>x\<close> in the field is linear.\<close>

lemma xtime_xor [simp]: "xtime (x XOR y) = xtime x XOR xtime y"
proof -
  have "drop_bit 7 z AND 1 = (if bit z 7 then 1 else 0 :: u8)" for z :: u8
  proof (rule bit_word_eqI)
    show "bit (drop_bit 7 z AND 1) n = bit (if bit z 7 then 1 else 0 :: u8) n" for n
      by (cases "n = 0") (simp_all add: bit_simps)
  qed
  then have "xtime z = push_bit 1 z XOR (if bit z 7 then 0x1b else 0)" for z by (simp add: xtime_def)
  then show ?thesis
    by (simp only: push_bit_xor bit_xor_iff xor.assoc xor.left_commute split: if_split)
      (simp add: xor.assoc [symmetric])
qed

lemma Multiply_values:
  "Multiply x 0x0e = xtime x XOR xtime (xtime x) XOR xtime (xtime (xtime x))"
  "Multiply x 0x0b = x XOR xtime x XOR xtime (xtime (xtime x))"
  "Multiply x 0x0d = x XOR xtime (xtime x) XOR xtime (xtime (xtime x))"
  "Multiply x 0x09 = x XOR xtime (xtime (xtime x))"
  by (simp_all add: Multiply_def drop_bit_eq_div)

lemma mix_col_inverse [simp]: "inv_mix_col (mix_col c) = c"
  by (cases c) (simp add: Multiply_values Let_def xor.assoc xor.commute xor.left_commute)

lemma InvMixColumns_inverse [simp]: "InvMixColumns (MixColumns s) = s"
  by (simp add: InvMixColumns_def MixColumns_def map_cols_inverse)


lemma rounds_inverse:
  "fold (inv_cipher_round rk) (rev rs) (ShiftRows (SubBytes (fold (cipher_round rk) rs s))) = ShiftRows (SubBytes s)"
  by (induction rs rule: rev_induct) (simp_all add: cipher_round_def inv_cipher_round_def)

lemma InvCipher_inverse: "InvCipher rk (Cipher rk s) = s"
  by (simp add: InvCipher_def Cipher_def rounds_inverse)

lemma state_bytes: "state_of (bytes_of s) = s"
  by (cases s rule: ShiftRows.cases) (simp add: state_of_def col_at_def)

lemma bytes_state: "length xs = 16 \<Longrightarrow> bytes_of (state_of xs) = xs"
  by (rule nth_equalityI) (auto simp: state_of_def col_at_def nth_Cons' less_Suc_eq numeral_eq_Suc)

lemma length_bytes_of [simp]: "length (bytes_of s) = 16"
  by (cases s rule: ShiftRows.cases) simp

section \<open>Properties\<close>

text \<open>C38: AES round trip. For every key and every block of 16 bytes, decoding what encoding wrote to the
  destination gives the block back; encoding also leaves the ciphertext in the source buffer.\<close>
theorem cr_aes_roundtrip:
  assumes "length src = 16"
  shows "fst (cr_aes_decode key (fst (cr_aes_encode key src))) = src \<and>
    snd (cr_aes_encode key src) = fst (cr_aes_encode key src) \<and> length (fst (cr_aes_encode key src)) = 16"
  using assms by (simp add: cr_aes_decode_def cr_aes_encode_def Let_def state_bytes InvCipher_inverse bytes_state)

theorem cr_aes_roundtrip_witness:
  "fst (cr_aes_decode (replicate 16 7) (fst (cr_aes_encode (replicate 16 7) (replicate 16 1)))) = replicate 16 1"
  using cr_aes_roundtrip [of "replicate 16 1" "replicate 16 7"] by simp

end
