(* ===== verification/CR_DES.thy ===== *)
theory CR_DES
  imports Prelude
begin

text \<open>
  DES and triple DES, \<^verbatim>\<open>crypto/src/cr_des.c\<close>. A byte array is a list of bytes; the array parameters are
  never NULL and hold the number of bytes the code reads (8 for a block, 8 per DES key), which the
  theorems state as length hypotheses where they matter. The destination is the value returned. Arrays
  are seen as bit strings, bit 0 being the highest bit of byte 0, as the macros \<^verbatim>\<open>GETBIT\<close>, \<^verbatim>\<open>SETBIT\<close> and
  \<^verbatim>\<open>CLRBIT\<close> define them.
\<close>

section \<open>Tables\<close>

definition InitialPermuteMap :: "nat list" where
  "InitialPermuteMap =
    [57, 49, 41, 33, 25, 17, 9, 1, 59, 51, 43, 35, 27, 19, 11, 3,
     61, 53, 45, 37, 29, 21, 13, 5, 63, 55, 47, 39, 31, 23, 15, 7,
     56, 48, 40, 32, 24, 16, 8, 0, 58, 50, 42, 34, 26, 18, 10, 2,
     60, 52, 44, 36, 28, 20, 12, 4, 62, 54, 46, 38, 30, 22, 14, 6]"

definition KeyPermuteMap :: "nat list" where
  "KeyPermuteMap =
    [49, 42, 35, 28, 21, 14, 7, 0, 50, 43, 36, 29, 22, 15,
     8, 1, 51, 44, 37, 30, 23, 16, 9, 2, 52, 45, 38, 31,
     55, 48, 41, 34, 27, 20, 13, 6, 54, 47, 40, 33, 26, 19,
     12, 5, 53, 46, 39, 32, 25, 18, 11, 4, 24, 17, 10, 3]"

definition KeyRotation :: "nat list" where
  "KeyRotation =
    [1, 1, 2, 2, 2, 2, 2, 2, 1, 2, 2, 2, 2, 2, 2, 1]"

definition KeyRotationRight :: "nat list" where
  "KeyRotationRight =
    [0, 1, 2, 2, 2, 2, 2, 2, 1, 2, 2, 2, 2, 2, 2, 1]"

definition KeyCompression :: "nat list" where
  "KeyCompression =
    [13, 16, 10, 23, 0, 4, 2, 27, 14, 5, 20, 9, 22, 18, 11, 3,
     25, 7, 15, 6, 26, 19, 12, 1, 40, 51, 30, 36, 46, 54, 29, 39,
     50, 44, 32, 47, 43, 48, 38, 55, 33, 52, 45, 41, 49, 35, 28, 31]"

definition DataExpansion :: "nat list" where
  "DataExpansion =
    [31, 0, 1, 2, 3, 4, 3, 4, 5, 6, 7, 8, 7, 8, 9, 10,
     11, 12, 11, 12, 13, 14, 15, 16, 15, 16, 17, 18, 19, 20, 19, 20,
     21, 22, 23, 24, 23, 24, 25, 26, 27, 28, 27, 28, 29, 30, 31, 0]"

definition PBox :: "nat list" where
  "PBox =
    [15, 6, 19, 20, 28, 11, 27, 16, 0, 14, 22, 25, 4, 17, 30, 9,
     1, 7, 23, 13, 31, 26, 2, 8, 18, 12, 29, 5, 21, 10, 3, 24]"

definition FinalPermuteMap :: "nat list" where
  "FinalPermuteMap =
    [7, 39, 15, 47, 23, 55, 31, 63, 6, 38, 14, 46, 22, 54, 30, 62,
     5, 37, 13, 45, 21, 53, 29, 61, 4, 36, 12, 44, 20, 52, 28, 60,
     3, 35, 11, 43, 19, 51, 27, 59, 2, 34, 10, 42, 18, 50, 26, 58,
     1, 33, 9, 41, 17, 49, 25, 57, 0, 32, 8, 40, 16, 48, 24, 56]"

definition map8to7 :: "nat list" where
  "map8to7 =
    [0, 1, 2, 3, 4, 5, 6, 8, 9, 10, 11, 12, 13, 14,
     16, 17, 18, 19, 20, 21, 22, 24, 25, 26, 27, 28, 29, 30,
     32, 33, 34, 35, 36, 37, 38, 40, 41, 42, 43, 44, 45, 46,
     48, 49, 50, 51, 52, 53, 54, 56, 57, 58, 59, 60, 61, 62]"

definition SBox :: "u8 list list" where
  "SBox =
    [[14, 0, 4, 15, 13, 7, 1, 4, 2, 14, 15, 2, 11, 13, 8, 1,
      3, 10, 10, 6, 6, 12, 12, 11, 5, 9, 9, 5, 0, 3, 7, 8,
      4, 15, 1, 12, 14, 8, 8, 2, 13, 4, 6, 9, 2, 1, 11, 7,
      15, 5, 12, 11, 9, 3, 7, 14, 3, 10, 10, 0, 5, 6, 0, 13],
     [15, 3, 1, 13, 8, 4, 14, 7, 6, 15, 11, 2, 3, 8, 4, 14,
      9, 12, 7, 0, 2, 1, 13, 10, 12, 6, 0, 9, 5, 11, 10, 5,
      0, 13, 14, 8, 7, 10, 11, 1, 10, 3, 4, 15, 13, 4, 1, 2,
      5, 11, 8, 6, 12, 7, 6, 12, 9, 0, 3, 5, 2, 14, 15, 9],
     [10, 13, 0, 7, 9, 0, 14, 9, 6, 3, 3, 4, 15, 6, 5, 10,
      1, 2, 13, 8, 12, 5, 7, 14, 11, 12, 4, 11, 2, 15, 8, 1,
      13, 1, 6, 10, 4, 13, 9, 0, 8, 6, 15, 9, 3, 8, 0, 7,
      11, 4, 1, 15, 2, 14, 12, 3, 5, 11, 10, 5, 14, 2, 7, 12],
     [7, 13, 13, 8, 14, 11, 3, 5, 0, 6, 6, 15, 9, 0, 10, 3,
      1, 4, 2, 7, 8, 2, 5, 12, 11, 1, 12, 10, 4, 14, 15, 9,
      10, 3, 6, 15, 9, 0, 0, 6, 12, 10, 11, 1, 7, 13, 13, 8,
      15, 9, 1, 4, 3, 5, 14, 11, 5, 12, 2, 7, 8, 2, 4, 14],
     [2, 14, 12, 11, 4, 2, 1, 12, 7, 4, 10, 7, 11, 13, 6, 1,
      8, 5, 5, 0, 3, 15, 15, 10, 13, 3, 0, 9, 14, 8, 9, 6,
      4, 11, 2, 8, 1, 12, 11, 7, 10, 1, 13, 14, 7, 2, 8, 13,
      15, 6, 9, 15, 12, 0, 5, 9, 6, 10, 3, 4, 0, 5, 14, 3],
     [12, 10, 1, 15, 10, 4, 15, 2, 9, 7, 2, 12, 6, 9, 8, 5,
      0, 6, 13, 1, 3, 13, 4, 14, 14, 0, 7, 11, 5, 3, 11, 8,
      9, 4, 14, 3, 15, 2, 5, 12, 2, 9, 8, 5, 12, 15, 3, 10,
      7, 11, 0, 14, 4, 1, 10, 7, 1, 6, 13, 0, 11, 8, 6, 13],
     [4, 13, 11, 0, 2, 11, 14, 7, 15, 4, 0, 9, 8, 1, 13, 10,
      3, 14, 12, 3, 9, 5, 7, 12, 5, 2, 10, 15, 6, 8, 1, 6,
      1, 6, 4, 11, 11, 13, 13, 8, 12, 1, 3, 4, 7, 10, 14, 7,
      10, 9, 15, 5, 6, 0, 8, 15, 0, 14, 5, 2, 9, 3, 2, 12],
     [13, 1, 2, 15, 8, 13, 4, 8, 6, 10, 15, 3, 11, 7, 1, 4,
      10, 12, 9, 5, 3, 6, 14, 11, 5, 0, 0, 14, 12, 9, 7, 2,
      7, 2, 11, 1, 4, 14, 1, 7, 9, 4, 12, 10, 14, 8, 2, 13,
      0, 15, 6, 12, 10, 9, 13, 0, 15, 3, 3, 5, 5, 6, 8, 11]]"

section \<open>Bit strings\<close>

definition GETBIT :: "u8 list \<Rightarrow> nat \<Rightarrow> u8" where
  "GETBIT str idx = drop_bit (7 - idx mod 8) (str ! (idx div 8)) AND 0x01"

definition SETBIT :: "u8 list \<Rightarrow> nat \<Rightarrow> u8 list" where
  "SETBIT str idx = str[idx div 8 := str ! (idx div 8) OR push_bit (7 - idx mod 8) 0x01]"

definition CLRBIT :: "u8 list \<Rightarrow> nat \<Rightarrow> u8 list" where
  "CLRBIT str idx = str[idx div 8 := str ! (idx div 8) AND NOT (push_bit (7 - idx mod 8) 0x01)]"

definition permute_bit :: "u8 list \<Rightarrow> nat list \<Rightarrow> nat \<Rightarrow> u8 list \<Rightarrow> u8 list" where
  "permute_bit src pm i dst = (if GETBIT src (pm ! i) \<noteq> 0 then SETBIT dst i else dst)"

definition Permute :: "u8 list \<Rightarrow> nat list \<Rightarrow> nat \<Rightarrow> u8 list" where
  "Permute src pm mapsize = fold (permute_bit src pm) [0 ..< mapsize * 8] (replicate mapsize 0)"

text \<open>One byte of the two shifting loops, one shift of the whole key, and the key rotations. \<open>keep\<close> is
  the copy of the byte whose bits leave the key.\<close>

definition shr_byte :: "nat \<Rightarrow> u8 list \<Rightarrow> u8 list" where
  "shr_byte j key =
    (let key = (if j \<noteq> 7 \<and> key ! (j - 1) AND 0x01 \<noteq> 0 then key[j := key ! j OR 0x80] else key)
     in key[j - 1 := drop_bit 1 (key ! (j - 1))])"

definition shr_once :: "u8 list \<times> u8 \<Rightarrow> u8 list \<times> u8" where
  "shr_once = (\<lambda>(key, keep).
    let key = fold shr_byte [7, 6, 5, 4, 3, 2, 1] key;
        key = (if GETBIT key 28 \<noteq> 0 then SETBIT (CLRBIT key 28) 0 else key);
        key = (if keep AND 0x01 \<noteq> 0 then SETBIT key 28 else key)
    in (key, drop_bit 1 keep))"

definition KeyShiftRight :: "u8 list \<Rightarrow> nat \<Rightarrow> u8 list" where
  "KeyShiftRight key numbits = fst ((shr_once ^^ numbits) (key, key ! 6))"

definition shl_byte :: "nat \<Rightarrow> u8 list \<Rightarrow> u8 list" where
  "shl_byte j key =
    (let key = (if j \<noteq> 0 \<and> key ! j AND 0x80 \<noteq> 0 then key[j - 1 := key ! (j - 1) OR 0x01] else key)
     in key[j := push_bit 1 (key ! j)])"

definition shl_once :: "u8 list \<times> u8 \<Rightarrow> u8 list \<times> u8" where
  "shl_once = (\<lambda>(key, keep).
    let key = fold shl_byte [0, 1, 2, 3, 4, 5, 6] key;
        key = (if GETBIT key 27 \<noteq> 0 then SETBIT (CLRBIT key 27) 55 else key);
        key = (if keep AND 0x80 \<noteq> 0 then SETBIT key 27 else key)
    in (key, push_bit 1 keep))"

definition KeyShift :: "u8 list \<Rightarrow> nat \<Rightarrow> u8 list" where
  "KeyShift key numbits = fst ((shl_once ^^ numbits) (key, key ! 0))"

section \<open>The cipher\<close>

definition sbox_num :: "u8 list \<Rightarrow> nat \<Rightarrow> nat" where
  "sbox_num src i = fold (\<lambda>j Snum. Snum * 2 + unat (GETBIT src (i * 6 + j))) [0 ..< 6] 0"

definition sbox_step :: "u8 list \<Rightarrow> nat \<Rightarrow> u8 list \<Rightarrow> u8 list" where
  "sbox_step src i dst =
    (let v = SBox ! i ! sbox_num src i
     in dst[i div 2 := dst ! (i div 2) OR (if i mod 2 = 0 then push_bit 4 v else v)])"

definition des_sbox :: "u8 list \<Rightarrow> u8 list" where
  "des_sbox src = fold (sbox_step src) [0 ..< 8] [0, 0, 0, 0]"

definition des_xor :: "u8 list \<Rightarrow> u8 list \<Rightarrow> nat \<Rightarrow> u8 list" where
  "des_xor a b count = map (\<lambda>i. a ! i XOR b ! i) [0 ..< count]"

definition cr_convert_key :: "u8 list \<Rightarrow> u8 list" where
  "cr_convert_key key = Permute key map8to7 7"

text \<open>The round function and one pass of the loop body after the subkey is known: \<open>D\<close> holds the left half
  in its first four bytes and the right half in the last four.\<close>

definition des_f :: "u8 list \<Rightarrow> u8 list \<Rightarrow> u8 list" where
  "des_f SubK R = Permute (des_sbox (des_xor (Permute R DataExpansion 6) SubK 6)) PBox 4"

definition des_round :: "u8 list \<Rightarrow> u8 list \<Rightarrow> u8 list" where
  "des_round SubK D =
    (let L = take 4 D; R = drop 4 D; Rn = des_xor L (des_f SubK R) 4
     in R @ Rn)"

definition encode_round :: "nat \<Rightarrow> u8 list \<times> u8 list \<Rightarrow> u8 list \<times> u8 list" where
  "encode_round i = (\<lambda>(K, D).
    let K = KeyShift K (KeyRotation ! i); SubK = Permute K KeyCompression 6
    in (K, des_round SubK D))"

definition cr_des_encode :: "u8 list \<Rightarrow> u8 list \<Rightarrow> u8 list" where
  "cr_des_encode dkey src =
    (let key = cr_convert_key dkey;
         K = Permute key KeyPermuteMap 7;
         D = Permute src InitialPermuteMap 8;
         (K, D) = fold encode_round [0 ..< 16] (K, D)
     in Permute D FinalPermuteMap 8)"

definition decode_round :: "nat \<Rightarrow> u8 list \<times> u8 list \<Rightarrow> u8 list \<times> u8 list" where
  "decode_round i = (\<lambda>(K, D).
    let K = KeyShiftRight K (KeyRotationRight ! i); SubK = Permute K KeyCompression 6
    in (K, des_round SubK D))"

definition cr_des_decode :: "u8 list \<Rightarrow> u8 list \<Rightarrow> u8 list" where
  "cr_des_decode dkey src =
    (let key = cr_convert_key dkey;
         K = Permute key KeyPermuteMap 7;
         D = Permute src InitialPermuteMap 8;
         (K, D) = fold decode_round [0 ..< 16] (K, D)
     in Permute D FinalPermuteMap 8)"

definition cr_tdes2_encode :: "u8 list \<Rightarrow> u8 list \<Rightarrow> u8 list" where
  "cr_tdes2_encode key src =
    cr_des_encode key (cr_des_decode (drop 8 key) (cr_des_encode key src))"

definition cr_tdes2_decode :: "u8 list \<Rightarrow> u8 list \<Rightarrow> u8 list" where
  "cr_tdes2_decode key src =
    cr_des_decode key (cr_des_encode (drop 8 key) (cr_des_decode key src))"

definition cr_tdes3_encode :: "u8 list \<Rightarrow> u8 list \<Rightarrow> u8 list" where
  "cr_tdes3_encode key src =
    cr_des_encode (drop 16 key) (cr_des_decode (drop 8 key) (cr_des_encode key src))"

definition cr_tdes3_decode :: "u8 list \<Rightarrow> u8 list \<Rightarrow> u8 list" where
  "cr_tdes3_decode key src =
    cr_des_decode key (cr_des_encode (drop 8 key) (cr_des_decode (drop 16 key) src))"

section \<open>Bits of byte arrays\<close>

text \<open>The bit of the array as a truth value, and extensionality of byte arrays over their bits.\<close>

definition gbit :: "u8 list \<Rightarrow> nat \<Rightarrow> bool" where
  "gbit str i = bit (str ! (i div 8)) (7 - i mod 8)"

lemma GETBIT_gbit [simp]: "(GETBIT str i = 0) = (\<not> gbit str i)"
  by (simp add: GETBIT_def gbit_def and_one_eq mod_2_eq_odd bit_iff_odd_drop_bit)

lemma gbit_byte:
  assumes "k < 8"
  shows "bit (str ! j) k = gbit str (8 * j + (7 - k))"
proof -
  have 7: "7 - k < 8" by simp
  have "(8 * j + (7 - k)) div 8 = j" "(8 * j + (7 - k)) mod 8 = 7 - k"
    using 7 div_mult_self4 [of 8 j "7 - k"] by (simp_all only: mod_mult_self4 mod_less div_less)
  then show ?thesis
    using assms by (simp add: gbit_def)
qed

lemma bytes_eqI:
  assumes "length a = length b" "\<And>i. i < 8 * length a \<Longrightarrow> gbit a i = gbit b i"
  shows "a = b"
proof (rule nth_equalityI)
  fix j assume "j < length a"
  moreover have "8 * j + (7 - k) < 8 * length a" if "k < 8" "j < length a" for k
    using that by linarith
  ultimately show "a ! j = b ! j"
    using assms(2) by (auto intro!: bit_word_eqI simp: gbit_byte)
qed (rule assms(1))

lemma gbit_update:
  "j < length str \<Longrightarrow> gbit (str[j := v]) i = (if i div 8 = j then bit v (7 - i mod 8) else gbit str i)"
  by (auto simp: gbit_def)

lemma same_bit:
  assumes "(i::nat) div 8 = j div 8"
  shows "(7 - i mod 8 = 7 - j mod 8) = (i = j)"
proof
  assume eq: "7 - i mod 8 = 7 - j mod 8"
  have "i mod 8 < 8" "j mod 8 < 8" by simp_all
  with eq have "i mod 8 = j mod 8" by linarith
  then show "i = j"
    using assms div_mult_mod_eq [of i 8] div_mult_mod_eq [of j 8] by metis
qed simp

lemma bit_one_shifted: "n < 8 \<Longrightarrow> bit (push_bit n (1::u8)) k = (k = n)"
  by (simp only: bit_push_bit_iff bit_1_iff) auto

lemma gbit_SETBIT [simp]:
  assumes "j < 8 * length str"
  shows "gbit (SETBIT str j) i = (i = j \<or> gbit str i)"
proof -
  have j: "j div 8 < length str" using assms by simp
  have m: "bit (push_bit (7 - j mod 8) (1::u8)) (7 - i mod 8) = (7 - i mod 8 = 7 - j mod 8)"
    by (rule bit_one_shifted) simp
  show ?thesis
  proof (cases "i div 8 = j div 8")
    case True
    then show ?thesis
      unfolding SETBIT_def gbit_update [OF j] bit_or_iff m same_bit [OF True]
      by (auto simp add: gbit_def)
  next
    case False
    then show ?thesis
      unfolding SETBIT_def gbit_update [OF j] by auto
  qed
qed

lemma gbit_CLRBIT [simp]:
  assumes "j < 8 * length str"
  shows "gbit (CLRBIT str j) i = (i \<noteq> j \<and> gbit str i)"
proof -
  have j: "j div 8 < length str" using assms by simp
  have m: "bit (push_bit (7 - j mod 8) (1::u8)) (7 - i mod 8) = (7 - i mod 8 = 7 - j mod 8)"
    by (rule bit_one_shifted) simp
  have "7 - i mod 8 < 8" by simp
  then have n: "bit (NOT w) (7 - i mod 8) = (\<not> bit w (7 - i mod 8))" for w :: u8
    by (simp only: bit_not_iff) simp
  show ?thesis
  proof (cases "i div 8 = j div 8")
    case True
    then show ?thesis
      unfolding CLRBIT_def gbit_update [OF j] bit_and_iff n m same_bit [OF True]
      by (auto simp add: gbit_def)
  next
    case False
    then show ?thesis
      unfolding CLRBIT_def gbit_update [OF j] by auto
  qed
qed

lemma length_bit_ops [simp]:
  "length (SETBIT str i) = length str" "length (CLRBIT str i) = length str"
  by (simp_all add: SETBIT_def CLRBIT_def)

lemma Permute_upto:
  assumes "k \<le> mapsize * 8"
  shows "length (fold (permute_bit src pm) [0 ..< k] (replicate mapsize 0)) = mapsize \<and>
    (\<forall>i < mapsize * 8. gbit (fold (permute_bit src pm) [0 ..< k] (replicate mapsize 0)) i =
      (i < k \<and> gbit src (pm ! i)))"
  using assms
proof (induction k)
  case 0
  then show ?case by (auto simp: gbit_def)
next
  case (Suc k)
  then show ?case by (auto simp: permute_bit_def less_Suc_eq)
qed

lemma length_Permute [simp]: "length (Permute src pm mapsize) = mapsize"
  using Permute_upto [of "mapsize * 8"] by (simp add: Permute_def)

lemma gbit_Permute [simp]: "i < mapsize * 8 \<Longrightarrow> gbit (Permute src pm mapsize) i = gbit src (pm ! i)"
  using Permute_upto [of "mapsize * 8"] by (simp add: Permute_def)

section \<open>Key rotation\<close>

text \<open>Bit \<open>i\<close> of the key after one shift of both halves to the left is bit \<open>rol28 i\<close> of the key before;
  \<open>ror28\<close> is the inverse.\<close>

definition rol28 :: "nat \<Rightarrow> nat" where
  "rol28 i = (if i = 27 then 0 else if i = 55 then 28 else i + 1)"

definition ror28 :: "nat \<Rightarrow> nat" where
  "ror28 i = (if i = 0 then 27 else if i = 28 then 55 else i - 1)"

lemma top_bit: "(w AND 0x80 = 0) = (\<not> bit (w::u8) 7)"
proof -
  have "(0x80::u8) = push_bit 7 1" by simp
  then show ?thesis
    by (simp only: flip: and_exp_eq_0_iff_not_bit) (simp add: push_bit_eq_mult)
qed

lemma low_bit: "(w AND 0x01 = 0) = (\<not> bit (w::u8) 0)"
  by (simp add: and_one_eq mod_2_eq_odd bit_0)

lemma byte_index:
  obtains q r where "i = 8 * q + r" "r < 8" "i div 8 = q" "i mod 8 = (r::nat)"
  using that [of "i div 8" "i mod 8"] by simp

lemma bit_shl1: "bit (push_bit 1 (w::u8)) k = (0 < k \<and> k < 8 \<and> bit w (k - 1))"
  by (auto simp only: bit_push_bit_iff) auto

lemma gbit_top: "gbit key (8 * j) = bit (key ! j) 7"
  by (simp add: gbit_def)

lemma last_bit_of_byte:
  assumes "(j::nat) \<noteq> 0"
  shows "(i + 1 = 8 * j) = (i div 8 = j - 1 \<and> i mod 8 = 7)"
proof -
  have "(8 * q + r + 1 = 8 * j) = (q = j - 1 \<and> r = 7)" if "r < 8" for q r :: nat
    using that assms by arith
  from this [of "i mod 8" "i div 8"] show ?thesis by simp
qed

lemma gbit_shl_byte:
  assumes "j < length key"
  shows "gbit (shl_byte j key) i =
    (if i div 8 = j then i mod 8 < 7 \<and> gbit key (i + 1)
     else gbit key i \<or> i + 1 = 8 * j \<and> gbit key (8 * j))"
proof (cases "i div 8 = j")
  case True
  have "bit (push_bit 1 (key ! j)) (7 - i mod 8) = (i mod 8 < 7 \<and> bit (key ! j) (6 - i mod 8))"
    by (simp only: bit_shl1) auto
  moreover have "(i + 1) div 8 = j \<and> 7 - (i + 1) mod 8 = 6 - i mod 8" if "i mod 8 < 7"
    using that True by (auto simp: mod_Suc div_Suc)
  ultimately show ?thesis
    using assms True by (auto simp: shl_byte_def Let_def gbit_update) (auto simp: gbit_def)
next
  case False
  have o: "bit (w OR 1) k = (bit w k \<or> k = 0)" for w :: u8 and k
    by (auto simp: bit_or_iff bit_1_iff)
  have m: "(7 - i mod 8 = 0) = (i mod 8 = 7)"
    using mod_less_divisor [of 8 i] by linarith
  show ?thesis
  proof (cases "j = 0")
    case True
    then show ?thesis using False assms by (simp add: shl_byte_def gbit_update)
  next
    case j: False
    have "gbit (key[j - 1 := key ! (j - 1) OR 1]) i = (gbit key i \<or> i + 1 = 8 * j)"
    proof (cases "i div 8 = j - 1")
      case True
      then have "gbit (key[j - 1 := key ! (j - 1) OR 1]) i = (bit (key ! (j - 1)) (7 - i mod 8) \<or> i mod 8 = 7)"
        using assms by (simp only: gbit_update o m less_imp_diff_less) simp
      then show ?thesis
        using True last_bit_of_byte [OF j, of i] by (simp only: gbit_def) simp
    qed (use assms last_bit_of_byte [OF j, of i] in \<open>simp add: gbit_update\<close>)
    then show ?thesis
      using False assms j by (auto simp: shl_byte_def Let_def gbit_update top_bit gbit_top)
  qed
qed

lemma length_shl_byte [simp]: "length (shl_byte j key) = length key"
  by (simp add: shl_byte_def Let_def)

lemma div_less_iff8: "(i div 8 = k) = (8 * k \<le> i \<and> i < 8 * k + (8::nat))"
  by (metis add.commute div_less_iff_less_mult div_nat_eqI less_eq_div_iff_mult_less_eq
      mult.commute mult_Suc order_refl zero_less_numeral nat_less_le lessI)

lemma shl_bytes:
  assumes "k \<le> length key"
  shows "length (fold shl_byte [0 ..< k] key) = length key \<and>
    (\<forall>i < 8 * length key. gbit (fold shl_byte [0 ..< k] key) i =
      (if i + 1 < 8 * k then gbit key (i + 1) else i + 1 \<noteq> 8 * k \<and> gbit key i))"
  using assms
proof (induction k)
  case (Suc k)
  then have IH: "gbit (fold shl_byte [0 ..< k] key) i =
      (if i + 1 < 8 * k then gbit key (i + 1) else i + 1 \<noteq> 8 * k \<and> gbit key i)" if "i < 8 * length key" for i
    using that by simp
  have "(i mod 8 < 7) = (i + 1 < 8 * Suc k)" if "i div 8 = k" for i
    using that by (cases rule: byte_index [of i]) simp
  moreover have "gbit key (8 * k) = gbit key (Suc i)" if "\<not> Suc i < 8 * k" "\<not> 8 * k \<le> i" for i
  proof -
    have "8 * k = Suc i" using that by linarith
    then show ?thesis by simp
  qed
  ultimately show ?case
    using Suc by (auto simp: gbit_shl_byte IH div_less_iff8)
qed simp


lemma bit_shr1: "bit (drop_bit 1 (w::u8)) k = (k < 7 \<and> bit w (k + 1))"
  by (auto simp only: bit_drop_bit_eq comp_def) (auto dest: bit_imp_le_length)

lemma gbit_shr_byte:
  assumes "b < length key" "length key = 7"
  shows "gbit (shr_byte (Suc b) key) i =
    (if i div 8 = b then i \<noteq> 8 * b \<and> gbit key (i - 1)
     else gbit key i \<or> b < 6 \<and> i = 8 * Suc b \<and> gbit key (i - 1))"
proof (rule byte_index [of i])
  fix q r assume i: "i = 8 * q + r" "r < 8" "i div 8 = q" "i mod 8 = r"
  show ?thesis
  proof (cases "q = b")
    case True
    have "7 - r + 1 = 8 - r" using i(2) by linarith
    then have "bit (drop_bit 1 (key ! b)) (7 - r) = (r \<noteq> 0 \<and> bit (key ! b) (8 - r))"
      by (simp only: bit_shr1) auto
    moreover have "gbit key (i - 1) = bit (key ! b) (8 - r)" if "r \<noteq> 0"
    proof -
      have "i - 1 = 8 * b + (7 - (8 - r))" "8 - r < 8" using that i True by linarith+
      then show ?thesis using gbit_byte [of "8 - r" key b] by simp
    qed
    ultimately show ?thesis
      using assms True i by (auto simp: shr_byte_def Let_def gbit_update)
  next
    case False
    have o: "bit (w OR 0x80) k = (bit w k \<or> k = 7)" for w :: u8 and k
      using bit_one_shifted [of 7 k] by (simp add: bit_or_iff)
    have low: "bit (key ! b) 0 = gbit key (7 + 8 * b)"
      using gbit_byte [of 0 key b] by (simp add: add.commute)
    have "gbit (key[Suc b := key ! Suc b OR 0x80]) i = (gbit key i \<or> i = 8 * Suc b)" if "b < 6"
    proof (cases "q = Suc b")
      case True
      then have "gbit (key[Suc b := key ! Suc b OR 0x80]) i = (bit (key ! Suc b) (7 - r) \<or> 7 - r = 7)"
        using that assms i by (simp only: gbit_update o) simp
      moreover have "(7 - r = 7) = (r = 0)" using i(2) by linarith
      ultimately show ?thesis
        using True i by (simp add: gbit_def)
    qed (use assms that i in \<open>auto simp: gbit_update\<close>)
    then show ?thesis
      using False assms i by (auto simp: shr_byte_def Let_def gbit_update low_bit low)
  qed
qed

lemma length_shr_byte [simp]: "length (shr_byte j key) = length key"
  by (simp add: shr_byte_def Let_def)

lemma shr_bytes:
  assumes "k \<le> 7" "length key = 7"
  shows "length (fold shr_byte (rev [Suc k ..< 8]) key) = 7 \<and>
    (\<forall>i < 56. gbit (fold shr_byte (rev [Suc k ..< 8]) key) i =
      (if 8 * k < i then gbit key (i - 1) else (k < 7 \<longrightarrow> i \<noteq> 8 * k) \<and> gbit key i))"
  using assms(1)
proof (induction k rule: inc_induct)
  case base
  then show ?case using assms by simp
next
  case (step k)
  then have IH: "gbit (fold shr_byte (rev [Suc (Suc k) ..< 8]) key) i =
      (if 8 * Suc k < i then gbit key (i - 1) else (Suc k < 7 \<longrightarrow> i \<noteq> 8 * Suc k) \<and> gbit key i)"
    if "i < 56" for i using that by simp
  have e: "fold shr_byte (rev [Suc k ..< 8]) key = shr_byte (Suc k) (fold shr_byte (rev [Suc (Suc k) ..< 8]) key)"
    using step by (simp add: upt_rec [of "Suc k"])
  show ?case
    using step unfolding e by (auto simp: gbit_shr_byte IH div_less_iff8)
qed

lemma length_shl_once: "length key = 7 \<Longrightarrow> length (fst (shl_once (key, keep))) = 7"
  using shl_bytes [of 7 key] by (simp add: shl_once_def Let_def upt_rec)

lemma gbit_shl_once:
  assumes "length key = 7" "bit keep 7 = gbit key 0" "i < 56"
  shows "gbit (fst (shl_once (key, keep))) i = gbit key (rol28 i)"
proof -
  have "[0, 1, 2, 3, 4, 5, 6] = [0 ..< 7]" by (simp add: upt_rec)
  moreover have "gbit (fold shl_byte [0 ..< 7] key) i = (i + 1 < 56 \<and> gbit key (i + 1))"
    and "length (fold shl_byte [0 ..< 7] key) = 7" if "i < 56" for i
    using shl_bytes [of 7 key] assms(1) that by auto
  ultimately show ?thesis
    using assms by (auto simp: shl_once_def Let_def top_bit rol28_def)
qed

lemma length_shr_once: "length key = 7 \<Longrightarrow> length (fst (shr_once (key, keep))) = 7"
  using shr_bytes [of 0 key] by (simp add: shr_once_def Let_def upt_rec)

lemma gbit_shr_once:
  assumes "length key = 7" "bit keep 0 = gbit key 55" "i < 56"
  shows "gbit (fst (shr_once (key, keep))) i = gbit key (ror28 i)"
proof -
  have "[7, 6, 5, 4, 3, 2, 1] = rev [Suc 0 ..< 8]" by (simp add: upt_rec)
  moreover have "gbit (fold shr_byte (rev [Suc 0 ..< 8]) key) i = (0 < i \<and> gbit key (i - 1))"
    and "length (fold shr_byte (rev [Suc 0 ..< 8]) key) = 7" if "i < 56" for i
    using shr_bytes [of 0 key] assms(1) that by auto
  ultimately show ?thesis
    using assms by (auto simp: shr_once_def Let_def low_bit ror28_def)
qed

lemma keep_once [simp]:
  "snd (shl_once s) = push_bit 1 (snd s)" "snd (shr_once s) = drop_bit 1 (snd s)"
  by (simp_all add: shl_once_def shr_once_def Let_def split_def)

lemma rol28_lt [simp]: "i < 56 \<Longrightarrow> rol28 i < 56" and ror28_lt [simp]: "i < 56 \<Longrightarrow> ror28 i < 56"
  by (auto simp: rol28_def ror28_def)

lemma rol28_0: "n \<le> 7 \<Longrightarrow> (rol28 ^^ n) 0 = n" and ror28_55: "n \<le> 7 \<Longrightarrow> (ror28 ^^ n) 55 = 55 - n"
  by (induction n) (auto simp: rol28_def ror28_def)

lemma shl_many:
  assumes "n \<le> 7" "length key = 7"
  shows "length (fst ((shl_once ^^ n) (key, key ! 0))) = 7 \<and>
    snd ((shl_once ^^ n) (key, key ! 0)) = push_bit n (key ! 0) \<and>
    (\<forall>i < 56. gbit (fst ((shl_once ^^ n) (key, key ! 0))) i = gbit key ((rol28 ^^ n) i))"
  using assms(1)
proof (induction n)
  case 0
  then show ?case using assms by simp
next
  case (Suc n)
  obtain k keep where s: "(shl_once ^^ n) (key, key ! 0) = (k, keep)" by force
  have IH: "length k = 7" "keep = push_bit n (key ! 0)" "\<And>i. i < 56 \<Longrightarrow> gbit k i = gbit key ((rol28 ^^ n) i)"
    using Suc by (simp_all add: s)
  have "bit keep 7 = gbit key n"
    using Suc.prems unfolding IH(2) by (simp only: bit_push_bit_iff) (simp add: gbit_def)
  then have "bit keep 7 = gbit k 0"
    using IH(3) [of 0] Suc.prems by (simp add: rol28_0)
  note this [simp]
  have "push_bit 1 keep = push_bit (Suc n) (key ! 0)"
    unfolding IH(2) by (simp only: push_bit_push_bit) simp
  then show ?case
    using IH(1,3) by (simp add: s length_shl_once gbit_shl_once funpow_swap1 del: push_bit_Suc)
qed

lemma shr_many:
  assumes "n \<le> 7" "length key = 7"
  shows "length (fst ((shr_once ^^ n) (key, key ! 6))) = 7 \<and>
    snd ((shr_once ^^ n) (key, key ! 6)) = drop_bit n (key ! 6) \<and>
    (\<forall>i < 56. gbit (fst ((shr_once ^^ n) (key, key ! 6))) i = gbit key ((ror28 ^^ n) i))"
  using assms(1)
proof (induction n)
  case 0
  then show ?case using assms by simp
next
  case (Suc n)
  obtain k keep where s: "(shr_once ^^ n) (key, key ! 6) = (k, keep)" by force
  have IH: "length k = 7" "keep = drop_bit n (key ! 6)" "\<And>i. i < 56 \<Longrightarrow> gbit k i = gbit key ((ror28 ^^ n) i)"
    using Suc by (simp_all add: s)
  have "bit keep 0 = gbit key (55 - n)"
    using Suc.prems gbit_byte [of n key 6] unfolding IH(2) by (simp add: bit_drop_bit_eq)
  then have "bit keep 0 = gbit k 55"
    using IH(3) [of 55] Suc.prems by (simp add: ror28_55)
  note this [simp]
  have "drop_bit 1 keep = drop_bit (Suc n) (key ! 6)"
    unfolding IH(2) by (simp only: drop_bit_drop_bit) simp
  then show ?case
    using IH(1,3) by (simp add: s length_shr_once gbit_shr_once funpow_swap1 del: drop_bit_Suc)
qed

lemma KeyShift_bits:
  assumes "n \<le> 2" "length key = 7"
  shows "length (KeyShift key n) = 7" "i < 56 \<Longrightarrow> gbit (KeyShift key n) i = gbit key ((rol28 ^^ n) i)"
    "length (KeyShiftRight key n) = 7" "i < 56 \<Longrightarrow> gbit (KeyShiftRight key n) i = gbit key ((ror28 ^^ n) i)"
  using shl_many [of n key] shr_many [of n key] assms by (simp_all add: KeyShift_def KeyShiftRight_def)

lemma rol_ror: "n \<le> 2 \<Longrightarrow> i < 56 \<Longrightarrow> (rol28 ^^ n) ((ror28 ^^ n) i) = i"
  by (cases "n = 0"; cases "n = 1"; cases "n = 2") (auto simp: numeral_2_eq_2 rol28_def ror28_def)

lemma ror28_funpow_lt: "i < 56 \<Longrightarrow> (ror28 ^^ n) i < 56" and rol28_funpow_lt: "i < 56 \<Longrightarrow> (rol28 ^^ n) i < 56"
  by (induction n) auto

lemma KeyShiftRight_KeyShift:
  assumes "n \<le> 2" "length key = 7"
  shows "KeyShiftRight (KeyShift key n) n = key"
proof (rule bytes_eqI)
  fix i assume "i < 8 * length (KeyShiftRight (KeyShift key n) n)"
  then have "i < 56" using assms by (simp add: KeyShift_bits)
  then show "gbit (KeyShiftRight (KeyShift key n) n) i = gbit key i"
    using assms by (simp add: KeyShift_bits ror28_funpow_lt rol_ror)
qed (use assms in \<open>simp add: KeyShift_bits\<close>)

section \<open>The key schedule\<close>

text \<open>The encoder's key after \<open>n\<close> rounds and the decoder's key after \<open>n\<close> rounds.\<close>

primrec enc_key :: "u8 list \<Rightarrow> nat \<Rightarrow> u8 list" where
  "enc_key K 0 = K"
| "enc_key K (Suc n) = KeyShift (enc_key K n) (KeyRotation ! n)"

primrec dec_key :: "u8 list \<Rightarrow> nat \<Rightarrow> u8 list" where
  "dec_key K 0 = K"
| "dec_key K (Suc n) = KeyShiftRight (dec_key K n) (KeyRotationRight ! n)"

lemma rotations_small: "list_all (\<lambda>r. r \<le> 2) KeyRotation" "length KeyRotation = 16" "sum_list KeyRotation = 28"
  by (simp_all add: KeyRotation_def)

lemma rotation_le: "n < 16 \<Longrightarrow> KeyRotation ! n \<le> 2"
  using rotations_small by (simp add: list_all_length)

lemma rotation_reversed: "list_all (\<lambda>n. KeyRotationRight ! Suc n = KeyRotation ! (15 - n)) [0 ..< 15]"
  by code_simp

lemma rol28_funpow: "i < 28 \<Longrightarrow> (rol28 ^^ n) i = (i + n) mod 28 \<and> (rol28 ^^ n) (28 + i) = 28 + (i + n) mod 28"
proof (induction n)
  case (Suc n)
  then show ?case
    using mod_less_divisor [of 28 "i + n"] by (auto simp: rol28_def mod_Suc)
qed simp

lemma full_turn: "i < 56 \<Longrightarrow> (rol28 ^^ 28) i = i"
  using rol28_funpow [of i 28] rol28_funpow [of "i - 28" 28] by (cases "i < 28") (simp_all add: mod_if [of i])

lemma enc_key_bits:
  assumes "n \<le> 16" "length K = 7"
  shows "length (enc_key K n) = 7 \<and>
    (\<forall>i < 56. gbit (enc_key K n) i = gbit K ((rol28 ^^ sum_list (take n KeyRotation)) i))"
  using assms(1)
proof (induction n)
  case (Suc n)
  then have "take (Suc n) KeyRotation = take n KeyRotation @ [KeyRotation ! n]"
    by (simp add: take_Suc_conv_app_nth rotations_small)
  then show ?case
    using Suc rotation_le [of n]
    by (simp add: KeyShift_bits rol28_funpow_lt funpow_add)
qed (simp add: assms)

lemma enc_key_circle:
  assumes "length K = 7"
  shows "enc_key K 16 = K"
proof (rule bytes_eqI)
  fix i assume "i < 8 * length (enc_key K 16)"
  then have i: "i < 56" using enc_key_bits [of 16 K] assms by simp
  then have "gbit (enc_key K 16) i = gbit K ((rol28 ^^ 28) i)"
    using enc_key_bits [of 16 K] assms rotations_small by simp
  also have "(rol28 ^^ 28) i = i" using full_turn i by blast
  finally show "gbit (enc_key K 16) i = gbit K i" .
qed (use enc_key_bits [of 16 K] assms in simp)

lemma dec_key_enc_key:
  assumes "length K = 7" "n < 16"
  shows "dec_key K (Suc n) = enc_key K (16 - n)"
  using assms(2)
proof (induction n)
  case 0
  then show ?case
    using enc_key_circle [OF assms(1)] by (simp add: KeyRotationRight_def KeyShiftRight_def)
next
  case (Suc n)
  let ?m = "15 - n"
  have "16 - n = Suc ?m" "?m < 16" "16 - Suc n = ?m" using Suc.prems by linarith+
  moreover have "KeyRotationRight ! Suc n = KeyRotation ! ?m"
    using rotation_reversed Suc.prems by (simp only: list_all_iff) simp
  ultimately show ?case
    using Suc enc_key_bits [of ?m K] assms(1) rotation_le [of ?m]
    by (simp add: KeyShiftRight_KeyShift)
qed

section \<open>The Feistel network\<close>

definition swap_halves :: "u8 list \<Rightarrow> u8 list" where
  "swap_halves D = drop 4 D @ take 4 D"

definition subkey :: "u8 list \<Rightarrow> u8 list" where
  "subkey K = Permute K KeyCompression 6"

definition des_with :: "u8 list list \<Rightarrow> u8 list \<Rightarrow> u8 list" where
  "des_with ks src = Permute (fold des_round ks (Permute src InitialPermuteMap 8)) FinalPermuteMap 8"

lemma encode_rounds:
  "fold encode_round [0 ..< n] (K, D) =
    (enc_key K n, fold des_round (map (\<lambda>i. subkey (enc_key K (Suc i))) [0 ..< n]) D)"
  by (induction n) (simp_all add: encode_round_def subkey_def Let_def)

lemma decode_rounds:
  "fold decode_round [0 ..< n] (K, D) =
    (dec_key K n, fold des_round (map (\<lambda>i. subkey (dec_key K (Suc i))) [0 ..< n]) D)"
  by (induction n) (simp_all add: decode_round_def subkey_def Let_def)

definition schedule :: "u8 list \<Rightarrow> u8 list list" where
  "schedule dkey =
    map (\<lambda>i. subkey (enc_key (Permute (cr_convert_key dkey) KeyPermuteMap 7) (Suc i))) [0 ..< 16]"

lemma encode_schedule: "cr_des_encode dkey src = des_with (schedule dkey) src"
  by (simp add: cr_des_encode_def encode_rounds des_with_def schedule_def Let_def)

lemma decode_schedule: "cr_des_decode dkey src = des_with (rev (schedule dkey)) src"
proof -
  let ?K = "Permute (cr_convert_key dkey) KeyPermuteMap 7"
  have "map (\<lambda>i. subkey (dec_key ?K (Suc i))) [0 ..< 16] = rev (schedule dkey)"
  proof (rule nth_equalityI)
    fix i assume "i < length (map (\<lambda>i. subkey (dec_key ?K (Suc i))) [0 ..< 16])"
    then have i: "i < 16" by simp
    then have "[0 ..< 16] ! (15 - i) = 15 - i" "Suc (15 - i) = 16 - i" by (simp_all add: nth_upt)
    then show "map (\<lambda>i. subkey (dec_key ?K (Suc i))) [0 ..< 16] ! i = rev (schedule dkey) ! i"
      using i dec_key_enc_key [of ?K i]
      by (simp add: schedule_def rev_nth del: dec_key.simps enc_key.simps)
  qed (simp add: schedule_def)
  then show ?thesis
    by (simp add: cr_des_decode_def decode_rounds des_with_def Let_def del: dec_key.simps upt_Suc)
qed

lemma length_des_round [simp]: "length D = 8 \<Longrightarrow> length (des_round k D) = 8"
  by (simp add: des_round_def Let_def des_xor_def)

lemma length_des_rounds [simp]: "length D = 8 \<Longrightarrow> length (fold des_round ks D) = 8"
  by (induction ks arbitrary: D) auto

lemma des_round_swap:
  assumes "length D = 8"
  shows "des_round k (swap_halves (des_round k D)) = swap_halves D"
proof -
  have x: "des_xor (des_xor (take 4 D) f 4) f 4 = take 4 D" for f
    using assms by (intro nth_equalityI) (simp_all add: des_xor_def xor.assoc)
  have "length (des_xor a b 4) = 4" for a b by (simp add: des_xor_def)
  then show ?thesis
    using assms by (simp add: des_round_def swap_halves_def Let_def x)
qed

lemma des_rounds_swap:
  "length D = 8 \<Longrightarrow> fold des_round (rev ks) (swap_halves (fold des_round ks D)) = swap_halves D"
  by (induction ks arbitrary: D) (simp_all add: des_round_swap)

text \<open>The final map composed with the initial one is the exchange of the halves, in both orders.\<close>

lemma gbit_swap_halves:
  assumes "length D = 8" "i < 64"
  shows "gbit (swap_halves D) i = gbit D ((i + 32) mod 64)"
proof (rule byte_index [of i])
  fix q r assume i: "i = 8 * q + r" "r < 8" "i div 8 = q" "i mod 8 = r"
  show ?thesis
  proof (cases "q < 4")
    case True
    then have "(i + 32) mod 64 = 8 * (q + 4) + r" using i by simp
    moreover have "(8 * (q + 4) + r) div 8 = q + 4" "(8 * (q + 4) + r) mod 8 = r"
      using i(2) mod_mult_self4 [of 8 "q + 4" r] by (simp_all del: distrib_left_numeral mod_mult_self4)
    ultimately have "gbit D ((i + 32) mod 64) = bit (D ! (q + 4)) (7 - r)"
      by (simp only: gbit_def)
    then show ?thesis
      using True assms i(3,4) by (simp add: gbit_def swap_halves_def nth_append add.commute)
  next
    case False
    then have "i + 32 = 8 * (q - 4) + r + 64" "8 * (q - 4) + r < 64" using i(1) assms(2) by simp_all
    then have "(i + 32) mod 64 = 8 * (q - 4) + r" by (simp only: mod_add_self2 mod_less)
    moreover have "(8 * (q - 4) + r) div 8 = q - 4" "(8 * (q - 4) + r) mod 8 = r" using i(2) by simp_all
    ultimately show ?thesis
      using False assms i by (simp add: gbit_def swap_halves_def nth_append)
  qed
qed

lemma final_initial: "list_all (\<lambda>i. FinalPermuteMap ! (InitialPermuteMap ! i) = (i + 32) mod 64 \<and>
    InitialPermuteMap ! i < 64 \<and> InitialPermuteMap ! ((FinalPermuteMap ! i + 32) mod 64) = i \<and>
    FinalPermuteMap ! i < 64) [0 ..< 64]"
  by code_simp

lemma final_initial_at:
  assumes "i < 64"
  shows "FinalPermuteMap ! (InitialPermuteMap ! i) = (i + 32) mod 64" "InitialPermuteMap ! i < 64"
    "InitialPermuteMap ! ((FinalPermuteMap ! i + 32) mod 64) = i" "FinalPermuteMap ! i < 64"
  using final_initial assms unfolding list_all_iff by simp_all

lemma length_swap_halves: "length D = 8 \<Longrightarrow> length (swap_halves D) = 8"
  by (simp add: swap_halves_def)

lemma initial_of_final:
  "length D = 8 \<Longrightarrow> Permute (Permute D FinalPermuteMap 8) InitialPermuteMap 8 = swap_halves D"
  by (rule bytes_eqI) (simp_all add: gbit_swap_halves final_initial_at length_swap_halves)

lemma final_of_initial:
  assumes "length src = 8"
  shows "Permute (swap_halves (Permute src InitialPermuteMap 8)) FinalPermuteMap 8 = src"
  by (rule bytes_eqI) (simp_all add: assms gbit_swap_halves final_initial_at)

lemma des_with_rev: "length src = 8 \<Longrightarrow> des_with (rev ks) (des_with ks src) = src"
  by (simp add: des_with_def initial_of_final des_rounds_swap final_of_initial)

lemma length_des_with [simp]: "length (des_with ks src) = 8"
  by (simp add: des_with_def)

lemma decode_encode: "length src = 8 \<Longrightarrow> cr_des_decode key (cr_des_encode key src) = src"
  by (simp add: encode_schedule decode_schedule des_with_rev)

lemma encode_decode: "length src = 8 \<Longrightarrow> cr_des_encode key (cr_des_decode key src) = src"
  using des_with_rev [of src "rev (schedule key)"] by (simp add: encode_schedule decode_schedule)

lemma length_des [simp]: "length (cr_des_encode key src) = 8" "length (cr_des_decode key src) = 8"
  by (simp_all add: encode_schedule decode_schedule)

lemma map8to7_lt: "i < 56 \<Longrightarrow> map8to7 ! i < 64"
proof -
  have "list_all (\<lambda>b. b < 64) map8to7" "length map8to7 = 56" by (simp_all add: map8to7_def)
  then show "i < 56 \<Longrightarrow> map8to7 ! i < 64" by (simp add: list_all_length)
qed

lemma convert_key_append [simp]:
  assumes "length k = 8"
  shows "cr_convert_key (k @ x) = cr_convert_key k"
proof (rule bytes_eqI)
  fix i assume "i < 8 * length (cr_convert_key (k @ x))"
  then have "i < 56" "map8to7 ! i div 8 < length k"
    using map8to7_lt [of i] assms by (simp_all add: cr_convert_key_def)
  then show "gbit (cr_convert_key (k @ x)) i = gbit (cr_convert_key k) i"
    by (simp add: cr_convert_key_def) (simp add: gbit_def nth_append)
qed (simp add: cr_convert_key_def)

lemma des_append [simp]:
  assumes "length k = 8"
  shows "cr_des_encode (k @ x) = cr_des_encode k" "cr_des_decode (k @ x) = cr_des_decode k"
  using assms by (simp_all add: fun_eq_iff cr_des_encode_def cr_des_decode_def)

lemma GETBIT_eq: "gbit a i = gbit b j \<Longrightarrow> GETBIT a i = GETBIT b j"
  by (simp add: gbit_def GETBIT_def and_one_eq mod_2_eq_odd bit_iff_odd_drop_bit del: drop_bit_eq_div)

section \<open>A test vector\<close>

text \<open>
  A published example of DES, worked through the code: the subkeys are read off the permuted key with rotated
  indices, and the sixteen rounds are evaluated.
\<close>

definition rotated_map :: "nat \<Rightarrow> nat list" where
  "rotated_map s = map (\<lambda>i. if i < 28 then (i + s) mod 28 else 28 + (i - 28 + s) mod 28) KeyCompression"

lemma compression_lt: "list_all (\<lambda>i. i < 56) KeyCompression" "length KeyCompression = 48"
  by (simp_all add: KeyCompression_def)

lemma subkey_rotated:
  assumes "n \<le> 16" "length K = 7"
  shows "subkey (enc_key K n) = Permute K (rotated_map (sum_list (take n KeyRotation))) 6"
proof (rule bytes_eqI)
  fix i assume "i < 8 * length (subkey (enc_key K n))"
  then have i: "i < 48" by (simp add: subkey_def)
  then have c: "KeyCompression ! i < 56" using compression_lt by (simp add: list_all_length)
  let ?s = "sum_list (take n KeyRotation)"
  have "(rol28 ^^ ?s) (KeyCompression ! i) = rotated_map ?s ! i"
    using i c compression_lt(2) rol28_funpow [of "KeyCompression ! i" ?s] rol28_funpow [of "KeyCompression ! i - 28" ?s]
    by (cases "KeyCompression ! i < 28") (simp_all add: rotated_map_def)
  with i c enc_key_bits [OF assms] show "gbit (subkey (enc_key K n)) i = gbit (Permute K (rotated_map ?s) 6) i"
    by (simp add: subkey_def)
qed (simp add: subkey_def)

lemma test_key: "Permute (cr_convert_key [0x13, 0x34, 0x57, 0x79, 0x9B, 0xBC, 0xDF, 0xF1]) KeyPermuteMap 7 = [0xF0, 0xCC, 0xAA, 0xF5, 0x56, 0x67, 0x8F]"
  by code_simp

definition rotated_key :: "u8 list \<Rightarrow> nat \<Rightarrow> u8 list" where
  "rotated_key K s = Permute K (rotated_map s) 6"

lemma test_subkeys:
  "map (rotated_key [0xF0, 0xCC, 0xAA, 0xF5, 0x56, 0x67, 0x8F]) [1, 2, 4, 6, 8, 10, 12, 14, 15, 17, 19, 21, 23, 25, 27, 28] =
     [[0x1B, 0x02, 0xEF, 0xFC, 0x70, 0x72], [0x79, 0xAE, 0xD9, 0xDB, 0xC9, 0xE5], [0x55, 0xFC, 0x8A, 0x42, 0xCF, 0x99],
      [0x72, 0xAD, 0xD6, 0xDB, 0x35, 0x1D], [0x7C, 0xEC, 0x07, 0xEB, 0x53, 0xA8], [0x63, 0xA5, 0x3E, 0x50, 0x7B, 0x2F],
      [0xEC, 0x84, 0xB7, 0xF6, 0x18, 0xBC], [0xF7, 0x8A, 0x3A, 0xC1, 0x3B, 0xFB], [0xE0, 0xDB, 0xEB, 0xED, 0xE7, 0x81],
      [0xB1, 0xF3, 0x47, 0xBA, 0x46, 0x4F], [0x21, 0x5F, 0xD3, 0xDE, 0xD3, 0x86], [0x75, 0x71, 0xF5, 0x94, 0x67, 0xE9],
      [0x97, 0xC5, 0xD1, 0xFA, 0xBA, 0x41], [0x5F, 0x43, 0xB7, 0xF2, 0xE7, 0x3A], [0xBF, 0x91, 0x8D, 0x3D, 0x3F, 0x0A],
      [0xCB, 0x3D, 0x8B, 0x0E, 0x17, 0xF5]]"
  by code_simp

lemma rotation_sums:
  "map (\<lambda>i. sum_list (take (Suc i) KeyRotation)) [0 ..< 16] = [1, 2, 4, 6, 8, 10, 12, 14, 15, 17, 19, 21, 23, 25, 27, 28]"
  by (simp add: KeyRotation_def upt_rec)

lemma test_schedule:
  "schedule [0x13, 0x34, 0x57, 0x79, 0x9B, 0xBC, 0xDF, 0xF1] =
     [[0x1B, 0x02, 0xEF, 0xFC, 0x70, 0x72], [0x79, 0xAE, 0xD9, 0xDB, 0xC9, 0xE5], [0x55, 0xFC, 0x8A, 0x42, 0xCF, 0x99],
      [0x72, 0xAD, 0xD6, 0xDB, 0x35, 0x1D], [0x7C, 0xEC, 0x07, 0xEB, 0x53, 0xA8], [0x63, 0xA5, 0x3E, 0x50, 0x7B, 0x2F],
      [0xEC, 0x84, 0xB7, 0xF6, 0x18, 0xBC], [0xF7, 0x8A, 0x3A, 0xC1, 0x3B, 0xFB], [0xE0, 0xDB, 0xEB, 0xED, 0xE7, 0x81],
      [0xB1, 0xF3, 0x47, 0xBA, 0x46, 0x4F], [0x21, 0x5F, 0xD3, 0xDE, 0xD3, 0x86], [0x75, 0x71, 0xF5, 0x94, 0x67, 0xE9],
      [0x97, 0xC5, 0xD1, 0xFA, 0xBA, 0x41], [0x5F, 0x43, 0xB7, 0xF2, 0xE7, 0x3A], [0xBF, 0x91, 0x8D, 0x3D, 0x3F, 0x0A],
      [0xCB, 0x3D, 0x8B, 0x0E, 0x17, 0xF5]]"
proof -
  let ?K = "[0xF0, 0xCC, 0xAA, 0xF5, 0x56, 0x67, 0x8F] :: u8 list"
  have "subkey (enc_key ?K (Suc i)) = rotated_key ?K (sum_list (take (Suc i) KeyRotation))" if "i < 16" for i
    unfolding rotated_key_def by (rule subkey_rotated) (use that in simp_all)
  then have "schedule [0x13, 0x34, 0x57, 0x79, 0x9B, 0xBC, 0xDF, 0xF1] = map (\<lambda>i. rotated_key ?K (sum_list (take (Suc i) KeyRotation))) [0 ..< 16]"
    unfolding schedule_def test_key by (intro map_cong) (simp_all del: enc_key.simps)
  also have "\<dots> = map (rotated_key ?K) (map (\<lambda>i. sum_list (take (Suc i) KeyRotation)) [0 ..< 16])" by simp
  finally show ?thesis unfolding rotation_sums test_subkeys .
qed

lemma des_test_vector:
  "cr_des_encode [0x13, 0x34, 0x57, 0x79, 0x9B, 0xBC, 0xDF, 0xF1] [0x01, 0x23, 0x45, 0x67, 0x89, 0xAB, 0xCD, 0xEF] = [0x85, 0xE8, 0x13, 0x54, 0x0F, 0x0A, 0xB4, 0x05]"
  unfolding encode_schedule test_schedule by code_simp

section \<open>Properties\<close>

text \<open>The key rotations. Shifting the seven byte key by one or two bits rotates each of its 28 bit halves
  to the left, bit 0 being the highest bit of byte 0, and shifting right by as much restores the key.\<close>
theorem KeyShift_rotates:
  assumes "length key = 7" "n \<le> 2" "i < 28"
  shows "GETBIT (KeyShift key n) i = GETBIT key ((i + n) mod 28) \<and>
    GETBIT (KeyShift key n) (28 + i) = GETBIT key (28 + (i + n) mod 28) \<and>
    KeyShiftRight (KeyShift key n) n = key"
  using assms rol28_funpow [of i n]
  by (auto intro!: GETBIT_eq simp: KeyShift_bits KeyShiftRight_KeyShift)

theorem KeyShift_rotates_witness:
  "GETBIT (KeyShift [0x80, 0, 0, 0, 0, 0, 1] 2) 26 = GETBIT [0x80, 0, 0, 0, 0, 0, 1] 0 \<and>
    GETBIT [0x80, 0, 0, 0, 0, 0, 1] 0 = 1"
  using KeyShift_rotates [of "[0x80, 0, 0, 0, 0, 0, 1]" 2 26] by (simp add: GETBIT_def)



text \<open>Triple DES round trip. With two keys and with three keys, decoding inverts encoding on every
  block; with the same eight bytes in every key position both are single DES.\<close>
theorem cr_tdes_roundtrip:
  assumes "length src = 8"
  shows "cr_tdes2_decode key (cr_tdes2_encode key src) = src \<and>
    cr_tdes3_decode key (cr_tdes3_encode key src) = src \<and>
    (length k = 8 \<longrightarrow> cr_tdes2_encode (k @ k) src = cr_des_encode k src \<and>
      cr_tdes3_encode (k @ k @ k) src = cr_des_encode k src)"
  using assms by (simp add: cr_tdes2_decode_def cr_tdes2_encode_def cr_tdes3_decode_def cr_tdes3_encode_def
      decode_encode encode_decode)

theorem cr_tdes_roundtrip_witness:
  "cr_tdes2_decode (replicate 8 1 @ replicate 8 2) (cr_tdes2_encode (replicate 8 1 @ replicate 8 2) (replicate 8 0x5A))
      = replicate 8 0x5A \<and>
    cr_tdes3_encode (replicate 8 1 @ replicate 8 1 @ replicate 8 1) (replicate 8 0x5A) =
      cr_des_encode (replicate 8 1) (replicate 8 0x5A)"
  using cr_tdes_roundtrip [of "replicate 8 0x5A" "replicate 8 1 @ replicate 8 2" "replicate 8 1"]
  by simp

end
