(* ===== verification/CR_Crypt.thy ===== *)
theory CR_Crypt
  imports CR_AES CR_DES
begin

text \<open>
  The crypto context and its bulk operation, \<^verbatim>\<open>crypto/src/cr_core.c\<close> and \<^verbatim>\<open>crypto/src/cr_crypt.c\<close>.
  A context carries the two callbacks that move bytes between its handle and a local buffer; the handle of
  \<^verbatim>\<open>cr_init_context\<close> is a pointer into memory, and the bytes from that pointer to the end of its object are
  a list. A read or write outside the list is an error value. Offsets are 16 bit words, so \<^verbatim>\<open>offset + j\<close>
  wraps where it is passed to a callback.
\<close>

section \<open>Contexts\<close>

definition CR_MODE_DES :: u8 where "CR_MODE_DES = 0"
definition CR_MODE_DES2 :: u8 where "CR_MODE_DES2 = 1"
definition CR_MODE_DES3 :: u8 where "CR_MODE_DES3 = 2"
definition CR_MODE_AES :: u8 where "CR_MODE_AES = 3"
definition CR_MODE_CBC :: u8 where "CR_MODE_CBC = 0x40"
definition CR_MODE_ENCRYPT :: u8 where "CR_MODE_ENCRYPT = 0x80"

record 'h cr_context =
  cx_handle :: 'h
  cx_read :: "'h \<Rightarrow> u16 \<Rightarrow> nat \<Rightarrow> u8 list result"
  cx_write :: "'h \<Rightarrow> u16 \<Rightarrow> u8 list \<Rightarrow> 'h result"
  cx_icv :: "u8 list"
  cx_mode :: u8
  cx_key :: "u8 list option"

definition put_at :: "nat \<Rightarrow> u8 list \<Rightarrow> u8 list \<Rightarrow> u8 list" where
  "put_at a xs mem = take a mem @ xs @ drop (a + length xs) mem"

definition cr_mem_read :: "u8 list \<Rightarrow> u16 \<Rightarrow> nat \<Rightarrow> u8 list result" where
  "cr_mem_read handle offset len =
    (if unat offset + len \<le> length handle then Inr (take len (drop (unat offset) handle)) else Inl Out_Of_Bounds)"

definition cr_mem_write :: "u8 list \<Rightarrow> u16 \<Rightarrow> u8 list \<Rightarrow> u8 list result" where
  "cr_mem_write handle offset buffer =
    (if unat offset + length buffer \<le> length handle then Inr (put_at (unat offset) buffer handle)
     else Inl Out_Of_Bounds)"

definition cr_init_context :: "u8 list \<Rightarrow> u8 list cr_context" where
  "cr_init_context handle =
    \<lparr>cx_handle = handle, cx_read = cr_mem_read, cx_write = cr_mem_write, cx_icv = replicate 16 0, cx_mode = 0,
     cx_key = None\<rparr>"

definition cr_init_crypt :: "u8 \<Rightarrow> u8 list \<Rightarrow> u8 list cr_context" where
  "cr_init_crypt mode src = (cr_init_context src)\<lparr>cx_mode := mode\<rparr>"

definition cr_init_crc :: "u8 list \<Rightarrow> u8 list cr_context" where
  "cr_init_crc src = cr_init_context src"

definition cr_init_mac :: "u8 \<Rightarrow> u8 list \<Rightarrow> u8 list cr_context" where
  "cr_init_mac mode src = (cr_init_context src)\<lparr>cx_mode := mode\<rparr>"

definition cr_set_key :: "u8 list option \<Rightarrow> 'h cr_context \<Rightarrow> 'h cr_context" where
  "cr_set_key key ctx = ctx\<lparr>cx_key := key\<rparr>"

definition cr_set_iv :: "u8 list \<Rightarrow> 'h cr_context \<Rightarrow> 'h cr_context" where
  "cr_set_iv icv ctx = ctx\<lparr>cx_icv := put_at 0 (take 8 icv) (cx_icv ctx)\<rparr>"

section \<open>Bulk encryption and decryption\<close>

text \<open>An entry of the codec tables. The entry point reads a fixed number of bytes of the key; with a shorter
  key array it reads outside the array.\<close>

record cr_codec_entry =
  bsize :: nat
  entry :: "(u8 list \<Rightarrow> u8 list \<Rightarrow> u8 list result) option"

definition with_key :: "nat \<Rightarrow> (u8 list \<Rightarrow> u8 list \<Rightarrow> u8 list) \<Rightarrow> u8 list \<Rightarrow> u8 list \<Rightarrow> u8 list result" where
  "with_key n f key src = (if length key < n then Inl Out_Of_Bounds else Inr (f key src))"

definition g_fnRegisteredDecoder :: "cr_codec_entry list" where
  "g_fnRegisteredDecoder =
    [\<lparr>bsize = 8, entry = Some (with_key 8 cr_des_decode)\<rparr>,
     \<lparr>bsize = 8, entry = Some (with_key 16 cr_tdes2_decode)\<rparr>,
     \<lparr>bsize = 8, entry = Some (with_key 24 cr_tdes3_decode)\<rparr>,
     \<lparr>bsize = 16, entry = Some (with_key 16 (\<lambda>key src. fst (cr_aes_decode key src)))\<rparr>,
     \<lparr>bsize = 0, entry = None\<rparr>]"

definition g_fnRegisteredEncoder :: "cr_codec_entry list" where
  "g_fnRegisteredEncoder =
    [\<lparr>bsize = 8, entry = Some (with_key 8 cr_des_encode)\<rparr>,
     \<lparr>bsize = 8, entry = Some (with_key 16 cr_tdes2_encode)\<rparr>,
     \<lparr>bsize = 8, entry = Some (with_key 24 cr_tdes3_encode)\<rparr>,
     \<lparr>bsize = 16, entry = Some (with_key 16 (\<lambda>key src. fst (cr_aes_encode key src)))\<rparr>,
     \<lparr>bsize = 0, entry = None\<rparr>]"

definition CR_FILE_BUFFER_SIZE :: nat where "CR_FILE_BUFFER_SIZE = 32"

definition mode_index :: "u8 \<Rightarrow> nat" where "mode_index mode = unat (mode AND 0x3F)"
definition is_encrypt :: "u8 \<Rightarrow> bool" where "is_encrypt mode = (mode AND CR_MODE_ENCRYPT \<noteq> 0)"
definition is_cbc :: "u8 \<Rightarrow> bool" where "is_cbc mode = (mode AND CR_MODE_CBC \<noteq> 0)"

definition call_entry :: "cr_codec_entry \<Rightarrow> u8 list option \<Rightarrow> u8 list \<Rightarrow> u8 list result" where
  "call_entry e key blk =
    (case entry e of None \<Rightarrow> Inr blk
     | Some f \<Rightarrow> (case key of None \<Rightarrow> Inl Null_Deref | Some k \<Rightarrow> f k blk))"

text \<open>The body of the inner loop on the block \<open>blk\<close> at \<^verbatim>\<open>buffer + k\<close> and on \<^verbatim>\<open>cbc_buffer\<close>. \<open>None\<close> is the
  early return of 0 for an entry with block size 0.\<close>

definition crypt_block :: "u8 \<Rightarrow> u8 list option \<Rightarrow> u8 list \<Rightarrow> u8 list \<Rightarrow> (u8 list \<times> u8 list) option result" where
  "crypt_block mode key cbc blk =
    (if is_encrypt mode then
       let e = g_fnRegisteredEncoder ! mode_index mode;
           blk = (if is_cbc mode then map2 (XOR) blk cbc else blk) in
       if bsize e = 0 then Inr None else
       bind_r (call_entry e key blk) (\<lambda>blk.
         Inr (Some (blk, if is_cbc mode then put_at 0 blk cbc else cbc)))
     else
       let e = g_fnRegisteredDecoder ! mode_index mode; cbc2 = blk in
       if bsize e = 0 then Inr None else
       bind_r (call_entry e key blk) (\<lambda>blk.
         Inr (Some (if is_cbc mode then (map2 (XOR) blk cbc, put_at 0 cbc2 cbc) else (blk, cbc)))))"

text \<open>The inner loop, from position \<open>k\<close> of the buffer read at \<open>j\<close>.\<close>

function crypt_blocks ::
  "u8 \<Rightarrow> u8 list option \<Rightarrow> nat \<Rightarrow> nat \<Rightarrow> nat \<Rightarrow> u8 list \<Rightarrow> u8 list \<Rightarrow> (nat \<times> u8 list \<times> u8 list) option result" where
  "crypt_blocks mode key len j k cbc buffer =
    (let bs = bsize (g_fnRegisteredEncoder ! mode_index mode) in
     if k < CR_FILE_BUFFER_SIZE \<and> j + k < len then
       bind_r (crypt_block mode key cbc (take bs (drop k buffer))) (\<lambda>r.
         case r of None \<Rightarrow> Inr None
         | Some (blk, cbc) \<Rightarrow>
             if bs = 0 then Inr None
             else crypt_blocks mode key len j (k + bs) cbc (put_at k blk buffer))
     else Inr (Some (k, cbc, buffer)))"
  by auto

termination crypt_blocks
  by (relation "measure (\<lambda>(mode, key, len, j, k, cbc, buffer). CR_FILE_BUFFER_SIZE - k)") auto

declare crypt_blocks.simps [simp del]

text \<open>The outer loop. \<^verbatim>\<open>j\<close> is a 16 bit word: for lengths above 65504 it wraps to 0 before it reaches the
  length, and the loop does not end. The value after the loop is \<^verbatim>\<open>(j - 32) + k\<close>; with length 0 the variable \<open>k\<close>
  was never set.\<close>

partial_function (option) crypt_loop ::
  "'h cr_context \<Rightarrow> u16 \<Rightarrow> u16 \<Rightarrow> u16 \<Rightarrow> nat option \<Rightarrow> u8 list \<Rightarrow> ('h cr_context \<times> u16) result option" where
  "crypt_loop ctx offset len j k cbc =
    (if j < len then
       case cx_read ctx (cx_handle ctx) (offset + j) CR_FILE_BUFFER_SIZE of
         Inl e \<Rightarrow> Some (Inl e)
       | Inr buffer \<Rightarrow>
           (case crypt_blocks (cx_mode ctx) (cx_key ctx) (unat len) (unat j) 0 cbc buffer of
              Inl e \<Rightarrow> Some (Inl e)
            | Inr None \<Rightarrow> Some (Inr (ctx, 0))
            | Inr (Some (k', cbc', buffer')) \<Rightarrow>
                (case cx_write ctx (cx_handle ctx) (offset + j) (take k' buffer') of
                   Inl e \<Rightarrow> Some (Inl e)
                 | Inr h \<Rightarrow> crypt_loop (ctx\<lparr>cx_handle := h\<rparr>) offset len (j + 32) (Some k') cbc'))
     else
       (case k of None \<Rightarrow> Some (Inl Undefined_Value)
        | Some k' \<Rightarrow> Some (Inr (ctx, j - 32 + of_nat k'))))"

definition cr_do_crypt :: "'h cr_context \<Rightarrow> u16 \<Rightarrow> u16 \<Rightarrow> ('h cr_context \<times> u16) result option" where
  "cr_do_crypt ctx offset len =
    (if mode_index (cx_mode ctx) < length g_fnRegisteredEncoder \<or> len = 0
     then crypt_loop ctx offset len 0 None (replicate 16 0)
     else Some (Inl Out_Of_Bounds))"


section \<open>The chaining modes\<close>

text \<open>The specification of the bulk operation: a step on one block and the chaining buffer, and its iteration
  over a number of blocks.\<close>

definition enc_step :: "(u8 list \<Rightarrow> u8 list) \<Rightarrow> bool \<Rightarrow> u8 list \<Rightarrow> u8 list \<Rightarrow> u8 list \<times> u8 list" where
  "enc_step f cbc iv b =
    (let c = f (if cbc then map2 (XOR) b iv else b) in (c, if cbc then put_at 0 c iv else iv))"

definition dec_step :: "(u8 list \<Rightarrow> u8 list) \<Rightarrow> bool \<Rightarrow> u8 list \<Rightarrow> u8 list \<Rightarrow> u8 list \<times> u8 list" where
  "dec_step g cbc iv c = (if cbc then (map2 (XOR) (g c) iv, put_at 0 c iv) else (g c, iv))"

primrec crypt_stream ::
  "(u8 list \<Rightarrow> u8 list \<Rightarrow> u8 list \<times> u8 list) \<Rightarrow> nat \<Rightarrow> nat \<Rightarrow> u8 list \<Rightarrow> u8 list \<Rightarrow> u8 list \<times> u8 list" where
  "crypt_stream step bs 0 iv xs = ([], iv)"
| "crypt_stream step bs (Suc n) iv xs =
    (let (b, iv1) = step iv (take bs xs); (ys, iv2) = crypt_stream step bs n iv1 (drop bs xs) in (b @ ys, iv2))"

definition nblocks :: "nat \<Rightarrow> nat \<Rightarrow> nat" where
  "nblocks bs n = (n + bs - 1) div bs"

lemma nblocks_0 [simp]: "0 < bs \<Longrightarrow> nblocks bs 0 = 0"
  by (simp add: nblocks_def)

lemma nblocks_step: "0 < bs \<Longrightarrow> 0 < n \<Longrightarrow> nblocks bs n = Suc (nblocks bs (n - bs))"
proof -
  assume *: "0 < bs" "0 < n"
  show ?thesis
  proof (cases "bs \<le> n")
    case True
    then have "n + bs - 1 = (n - bs + bs - 1) + bs" using * by simp
    then show ?thesis using * by (simp only: nblocks_def div_add_self2)
  next
    case False
    then have "n + bs - 1 = (n - 1) + bs" "n - 1 < bs" using * by simp_all
    then have "nblocks bs n = 1" using * by (simp only: nblocks_def div_add_self2) simp
    then show ?thesis using False * by simp
  qed
qed

lemma length_put_at [simp]: "a + length xs \<le> length m \<Longrightarrow> length (put_at a xs m) = length m"
  by (simp add: put_at_def)

lemma drop_put_at: "a + length xs \<le> length m \<Longrightarrow> a + length xs \<le> b \<Longrightarrow> drop b (put_at a xs m) = drop b m"
  by (simp add: put_at_def)

lemma put_at_put_at:
  assumes "a + length xs + length ys \<le> length m"
  shows "put_at (a + length xs) ys (put_at a xs m) = put_at a (xs @ ys) m"
  using assms by (simp add: put_at_def ac_simps)

lemma stream_add:
  "crypt_stream step bs (m + n) iv xs =
    (let (ys, iv1) = crypt_stream step bs m iv xs; (zs, iv2) = crypt_stream step bs n iv1 (drop (m * bs) xs)
     in (ys @ zs, iv2))"
proof (induction m arbitrary: iv xs)
  case (Suc m)
  then show ?case by (simp add: split_def Let_def add.commute)
qed (simp add: split_def)

text \<open>Lengths are kept by a step that keeps them.\<close>

definition step_wf :: "(u8 list \<Rightarrow> u8 list \<Rightarrow> u8 list \<times> u8 list) \<Rightarrow> nat \<Rightarrow> bool" where
  "step_wf step bs \<longleftrightarrow> 0 < bs \<and> bs \<le> 16 \<and> (\<forall>iv b. length iv = 16 \<longrightarrow> length b = bs \<longrightarrow>
     length (fst (step iv b)) = bs \<and> length (snd (step iv b)) = 16)"

lemma stream_length:
  assumes "step_wf step bs" "length iv = 16" "n * bs \<le> length xs"
  shows "length (fst (crypt_stream step bs n iv xs)) = n * bs \<and> length (snd (crypt_stream step bs n iv xs)) = 16"
  using assms(2,3)
proof (induction n arbitrary: iv xs)
  case (Suc n)
  then have "length (fst (step iv (take bs xs))) = bs" "length (snd (step iv (take bs xs))) = 16"
    using assms(1) by (auto simp: step_wf_def)
  with Suc show ?case by (simp add: split_def Let_def)
qed simp

section \<open>Block ciphers\<close>

text \<open>What the bulk operation relies on of a codec: both directions keep the block length, and decoding
  inverts encoding. The round trip of the chaining modes is proved from this contract.\<close>

locale block_cipher =
  fixes bs :: nat and enc dec :: "u8 list \<Rightarrow> u8 list"
  assumes bs: "0 < bs" "bs \<le> 16"
    and enc_len: "length b = bs \<Longrightarrow> length (enc b) = bs"
    and dec_len: "length b = bs \<Longrightarrow> length (dec b) = bs"
    and dec_enc: "length b = bs \<Longrightarrow> dec (enc b) = b"
begin

lemma enc_wf: "step_wf (enc_step enc cbc) bs"
  using bs by (auto simp: step_wf_def enc_step_def Let_def enc_len)

lemma dec_wf: "step_wf (dec_step dec cbc) bs"
  using bs by (auto simp: step_wf_def dec_step_def dec_len)

lemma map2_xor_cancel:
  "length b \<le> length iv \<Longrightarrow> map2 (XOR) (map2 (XOR) b iv) iv = (b :: u8 list)"
  by (induction b iv rule: list_induct2') (auto simp: xor.assoc)

lemma step_inverse:
  assumes "length iv = 16" "length b = bs"
  shows "dec_step dec cbc iv (fst (enc_step enc cbc iv b)) = (b, snd (enc_step enc cbc iv b))"
  using assms bs by (simp add: enc_step_def dec_step_def Let_def dec_enc map2_xor_cancel)

lemma stream_inverse:
  assumes "length iv = 16" "n * bs \<le> length xs"
  shows "crypt_stream (dec_step dec cbc) bs n iv (fst (crypt_stream (enc_step enc cbc) bs n iv xs) @ zs) =
    (take (n * bs) xs, snd (crypt_stream (enc_step enc cbc) bs n iv xs))"
  using assms
proof (induction n arbitrary: iv xs)
  case (Suc n)
  obtain c iv1 where c: "enc_step enc cbc iv (take bs xs) = (c, iv1)" by force
  obtain ys iv2 where y: "crypt_stream (enc_step enc cbc) bs n iv1 (drop bs xs) = (ys, iv2)" by force
  have l: "length (take bs xs) = bs" using Suc.prems by simp
  have "length (fst (enc_step enc cbc iv (take bs xs))) = bs" "length (snd (enc_step enc cbc iv (take bs xs))) = 16"
    using enc_wf [of cbc] Suc.prems(1) l unfolding step_wf_def by blast+
  then have "length c = bs" "length iv1 = 16"
    by (simp_all add: c)
  moreover have "dec_step dec cbc iv c = (take bs xs, iv1)"
    using step_inverse [OF Suc.prems(1) l, of cbc] c by simp
  ultimately show ?case
    using Suc.IH [of iv1 "drop bs xs"] Suc.prems c y by (simp add: take_add)
qed simp

end

interpretation des: block_cipher 8 "cr_des_encode key" "cr_des_decode key" for key
  by unfold_locales (simp_all add: decode_encode)

interpretation tdes2: block_cipher 8 "cr_tdes2_encode key" "cr_tdes2_decode key" for key
  by unfold_locales (simp_all add: cr_tdes2_encode_def cr_tdes2_decode_def decode_encode encode_decode)

interpretation tdes3: block_cipher 8 "cr_tdes3_encode key" "cr_tdes3_decode key" for key
  by unfold_locales (simp_all add: cr_tdes3_encode_def cr_tdes3_decode_def decode_encode encode_decode)

interpretation aes: block_cipher 16 "\<lambda>src. fst (cr_aes_encode key src)" "\<lambda>src. fst (cr_aes_decode key src)" for key
  by unfold_locales (simp_all add: cr_aes_decode_def cr_aes_encode_def Let_def state_bytes InvCipher_inverse bytes_state)

section \<open>The loops implement the chaining modes\<close>

lemma stream_take: "n * bs \<le> m \<Longrightarrow> crypt_stream step bs n iv (take m xs) = crypt_stream step bs n iv xs"
proof (induction n arbitrary: iv xs m)
  case (Suc n)
  then have "take bs (take m xs) = take bs xs" "drop bs (take m xs) = take (m - bs) (drop bs xs)"
    by (simp_all add: drop_take min_def)
  with Suc show ?case by (simp add: split_def Let_def)
qed simp

definition block_len :: "u8 \<Rightarrow> nat" where
  "block_len mode = [8, 8, 8, 16] ! mode_index mode"

definition key_len :: "u8 \<Rightarrow> nat" where
  "key_len mode = [8, 16, 24, 16] ! mode_index mode"

definition encoder_fn :: "u8 \<Rightarrow> u8 list \<Rightarrow> u8 list \<Rightarrow> u8 list" where
  "encoder_fn mode key =
    [cr_des_encode key, cr_tdes2_encode key, cr_tdes3_encode key, \<lambda>src. fst (cr_aes_encode key src)] ! mode_index mode"

definition decoder_fn :: "u8 \<Rightarrow> u8 list \<Rightarrow> u8 list \<Rightarrow> u8 list" where
  "decoder_fn mode key =
    [cr_des_decode key, cr_tdes2_decode key, cr_tdes3_decode key, \<lambda>src. fst (cr_aes_decode key src)] ! mode_index mode"

definition mode_step :: "u8 \<Rightarrow> u8 list \<Rightarrow> u8 list \<Rightarrow> u8 list \<Rightarrow> u8 list \<times> u8 list" where
  "mode_step mode key = (if is_encrypt mode then enc_step (encoder_fn mode key) (is_cbc mode)
     else dec_step (decoder_fn mode key) (is_cbc mode))"

lemma mode_index_cases:
  assumes "mode_index mode < 4"
  obtains "mode_index mode = 0" | "mode_index mode = 1" | "mode_index mode = 2" | "mode_index mode = 3"
  using assms by linarith

lemma mode_cipher:
  assumes "mode_index mode < 4"
  shows "block_cipher (block_len mode) (encoder_fn mode key) (decoder_fn mode key)"
  using assms des.block_cipher_axioms tdes2.block_cipher_axioms tdes3.block_cipher_axioms aes.block_cipher_axioms
  by (cases rule: mode_index_cases) (simp_all add: block_len_def encoder_fn_def decoder_fn_def)

lemma codec_bsize:
  assumes "mode_index mode < 4"
  shows "bsize (g_fnRegisteredEncoder ! mode_index mode) = block_len mode"
    "bsize (g_fnRegisteredDecoder ! mode_index mode) = block_len mode"
  using assms by (cases rule: mode_index_cases; simp add: block_len_def g_fnRegisteredEncoder_def g_fnRegisteredDecoder_def)+

lemma block_len_pos: "mode_index mode < 4 \<Longrightarrow> 0 < block_len mode \<and> block_len mode dvd 32"
  by (erule mode_index_cases) (simp_all add: block_len_def)

lemma call_entry_fn:
  assumes "mode_index mode < 4" "key_len mode \<le> length key"
  shows "call_entry (g_fnRegisteredEncoder ! mode_index mode) (Some key) blk = Inr (encoder_fn mode key blk)"
    "call_entry (g_fnRegisteredDecoder ! mode_index mode) (Some key) blk = Inr (decoder_fn mode key blk)"
  using assms by (cases rule: mode_index_cases; simp add: key_len_def call_entry_def with_key_def encoder_fn_def decoder_fn_def
      g_fnRegisteredEncoder_def g_fnRegisteredDecoder_def)+

lemma crypt_block_step:
  assumes "mode_index mode < 4" "key_len mode \<le> length key"
  shows "crypt_block mode (Some key) cbc blk = Inr (Some (mode_step mode key cbc blk))"
  using block_len_pos [OF assms(1)]
  by (simp add: crypt_block_def codec_bsize [OF assms(1)] call_entry_fn [OF assms] mode_step_def enc_step_def
      dec_step_def Let_def)

lemma mode_step_wf: "mode_index mode < 4 \<Longrightarrow> step_wf (mode_step mode key) (block_len mode)"
  using mode_cipher [of mode key] by (auto simp: mode_step_def intro: block_cipher.enc_wf block_cipher.dec_wf)

text \<open>The inner loop from position \<open>k\<close>: the blocks of the chunk that start below the length are replaced.\<close>

lemma crypt_blocks_stream:
  assumes "mode_index mode < 4" "key_len mode \<le> length key"
  shows "block_len mode dvd k \<Longrightarrow> k \<le> 32 \<Longrightarrow> length buffer = 32 \<Longrightarrow> length cbc = 16 \<Longrightarrow>
    n = nblocks (block_len mode) (min (32 - k) (len - (j + k))) \<Longrightarrow>
    crypt_blocks mode (Some key) len j k cbc buffer =
      Inr (Some (k + n * block_len mode, snd (crypt_stream (mode_step mode key) (block_len mode) n cbc (drop k buffer)),
        put_at k (fst (crypt_stream (mode_step mode key) (block_len mode) n cbc (drop k buffer))) buffer)) \<and>
      k + n * block_len mode \<le> 32"
proof (induction "32 - k" arbitrary: k n cbc buffer rule: less_induct)
  case less
  let ?bs = "block_len mode" and ?step = "mode_step mode key"
  have bs: "0 < ?bs" "?bs dvd 32" using block_len_pos [OF assms(1)] by simp_all
  show ?case
  proof (cases "k < 32 \<and> j + k < len")
    case False
    then have "n = 0" using less.prems bs by auto
    then show ?thesis using False less.prems
      by (subst crypt_blocks.simps) (auto simp: CR_FILE_BUFFER_SIZE_def put_at_def)
  next
    case True
    have "?bs dvd 32 - k" using bs less.prems(1) by (simp add: dvd_diff_nat)
    then have "?bs \<le> 32 - k" using True by (intro dvd_imp_le) simp_all
    then have k: "k + ?bs \<le> 32" using True by linarith
    obtain b cbc1 where b: "?step cbc (take ?bs (drop k buffer)) = (b, cbc1)" by force
    have "length (fst (?step cbc (take ?bs (drop k buffer)))) = ?bs \<and> length (snd (?step cbc (take ?bs (drop k buffer)))) = 16"
      using mode_step_wf [OF assms(1), of key] less.prems k unfolding step_wf_def by simp
    then have len: "length b = ?bs" "length cbc1 = 16" by (simp_all add: b)
    define n1 where "n1 = nblocks ?bs (min (32 - (k + ?bs)) (len - (j + (k + ?bs))))"
    have "min (32 - k) (len - (j + k)) - ?bs = min (32 - (k + ?bs)) (len - (j + (k + ?bs)))" by linarith
    then have n: "n = Suc n1" using less.prems(5) nblocks_step [OF bs(1)] True by (simp add: n1_def)
    let ?b1 = "put_at k b buffer"
    have b1: "length ?b1 = 32" "drop (k + ?bs) ?b1 = drop (k + ?bs) buffer"
      using less.prems k len by (simp_all add: drop_put_at)
    have IH: "crypt_blocks mode (Some key) len j (k + ?bs) cbc1 ?b1 =
      Inr (Some (k + ?bs + n1 * ?bs, snd (crypt_stream ?step ?bs n1 cbc1 (drop (k + ?bs) buffer)),
        put_at (k + ?bs) (fst (crypt_stream ?step ?bs n1 cbc1 (drop (k + ?bs) buffer))) ?b1)) \<and>
      k + ?bs + n1 * ?bs \<le> 32"
      using less.hyps [of "k + ?bs" ?b1 cbc1 n1] less.prems True bs k len b1 n1_def by simp
    moreover have "length (fst (crypt_stream ?step ?bs n1 cbc1 (drop (k + ?bs) buffer))) = n1 * ?bs"
    proof -
      have "n1 * ?bs \<le> 32 - (k + ?bs)" using IH by linarith
      then have "n1 * ?bs \<le> length (drop (k + ?bs) buffer)" using less.prems by simp
      then show ?thesis using stream_length [OF mode_step_wf [OF assms(1)] len(2)] by blast
    qed
    moreover have "crypt_blocks mode (Some key) len j k cbc buffer = crypt_blocks mode (Some key) len j (k + ?bs) cbc1 ?b1"
      using True bs by (subst crypt_blocks.simps)
        (simp add: CR_FILE_BUFFER_SIZE_def codec_bsize [OF assms(1)] crypt_block_step [OF assms] b)
    ultimately show ?thesis
      using put_at_put_at [of k b "fst (crypt_stream ?step ?bs n1 cbc1 (drop (k + ?bs) buffer))" buffer] less.prems(2-4) len
      by (simp add: n b split_def Let_def add.commute [of ?bs k])
  qed
qed

section \<open>Storage behind a context\<close>

lemma nblocks_ge: "0 < bs \<Longrightarrow> x \<le> nblocks bs x * bs"
proof -
  assume "0 < bs"
  then have "(x + bs - 1) mod bs < bs" by simp
  then show ?thesis using div_mult_mod_eq [of "x + bs - 1" bs] \<open>0 < bs\<close> unfolding nblocks_def by linarith
qed

lemma nblocks_le: "0 < bs \<Longrightarrow> x \<le> q * bs \<Longrightarrow> nblocks bs x \<le> q"
proof -
  assume *: "0 < bs" "x \<le> q * bs"
  then have "x + bs - 1 < Suc q * bs" by simp
  then show ?thesis using * by (simp only: nblocks_def less_mult_imp_div_less less_Suc_eq_le [symmetric])
qed

lemma nblocks_bytes_le: "0 < bs \<Longrightarrow> bs dvd m \<Longrightarrow> 0 < m \<Longrightarrow> nblocks bs x * bs \<le> nblocks m x * m"
proof -
  assume *: "0 < bs" "bs dvd m" "0 < m"
  have e: "nblocks m x * (m div bs) * bs = nblocks m x * m" using * by (simp add: mult.assoc)
  have "x \<le> nblocks m x * (m div bs) * bs" unfolding e by (rule nblocks_ge [OF *(3)])
  from nblocks_le [OF *(1) this] have "nblocks bs x * bs \<le> nblocks m x * (m div bs) * bs" by simp
  then show ?thesis by (simp only: e)
qed

lemma nblocks_add: "0 < bs \<Longrightarrow> bs dvd m \<Longrightarrow> nblocks bs (m + x) = m div bs + nblocks bs x"
proof -
  assume *: "0 < bs" "bs dvd m"
  then have "m + x + bs - 1 = (x + bs - 1) + m div bs * bs" by simp
  then show ?thesis using * by (simp only: nblocks_def div_mult_self1)
qed

text \<open>What the bulk operation relies on of the two callbacks: a handle stands for a sequence of bytes, a read
  inside it returns them, a write inside it replaces them.\<close>

locale cr_storage =
  fixes rd :: "'h \<Rightarrow> u16 \<Rightarrow> nat \<Rightarrow> u8 list result"
    and wr :: "'h \<Rightarrow> u16 \<Rightarrow> u8 list \<Rightarrow> 'h result"
    and mem :: "'h \<Rightarrow> u8 list"
  assumes read_ok: "unat off + n \<le> length (mem h) \<Longrightarrow> rd h off n = Inr (take n (drop (unat off) (mem h)))"
    and write_ok: "unat off + length xs \<le> length (mem h) \<Longrightarrow>
      \<exists>h'. wr h off xs = Inr h' \<and> mem h' = put_at (unat off) xs (mem h)"
begin

text \<open>One chunk: what is read, how the inner loop changes it, what is written.\<close>

lemma crypt_chunk:
  assumes m: "mode_index (cx_mode ctx) < 4" "cx_key ctx = Some key" "key_len (cx_mode ctx) \<le> length key"
    and io: "cx_read ctx = rd" "cx_write ctx = wr"
    and j: "unat offset + unat j + 32 \<le> length (mem (cx_handle ctx))" "length (mem (cx_handle ctx)) \<le> 65536"
    and cbc: "length cbc = 16"
    and n: "n = nblocks (block_len (cx_mode ctx)) (min 32 (unat len - unat j))"
    and s: "crypt_stream (mode_step (cx_mode ctx) key) (block_len (cx_mode ctx)) n cbc
      (drop (unat offset + unat j) (mem (cx_handle ctx))) = (ys, cbc')"
  obtains buf buf' h where "cx_read ctx (cx_handle ctx) (offset + j) CR_FILE_BUFFER_SIZE = Inr buf"
    "crypt_blocks (cx_mode ctx) (cx_key ctx) (unat len) (unat j) 0 cbc buf =
      Inr (Some (n * block_len (cx_mode ctx), cbc', buf'))"
    "cx_write ctx (cx_handle ctx) (offset + j) (take (n * block_len (cx_mode ctx)) buf') = Inr h"
    "mem h = put_at (unat offset + unat j) ys (mem (cx_handle ctx))"
    "length ys = n * block_len (cx_mode ctx)" "length ys \<le> 32" "length cbc' = 16"
proof -
  let ?bs = "block_len (cx_mode ctx)" and ?mem = "mem (cx_handle ctx)" and ?step = "mode_step (cx_mode ctx) key"
  let ?buf = "take 32 (drop (unat offset + unat j) ?mem)"
  have off: "unat (offset + j) = unat offset + unat j"
    using j by (simp add: unat_word_ariths)
  have r: "cx_read ctx (cx_handle ctx) (offset + j) CR_FILE_BUFFER_SIZE = Inr ?buf"
    using read_ok [of "offset + j" 32] j off by (simp add: io CR_FILE_BUFFER_SIZE_def)
  have B: "crypt_blocks (cx_mode ctx) (Some key) (unat len) (unat j) 0 cbc ?buf =
      Inr (Some (n * ?bs, snd (crypt_stream ?step ?bs n cbc ?buf), put_at 0 (fst (crypt_stream ?step ?bs n cbc ?buf)) ?buf)) \<and>
      n * ?bs \<le> 32"
    using crypt_blocks_stream [OF m(1,3), of 0 ?buf cbc n "unat len" "unat j"] j cbc n by simp
  then have st: "crypt_stream ?step ?bs n cbc ?buf = (ys, cbc')"
    using s stream_take [of n ?bs 32] by simp
  have len: "length ys = n * ?bs" "length cbc' = 16"
    using stream_length [OF mode_step_wf [OF m(1), of key] cbc, of n ?buf] B st j by simp_all
  obtain h where h: "wr (cx_handle ctx) (offset + j) ys = Inr h" "mem h = put_at (unat offset + unat j) ys ?mem"
    using write_ok [of "offset + j" ys "cx_handle ctx"] len B j off by auto
  have "take (n * ?bs) (put_at 0 ys ?buf) = ys"
    using len by (simp add: put_at_def)
  then show ?thesis
    using that [OF r, of "put_at 0 ys ?buf" h] B st h len by (simp add: io m(2))
qed

lemma crypt_loop_step:
  assumes m: "mode_index (cx_mode ctx) < 4" "cx_key ctx = Some key" "key_len (cx_mode ctx) \<le> length key"
    and io: "cx_read ctx = rd" "cx_write ctx = wr"
    and j: "j < len" "unat offset + unat j + 32 \<le> length (mem (cx_handle ctx))" "length (mem (cx_handle ctx)) \<le> 65536"
    and cbc: "length cbc = 16"
    and n: "n = nblocks (block_len (cx_mode ctx)) (min 32 (unat len - unat j))"
    and s: "crypt_stream (mode_step (cx_mode ctx) key) (block_len (cx_mode ctx)) n cbc
      (drop (unat offset + unat j) (mem (cx_handle ctx))) = (ys, cbc')"
  shows "\<exists>h. mem h = put_at (unat offset + unat j) ys (mem (cx_handle ctx)) \<and>
    crypt_loop ctx offset len j k cbc =
      crypt_loop (ctx\<lparr>cx_handle := h\<rparr>) offset len (j + 32) (Some (n * block_len (cx_mode ctx))) cbc' \<and>
    length ys = n * block_len (cx_mode ctx) \<and> length ys \<le> 32 \<and> length cbc' = 16"
  by (rule crypt_chunk [OF m io j(2,3) cbc n s], subst crypt_loop.simps) (use j(1) in auto)

text \<open>The whole loop: the blocks from \<open>offset + j\<close> on become the chained blocks, and the value returned is the
  number of bytes processed.\<close>

lemma crypt_loop_stream:
  assumes m: "mode_index (cx_mode ctx) < 4" "cx_key ctx = Some key" "key_len (cx_mode ctx) \<le> length key"
    and io: "cx_read ctx = rd" "cx_write ctx = wr"
    and len: "unat len \<le> 65504" "length (mem (cx_handle ctx)) \<le> 65536" "length cbc = 16"
  shows "j < len \<Longrightarrow> unat offset + unat j + 32 * nblocks 32 (unat len - unat j) \<le> length (mem (cx_handle ctx)) \<Longrightarrow>
    n = nblocks (block_len (cx_mode ctx)) (unat len - unat j) \<Longrightarrow>
    \<exists>h. crypt_loop ctx offset len j k cbc = Some (Inr (ctx\<lparr>cx_handle := h\<rparr>, j + of_nat (n * block_len (cx_mode ctx)))) \<and>
      mem h = put_at (unat offset + unat j) (fst (crypt_stream (mode_step (cx_mode ctx) key) (block_len (cx_mode ctx)) n cbc
        (drop (unat offset + unat j) (mem (cx_handle ctx))))) (mem (cx_handle ctx))"
  using assms
proof (induction "unat len - unat j" arbitrary: j n k cbc ctx rule: less_induct)
  case less
  let ?bs = "block_len (cx_mode ctx)" and ?mem = "mem (cx_handle ctx)" and ?step = "mode_step (cx_mode ctx) key"
  let ?a = "unat offset + unat j" and ?d = "unat len - unat j"
  have bs: "0 < ?bs" "?bs dvd 32" using block_len_pos [OF less.prems(4)] by simp_all
  have d: "0 < ?d" using less.prems(1) by (simp add: word_less_nat_alt)
  then have chunk: "?a + 32 \<le> length ?mem" using less.prems(2) nblocks_step [of 32 ?d] by simp
  have j32: "unat (j + 32) = unat j + 32"
    using less.prems(9,1) by (simp add: unat_word_ariths word_less_nat_alt)
  define n0 where "n0 = nblocks ?bs (min 32 ?d)"
  obtain ys cbc' where s: "crypt_stream ?step ?bs n0 cbc (drop ?a ?mem) = (ys, cbc')" by force
  obtain h where h: "mem h = put_at ?a ys ?mem"
    "crypt_loop ctx offset len j k cbc = crypt_loop (ctx\<lparr>cx_handle := h\<rparr>) offset len (j + 32) (Some (n0 * ?bs)) cbc'"
    and ys: "length ys = n0 * ?bs" "length cbc' = 16"
    using crypt_loop_step [OF less.prems(4,5,6,7,8,1) chunk less.prems(10,11) n0_def s] by blast
  show ?case
  proof (cases "?d \<le> 32")
    case True
    then have "\<not> j + 32 < len" by (simp add: word_less_nat_alt j32)
    moreover have "n0 = n" using True less.prems(3) by (simp add: n0_def min_absorb2)
    ultimately show ?thesis using h s by (subst h(2), subst crypt_loop.simps) auto
  next
    case False
    then have n0: "n0 = 32 div ?bs" "n0 * ?bs = 32"
      using nblocks_add [OF bs, of 0] bs by (simp_all add: n0_def min_absorb1)
    define n1 where "n1 = nblocks ?bs (unat len - unat (j + 32))"
    have "?d = 32 + (unat len - unat (j + 32))" using False j32 by simp
    then have n: "n = n0 + n1" and N: "nblocks 32 ?d = Suc (nblocks 32 (unat len - unat (j + 32)))"
      using less.prems(3) nblocks_add [OF bs] nblocks_add [of 32 32] n0 by (simp_all add: n1_def)
    have ys': "length ys = 32" "length (mem h) = length ?mem" using ys n0 h(1) chunk by simp_all
    have lt: "unat len - unat (j + 32) < ?d" "unat j + 32 < unat len" using False j32 by linarith+
    obtain h' where h': "crypt_loop (ctx\<lparr>cx_handle := h\<rparr>) offset len (j + 32) (Some (n0 * ?bs)) cbc' =
        Some (Inr (ctx\<lparr>cx_handle := h'\<rparr>, j + 32 + of_nat (n1 * ?bs)))"
      "mem h' = put_at (unat offset + unat (j + 32)) (fst (crypt_stream ?step ?bs n1 cbc'
        (drop (unat offset + unat (j + 32)) (mem h)))) (mem h)"
      using less.hyps [of "j + 32" "ctx\<lparr>cx_handle := h\<rparr>" n1 cbc' "Some (n0 * ?bs)"] less.prems(4,5,6,7,8,9,10,1,2) lt j32 ys' ys(2) N
      by (auto simp: n1_def word_less_nat_alt)
    have "drop (?a + 32) (mem h) = drop (?a + 32) ?mem"
      using h(1) ys' chunk by (simp add: drop_put_at)
    moreover have "length (fst (crypt_stream ?step ?bs n1 cbc' (drop (?a + 32) ?mem))) = n1 * ?bs"
      and "?a + 32 + n1 * ?bs \<le> length ?mem"
    proof -
      have "n1 * ?bs \<le> nblocks 32 (unat len - unat (j + 32)) * 32"
        unfolding n1_def by (rule nblocks_bytes_le) (use bs in simp_all)
      then show le: "?a + 32 + n1 * ?bs \<le> length ?mem" using less.prems(2) N by simp
      then show "length (fst (crypt_stream ?step ?bs n1 cbc' (drop (?a + 32) ?mem))) = n1 * ?bs"
        using stream_length [OF mode_step_wf [OF less.prems(4), of key] ys(2), of n1 "drop (?a + 32) ?mem"] by simp
    qed
    moreover have "n * ?bs = 32 + n1 * ?bs" using n0(2) by (simp add: n add_mult_distrib)
    then have "j + 32 + of_nat (n1 * ?bs) = j + of_nat (n * ?bs)" by simp
    moreover have "fst (crypt_stream ?step ?bs n cbc (drop ?a ?mem)) =
        ys @ fst (crypt_stream ?step ?bs n1 cbc' (drop (?a + 32) ?mem))"
      using stream_add [of ?step ?bs n0 n1 cbc "drop ?a ?mem"] s n0(2) by (simp add: n split_def Let_def add.commute)
    ultimately show ?thesis
      using h h' put_at_put_at [of ?a ys "fst (crypt_stream ?step ?bs n1 cbc' (drop (?a + 32) ?mem))" ?mem] ys'(1)
      by (intro exI [of _ h']) (simp add: j32 add.assoc)
  qed
qed

end

interpretation memory: cr_storage cr_mem_read cr_mem_write id
  by unfold_locales (simp_all add: cr_mem_read_def cr_mem_write_def)

section \<open>Bulk operation on memory\<close>

text \<open>The contexts of the bulk operation on memory: set up by \<^verbatim>\<open>cr_init_crypt\<close> and \<^verbatim>\<open>cr_set_key\<close>, with a key
  of the size the codec reads, a length that the 16 bit counter can pass, and memory for whole chunks of 32 bytes.\<close>

definition crypt_ok :: "u8 \<Rightarrow> u8 list \<Rightarrow> u8 list \<Rightarrow> u16 \<Rightarrow> u16 \<Rightarrow> bool" where
  "crypt_ok mode key m offset len \<longleftrightarrow> mode_index mode < 4 \<and> key_len mode \<le> length key \<and> 0 < len \<and> unat len \<le> 65504 \<and>
     unat offset + 32 * nblocks 32 (unat len) \<le> length m \<and> length m \<le> 65536"

definition crypt_context :: "u8 \<Rightarrow> u8 list \<Rightarrow> u8 list \<Rightarrow> u8 list cr_context" where
  "crypt_context mode key m = cr_set_key (Some key) (cr_init_crypt mode m)"

definition crypt_bytes :: "u8 \<Rightarrow> u16 \<Rightarrow> nat" where
  "crypt_bytes mode len = nblocks (block_len mode) (unat len) * block_len mode"

lemma context_fields [simp]:
  "cx_mode (crypt_context mode key m) = mode" "cx_key (crypt_context mode key m) = Some key"
  "cx_read (crypt_context mode key m) = cr_mem_read" "cx_write (crypt_context mode key m) = cr_mem_write"
  "cx_handle (crypt_context mode key m) = m"
  "crypt_context mode key m\<lparr>cx_handle := m'\<rparr> = crypt_context mode key m'"
  by (simp_all add: crypt_context_def cr_set_key_def cr_init_crypt_def cr_init_context_def)

lemma crypt_bytes_fit: "crypt_ok mode key m offset len \<Longrightarrow> unat offset + crypt_bytes mode len \<le> length m"
  using nblocks_bytes_le [of "block_len mode" 32 "unat len"] block_len_pos [of mode]
  by (auto simp: crypt_ok_def crypt_bytes_def)

lemma do_crypt_stream:
  assumes "crypt_ok mode key m offset len"
  shows "cr_do_crypt (crypt_context mode key m) offset len =
    Some (Inr (crypt_context mode key (put_at (unat offset) (fst (crypt_stream (mode_step mode key) (block_len mode)
      (nblocks (block_len mode) (unat len)) (replicate 16 0) (drop (unat offset) m))) m),
      of_nat (crypt_bytes mode len)))"
proof -
  have "mode_index mode < 4" using assms by (simp add: crypt_ok_def)
  then have "mode_index mode < length g_fnRegisteredEncoder" by (simp add: g_fnRegisteredEncoder_def)
  then show ?thesis
    using memory.crypt_loop_stream [of "crypt_context mode key m" key len "replicate 16 0" 0 offset _ None] assms
    by (auto simp: crypt_ok_def cr_do_crypt_def crypt_bytes_def)
qed

lemma put_at_take: "a + n \<le> length m \<Longrightarrow> put_at a (take n (drop a m)) m = m"
  by (simp add: put_at_def) (metis append_take_drop_id drop_drop add.commute)

lemma put_at_overwrite:
  "length xs = length ys \<Longrightarrow> a + length xs \<le> length m \<Longrightarrow> put_at a xs (put_at a ys m) = put_at a xs m"
  by (simp add: put_at_def)

lemma drop_at_put_at: "a + length xs \<le> length m \<Longrightarrow> drop a (put_at a xs m) = xs @ drop (a + length xs) m"
  by (simp add: put_at_def)

section \<open>Properties\<close>





text \<open>The loop does not end when the length is above 65504: the 16 bit counter returns to 0 before it reaches the
  length. The memory is the whole range a 16 bit offset reaches.\<close>

definition endless :: "u8 list cr_context \<Rightarrow> u16 \<Rightarrow> u16 \<Rightarrow> u16 \<Rightarrow> u8 list \<Rightarrow> bool" where
  "endless ctx offset len j cbc \<longleftrightarrow> (\<exists>mode key m. ctx = crypt_context mode key m \<and> mode_index mode < 4 \<and>
     key_len mode \<le> length key \<and> length m = 65536) \<and> offset = 0 \<and> 65504 < unat len \<and> 32 dvd unat j \<and> length cbc = 16"

lemma dvd32_below: "32 dvd unat (j::u16) \<Longrightarrow> unat j \<le> 65504"
proof -
  assume "32 dvd unat j"
  then obtain q where q: "unat j = 32 * q" by (elim dvdE)
  then have "q < 2048" using unsigned_less [of j, where 'a=nat] by simp
  then show ?thesis using q by simp
qed

lemma crypt_loop_endless:
  assumes "crypt_loop ctx offset len j k cbc = Some r"
  shows "\<not> endless ctx offset len j cbc"
proof (rule crypt_loop.raw_induct [where P = "\<lambda>ctx offset len j k cbc r. \<not> endless ctx offset len j cbc", OF _ assms])
  fix f :: "u8 list cr_context \<Rightarrow> u16 \<Rightarrow> u16 \<Rightarrow> u16 \<Rightarrow> nat option \<Rightarrow> u8 list \<Rightarrow> (u8 list cr_context \<times> u16) result option"
    and ctx offset len j k cbc r
  assume IH: "\<And>ctx offset len j k cbc r. f ctx offset len j k cbc = Some r \<Longrightarrow> \<not> endless ctx offset len j cbc"
  assume body: "(if j < len then
       case cx_read ctx (cx_handle ctx) (offset + j) CR_FILE_BUFFER_SIZE of
         Inl e \<Rightarrow> Some (Inl e)
       | Inr buffer \<Rightarrow>
           (case crypt_blocks (cx_mode ctx) (cx_key ctx) (unat len) (unat j) 0 cbc buffer of
              Inl e \<Rightarrow> Some (Inl e)
            | Inr None \<Rightarrow> Some (Inr (ctx, 0))
            | Inr (Some (k', cbc', buffer')) \<Rightarrow>
                (case cx_write ctx (cx_handle ctx) (offset + j) (take k' buffer') of
                   Inl e \<Rightarrow> Some (Inl e)
                 | Inr h \<Rightarrow> f (ctx\<lparr>cx_handle := h\<rparr>) offset len (j + 32) (Some k') cbc'))
     else
       (case k of None \<Rightarrow> Some (Inl Undefined_Value)
        | Some k' \<Rightarrow> Some (Inr (ctx, j - 32 + of_nat k')))) = Some r"
  show "\<not> endless ctx offset len j cbc"
  proof
    assume e: "endless ctx offset len j cbc"
    then obtain mode key m where ctx: "ctx = crypt_context mode key m" "mode_index mode < 4" "key_len mode \<le> length key"
      "length m = 65536" and st: "offset = 0" "65504 < unat len" "32 dvd unat j" "length cbc = 16"
      by (auto simp: endless_def)
    have j: "unat j + 32 \<le> 65536" "j < len" using dvd32_below [OF st(3)] st(2) by (simp_all add: word_less_nat_alt)
    obtain ys cbc' where s: "crypt_stream (mode_step (cx_mode ctx) key) (block_len (cx_mode ctx))
        (nblocks (block_len (cx_mode ctx)) (min 32 (unat len - unat j))) cbc (drop (unat offset + unat j) (id (cx_handle ctx))) = (ys, cbc')"
      by force
    obtain buf buf' h where c: "cx_read ctx (cx_handle ctx) (offset + j) CR_FILE_BUFFER_SIZE = Inr buf"
      "crypt_blocks (cx_mode ctx) (cx_key ctx) (unat len) (unat j) 0 cbc buf =
        Inr (Some (nblocks (block_len mode) (min 32 (unat len - unat j)) * block_len mode, cbc', buf'))"
      "cx_write ctx (cx_handle ctx) (offset + j) (take (nblocks (block_len mode) (min 32 (unat len - unat j)) * block_len mode) buf') = Inr h"
      "h = put_at (unat j) ys m" "length ys \<le> 32" "length cbc' = 16"
      by (rule memory.crypt_chunk [OF _ _ _ _ _ _ _ st(4) refl s]) (use ctx st j in auto)
    have "32 dvd unat (j + 32)"
      using st(3) by (simp add: unat_word_ariths dvd_mod_iff)
    then have "endless (ctx\<lparr>cx_handle := h\<rparr>) offset len (j + 32) cbc'"
      using ctx st c j unfolding endless_def by (intro conjI exI [of _ mode] exI [of _ key] exI [of _ h]) simp_all
    then show False
      using IH body c j(2) by fastforce
  qed
qed

text \<open>C35: Lengths above 65504. On 64 KiB of memory, with a valid codec and key, \<^verbatim>\<open>cr_do_crypt\<close> does not return.\<close>
theorem cr_do_crypt_long_diverges:
  assumes "mode_index mode < 4" "key_len mode \<le> length key" "length m = 65536" "65504 < unat len"
  shows "cr_do_crypt (crypt_context mode key m) 0 len = None"
proof -
  have "endless (crypt_context mode key m) 0 len 0 (replicate 16 0)"
    using assms by (auto simp: endless_def)
  then have "crypt_loop (crypt_context mode key m) 0 len 0 None (replicate 16 0) = None"
    using crypt_loop_endless [of "crypt_context mode key m" 0 len 0 None "replicate 16 0"] by fastforce
  then show ?thesis
    using assms(1) by (simp add: cr_do_crypt_def g_fnRegisteredEncoder_def)
qed

theorem cr_do_crypt_long_diverges_witness:
  "cr_do_crypt (crypt_context 0 (replicate 8 0) (replicate 65536 0)) 0 65535 = None"
  by (rule cr_do_crypt_long_diverges) (simp_all add: mode_index_def key_len_def)

end
