(* ===== verification/CR_Check.thy ===== *)
theory CR_Check
  imports CR_Crypt
begin

text \<open>
  The checks over a context: the longitudinal redundancy check and the XOR mask of \<^verbatim>\<open>crypto/src/cr_core.c\<close>,
  CRC-32 of \<^verbatim>\<open>crypto/src/cr_crc.c\<close> and the DES message authentication code of \<^verbatim>\<open>crypto/src/cr_mac.c\<close>. The bytes
  written through \<^verbatim>\<open>result\<close> are returned together with the return value. On the LP64 target \<^verbatim>\<open>uint32\<close> has 64
  bits.
\<close>

section \<open>Byte scans\<close>

text \<open>The loop of \<^verbatim>\<open>cr_calc_lrc\<close> and \<^verbatim>\<open>cr_calc_crc\<close>: sixteen bytes are read at a time, and those below the length are
  folded into the accumulator. The counter is a 16 bit word.\<close>

partial_function (option) scan_loop ::
  "(u8 \<Rightarrow> 'a \<Rightarrow> 'a) \<Rightarrow> 'h cr_context \<Rightarrow> u16 \<Rightarrow> u16 \<Rightarrow> u16 \<Rightarrow> 'a \<Rightarrow> 'a result option" where
  "scan_loop f ctx offset len ii acc =
    (if ii < len then
       (case cx_read ctx (cx_handle ctx) (offset + ii) 16 of
          Inl e \<Rightarrow> Some (Inl e)
        | Inr buffer \<Rightarrow>
            scan_loop f ctx offset len (ii + 16) (fold f (take (min 16 (unat len - unat ii)) buffer) acc))
     else Some (Inr acc))"

definition cr_calc_lrc :: "'h cr_context \<Rightarrow> u16 \<Rightarrow> u16 \<Rightarrow> (u8 list \<times> u8) result option" where
  "cr_calc_lrc ctx offset len =
    map_option (\<lambda>r. bind_r r (\<lambda>b. Inr ([b], 1))) (scan_loop (\<lambda>x b. b XOR x) ctx offset len 0 0)"

text \<open>\<^verbatim>\<open>cr_xor\<close> counts with a byte up to a 16 bit length.\<close>

partial_function (option) xor_loop :: "u8 list \<Rightarrow> u16 \<Rightarrow> u8 \<Rightarrow> u8 list \<Rightarrow> u8 list result option" where
  "xor_loop msk len i buffer =
    (if unat i < unat len then
       if unat i < length msk \<and> unat i < length buffer
       then xor_loop msk len (i + 1) (buffer[unat i := buffer ! unat i XOR msk ! unat i])
       else Some (Inl Out_Of_Bounds)
     else Some (Inr buffer))"

definition cr_xor :: "u8 list \<Rightarrow> u8 list \<Rightarrow> u16 \<Rightarrow> u8 list result option" where
  "cr_xor msk buffer len = xor_loop msk len 0 buffer"

section \<open>CRC-32\<close>

definition crc_shift :: "u64 \<Rightarrow> u64" where
  "crc_shift TabVal = (if TabVal AND 1 \<noteq> 0 then drop_bit 1 TabVal XOR 0xEDB88320 else drop_bit 1 TabVal)"

definition lGenCRC32 :: "u64 \<Rightarrow> u8 \<Rightarrow> u64" where
  "lGenCRC32 lOldCRC ByteVal =
    (let TabVal = (lOldCRC XOR ucast ByteVal) AND 0xFF
     in (crc_shift ^^ 8) TabVal XOR (drop_bit 8 lOldCRC AND 0x00FFFFFF))"

definition end_swap32 :: "u64 \<Rightarrow> u64" where
  "end_swap32 x = drop_bit 24 (x AND 0xff000000) OR drop_bit 8 (x AND 0x00ff0000) OR
     push_bit 8 (x AND 0x0000ff00) OR push_bit 24 (x AND 0xff)"

definition le_bytes4 :: "u64 \<Rightarrow> u8 list" where
  "le_bytes4 x = map (\<lambda>i. ucast (drop_bit (8 * i) x)) [0, 1, 2, 3]"

definition cr_calc_crc :: "'h cr_context \<Rightarrow> u16 \<Rightarrow> u16 \<Rightarrow> (u8 list \<times> u64) result option" where
  "cr_calc_crc ctx offset len =
    map_option (\<lambda>r. bind_r r (\<lambda>crc32.
      let crc32 = end_swap32 (NOT crc32) in Inr (le_bytes4 crc32, crc32)))
      (scan_loop (\<lambda>x crc. lGenCRC32 crc x) ctx offset len 0 0xFFFFFFFF)"

section \<open>Message authentication code\<close>

definition CR_MAC_SKIP_G :: u8 where "CR_MAC_SKIP_G = 0x80"
definition CR_MAC_CUSTOM_IV :: u8 where "CR_MAC_CUSTOM_IV = 0x40"

definition mac_k3 :: "u8 list \<Rightarrow> u8 list" where
  "mac_k3 key = map (\<lambda>i. let k = key ! (i + 8) in (k AND 0x0F) OR (NOT k AND 0xF0)) [0 ..< 8]"

definition mac_algo :: "u8 \<Rightarrow> u8" where "mac_algo mode = drop_bit 2 mode"

definition mac_pre :: "u8 \<Rightarrow> u8 list \<Rightarrow> u8 list \<Rightarrow> u8 list" where
  "mac_pre mode k3 buffer = (if mac_algo mode = 4 then cr_des_encode k3 buffer else buffer)"

function mac_loop :: "'h cr_context \<Rightarrow> u8 list \<Rightarrow> u16 \<Rightarrow> u16 \<Rightarrow> u8 list \<Rightarrow> (u16 \<times> u8 list) result" where
  "mac_loop ctx key fin offset buffer =
    (if unat offset + 8 < unat fin then
       bind_r (cx_read ctx (cx_handle ctx) offset 8) (\<lambda>dbuffer.
         mac_loop ctx key fin (offset + 8) (cr_des_encode key (map2 (XOR) buffer dbuffer)))
     else Inr (offset, buffer))"
  by auto

termination mac_loop
proof (relation "measure (\<lambda>(ctx, key, fin, offset, buffer). unat fin - unat offset)")
  fix ctx :: "'h cr_context" and key fin offset buffer dbuffer
  assume "unat (offset :: u16) + 8 < unat (fin :: u16)"
  moreover have "unat fin < 65536" using unsigned_less [of fin, where 'a = nat] by simp
  ultimately show "((ctx, key, fin, offset + 8, cr_des_encode key (map2 (XOR) buffer dbuffer)), ctx, key, fin, offset, buffer)
    \<in> measure (\<lambda>(ctx, key, fin, offset, buffer). unat fin - unat offset)"
    by (simp add: unat_word_ariths)
qed simp

declare mac_loop.simps [simp del]

definition mac_pad :: "u8 \<Rightarrow> nat \<Rightarrow> u8 list \<Rightarrow> u8 list" where
  "mac_pad mode plen dbuffer =
    (if plen \<noteq> 0 then
       take (8 - plen) dbuffer @ [if mode AND 1 \<noteq> 0 then 0x80 else 0] @ replicate (plen - 1) 0
     else dbuffer)"

definition mac_out :: "u8 \<Rightarrow> u8 list \<Rightarrow> u8 list \<Rightarrow> u8 list \<Rightarrow> u8 list" where
  "mac_out mode key k3 buffer =
    (if mode AND CR_MAC_SKIP_G = 0 then
       let buffer = cr_des_encode key buffer in
       if mac_algo mode = 2 then cr_des_encode k3 buffer
       else if mac_algo mode = 3 then cr_des_encode key (cr_des_decode (drop 8 key) buffer)
       else if mac_algo mode = 4 then cr_des_encode (drop 8 key) buffer
       else buffer
     else buffer)"

text \<open>\<^verbatim>\<open>post_processing\<close>: the last block, padded, and the output transformation.\<close>

definition mac_post :: "u8 \<Rightarrow> u8 list \<Rightarrow> u8 list \<Rightarrow> nat \<Rightarrow> u8 list \<Rightarrow> u8 list \<Rightarrow> u8 list \<times> u8" where
  "mac_post mode key k3 plen buffer dbuffer = (mac_out mode key k3 (map2 (XOR) buffer (mac_pad mode plen dbuffer)), 8)"

text \<open>The part from the first encryption to \<^verbatim>\<open>post_processing\<close>.\<close>

definition mac_body :: "'h cr_context \<Rightarrow> u8 list \<Rightarrow> u8 list \<Rightarrow> nat \<Rightarrow> u16 \<Rightarrow> u16 \<Rightarrow> u8 list \<Rightarrow> (u8 list \<times> u8) result" where
  "mac_body ctx key k3 plen fin offset buffer =
    bind_r (mac_loop ctx key fin offset (mac_pre (cx_mode ctx) k3 (cr_des_encode key buffer))) (\<lambda>(offset, buffer).
      bind_r (cx_read ctx (cx_handle ctx) offset 8) (\<lambda>dbuffer.
        Inr (mac_post (cx_mode ctx) key k3 plen buffer dbuffer)))"

definition cr_calc_mac :: "'h cr_context \<Rightarrow> u16 \<Rightarrow> u16 \<Rightarrow> (u8 list \<times> u8) result" where
  "cr_calc_mac ctx offset len =
    (let fin = len + offset; mode = cx_mode ctx;
         plen = (if len AND 7 \<noteq> 0 then unat (8 - (len AND 7)) else 0);
         buffer = (if mode AND CR_MAC_CUSTOM_IV \<noteq> 0 then take 8 (cx_icv ctx) else replicate 8 0) in
     case cx_key ctx of None \<Rightarrow> Inl Null_Deref
     | Some key \<Rightarrow>
         if length key < 16 then Inl Out_Of_Bounds else
         let k3 = mac_k3 key in
         if mode AND 2 \<noteq> 0 then
           mac_body ctx key k3 plen fin offset
             (take 5 buffer @ [ucast (drop_bit 13 len), ucast (drop_bit 5 len), ucast (push_bit 3 len)])
         else
           bind_r (cx_read ctx (cx_handle ctx) offset 8) (\<lambda>dbuffer.
             if len < 8 then Inr (mac_post mode key k3 plen buffer dbuffer)
             else mac_body ctx key k3 plen fin (offset + 8) dbuffer))"

section \<open>Scans fold over the bytes\<close>

context cr_storage
begin

lemma scan_loop_fold:
  assumes "cx_read ctx = rd" "length (mem (cx_handle ctx)) \<le> 65536" "unat len \<le> 65520"
  shows "unat offset + unat ii + 16 * nblocks 16 (unat len - unat ii) \<le> length (mem (cx_handle ctx)) \<Longrightarrow>
    scan_loop f ctx offset len ii acc =
      Some (Inr (fold f (take (unat len - unat ii) (drop (unat offset + unat ii) (mem (cx_handle ctx)))) acc))"
proof (induction "unat len - unat ii" arbitrary: ii acc rule: less_induct)
  case less
  let ?mem = "mem (cx_handle ctx)" and ?a = "unat offset + unat ii" and ?d = "unat len - unat ii"
  show ?case
  proof (cases "ii < len")
    case False
    then show ?thesis by (subst scan_loop.simps) (simp add: word_less_nat_alt)
  next
    case True
    then have d: "0 < ?d" by (simp add: word_less_nat_alt)
    have N: "nblocks 16 ?d = Suc (nblocks 16 (?d - 16))" using nblocks_step [of 16 ?d] d by simp
    have i16: "unat (ii + 16) = unat ii + 16"
      using assms(3) True by (simp add: unat_word_ariths word_less_nat_alt)
    have off: "unat (offset + ii) = ?a" using less.prems N assms(2) by (simp add: unat_word_ariths)
    have r: "cx_read ctx (cx_handle ctx) (offset + ii) 16 = Inr (take 16 (drop ?a ?mem))"
      using read_ok [of "offset + ii" 16] less.prems N assms(1) off by simp
    have "scan_loop f ctx offset len (ii + 16) acc' =
        Some (Inr (fold f (take (?d - 16) (drop (?a + 16) ?mem)) acc'))" for acc'
      using less.hyps [of "ii + 16" acc'] less.prems N d by (simp add: i16 add.assoc)
    moreover have "take ?d (drop ?a ?mem) = take (min 16 ?d) (take 16 (drop ?a ?mem)) @ take (?d - 16) (drop (?a + 16) ?mem)"
    proof (cases "?d \<le> 16")
      case False
      then have "take (16 + (?d - 16)) (drop ?a ?mem) = take 16 (drop ?a ?mem) @ take (?d - 16) (drop 16 (drop ?a ?mem))"
        by (rule_tac take_add)
      then show ?thesis using False by (simp add: add.commute)
    qed (simp add: min_def)
    ultimately show ?thesis
      using True r by (subst scan_loop.simps) simp
  qed
qed

end

definition scan_ok :: "u8 list \<Rightarrow> u16 \<Rightarrow> u16 \<Rightarrow> bool" where
  "scan_ok m offset len \<longleftrightarrow> unat len \<le> 65520 \<and> unat offset + 16 * nblocks 16 (unat len) \<le> length m \<and> length m \<le> 65536"

lemma scan_memory:
  assumes "scan_ok m offset len"
  shows "scan_loop f (cr_init_crc m) offset len 0 acc = Some (Inr (fold f (take (unat len) (drop (unat offset) m)) acc))"
  using memory.scan_loop_fold [of "cr_init_crc m" len offset 0 f acc] assms
  by (simp add: scan_ok_def cr_init_crc_def cr_init_context_def)

section \<open>CRC-32 as a shift register\<close>

text \<open>The reference: a register of 32 bits that takes the message bit by bit, lowest bit of each byte first.\<close>

definition crc_feed :: "bool \<Rightarrow> u64 \<Rightarrow> u64" where
  "crc_feed b c = (if bit c 0 \<noteq> b then drop_bit 1 c XOR 0xEDB88320 else drop_bit 1 c)"

definition crc_feed_byte :: "u8 \<Rightarrow> u64 \<Rightarrow> u64" where
  "crc_feed_byte x c = fold (\<lambda>i. crc_feed (bit x i)) [0 ..< 8] c"

definition crc32_ref :: "u8 list \<Rightarrow> u64" where
  "crc32_ref xs = fold crc_feed_byte xs 0xFFFFFFFF XOR 0xFFFFFFFF"

lemma crc_shift_odd: "crc_shift c = (if odd c then drop_bit 1 c XOR 0xEDB88320 else drop_bit 1 c)"
  by (simp add: crc_shift_def and_one_eq mod_2_eq_odd del: drop_bit_eq_div)

lemma crc_shift_xor: "crc_shift (x XOR y) = crc_shift x XOR crc_shift y"
proof -
  have "odd (x XOR y) = (odd x \<noteq> odd y)"
    using bit_xor_iff [of x y 0] by (simp add: bit_0)
  then show ?thesis
    by (auto simp: crc_shift_odd drop_bit_xor ac_simps simp del: drop_bit_eq_div)
qed

lemma crc_shifts_xor: "(crc_shift ^^ n) (x XOR y) = (crc_shift ^^ n) x XOR (crc_shift ^^ n) y"
  by (induction n) (simp_all add: crc_shift_xor)

lemma crc_feed_shift: "crc_feed b c = crc_shift (c XOR of_bool b)"
proof (cases b)
  case True
  have "drop_bit 1 (c XOR 1) = drop_bit 1 c"
    by (simp only: drop_bit_xor) simp
  moreover have "odd (c XOR 1) = even c" using bit_xor_iff [of c 1 0] by (simp add: bit_0)
  ultimately show ?thesis using True by (simp add: crc_feed_def crc_shift_odd bit_0 del: drop_bit_eq_div)
qed (simp add: crc_feed_def crc_shift_odd bit_0)

lemma crc_shifts_drop: "take_bit n w = 0 \<Longrightarrow> (crc_shift ^^ n) w = drop_bit n w"
proof (induction n arbitrary: w)
  case (Suc n)
  then have z: "\<not> bit w i" if "i < Suc n" for i
    using that by (metis bit_0_eq bit_take_bit_iff bot_apply bot_bool_def)
  then have "even w" using bit_0 [of w] by blast
  then have "crc_shift w = drop_bit 1 w" by (simp add: crc_shift_odd)
  moreover have "take_bit n (drop_bit 1 w) = 0"
    by (rule bit_word_eqI) (use z in \<open>auto simp: bit_simps\<close>)
  ultimately show ?case
    using Suc.IH [of "drop_bit 1 w"] by (simp only: funpow_Suc_right comp_apply drop_bit_drop_bit) simp
qed simp

lemma crc_feed_bits:
  "k \<le> 8 \<Longrightarrow> fold (\<lambda>i. crc_feed (bit x i)) [0 ..< k] c = (crc_shift ^^ k) (c XOR take_bit k (ucast (x :: u8)))"
proof (induction k)
  case (Suc k)
  let ?b = "of_bool (bit x k) :: u64"
  have "take_bit k (push_bit k ?b) = 0" "drop_bit k (push_bit k ?b) = ?b"
    using Suc.prems by (auto intro!: bit_word_eqI simp: bit_simps)
  then have "(crc_shift ^^ k) (push_bit k ?b) = ?b" using crc_shifts_drop by metis
  moreover have "take_bit (Suc k) (ucast x) = take_bit k (ucast x) XOR push_bit k ?b"
    by (rule bit_word_eqI) (auto simp: bit_simps less_Suc_eq)
  ultimately show ?case
    using Suc by (simp add: crc_feed_shift crc_shifts_xor xor.assoc)
qed simp

lemma crc_feed_byte_shifts: "crc_feed_byte x c = (crc_shift ^^ 8) (c XOR ucast x)"
proof -
  have "take_bit 8 (ucast x :: u64) = ucast x"
    by (rule bit_word_eqI) (auto simp: bit_simps dest: bit_imp_le_length)
  then show ?thesis using crc_feed_bits [of 8 x c] by (simp add: crc_feed_byte_def)
qed

lemma lGenCRC32_feed:
  assumes "take_bit 32 c = c"
  shows "lGenCRC32 c x = crc_feed_byte x c"
proof -
  let ?w = "c XOR ucast x"
  have low: "?w AND 0xFF = take_bit 8 ?w"
    by (simp add: take_bit_eq_mask mask_eq_exp_minus_1)
  have "take_bit 8 (?w XOR take_bit 8 ?w) = 0"
    by (rule bit_word_eqI) (auto simp: bit_simps)
  then have "(crc_shift ^^ 8) (?w XOR take_bit 8 ?w) = drop_bit 8 (?w XOR take_bit 8 ?w)"
    by (rule crc_shifts_drop)
  also have "\<dots> = drop_bit 8 c"
    by (rule bit_word_eqI) (auto simp: bit_simps dest: bit_imp_le_length)
  also have "\<dots> = drop_bit 8 c AND 0x00FFFFFF"
  proof -
    have "n < 32" if "bit c n" for n using assms that by (metis bit_take_bit_iff)
    then have "drop_bit 8 c = take_bit 24 (drop_bit 8 c)"
      by (intro bit_word_eqI) (fastforce simp: bit_simps)
    then show ?thesis by (simp add: take_bit_eq_mask mask_eq_exp_minus_1)
  qed
  finally have "(crc_shift ^^ 8) ?w = (crc_shift ^^ 8) (take_bit 8 ?w) XOR (drop_bit 8 c AND 0x00FFFFFF)"
    using crc_shifts_xor [of 8 "take_bit 8 ?w" "?w XOR take_bit 8 ?w"] by (simp add: xor.left_commute)
  then show ?thesis
    by (simp only: crc_feed_byte_shifts lGenCRC32_def Let_def low)
qed

lemma crc_feed_32: "take_bit 32 c = c \<Longrightarrow> take_bit 32 (crc_feed b c) = crc_feed b c"
proof -
  assume c: "take_bit 32 c = c"
  have "take_bit 32 (drop_bit 1 c) = drop_bit 1 c"
    using arg_cong [OF c, of "drop_bit 1"] by (auto intro!: bit_word_eqI simp: bit_simps) (metis bit_take_bit_iff c less_diff_conv Suc_lessD)
  then show ?thesis by (auto simp: crc_feed_def take_bit_xor simp del: drop_bit_eq_div)
qed

lemma crc_feed_byte_32: "take_bit 32 c = c \<Longrightarrow> take_bit 32 (crc_feed_byte x c) = crc_feed_byte x c"
proof -
  have "take_bit 32 c = c \<Longrightarrow> take_bit 32 (fold (\<lambda>i. crc_feed (bit x i)) is c) = fold (\<lambda>i. crc_feed (bit x i)) is c" for "is"
    by (induction "is" arbitrary: c) (simp_all add: crc_feed_32)
  then show "take_bit 32 c = c \<Longrightarrow> take_bit 32 (crc_feed_byte x c) = crc_feed_byte x c"
    by (simp add: crc_feed_byte_def)
qed

lemma crc_fold:
  "take_bit 32 c = c \<Longrightarrow> fold (\<lambda>x crc. lGenCRC32 crc x) xs c = fold crc_feed_byte xs c \<and>
    take_bit 32 (fold crc_feed_byte xs c) = fold crc_feed_byte xs c"
  by (induction xs arbitrary: c) (simp_all add: lGenCRC32_feed crc_feed_byte_32)

lemma bit_byte_mask: "bit (push_bit k (mask 8) :: u64) n = (k \<le> n \<and> n < k + 8 \<and> n < 64)"
  by (auto simp: bit_simps)

lemma byte_masks:
  "(0xff000000 :: u64) = push_bit 24 (mask 8)" "(0x00ff0000 :: u64) = push_bit 16 (mask 8)"
  "(0x0000ff00 :: u64) = push_bit 8 (mask 8)" "(0xff :: u64) = push_bit 0 (mask 8)"
  by (simp_all add: mask_eq_exp_minus_1)

lemma end_swap32_bit:
  "bit (end_swap32 x) n = (n < 8 \<and> bit x (n + 24) \<or> 8 \<le> n \<and> n < 16 \<and> bit x (n + 8) \<or>
     16 \<le> n \<and> n < 24 \<and> bit x (n - 8) \<or> 24 \<le> n \<and> n < 32 \<and> bit x (n - 24))"
proof -
  consider "n < 8" | "8 \<le> n" "n < 16" | "16 \<le> n" "n < 24" | "24 \<le> n" "n < 32" | "32 \<le> n" by linarith
  then show ?thesis
    unfolding end_swap32_def byte_masks
    by cases (simp_all only: bit_or_iff bit_drop_bit_eq bit_push_bit_iff bit_and_iff bit_mask_iff comp_def,
      simp_all add: less_diff_conv2 le_diff_conv2 add.commute [of n] del: One_nat_def)
qed

lemma swapped_bytes: "le_bytes4 (end_swap32 x) = map (\<lambda>i. ucast (drop_bit (8 * i) x)) [3, 2, 1, 0]"
proof -
  have "ucast (drop_bit (8 * i) (end_swap32 x)) = (ucast (drop_bit (8 * (3 - i)) x) :: u8)" if "i < 4" for i
  proof (rule bit_word_eqI)
    fix n assume n: "n < LENGTH(8)"
    have "i = 0 \<or> i = 1 \<or> i = 2 \<or> i = 3" using that by auto
    then show "bit (ucast (drop_bit (8 * i) (end_swap32 x)) :: u8) n = bit (ucast (drop_bit (8 * (3 - i)) x) :: u8) n"
      using n by (auto simp: bit_ucast_iff bit_drop_bit_eq end_swap32_bit add.commute)
  qed
  from this [of 0] this [of 1] this [of 2] this [of 3] show ?thesis
    by (simp add: le_bytes4_def)
qed

section \<open>The message authentication code as a chain\<close>

text \<open>The reference: padding of the message to whole blocks, the chain over the blocks between the first and the
  last one, and the last block with the output transformation.\<close>

definition iso_pad :: "u8 \<Rightarrow> u8 list \<Rightarrow> u8 list" where
  "iso_pad mode xs =
    (if length xs mod 8 = 0 then xs
     else xs @ (if mode AND 1 \<noteq> 0 then 0x80 else 0) # replicate (7 - length xs mod 8) 0)"

primrec mac_chain :: "u8 list \<Rightarrow> nat \<Rightarrow> u8 list \<Rightarrow> u8 list \<Rightarrow> u8 list" where
  "mac_chain key 0 s xs = s"
| "mac_chain key (Suc n) s xs = mac_chain key n (cr_des_encode key (map2 (XOR) s (take 8 xs))) (drop 8 xs)"

definition mac_ref :: "u8 \<Rightarrow> u8 list \<Rightarrow> u8 list \<Rightarrow> u8 list" where
  "mac_ref mode key xs =
    (let n = length xs div 8 - 2; k3 = mac_k3 key;
         s = mac_chain key n (mac_pre mode k3 (cr_des_encode key (take 8 xs))) (drop 8 xs)
     in mac_out mode key k3 (map2 (XOR) s (drop (8 * Suc n) xs)))"

lemma mac_chain_cong: "take (8 * n) xs = take (8 * n) ys \<Longrightarrow> mac_chain key n s xs = mac_chain key n s ys"
proof (induction n arbitrary: s xs ys)
  case (Suc n)
  have a: "take 8 zs = take 8 (take (8 * Suc n) zs)" for zs :: "u8 list" by (simp del: mult_Suc_right)
  have b: "take (8 * n) (drop 8 zs) = drop 8 (take (8 * Suc n) zs)" for zs :: "u8 list" by (simp add: drop_take)
  have first: "take 8 xs = take 8 ys"
    by (rule trans [OF a [of xs, unfolded Suc.prems] a [of ys, symmetric]])
  have rest: "take (8 * n) (drop 8 xs) = take (8 * n) (drop 8 ys)"
    by (rule trans [OF b [of xs, unfolded Suc.prems] b [of ys, symmetric]])
  show ?case by (simp only: mac_chain.simps first Suc.IH [OF rest])
qed simp

context cr_storage
begin

lemma mac_loop_chain:
  assumes "cx_read ctx = rd" "length (mem (cx_handle ctx)) \<le> 65536"
  shows "unat fin = unat offset + 8 * n + r \<Longrightarrow> 0 < r \<Longrightarrow> r \<le> 8 \<Longrightarrow>
    unat offset + 8 * n \<le> length (mem (cx_handle ctx)) \<Longrightarrow>
    mac_loop ctx key fin offset s = Inr (offset + of_nat (8 * n), mac_chain key n s (drop (unat offset) (mem (cx_handle ctx))))"
proof (induction n arbitrary: offset s)
  case 0
  then show ?case by (subst mac_loop.simps) simp
next
  case (Suc n)
  have "unat fin < 65536" using unsigned_less [of fin, where 'a = nat] by simp
  then have o: "unat (offset + 8) = unat offset + 8" using Suc.prems by (simp add: unat_word_ariths)
  have "rd (cx_handle ctx) offset 8 = Inr (take 8 (drop (unat offset) (mem (cx_handle ctx))))"
    using Suc.prems by (intro read_ok) simp
  moreover have "offset + 8 + of_nat (8 * n) = offset + of_nat (8 * Suc n)" by simp
  ultimately show ?case
    using Suc.IH [of "offset + 8"] Suc.prems assms o by (subst mac_loop.simps) (simp add: add.commute)
qed

end

section \<open>Properties\<close>

text \<open>C39: CRC-32. For up to 65520 bytes, on memory that holds whole chunks of 16 bytes, \<^verbatim>\<open>cr_calc_crc\<close> returns and
  writes, highest byte first, the value of the 32 bit shift register that takes the message bit by bit: the
  table-free byte step of the code equals eight steps of the register.\<close>
theorem cr_calc_crc_correct:
  assumes "scan_ok m offset len"
  shows "\<exists>v. cr_calc_crc (cr_init_crc m) offset len =
    Some (Inr (map (\<lambda>i. ucast (drop_bit (8 * i) (crc32_ref (take (unat len) (drop (unat offset) m))))) [3, 2, 1, 0], v))"
proof -
  let ?c = "fold crc_feed_byte (take (unat len) (drop (unat offset) m)) 0xFFFFFFFF"
  have "take_bit 32 (0xFFFFFFFF :: u64) = 0xFFFFFFFF" by simp
  from crc_fold [OF this] have c: "fold (\<lambda>x crc. lGenCRC32 crc x) (take (unat len) (drop (unat offset) m)) 0xFFFFFFFF = ?c" by simp
  have e: "ucast (drop_bit (8 * i) (NOT ?c)) = (ucast (drop_bit (8 * i) (?c XOR 0xFFFFFFFF)) :: u8)" if "i < 4" for i
  proof (rule bit_word_eqI)
    fix n assume n: "n < LENGTH(8)"
    have "(0xFFFFFFFF :: u64) = mask 32" by (simp add: mask_eq_exp_minus_1)
    then have "bit (?c XOR 0xFFFFFFFF) (8 * i + n) = bit (NOT ?c) (8 * i + n)"
      using n that by (simp only: bit_xor_iff bit_not_iff bit_mask_iff) auto
    then show "bit (ucast (drop_bit (8 * i) (NOT ?c)) :: u8) n = bit (ucast (drop_bit (8 * i) (?c XOR 0xFFFFFFFF)) :: u8) n"
      using n by (simp only: bit_ucast_iff bit_drop_bit_eq comp_def)
  qed
  have lt: "3 < (4::nat)" "2 < (4::nat)" "1 < (4::nat)" "0 < (4::nat)" by simp_all
  have "map (\<lambda>i. ucast (drop_bit (8 * i) (NOT ?c)) :: u8) [3, 2, 1, 0] =
      map (\<lambda>i. ucast (drop_bit (8 * i) (?c XOR 0xFFFFFFFF))) [3, 2, 1, 0]"
    by (simp only: list.map e [OF lt(1)] e [OF lt(2)] e [OF lt(3)] e [OF lt(4)])
  then show ?thesis
    by (simp only: cr_calc_crc_def scan_memory [OF assms] c Let_def swapped_bytes crc32_ref_def option.map bind_r_simps) blast
qed

theorem cr_calc_crc_correct_witness:
  "\<exists>v. cr_calc_crc (cr_init_crc (map of_nat [0x31 ..< 0x41])) 0 9 = Some (Inr ([0xCB, 0xF4, 0x39, 0x26], v))"
proof -
  have "map (\<lambda>i. ucast (drop_bit (8 * i) (crc32_ref (take (unat (9::u16)) (drop (unat (0::u16)) (map of_nat [0x31 ..< 0x41]))))))
      [3, 2, 1, 0] = ([0xCB, 0xF4, 0x39, 0x26] :: u8 list)"
    by code_simp
  then show ?thesis
    using cr_calc_crc_correct [of "map of_nat [0x31 ..< 0x41]" 0 9] by (simp add: scan_ok_def nblocks_def)
qed

lemma iso_pad_blocks:
  assumes "8 * k + 8 \<le> length m" "0 < r" "r \<le> 8"
  shows "length (iso_pad mode (take (8 * k + r) m)) = 8 * Suc k \<and>
    take (8 * k) (iso_pad mode (take (8 * k + r) m)) = take (8 * k) m \<and>
    drop (8 * k) (iso_pad mode (take (8 * k + r) m)) = mac_pad mode (8 - r) (take 8 (drop (8 * k) m))"
proof (cases "r = 8")
  case True
  then show ?thesis using assms by (simp add: iso_pad_def mac_pad_def take_add)
next
  case False
  then have "r < 8" using assms by simp
  then have "(8 * k + r) mod 8 = r" by simp
  then show ?thesis
    using assms \<open>r < 8\<close> by (simp add: iso_pad_def mac_pad_def drop_take min_def)
qed

definition mac_context :: "u8 \<Rightarrow> u8 list \<Rightarrow> u8 list \<Rightarrow> u8 list cr_context" where
  "mac_context mode key m = cr_set_key (Some key) (cr_init_mac mode m)"

lemma mac_context_fields [simp]:
  "cx_mode (mac_context mode key m) = mode" "cx_key (mac_context mode key m) = Some key"
  "cx_read (mac_context mode key m) = cr_mem_read" "cx_handle (mac_context mode key m) = m"
  by (simp_all add: mac_context_def cr_set_key_def cr_init_mac_def cr_init_context_def)

lemma plen_value: "(if len AND 7 \<noteq> 0 then unat (8 - (len AND 7)) else 0) = (if unat (len::u16) mod 8 = 0 then 0 else 8 - unat len mod 8)"
proof -
  have e: "len AND 7 = take_bit 3 len" by (simp add: take_bit_eq_mask mask_eq_exp_minus_1)
  have u: "unat (len AND 7) = unat len mod 8"
    unfolding e by (simp only: unsigned_take_bit_eq) (simp add: take_bit_eq_mod)
  moreover have "unat (8 - (len AND 7)) = 8 - unat len mod 8"
    using u by (subst unat_sub) (simp_all add: word_le_nat_alt)
  ultimately show ?thesis by (simp add: unat_eq_0 [symmetric])
qed



text \<open>A message of exactly eight bytes. The first block is consumed before the loop, and the code then reads a
  last block that the message does not have: the code computed is the one of the sixteen bytes that start at
  the offset, whatever follows the message.\<close>
theorem cr_calc_mac_eight_bytes:
  assumes "cx_mode ctx AND 2 = 0" "unat offset + 16 < 65536"
  shows "cr_calc_mac ctx offset 8 = cr_calc_mac ctx offset 16"
proof -
  have "unat (offset + 8) = unat offset + 8" "unat (8 + offset) = unat offset + 8" "unat (16 + offset) = unat offset + 16"
    using assms(2) by (simp_all add: unat_word_ariths)
  then have "mac_loop ctx key (8 + offset) (offset + 8) s = Inr (offset + 8, s)"
    "mac_loop ctx key (16 + offset) (offset + 8) s = Inr (offset + 8, s)" for key s
    by (simp_all add: mac_loop.simps)
  then have "mac_body ctx key k3 p (8 + offset) (offset + 8) d = mac_body ctx key k3 p (16 + offset) (offset + 8) d" for key k3 p d
    by (simp add: mac_body_def)
  then show ?thesis
    using assms(1) by (cases "cx_key ctx") (simp_all add: cr_calc_mac_def Let_def)
qed

theorem cr_calc_mac_eight_bytes_witness:
  "cr_calc_mac (mac_context 4 (replicate 16 5) (replicate 32 1)) 0 8 =
    cr_calc_mac (mac_context 4 (replicate 16 5) (replicate 32 1)) 0 16"
  by (rule cr_calc_mac_eight_bytes) simp_all

section \<open>The remaining checks\<close>

text \<open>The redundancy check is the XOR of the bytes, and the XOR mask is involutive up to 255 bytes.\<close>

lemma cr_calc_lrc_xor:
  assumes "scan_ok m offset len"
  shows "cr_calc_lrc (cr_init_crc m) offset len = Some (Inr ([fold (XOR) (take (unat len) (drop (unat offset) m)) 0], 1))"
proof -
  have "(\<lambda>x b. b XOR x) = ((XOR) :: u8 \<Rightarrow> u8 \<Rightarrow> u8)" by (simp add: fun_eq_iff xor.commute)
  then show ?thesis by (simp add: cr_calc_lrc_def scan_memory [OF assms])
qed

lemma xor_loop_masks:
  assumes "unat len < 256" "unat len \<le> length msk"
  shows "unat len \<le> length buffer \<Longrightarrow> unat i \<le> unat len \<Longrightarrow>
    xor_loop msk len i buffer = Some (Inr (map (\<lambda>k. if unat i \<le> k \<and> k < unat len then buffer ! k XOR msk ! k else buffer ! k)
      [0 ..< length buffer]))"
proof (induction "unat len - unat i" arbitrary: i buffer rule: less_induct)
  case less
  show ?case
  proof (cases "unat i < unat len")
    case False
    then have "map (\<lambda>k. if unat i \<le> k \<and> k < unat len then buffer ! k XOR msk ! k else buffer ! k) [0 ..< length buffer] = buffer"
      by (intro nth_equalityI) auto
    then show ?thesis using False by (subst xor_loop.simps) simp
  next
    case True
    have i1: "unat (i + 1) = unat i + 1" using True assms(1) by (simp add: unat_word_ariths)
    let ?b = "buffer[unat i := buffer ! unat i XOR msk ! unat i]"
    have "xor_loop msk len i buffer = xor_loop msk len (i + 1) ?b"
      using True assms(2) less.prems by (subst xor_loop.simps) simp
    also have "\<dots> = Some (Inr (map (\<lambda>k. if unat (i + 1) \<le> k \<and> k < unat len then ?b ! k XOR msk ! k else ?b ! k) [0 ..< length ?b]))"
      using less.hyps [of "i + 1" ?b] True less.prems i1 by simp
    finally show ?thesis
      using True less.prems i1 by (auto intro!: nth_equalityI simp: nth_list_update)
  qed
qed

lemma cr_xor_twice:
  assumes "unat len < 256" "unat len \<le> length msk" "unat len \<le> length buffer" "cr_xor msk buffer len = Some (Inr buffer')"
  shows "cr_xor msk buffer' len = Some (Inr buffer)"
proof -
  have b: "buffer' = map (\<lambda>k. if k < unat len then buffer ! k XOR msk ! k else buffer ! k) [0 ..< length buffer]"
    using assms(4) xor_loop_masks [OF assms(1,2,3), of 0] by (simp add: cr_xor_def)
  then have "cr_xor msk buffer' len =
      Some (Inr (map (\<lambda>k. if k < unat len then buffer' ! k XOR msk ! k else buffer' ! k) [0 ..< length buffer']))"
    using xor_loop_masks [OF assms(1,2), of buffer' 0] assms(3) by (simp add: cr_xor_def)
  then show ?thesis
    using b by (auto intro!: nth_equalityI simp: xor.assoc)
qed

end
