(* ===== verification/CR_Hash.thy ===== *)
theory CR_Hash
  imports CR_Crypt
begin

text \<open>
  The digests of \<^verbatim>\<open>crypto/src/cr_sha256.c\<close>, \<^verbatim>\<open>crypto/src/cr_md5.c\<close> and \<^verbatim>\<open>crypto/src/cr_sha1.c\<close> over a context. The words of all
  three are \<^verbatim>\<open>unsigned long\<close>, which has 64 bits on the LP64 target; the rotations of the macros are
  written for 32 bits. What the padding and the block structure do is stated against a reference that takes
  the message as a whole.
\<close>

section \<open>Hashing in blocks of 64 bytes\<close>

function run_blocks :: "('s \<Rightarrow> u8 list \<Rightarrow> 's) \<Rightarrow> 's \<Rightarrow> u8 list \<Rightarrow> 's \<times> u8 list" where
  "run_blocks f s xs = (if length xs < 64 then (s, xs) else run_blocks f (f s (take 64 xs)) (drop 64 xs))"
  by auto
termination by (relation "measure (\<lambda>(f, s, xs). length xs)") auto

declare run_blocks.simps [simp del]

lemma run_blocks_small [simp]: "length xs < 64 \<Longrightarrow> run_blocks f s xs = (s, xs)"
  by (simp add: run_blocks.simps)

lemma run_blocks_append: "run_blocks f s (xs @ ys) = (case run_blocks f s xs of (s', r) \<Rightarrow> run_blocks f s' (r @ ys))"
proof (induction f s xs rule: run_blocks.induct)
  case (1 f s xs)
  show ?case
  proof (cases "length xs < 64")
    case False
    then show ?thesis using 1 by (simp add: run_blocks.simps [of f s "xs @ ys"] run_blocks.simps [of f s xs])
  qed simp
qed

lemma run_blocks_block: "length xs = 64 \<Longrightarrow> run_blocks f s xs = (f s xs, [])"
  by (simp add: run_blocks.simps [of f s xs])

lemma run_blocks_rest: "length (snd (run_blocks f s xs)) = length xs mod 64"
proof (induction f s xs rule: run_blocks.induct)
  case (1 f s xs)
  then show ?case by (simp add: run_blocks.simps [of f s xs] le_mod_geq)
qed

fun each :: "('a \<Rightarrow> 'c \<Rightarrow> 'c result) \<Rightarrow> 'a list \<Rightarrow> 'c \<Rightarrow> 'c result" where
  "each f [] c = Inr c"
| "each f (x # xs) c = bind_r (f x c) (each f xs)"

text \<open>
  A context that takes a message byte by byte: it has the state after the full blocks and keeps the bytes of the
  block that is not full.
\<close>

locale block_hash =
  fixes put :: "u8 \<Rightarrow> 'c \<Rightarrow> 'c result"
    and chain :: "'c \<Rightarrow> 's"
    and rest :: "'c \<Rightarrow> u8 list"
    and compress :: "'s \<Rightarrow> u8 list \<Rightarrow> 's"
    and good :: "'c \<Rightarrow> bool"
  assumes rest_small: "good c \<Longrightarrow> length (rest c) < 64"
    and put_good: "good c \<Longrightarrow> \<exists>c'. put x c = Inr c' \<and> good c' \<and>
      (if length (rest c) = 63 then chain c' = compress (chain c) (rest c @ [x]) \<and> rest c' = []
       else chain c' = chain c \<and> rest c' = rest c @ [x])"
begin

lemma each_put:
  "good c \<Longrightarrow> \<exists>c'. each put xs c = Inr c' \<and> good c' \<and> run_blocks compress (chain c) (rest c @ xs) = (chain c', rest c')"
proof (induction xs arbitrary: c)
  case Nil
  then show ?case using rest_small by auto
next
  case (Cons x xs)
  from put_good [OF Cons.prems, of x] obtain c1 where c1: "put x c = Inr c1" "good c1"
    "if length (rest c) = 63 then chain c1 = compress (chain c) (rest c @ [x]) \<and> rest c1 = []
     else chain c1 = chain c \<and> rest c1 = rest c @ [x]" by blast
  have "run_blocks compress (chain c) (rest c @ [x]) = (chain c1, rest c1)"
    using c1(3) rest_small [OF Cons.prems] by (auto simp: run_blocks_block split: if_splits)
  then have "run_blocks compress (chain c) ((rest c @ [x]) @ xs) = run_blocks compress (chain c1) (rest c1 @ xs)"
    by (subst run_blocks_append) simp
  with Cons.IH [OF c1(2)] c1(1) show ?case by auto
qed

end

section \<open>SHA-256\<close>

record sha256_ctx =
  sh_data :: "u8 list"
  sh_datalen :: u64
  sh_bitlen :: u64
  sh_state :: "u64 list"

definition ROTRIGHT :: "u64 \<Rightarrow> nat \<Rightarrow> u64" where
  "ROTRIGHT a b = drop_bit b a OR push_bit (32 - b) a"

definition CH :: "u64 \<Rightarrow> u64 \<Rightarrow> u64 \<Rightarrow> u64" where "CH x y z = (x AND y) XOR (NOT x AND z)"
definition MAJ :: "u64 \<Rightarrow> u64 \<Rightarrow> u64 \<Rightarrow> u64" where "MAJ x y z = (x AND y) XOR (x AND z) XOR (y AND z)"
definition EP0 :: "u64 \<Rightarrow> u64" where "EP0 x = ROTRIGHT x 2 XOR ROTRIGHT x 13 XOR ROTRIGHT x 22"
definition EP1 :: "u64 \<Rightarrow> u64" where "EP1 x = ROTRIGHT x 6 XOR ROTRIGHT x 11 XOR ROTRIGHT x 25"
definition SIG0 :: "u64 \<Rightarrow> u64" where "SIG0 x = ROTRIGHT x 7 XOR ROTRIGHT x 18 XOR drop_bit 3 x"
definition SIG1 :: "u64 \<Rightarrow> u64" where "SIG1 x = ROTRIGHT x 17 XOR ROTRIGHT x 19 XOR drop_bit 10 x"

text \<open>The eight rows of the table, as the source writes them.\<close>

definition sha256_k :: "u64 list" where
  "sha256_k = concat [
    [0x428a2f98, 0x71374491, 0xb5c0fbcf, 0xe9b5dba5, 0x3956c25b, 0x59f111f1, 0x923f82a4, 0xab1c5ed5],
    [0xd807aa98, 0x12835b01, 0x243185be, 0x550c7dc3, 0x72be5d74, 0x80deb1fe, 0x9bdc06a7, 0xc19bf174],
    [0xe49b69c1, 0xefbe4786, 0x0fc19dc6, 0x240ca1cc, 0x2de92c6f, 0x4a7484aa, 0x5cb0a9dc, 0x76f988da],
    [0x983e5152, 0xa831c66d, 0xb00327c8, 0xbf597fc7, 0xc6e00bf3, 0xd5a79147, 0x06ca6351, 0x14292967],
    [0x27b70a85, 0x2e1b2138, 0x4d2c6dfc, 0x53380d13, 0x650a7354, 0x766a0abb, 0x81c2c92e, 0x92722c85],
    [0xa2bfe8a1, 0xa81a664b, 0xc24b8b70, 0xc76c51a3, 0xd192e819, 0xd6990624, 0xf40e3585, 0x106aa070],
    [0x19a4c116, 0x1e376c08, 0x2748774c, 0x34b0bcb5, 0x391c0cb3, 0x4ed8aa4a, 0x5b9cca4f, 0x682e6ff3],
    [0x748f82ee, 0x78a5636f, 0x84c87814, 0x8cc70208, 0x90befffa, 0xa4506ceb, 0xbef9a3f7, 0xc67178f2]]"

text \<open>Four bytes, shifted as \<^verbatim>\<open>int\<close> and then widened with their sign.\<close>

definition sha256_word :: "u8 list \<Rightarrow> nat \<Rightarrow> u64" where
  "sha256_word d j =
     signed (push_bit 24 (ucast (d ! j)) OR push_bit 16 (ucast (d ! (j + 1))) OR push_bit 8 (ucast (d ! (j + 2))) OR
       ucast (d ! (j + 3)) :: 32 word)"

definition sha256_schedule :: "u8 list \<Rightarrow> u64 list" where
  "sha256_schedule d =
     fold (\<lambda>i m. m @ [SIG1 (m ! (i - 2)) + m ! (i - 7) + SIG0 (m ! (i - 15)) + m ! (i - 16)]) [16 ..< 64]
       (map (\<lambda>i. sha256_word d (4 * i)) [0 ..< 16])"

fun sha256_round :: "u64 \<Rightarrow> u64 list \<Rightarrow> u64 list" where
  "sha256_round km [a, b, c, d, e, f, g, h] =
     (let t1 = h + EP1 e + CH e f g + km; t2 = EP0 a + MAJ a b c in [t1 + t2, a, b, c, d + t1, e, f, g])"
| "sha256_round km v = v"

definition sha256_transform :: "u64 list \<Rightarrow> u8 list \<Rightarrow> u64 list" where
  "sha256_transform st d =
     (let m = sha256_schedule d in map2 (+) st (fold (\<lambda>i. sha256_round (sha256_k ! i + m ! i)) [0 ..< 64] st))"

text \<open>The buffer of a new context holds what the memory had before.\<close>

definition sha256_init :: "u8 list \<Rightarrow> sha256_ctx" where
  "sha256_init d = \<lparr>sh_data = d, sh_datalen = 0, sh_bitlen = 0,
     sh_state = [0x6a09e667, 0xbb67ae85, 0x3c6ef372, 0xa54ff53a, 0x510e527f, 0x9b05688c, 0x1f83d9ab, 0x5be0cd19]\<rparr>"

definition sha256_byte :: "u8 \<Rightarrow> sha256_ctx \<Rightarrow> sha256_ctx result" where
  "sha256_byte x c =
     (if length (sh_data c) \<le> unat (sh_datalen c) then Inl Out_Of_Bounds
      else
        let c1 = c\<lparr>sh_data := (sh_data c)[unat (sh_datalen c) := x], sh_datalen := sh_datalen c + 1\<rparr>
        in Inr (if sh_datalen c1 = 64
                then c1\<lparr>sh_state := sha256_transform (sh_state c1) (sh_data c1), sh_bitlen := sh_bitlen c1 + 512, sh_datalen := 0\<rparr>
                else c1))"

definition sha256_update :: "sha256_ctx \<Rightarrow> u8 list \<Rightarrow> sha256_ctx result" where
  "sha256_update c data = each sha256_byte data c"

definition be64 :: "u64 \<Rightarrow> u8 list" where
  "be64 x = map (\<lambda>i. ucast (drop_bit (8 * i) x)) [7, 6, 5, 4, 3, 2, 1, 0]"

definition sha256_pad :: "sha256_ctx \<Rightarrow> sha256_ctx" where
  "sha256_pad c =
     (let i = unat (sh_datalen c) in
      if i < 56 then c\<lparr>sh_data := take i (sh_data c) @ [0x80] @ replicate (55 - i) 0 @ drop 56 (sh_data c)\<rparr>
      else
        let d = take i (sh_data c) @ [0x80] @ replicate (63 - i) 0
        in c\<lparr>sh_data := replicate 56 0 @ drop 56 d, sh_state := sha256_transform (sh_state c) d\<rparr>)"

definition sha256_final :: "sha256_ctx \<Rightarrow> u8 list result" where
  "sha256_final c =
     (if length (sh_data c) \<le> unat (sh_datalen c) then Inl Out_Of_Bounds
      else
        let c1 = sha256_pad c;
            bitlen = sh_bitlen c1 + sh_datalen c1 * 8;
            st = sha256_transform (sh_state c1) (take 56 (sh_data c1) @ be64 bitlen)
        in Inr (concat (map (\<lambda>w. map (\<lambda>i. ucast (drop_bit (24 - i * 8) w AND 0xff)) [0 ..< 4]) st)))"

function sha256_read :: "'h cr_context \<Rightarrow> u16 \<Rightarrow> u16 \<Rightarrow> sha256_ctx \<Rightarrow> (u16 \<times> u16 \<times> sha256_ctx) result" where
  "sha256_read ctx offset len c =
     (if 32 < len then
        bind_r (cx_read ctx (cx_handle ctx) offset 16) (\<lambda>buffer.
        bind_r (sha256_update c buffer) (\<lambda>c'. sha256_read ctx (offset + 32) (len - 32) c'))
      else Inr (offset, len, c))"
  by auto
termination
  by (relation "measure (\<lambda>(ctx, offset, len, c). unat len)") (auto simp: word_less_nat_alt unat_sub_if')

declare sha256_read.simps [simp del]

definition cr_calc_sha256 :: "u8 list \<Rightarrow> 'h cr_context \<Rightarrow> u16 \<Rightarrow> u16 \<Rightarrow> (u8 list \<times> u8) result" where
  "cr_calc_sha256 junk ctx offset len =
     bind_r (sha256_read ctx offset len (sha256_init junk)) (\<lambda>(offset, len, c).
     bind_r (cx_read ctx (cx_handle ctx) offset (unat len)) (\<lambda>buffer.
     bind_r (sha256_update c buffer) (\<lambda>c'.
     bind_r (sha256_final c') (\<lambda>result. Inr (result, 32)))))"

subsection \<open>The reference\<close>

definition hash_zeros :: "nat \<Rightarrow> nat" where
  "hash_zeros n = (if n mod 64 < 56 then 55 - n mod 64 else 119 - n mod 64)"

definition sha256_padded :: "u8 list \<Rightarrow> u8 list" where
  "sha256_padded msg = msg @ [0x80] @ replicate (hash_zeros (length msg)) 0 @ be64 (8 * of_nat (length msg))"

definition sha256_ref :: "u8 list \<Rightarrow> u8 list" where
  "sha256_ref msg =
     concat (map (\<lambda>w. map (\<lambda>i. ucast (drop_bit (24 - i * 8) w AND 0xff)) [0 ..< 4])
       (fst (run_blocks sha256_transform (sh_state (sha256_init [])) (sha256_padded msg))))"

definition sha256_good :: "sha256_ctx \<Rightarrow> bool" where
  "sha256_good c \<longleftrightarrow> length (sh_data c) = 64 \<and> unat (sh_datalen c) < 64"

definition sha256_rest :: "sha256_ctx \<Rightarrow> u8 list" where
  "sha256_rest c = take (unat (sh_datalen c)) (sh_data c)"

lemma unat_suc64: "unat (x :: u64) < 64 \<Longrightarrow> unat (x + 1) = unat x + 1"
  by (simp add: unat_word_ariths)

lemma sha256_byte_good:
  assumes g: "sha256_good c"
  shows "\<exists>c'. sha256_byte x c = Inr c' \<and> sha256_good c' \<and>
    sh_bitlen c' + 8 * sh_datalen c' = sh_bitlen c + 8 * sh_datalen c + 8 \<and>
    (if length (sha256_rest c) = 63 then sh_state c' = sha256_transform (sh_state c) (sha256_rest c @ [x]) \<and> sha256_rest c' = []
     else sh_state c' = sh_state c \<and> sha256_rest c' = sha256_rest c @ [x])"
proof -
  let ?n = "unat (sh_datalen c)"
  have n: "?n < 64" "length (sh_data c) = 64" "length (sha256_rest c) = ?n" using g by (simp_all add: sha256_good_def sha256_rest_def)
  have up: "unat (sh_datalen c + 1) = ?n + 1" by (rule unat_suc64 [OF n(1)])
  have eq: "sh_datalen c + 1 = 64 \<longleftrightarrow> ?n = 63" using up by (simp add: word_unat_eq_iff)
  have tk: "take (Suc ?n) ((sh_data c)[?n := x]) = sha256_rest c @ [x]"
    using n by (simp add: sha256_rest_def take_Suc_conv_app_nth)
  show ?thesis
  proof (cases "?n = 63")
    case True
    have "(sh_data c)[?n := x] = sha256_rest c @ [x]" using tk n True by simp
    moreover have "sh_datalen c = 63" using True by (simp add: word_unat_eq_iff)
    ultimately show ?thesis using n True eq by (auto simp: sha256_byte_def Let_def sha256_good_def sha256_rest_def)
  next
    case False
    then show ?thesis using n eq up tk by (auto simp: sha256_byte_def Let_def sha256_good_def sha256_rest_def [of "_\<lparr>sh_data := _, sh_datalen := _\<rparr>"] distrib_left)
  qed
qed

interpretation sha256: block_hash sha256_byte sh_state sha256_rest sha256_transform sha256_good
proof
  show "length (sha256_rest c) < 64" if "sha256_good c" for c
    using that by (simp add: sha256_good_def sha256_rest_def)
  show "\<exists>c'. sha256_byte x c = Inr c' \<and> sha256_good c' \<and>
      (if length (sha256_rest c) = 63 then sh_state c' = sha256_transform (sh_state c) (sha256_rest c @ [x]) \<and> sha256_rest c' = []
       else sh_state c' = sh_state c \<and> sha256_rest c' = sha256_rest c @ [x])" if "sha256_good c" for c x
    using sha256_byte_good [OF that, of x] by metis
qed

lemma sha256_total:
  "sha256_good c \<Longrightarrow> sha256_update c xs = Inr c' \<Longrightarrow>
    sh_bitlen c' + 8 * sh_datalen c' = sh_bitlen c + 8 * sh_datalen c + 8 * of_nat (length xs)"
proof (induction xs arbitrary: c)
  case (Cons x xs)
  from sha256_byte_good [OF Cons.prems(1), of x] obtain c1 where c1: "sha256_byte x c = Inr c1" "sha256_good c1"
    "sh_bitlen c1 + 8 * sh_datalen c1 = sh_bitlen c + 8 * sh_datalen c + 8" by blast
  with Cons.IH [OF c1(2)] Cons.prems(2) show ?case by (simp add: sha256_update_def distrib_left)
qed (simp add: sha256_update_def)

lemma length_be64 [simp]: "length (be64 x) = 8"
  by (simp add: be64_def)

lemma run_two_blocks:
  "length xs = 64 \<Longrightarrow> length ys = 64 \<Longrightarrow> run_blocks f s (xs @ ys) = (f (f s xs) ys, [])"
  by (subst run_blocks_append) (simp add: run_blocks_block)

lemma sha256_final_eq:
  assumes g: "sha256_good c"
  shows "sha256_final c = Inr (concat (map (\<lambda>w. map (\<lambda>i. ucast (drop_bit (24 - i * 8) w AND 0xff)) [0 ..< 4])
    (fst (run_blocks sha256_transform (sh_state c)
      (sha256_rest c @ [0x80] @ replicate (hash_zeros (length (sha256_rest c))) 0 @ be64 (sh_bitlen c + 8 * sh_datalen c))))))"
proof -
  define n where "n = unat (sh_datalen c)"
  define t where "t = be64 (sh_bitlen c + 8 * sh_datalen c)"
  have n: "n < 64" "length (sh_data c) = 64" "length (sha256_rest c) = n" and r: "take n (sh_data c) = sha256_rest c"
    using g by (simp_all add: sha256_good_def sha256_rest_def n_def)
  have t: "length t = 8" by (simp add: t_def)
  have m8: "sh_datalen c * 8 = 8 * sh_datalen c" by simp
  show ?thesis
  proof (cases "n < 56")
    case True
    define p where "p = sha256_rest c @ [0x80] @ replicate (55 - n) 0"
    have p: "length p = 56" using n True by (simp add: p_def)
    have z: "sha256_rest c @ [0x80] @ replicate (hash_zeros n) 0 @ t = p @ t" using True by (simp add: hash_zeros_def p_def)
    have c1: "sha256_pad c = c\<lparr>sh_data := p @ drop 56 (sh_data c)\<rparr>"
      using True by (simp add: sha256_pad_def Let_def p_def r flip: n_def)
    have "run_blocks sha256_transform (sh_state c) (p @ t) = (sha256_transform (sh_state c) (p @ t), [])"
      by (rule run_blocks_block) (simp add: p t)
    then show ?thesis
      unfolding n(3) t_def [symmetric] z using n p by (simp add: sha256_final_def c1 Let_def m8 flip: n_def t_def)
  next
    case False
    define p where "p = sha256_rest c @ [0x80] @ replicate (63 - n) 0"
    have p: "length p = 64" using n False by (simp add: p_def)
    have z: "sha256_rest c @ [0x80] @ replicate (hash_zeros n) 0 @ t = p @ replicate 56 0 @ t"
    proof -
      have "hash_zeros n = (63 - n) + 56" using False n by (simp add: hash_zeros_def)
      then show ?thesis by (simp only: p_def replicate_add append_assoc)
    qed
    have c1: "sha256_pad c = c\<lparr>sh_data := replicate 56 0 @ drop 56 p, sh_state := sha256_transform (sh_state c) p\<rparr>"
      using False by (simp add: sha256_pad_def Let_def p_def r flip: n_def)
    have "run_blocks sha256_transform (sh_state c) (p @ replicate 56 0 @ t) =
        (sha256_transform (sha256_transform (sh_state c) p) (replicate 56 0 @ t), [])"
      by (rule run_two_blocks) (simp_all add: p t)
    then show ?thesis
      unfolding n(3) t_def [symmetric] z using n p by (simp add: sha256_final_def c1 Let_def m8 flip: n_def t_def)
  qed
qed

lemma sha256_message:
  assumes "length junk = 64" "sha256_update (sha256_init junk) msg = Inr c"
  shows "sha256_final c = Inr (sha256_ref msg)"
proof -
  let ?c0 = "sha256_init junk"
  have g0: "sha256_good ?c0" "sha256_rest ?c0 = []" "sh_state ?c0 = sh_state (sha256_init [])"
    using assms(1) by (simp_all add: sha256_good_def sha256_init_def sha256_rest_def)
  from sha256.each_put [OF g0(1), of msg] assms(2) have
    c: "sha256_good c" "run_blocks sha256_transform (sh_state (sha256_init [])) msg = (sh_state c, sha256_rest c)"
    by (simp_all add: sha256_update_def g0(2,3))
  have "sh_bitlen c + 8 * sh_datalen c = 8 * of_nat (length msg)"
    using sha256_total [OF g0(1) assms(2)] by (simp add: sha256_init_def)
  moreover have "hash_zeros (length (sha256_rest c)) = hash_zeros (length msg)"
    using run_blocks_rest [of sha256_transform "sh_state (sha256_init [])" msg] c(2) by (simp add: hash_zeros_def)
  ultimately show ?thesis
    by (simp add: sha256_final_eq [OF c(1)] sha256_ref_def sha256_padded_def run_blocks_append [of _ _ msg] c(2))
qed

lemma sha256_update_append: "sha256_update c (xs @ ys) = bind_r (sha256_update c xs) (\<lambda>c'. sha256_update c' ys)"
proof (induction xs arbitrary: c)
  case (Cons x xs)
  then show ?case by (cases "sha256_byte x c") (simp_all add: sha256_update_def)
qed (simp add: sha256_update_def)

lemma sha256_update_ok: "sha256_good c \<Longrightarrow> \<exists>c'. sha256_update c xs = Inr c' \<and> sha256_good c'"
  using sha256.each_put [of c xs] by (auto simp: sha256_update_def)

text \<open>Of every 32 bytes but the last, the read loop takes the first 16.\<close>

function half_read :: "u8 list \<Rightarrow> u8 list" where
  "half_read xs = (if 32 < length xs then take 16 xs @ half_read (drop 32 xs) else xs)"
  by auto
termination by (relation "measure length") auto

declare half_read.simps [simp del]

context cr_storage
begin

lemma sha256_read_half:
  assumes "cx_read ctx = rd" "sha256_good c" "unat offset + unat len \<le> length (mem (cx_handle ctx))"
    and "length (mem (cx_handle ctx)) \<le> 65536"
  shows "bind_r (sha256_read ctx offset len c) (\<lambda>(offset, len, c).
      bind_r (cx_read ctx (cx_handle ctx) offset (unat len)) (\<lambda>buffer. sha256_update c buffer)) =
    sha256_update c (half_read (take (unat len) (drop (unat offset) (mem (cx_handle ctx)))))"
  using assms
proof (induction ctx offset len c rule: sha256_read.induct)
  case (1 ctx offset len c)
  let ?m = "mem (cx_handle ctx)" and ?o = "unat offset" and ?l = "unat len"
  let ?xs = "take ?l (drop ?o ?m)"
  show ?case
  proof (cases "32 < len")
    case False
    then have "\<not> 32 < ?l" by (simp add: word_less_nat_alt)
    then show ?thesis using 1 False read_ok [of offset ?l "cx_handle ctx"]
      by (simp add: sha256_read.simps [of ctx offset len c] half_read.simps [of ?xs])
  next
    case True
    then have l: "32 < ?l" by (simp add: word_less_nat_alt)
    then have u: "unat (offset + 32) = ?o + 32" "unat (len - 32) = ?l - 32"
      using 1(4,5) True by (simp_all add: unat_word_ariths unat_sub_if' word_less_nat_alt)
    have rdb: "cx_read ctx (cx_handle ctx) offset 16 = Inr (take 16 ?xs)"
      using 1(2,4) l read_ok [of offset 16 "cx_handle ctx"] by (simp add: min_def)
    obtain c' where c': "sha256_update c (take 16 ?xs) = Inr c'" "sha256_good c'" using sha256_update_ok [OF 1(3)] by blast
    have h: "half_read ?xs = take 16 ?xs @ half_read (take (?l - 32) (drop (?o + 32) ?m))"
      using l 1(4) by (simp add: half_read.simps [of ?xs] drop_take ac_simps)
    have "bind_r (sha256_read ctx offset len c) (\<lambda>(offset, len, c).
        bind_r (cx_read ctx (cx_handle ctx) offset (unat len)) (\<lambda>buffer. sha256_update c buffer)) =
      bind_r (sha256_read ctx (offset + 32) (len - 32) c') (\<lambda>(offset, len, c).
        bind_r (cx_read ctx (cx_handle ctx) offset (unat len)) (\<lambda>buffer. sha256_update c buffer))"
      using True rdb c'(1) by (simp add: sha256_read.simps [of ctx offset len c])
    also have "\<dots> = sha256_update c' (half_read (take (?l - 32) (drop (?o + 32) ?m)))"
      using 1(1) [OF True 1(2) c'(2)] 1(4,5) u l by simp
    also have "\<dots> = sha256_update c (half_read ?xs)" unfolding h sha256_update_append c'(1) by simp
    finally show ?thesis .
  qed
qed

end

text \<open>C33: \<^verbatim>\<open>cr_calc_sha256\<close> over memory always returns, and its digest is that of the reference - the compression function of
  \<^verbatim>\<open>sha256_transform\<close> over the message padded with 0x80, zeros and its bit length - but of another message: of every 32
  bytes before the last ones the loop reads and hashes 16 and skips 16. Two inputs that differ only in skipped bytes have
  the same digest. What the buffer of the context held before does not matter.\<close>
theorem cr_calc_sha256_half:
  assumes "cx_read ctx = cr_mem_read" "unat offset + unat len \<le> length (cx_handle ctx)" "length (cx_handle ctx) \<le> 65536"
    and "length junk = 64"
  shows "cr_calc_sha256 junk ctx offset len =
    Inr (sha256_ref (half_read (take (unat len) (drop (unat offset) (cx_handle ctx)))), 32)"
proof -
  let ?msg = "half_read (take (unat len) (drop (unat offset) (cx_handle ctx)))"
  have g: "sha256_good (sha256_init junk)" using assms(4) by (simp add: sha256_good_def sha256_init_def)
  obtain c where c: "sha256_update (sha256_init junk) ?msg = Inr c" using sha256_update_ok [OF g] by blast
  have "bind_r (sha256_read ctx offset len (sha256_init junk)) (\<lambda>(offset, len, c).
      bind_r (cx_read ctx (cx_handle ctx) offset (unat len)) (\<lambda>buffer. sha256_update c buffer)) = Inr c"
    using memory.sha256_read_half [OF assms(1) g, of offset len] assms(2,3) c by simp
  then obtain o' l' c1 buf where "sha256_read ctx offset len (sha256_init junk) = Inr (o', l', c1)"
      "cx_read ctx (cx_handle ctx) o' (unat l') = Inr buf" "sha256_update c1 buf = Inr c"
    by (auto simp: bind_r_Inr_iff)
  with sha256_message [OF assms(4) c] show ?thesis by (simp add: cr_calc_sha256_def)
qed

theorem cr_calc_sha256_half_witness:
  "cr_calc_sha256 (replicate 64 0) (cr_init_context (replicate 16 1 @ replicate 16 2 @ [3])) 0 33 =
    Inr (sha256_ref (replicate 16 1 @ [3]), 32)"
proof -
  have 1: "cx_read (cr_init_context m) = cr_mem_read" "cx_handle (cr_init_context m) = m" for m
    by (simp_all add: cr_init_context_def)
  have 2: "half_read (take (unat (33 :: u16)) (drop (unat (0 :: u16)) (replicate 16 1 @ replicate 16 2 @ [3]))) = replicate 16 1 @ [3]"
    by (simp add: half_read.simps)
  show ?thesis
    using cr_calc_sha256_half [of "cr_init_context (replicate 16 1 @ replicate 16 2 @ [3])" 0 33 "replicate 64 0"] unfolding 1 2 by simp
qed

text \<open>A byte of 128 or more at the top of a word fills the upper half of the 64-bit word with ones.\<close>

lemma sha256_word_sign:
  assumes "0x80 \<le> d ! j"
  shows "drop_bit 32 (sha256_word d j) = 0xFFFFFFFF"
proof -
  have top: "bit (d ! j) 7"
  proof (rule ccontr)
    assume n: "\<not> bit (d ! j) 7"
    have "take_bit 7 (d ! j) = d ! j"
    proof (rule bit_word_eqI)
      fix i assume "i < LENGTH(8)"
      then show "bit (take_bit 7 (d ! j)) i = bit (d ! j) i" using n by (cases "i = 7") (auto simp: bit_simps)
    qed
    then have "unat (d ! j) = take_bit 7 (unat (d ! j))" by (metis unsigned_take_bit_eq)
    then have "unat (d ! j) < 2 ^ 7" by (metis take_bit_nat_less_exp)
    with assms show False by (simp add: word_le_nat_alt)
  qed
  have "drop_bit 32 (sha256_word d j) = mask 32"
    by (rule bit_word_eqI) (use top in \<open>auto simp: sha256_word_def bit_simps min_def\<close>)
  then show ?thesis by (simp add: mask_eq_exp_minus_1)
qed

section \<open>MD5\<close>

record md5_ctx =
  md_i0 :: u64
  md_i1 :: u64
  md_buf :: "u64 list"
  md_in :: "u8 list"

definition md5_F :: "u64 \<Rightarrow> u64 \<Rightarrow> u64 \<Rightarrow> u64" where "md5_F x y z = (x AND y) OR (NOT x AND z)"
definition md5_G :: "u64 \<Rightarrow> u64 \<Rightarrow> u64 \<Rightarrow> u64" where "md5_G x y z = (x AND z) OR (y AND NOT z)"
definition md5_H :: "u64 \<Rightarrow> u64 \<Rightarrow> u64 \<Rightarrow> u64" where "md5_H x y z = x XOR y XOR z"
definition md5_I :: "u64 \<Rightarrow> u64 \<Rightarrow> u64 \<Rightarrow> u64" where "md5_I x y z = y XOR (x OR NOT z)"

definition ROTATE_LEFT :: "u64 \<Rightarrow> nat \<Rightarrow> u64" where
  "ROTATE_LEFT x n = push_bit n x OR drop_bit (32 - n) x"

text \<open>One step on the registers, which change their roles: what was \<open>d\<close> is \<open>a\<close> of the next step.\<close>

definition md5_step :: "u64 list \<Rightarrow> (u64 \<Rightarrow> u64 \<Rightarrow> u64 \<Rightarrow> u64) \<times> nat \<times> nat \<times> u64 \<Rightarrow> u64 \<times> u64 \<times> u64 \<times> u64 \<Rightarrow> u64 \<times> u64 \<times> u64 \<times> u64" where
  "md5_step ws = (\<lambda>(f, x, s, ac) (a, b, c, d).
     (let a1 = a + (f b c d + ws ! x + ac); a2 = ROTATE_LEFT a1 s; a3 = a2 + b in (d, a3, b, c)))"

definition md5_steps :: "((u64 \<Rightarrow> u64 \<Rightarrow> u64 \<Rightarrow> u64) \<times> nat \<times> nat \<times> u64) list" where
  "md5_steps = [
    (md5_F, 0, 7, 3614090360), (md5_F, 1, 12, 3905402710), (md5_F, 2, 17, 606105819), (md5_F, 3, 22, 3250441966),
    (md5_F, 4, 7, 4118548399), (md5_F, 5, 12, 1200080426), (md5_F, 6, 17, 2821735955), (md5_F, 7, 22, 4249261313),
    (md5_F, 8, 7, 1770035416), (md5_F, 9, 12, 2336552879), (md5_F, 10, 17, 4294925233), (md5_F, 11, 22, 2304563134),
    (md5_F, 12, 7, 1804603682), (md5_F, 13, 12, 4254626195), (md5_F, 14, 17, 2792965006), (md5_F, 15, 22, 1236535329),
    (md5_G, 1, 5, 4129170786), (md5_G, 6, 9, 3225465664), (md5_G, 11, 14, 643717713), (md5_G, 0, 20, 3921069994),
    (md5_G, 5, 5, 3593408605), (md5_G, 10, 9, 38016083), (md5_G, 15, 14, 3634488961), (md5_G, 4, 20, 3889429448),
    (md5_G, 9, 5, 568446438), (md5_G, 14, 9, 3275163606), (md5_G, 3, 14, 4107603335), (md5_G, 8, 20, 1163531501),
    (md5_G, 13, 5, 2850285829), (md5_G, 2, 9, 4243563512), (md5_G, 7, 14, 1735328473), (md5_G, 12, 20, 2368359562),
    (md5_H, 5, 4, 4294588738), (md5_H, 8, 11, 2272392833), (md5_H, 11, 16, 1839030562), (md5_H, 14, 23, 4259657740),
    (md5_H, 1, 4, 2763975236), (md5_H, 4, 11, 1272893353), (md5_H, 7, 16, 4139469664), (md5_H, 10, 23, 3200236656),
    (md5_H, 13, 4, 681279174), (md5_H, 0, 11, 3936430074), (md5_H, 3, 16, 3572445317), (md5_H, 6, 23, 76029189),
    (md5_H, 9, 4, 3654602809), (md5_H, 12, 11, 3873151461), (md5_H, 15, 16, 530742520), (md5_H, 2, 23, 3299628645),
    (md5_I, 0, 6, 4096336452), (md5_I, 7, 10, 1126891415), (md5_I, 14, 15, 2878612391), (md5_I, 5, 21, 4237533241),
    (md5_I, 12, 6, 1700485571), (md5_I, 3, 10, 2399980690), (md5_I, 10, 15, 4293915773), (md5_I, 1, 21, 2240044497),
    (md5_I, 8, 6, 1873313359), (md5_I, 15, 10, 4264355552), (md5_I, 6, 15, 2734768916), (md5_I, 13, 21, 1309151649),
    (md5_I, 4, 6, 4149444226), (md5_I, 11, 10, 3174756917), (md5_I, 2, 15, 718787259), (md5_I, 9, 21, 3951481745)]"

definition md5_transform :: "u64 list \<Rightarrow> u64 list \<Rightarrow> u64 list" where
  "md5_transform buf ws =
     (case fold (md5_step ws) md5_steps (buf ! 0, buf ! 1, buf ! 2, buf ! 3) of
        (a, b, c, d) \<Rightarrow> [buf ! 0 + a, buf ! 1 + b, buf ! 2 + c, buf ! 3 + d])"

definition le_word :: "u8 list \<Rightarrow> nat \<Rightarrow> u64" where
  "le_word d j = push_bit 24 (ucast (d ! (j + 3))) OR push_bit 16 (ucast (d ! (j + 2))) OR push_bit 8 (ucast (d ! (j + 1))) OR
     ucast (d ! j)"

definition le_words :: "nat \<Rightarrow> u8 list \<Rightarrow> u64 list" where
  "le_words n d = map (\<lambda>i. le_word d (4 * i)) [0 ..< n]"

definition MD5Init :: "u8 list \<Rightarrow> md5_ctx" where
  "MD5Init d = \<lparr>md_i0 = 0, md_i1 = 0, md_buf = [0x67452301, 0xefcdab89, 0x98badcfe, 0x10325476], md_in = d\<rparr>"

text \<open>One byte of \<^verbatim>\<open>MD5Update\<close>: the index, the buffer of bytes and the words.\<close>

definition md5_byte :: "u8 \<Rightarrow> nat \<times> u64 list \<times> u8 list \<Rightarrow> (nat \<times> u64 list \<times> u8 list) result" where
  "md5_byte x = (\<lambda>(mdi, buf, d).
     if length d \<le> mdi then Inl Out_Of_Bounds
     else
       let d' = d[mdi := x]
       in Inr (if mdi + 1 = 0x40 then (0, md5_transform buf (le_words 16 d'), d') else (mdi + 1, buf, d')))"

definition md5_index :: "md5_ctx \<Rightarrow> nat" where
  "md5_index c = unat (drop_bit 3 (md_i0 c) AND 0x3F)"

definition MD5Update :: "md5_ctx \<Rightarrow> u8 list \<Rightarrow> md5_ctx result" where
  "MD5Update c xs =
     (let n = of_nat (length xs) :: u64;
          i1 = (if md_i0 c + push_bit 3 n < md_i0 c then md_i1 c + 1 else md_i1 c)
      in bind_r (each md5_byte xs (md5_index c, md_buf c, md_in c)) (\<lambda>(mdi, buf, d).
           Inr \<lparr>md_i0 = md_i0 c + push_bit 3 n, md_i1 = i1 + drop_bit 29 n, md_buf = buf, md_in = d\<rparr>))"

definition PADDING :: "u8 list" where "PADDING = 0x80 # replicate 63 0"

definition MD5Final :: "md5_ctx \<Rightarrow> u8 list result" where
  "MD5Final c =
     (let mdi = md5_index c; padLen = (if mdi < 56 then 56 - mdi else 120 - mdi)
      in bind_r (MD5Update c (take padLen PADDING)) (\<lambda>c1.
           let buf = md5_transform (md_buf c1) (le_words 14 (md_in c1) @ [md_i0 c, md_i1 c])
           in Inr (concat (map (\<lambda>w. map (\<lambda>i. ucast (drop_bit (8 * i) w AND 0xFF)) [0 ..< 4]) buf))))"

function md5_read :: "'h cr_context \<Rightarrow> u16 \<Rightarrow> u16 \<Rightarrow> md5_ctx \<Rightarrow> (u16 \<times> u16 \<times> md5_ctx) result" where
  "md5_read ctx offset len c =
     (if 16 < len then
        bind_r (cx_read ctx (cx_handle ctx) offset 16) (\<lambda>buffer.
        bind_r (MD5Update c buffer) (\<lambda>c'. md5_read ctx (offset + 16) (len - 16) c'))
      else Inr (offset, len, c))"
  by auto
termination
  by (relation "measure (\<lambda>(ctx, offset, len, c). unat len)") (auto simp: word_less_nat_alt unat_sub_if')

declare md5_read.simps [simp del]

definition cr_calc_md5 :: "u8 list \<Rightarrow> 'h cr_context \<Rightarrow> u16 \<Rightarrow> u16 \<Rightarrow> (u8 list \<times> u8) result" where
  "cr_calc_md5 junk ctx offset len =
     bind_r (md5_read ctx offset len (MD5Init junk)) (\<lambda>(offset, len, c).
     bind_r (cx_read ctx (cx_handle ctx) offset (unat len)) (\<lambda>buffer.
     bind_r (MD5Update c buffer) (\<lambda>c'.
     bind_r (MD5Final c') (\<lambda>result. Inr (result, 16)))))"

subsection \<open>The reference\<close>

definition md5_compress :: "u64 list \<Rightarrow> u8 list \<Rightarrow> u64 list" where
  "md5_compress buf block = md5_transform buf (le_words 16 block)"

definition md5_iv :: "u64 list" where "md5_iv = md_buf (MD5Init [])"

definition md5_ref :: "u8 list \<Rightarrow> u8 list" where
  "md5_ref msg =
     (case run_blocks md5_compress md5_iv (msg @ 0x80 # replicate (hash_zeros (length msg)) 0) of
        (buf, r) \<Rightarrow> concat (map (\<lambda>w. map (\<lambda>i. ucast (drop_bit (8 * i) w AND 0xFF)) [0 ..< 4])
          (md5_transform buf (le_words 14 r @ [8 * of_nat (length msg), 0]))))"

interpretation md5: block_hash md5_byte "\<lambda>(mdi, buf, d). buf" "\<lambda>(mdi, buf, d). take mdi d" md5_compress
    "\<lambda>(mdi, buf, d). mdi < 64 \<and> length d = 64"
proof (unfold_locales, goal_cases)
  case (1 c)
  then show ?case by auto
next
  case (2 c x)
  obtain mdi buf d where c: "c = (mdi, buf, d)" by (cases c) auto
  with 2 have n: "mdi < 64" "length d = 64" by simp_all
  have tk: "take (Suc mdi) (d[mdi := x]) = take mdi d @ [x]" using n by (simp add: take_Suc_conv_app_nth)
  show ?case
  proof (cases "mdi = 63")
    case True
    then have "d[mdi := x] = take mdi d @ [x]" using tk n by simp
    with n True c show ?thesis by (simp add: md5_byte_def md5_compress_def Let_def)
  next
    case False
    with n c tk show ?thesis by (simp add: md5_byte_def Let_def)
  qed
qed

text \<open>A context that took \<open>msg\<close>.\<close>

definition md5_holds :: "md5_ctx \<Rightarrow> u8 list \<Rightarrow> bool" where
  "md5_holds c msg \<longleftrightarrow> length (md_in c) = 64 \<and> md_i0 c = push_bit 3 (of_nat (length msg)) \<and> md_i1 c = 0 \<and>
     run_blocks md5_compress md5_iv msg = (md_buf c, take (length msg mod 64) (md_in c))"

lemma unat_bits: "n < 2 ^ 60 \<Longrightarrow> unat (push_bit 3 (of_nat n :: u64)) = 8 * n"
  by (simp add: push_bit_eq_mult unat_mult_lem [THEN iffD1] unat_word_ariths unat_of_nat)

lemma md5_index_holds:
  assumes "md5_holds c msg" "length msg < 2 ^ 60"
  shows "md5_index c = length msg mod 64"
proof -
  have "unat (drop_bit 3 (md_i0 c)) = length msg"
    using assms unat_bits [OF assms(2)] by (simp add: md5_holds_def drop_bit_eq_div unat_div)
  moreover have "drop_bit 3 (md_i0 c) AND 0x3F = take_bit 6 (drop_bit 3 (md_i0 c))"
    by (simp add: take_bit_eq_mask mask_eq_exp_minus_1)
  ultimately show ?thesis by (simp add: md5_index_def take_bit_eq_mod unat_mod)
qed

lemma MD5Update_holds:
  assumes h: "md5_holds c msg" and len: "length msg + length xs < 2 ^ 60" "length xs < 65536"
  shows "\<exists>c'. MD5Update c xs = Inr c' \<and> md5_holds c' (msg @ xs)"
proof -
  let ?n = "of_nat (length xs) :: u64"
  have idx: "md5_index c = length msg mod 64" by (rule md5_index_holds [OF h]) (use len in simp)
  have c: "length (md_in c) = 64" "run_blocks md5_compress md5_iv msg = (md_buf c, take (length msg mod 64) (md_in c))"
      "md_i0 c = push_bit 3 (of_nat (length msg))" "md_i1 c = 0"
    using h by (simp_all add: md5_holds_def)
  obtain mdi buf d where e: "each md5_byte xs (md5_index c, md_buf c, md_in c) = Inr (mdi, buf, d)" "mdi < 64" "length d = 64"
      "run_blocks md5_compress (md_buf c) (take (length msg mod 64) (md_in c) @ xs) = (buf, take mdi d)"
    using md5.each_put [of "(md5_index c, md_buf c, md_in c)" xs] c(1) idx by auto
  have rb: "run_blocks md5_compress md5_iv (msg @ xs) = (buf, take mdi d)"
    by (subst run_blocks_append) (simp add: c(2) e(4))
  have mdi: "mdi = length (msg @ xs) mod 64"
    using run_blocks_rest [of md5_compress md5_iv "msg @ xs"] rb e(2,3) by simp
  have u: "unat (md_i0 c) = 8 * length msg" "unat (push_bit 3 ?n) = 8 * length xs"
    unfolding c(3) by (rule unat_bits, use len in simp)+
  have "unat (md_i0 c + push_bit 3 ?n) = 8 * length msg + 8 * length xs"
    using u len by (simp add: unat_word_ariths)
  then have "\<not> md_i0 c + push_bit 3 ?n < md_i0 c" using u by (simp add: word_less_nat_alt)
  moreover have "drop_bit 29 ?n = 0"
    using len(2) by (simp add: word_unat_eq_iff drop_bit_eq_div unat_div unat_of_nat)
  moreover have "md_i0 c + push_bit 3 ?n = push_bit 3 (of_nat (length (msg @ xs)))"
    by (simp add: c(3) push_bit_eq_mult distrib_right)
  ultimately show ?thesis using e c(4) rb mdi by (simp add: MD5Update_def Let_def md5_holds_def)
qed

lemma le_words_take: "4 * n \<le> m \<Longrightarrow> m \<le> length d \<Longrightarrow> le_words n (take m d) = le_words n d"
  by (simp add: le_words_def le_word_def)

lemma hash_zeros_mod: "(n + Suc (hash_zeros n)) mod 64 = 56"
proof -
  have "(n + Suc (hash_zeros n)) mod 64 = (n mod 64 + Suc (hash_zeros n)) mod 64" by (simp only: mod_add_left_eq)
  also have "n mod 64 + Suc (hash_zeros n) = 56 \<or> n mod 64 + Suc (hash_zeros n) = 120"
    using mod_less_divisor [of 64 n] unfolding hash_zeros_def by (cases "n mod 64 < 56") auto
  then have "(n mod 64 + Suc (hash_zeros n)) mod 64 = 56" by (elim disjE) simp_all
  finally show ?thesis .
qed

lemma MD5Final_holds:
  assumes h: "md5_holds c msg" and len: "length msg < 2 ^ 59"
  shows "MD5Final c = Inr (md5_ref msg)"
proof -
  let ?z = "hash_zeros (length msg)" and ?mdi = "length msg mod 64"
  have m64: "?mdi < 64" by simp
  have z: "?z < 64" "(if ?mdi < 56 then 56 - ?mdi else 120 - ?mdi) = Suc ?z"
    using m64 unfolding hash_zeros_def by auto
  have idx: "md5_index c = ?mdi" by (rule md5_index_holds [OF h]) (use len in simp)
  have pad: "take (Suc ?z) PADDING = 0x80 # replicate ?z 0" using z(1) by (simp add: PADDING_def)
  obtain c1 where c1: "MD5Update c (0x80 # replicate ?z 0) = Inr c1" "md5_holds c1 (msg @ 0x80 # replicate ?z 0)"
    using MD5Update_holds [OF h, of "0x80 # replicate ?z 0"] z(1) len by auto
  have r: "length (md_in c1) = 64" "length (msg @ 0x80 # replicate ?z 0) mod 64 = 56"
    using c1(2) hash_zeros_mod [of "length msg"] by (simp_all add: md5_holds_def)
  then have rb: "run_blocks md5_compress md5_iv (msg @ 0x80 # replicate ?z 0) = (md_buf c1, take 56 (md_in c1))"
    using c1(2) unfolding md5_holds_def r(2) by blast
  have "md_i0 c = 8 * of_nat (length msg)" "md_i1 c = 0" using h by (simp_all add: md5_holds_def push_bit_eq_mult)
  moreover have "le_words 14 (take 56 (md_in c1)) = le_words 14 (md_in c1)" by (rule le_words_take) (simp_all add: r(1))
  ultimately show ?thesis
    unfolding MD5Final_def Let_def idx z(2) pad c1(1) bind_r_simps md5_ref_def rb prod.case by simp
qed

lemma md5_init_holds: "length junk = 64 \<Longrightarrow> md5_holds (MD5Init junk) []"
  by (simp add: md5_holds_def MD5Init_def md5_iv_def)

context cr_storage
begin

lemma md5_read_all:
  assumes "cx_read ctx = rd" "md5_holds c msg" "unat offset + unat len \<le> length (mem (cx_handle ctx))"
    and "length (mem (cx_handle ctx)) \<le> 65536" "length msg + unat len < 2 ^ 59"
  shows "\<exists>o' l' c' buf. md5_read ctx offset len c = Inr (o', l', c') \<and> cx_read ctx (cx_handle ctx) o' (unat l') = Inr buf \<and>
    (\<exists>c''. MD5Update c' buf = Inr c'' \<and> md5_holds c'' (msg @ take (unat len) (drop (unat offset) (mem (cx_handle ctx)))))"
  using assms
proof (induction ctx offset len c arbitrary: msg rule: md5_read.induct)
  case (1 ctx offset len c)
  let ?m = "mem (cx_handle ctx)" and ?o = "unat offset" and ?l = "unat len"
  show ?case
  proof (cases "16 < len")
    case False
    have l: "?l \<le> 16" using False by (simp add: word_less_nat_alt)
    let ?b = "take ?l (drop ?o ?m)"
    have b: "cx_read ctx (cx_handle ctx) offset ?l = Inr ?b" using 1(2,4) read_ok by simp
    have "length ?b \<le> 16" using l by simp
    with MD5Update_holds [OF 1(3), of ?b] 1(6) l obtain c'' where "MD5Update c ?b = Inr c''" "md5_holds c'' (msg @ ?b)" by auto
    with b False show ?thesis by (simp add: md5_read.simps [of ctx offset len c])
  next
    case True
    then have l: "16 < ?l" by (simp add: word_less_nat_alt)
    have u: "unat (offset + 16) = ?o + 16" "unat (len - 16) = ?l - 16"
      using 1(4,5) True l by (simp_all add: unat_word_ariths unat_sub_if' word_less_nat_alt)
    let ?b = "take 16 (drop ?o ?m)"
    have b: "cx_read ctx (cx_handle ctx) offset 16 = Inr ?b" using 1(2,4) l read_ok by simp
    have lb: "length ?b = 16" using l 1(4) by simp
    from MD5Update_holds [OF 1(3), of ?b] 1(6) l lb obtain c1 where
      c1: "MD5Update c ?b = Inr c1" "md5_holds c1 (msg @ ?b)" by auto
    have tl: "(msg @ ?b) @ take (?l - 16) (drop (?o + 16) ?m) = msg @ take ?l (drop ?o ?m)"
      using l take_add [of 16 "?l - 16" "drop ?o ?m"] by (simp add: add.commute)
    have "\<exists>o' l' c' buf. md5_read ctx (offset + 16) (len - 16) c1 = Inr (o', l', c') \<and> cx_read ctx (cx_handle ctx) o' (unat l') = Inr buf \<and>
        (\<exists>c''. MD5Update c' buf = Inr c'' \<and>
          md5_holds c'' ((msg @ ?b) @ take (unat (len - 16)) (drop (unat (offset + 16)) ?m)))"
      by (rule 1(1) [OF True 1(2) c1(2)]) (use 1(4,5,6) u l lb in simp_all)
    then show ?thesis
      unfolding u tl using True b c1(1) by (simp add: md5_read.simps [of ctx offset len c])
  qed
qed

end

text \<open>C32: \<^verbatim>\<open>cr_calc_md5\<close> over memory always returns, and its digest is that of the reference over exactly the bytes asked
  for: the message is padded with 0x80, zeros and its bit length and its blocks run through \<^verbatim>\<open>Transform\<close> in
  order, whatever pieces the loop reads and whatever the buffer of the context held before.\<close>
theorem cr_calc_md5_correct:
  assumes "cx_read ctx = cr_mem_read" "unat offset + unat len \<le> length (cx_handle ctx)" "length (cx_handle ctx) \<le> 65536"
    and "length junk = 64"
  shows "cr_calc_md5 junk ctx offset len = Inr (md5_ref (take (unat len) (drop (unat offset) (cx_handle ctx))), 16)"
proof -
  have "unat len < 65536" using unsigned_less [of len, where 'a = nat] by simp
  with memory.md5_read_all [OF assms(1) md5_init_holds [OF assms(4)], of offset len] assms(2,3)
  obtain o' l' c' buf c'' where r: "md5_read ctx offset len (MD5Init junk) = Inr (o', l', c')"
    "cx_read ctx (cx_handle ctx) o' (unat l') = Inr buf" "MD5Update c' buf = Inr c''"
    "md5_holds c'' (take (unat len) (drop (unat offset) (cx_handle ctx)))" by auto
  have "MD5Final c'' = Inr (md5_ref (take (unat len) (drop (unat offset) (cx_handle ctx))))"
    by (rule MD5Final_holds [OF r(4)]) (use \<open>unat len < 65536\<close> in simp)
  with r show ?thesis by (simp add: cr_calc_md5_def)
qed

theorem cr_calc_md5_correct_witness:
  "cr_calc_md5 (replicate 64 0) (cr_init_context (replicate 20 1 @ [2, 3])) 1 20 = Inr (md5_ref (replicate 19 1 @ [2]), 16)"
proof -
  have 1: "cx_read (cr_init_context m) = cr_mem_read" "cx_handle (cr_init_context m) = m" for m
    by (simp_all add: cr_init_context_def)
  have 2: "take (unat (20 :: u16)) (drop (unat (1 :: u16)) (replicate 20 1 @ [2, 3])) = (replicate 19 1 @ [2] :: u8 list)"
    by code_simp
  show ?thesis
    using cr_calc_md5_correct [of "cr_init_context (replicate 20 1 @ [2, 3])" 1 20 "replicate 64 0"] unfolding 1 2 by simp
qed

end
