(* ===== verification/CR_SHA1.thy ===== *)
theory CR_SHA1
  imports CR_Hash
begin

text \<open>
  SHA-1, \<^verbatim>\<open>crypto/src/cr_sha1.c\<close>. The word buffer of the context is an array of sixteen \<^verbatim>\<open>uint32\<close>, 128 bytes on the
  LP64 target, that is filled byte by byte and read word by word. A byte that was never written is \<^term>\<open>None\<close>.
\<close>

section \<open>The compression function\<close>

definition rotl32 :: "u64 \<Rightarrow> nat \<Rightarrow> u64" where "rotl32 x n = push_bit n x OR drop_bit (32 - n) x"
definition rotr32 :: "u64 \<Rightarrow> nat \<Rightarrow> u64" where "rotr32 x n = drop_bit n x OR push_bit (32 - n) x"

definition bswap_32 :: "u64 \<Rightarrow> u64" where
  "bswap_32 x = (rotr32 x 24 AND 0x00ff00ff) OR (rotr32 x 8 AND 0xff00ff00)"

definition sha1_ch :: "u64 \<Rightarrow> u64 \<Rightarrow> u64 \<Rightarrow> u64" where "sha1_ch x y z = z XOR (x AND (y XOR z))"
definition sha1_parity :: "u64 \<Rightarrow> u64 \<Rightarrow> u64 \<Rightarrow> u64" where "sha1_parity x y z = x XOR y XOR z"
definition sha1_maj :: "u64 \<Rightarrow> u64 \<Rightarrow> u64 \<Rightarrow> u64" where "sha1_maj x y z = (x AND y) OR (z AND (x XOR y))"

definition hf :: "nat \<Rightarrow> u64 list \<Rightarrow> u64 \<times> u64 list" where
  "hf i w =
     (if i < 16 then (w ! i, w)
      else
        let x = rotl32 (w ! ((i + 13) mod 16) XOR w ! ((i + 8) mod 16) XOR w ! ((i + 2) mod 16) XOR w ! (i mod 16)) 1
        in (x, w[i mod 16 := x]))"

text \<open>One cycle on the five variables, named by their numbers, with the word that \<^verbatim>\<open>hf\<close> gives.\<close>

type_synonym sha1_st = "u64 list \<times> u64 list"

definition one_cycle :: "nat \<Rightarrow> nat \<Rightarrow> nat \<Rightarrow> nat \<Rightarrow> nat \<Rightarrow> (u64 \<Rightarrow> u64 \<Rightarrow> u64 \<Rightarrow> u64) \<Rightarrow> u64 \<Rightarrow> nat \<Rightarrow> sha1_st \<Rightarrow> sha1_st" where
  "one_cycle a b c d e f k i = (\<lambda>(v, w).
     (let (h, w1) = hf i w;
          v1 = v[e := v ! e + (rotr32 (v ! a) 27 + f (v ! b) (v ! c) (v ! d) + k + h)]
      in (v1[b := rotr32 (v1 ! b) 2], w1)))"

definition five_cycle :: "(u64 \<Rightarrow> u64 \<Rightarrow> u64 \<Rightarrow> u64) \<Rightarrow> u64 \<Rightarrow> nat \<Rightarrow> sha1_st \<Rightarrow> sha1_st" where
  "five_cycle f k i s =
     (let s = one_cycle 0 1 2 3 4 f k i s;
          s = one_cycle 4 0 1 2 3 f k (i + 1) s;
          s = one_cycle 3 4 0 1 2 f k (i + 2) s;
          s = one_cycle 2 3 4 0 1 f k (i + 3) s
      in one_cycle 1 2 3 4 0 f k (i + 4) s)"

definition sha1_cycles :: "sha1_st \<Rightarrow> sha1_st" where
  "sha1_cycles s =
     (let s = five_cycle sha1_ch 0x5a827999 0 s;
          s = five_cycle sha1_ch 0x5a827999 5 s;
          s = five_cycle sha1_ch 0x5a827999 10 s;
          s = one_cycle 0 1 2 3 4 sha1_ch 0x5a827999 15 s;
          s = one_cycle 4 0 1 2 3 sha1_ch 0x5a827999 16 s;
          s = one_cycle 3 4 0 1 2 sha1_ch 0x5a827999 17 s;
          s = one_cycle 2 3 4 0 1 sha1_ch 0x5a827999 18 s;
          s = one_cycle 1 2 3 4 0 sha1_ch 0x5a827999 19 s;
          s = five_cycle sha1_parity 0x6ed9eba1 20 s;
          s = five_cycle sha1_parity 0x6ed9eba1 25 s;
          s = five_cycle sha1_parity 0x6ed9eba1 30 s;
          s = five_cycle sha1_parity 0x6ed9eba1 35 s;
          s = five_cycle sha1_maj 0x8f1bbcdc 40 s;
          s = five_cycle sha1_maj 0x8f1bbcdc 45 s;
          s = five_cycle sha1_maj 0x8f1bbcdc 50 s;
          s = five_cycle sha1_maj 0x8f1bbcdc 55 s;
          s = five_cycle sha1_parity 0xca62c1d6 60 s;
          s = five_cycle sha1_parity 0xca62c1d6 65 s;
          s = five_cycle sha1_parity 0xca62c1d6 70 s
      in five_cycle sha1_parity 0xca62c1d6 75 s)"

definition sha1_compile :: "u64 list \<Rightarrow> u64 list \<Rightarrow> u64 list \<times> u64 list" where
  "sha1_compile hash w = (case sha1_cycles (hash, w) of (v, w') \<Rightarrow> (map2 (+) hash v, w'))"

section \<open>The context\<close>

record sha1_ctx =
  s1_count0 :: u64
  s1_count1 :: u64
  s1_hash :: "u64 list"
  s1_wbuf :: "u8 option list"

definition get_word :: "nat \<Rightarrow> u8 option list \<Rightarrow> u64 result" where
  "get_word k wb =
     (let bs = take 8 (drop (8 * k) wb) in
      if length bs < 8 then Inl Out_Of_Bounds
      else if None \<in> set bs then Inl Undefined_Value
      else Inr (foldr (\<lambda>b x. push_bit 8 x OR ucast (the b)) bs 0))"

definition put_word :: "nat \<Rightarrow> u64 \<Rightarrow> u8 option list \<Rightarrow> u8 option list" where
  "put_word k x wb = take (8 * k) wb @ map (\<lambda>i. Some (ucast (drop_bit (8 * i) x))) [0 ..< 8] @ drop (8 * k + 8) wb"

fun get_words :: "nat list \<Rightarrow> u8 option list \<Rightarrow> u64 list result" where
  "get_words [] wb = Inr []"
| "get_words (k # ks) wb = bind_r (get_word k wb) (\<lambda>x. bind_r (get_words ks wb) (\<lambda>xs. Inr (x # xs)))"

text \<open>The loop swaps the words from the last to the first.\<close>

fun bsw_32 :: "nat \<Rightarrow> u8 option list \<Rightarrow> u8 option list result" where
  "bsw_32 0 wb = Inr wb"
| "bsw_32 (Suc i) wb = bind_r (get_word i wb) (\<lambda>x. bsw_32 i (put_word i (bswap_32 x) wb))"

definition compile_ctx :: "sha1_ctx \<Rightarrow> sha1_ctx result" where
  "compile_ctx c =
     bind_r (get_words [0 ..< 16] (s1_wbuf c)) (\<lambda>w.
       case sha1_compile (s1_hash c) w of (h, w') \<Rightarrow>
         Inr (c\<lparr>s1_hash := h, s1_wbuf := fold (\<lambda>k. put_word k (w' ! k)) [0 ..< 16] (s1_wbuf c)\<rparr>))"

definition sha1_begin :: sha1_ctx where
  "sha1_begin = \<lparr>s1_count0 = 0, s1_count1 = 0, s1_hash = [0x67452301, 0xefcdab89, 0x98badcfe, 0x10325476, 0xc3d2e1f0],
     s1_wbuf = replicate 128 None\<rparr>"

text \<open>A read through the context into the buffer from byte \<open>pos\<close> on.\<close>

definition read_into :: "'h cr_context \<Rightarrow> u16 \<Rightarrow> nat \<Rightarrow> nat \<Rightarrow> sha1_ctx \<Rightarrow> sha1_ctx result" where
  "read_into ctx offset pos n c =
     bind_r (cx_read ctx (cx_handle ctx) offset n) (\<lambda>bs.
       if length (s1_wbuf c) < pos + length bs then Inl Out_Of_Bounds
       else Inr (c\<lparr>s1_wbuf := take pos (s1_wbuf c) @ map Some bs @ drop (pos + length bs) (s1_wbuf c)\<rparr>))"

text \<open>The loop over whole blocks; \<open>pos\<close> is below 64, the mask of the count.\<close>

function sha1_blocks :: "'h cr_context \<Rightarrow> u16 \<Rightarrow> u16 \<Rightarrow> nat \<Rightarrow> sha1_ctx \<Rightarrow> (u16 \<times> u16 \<times> nat \<times> sha1_ctx) result" where
  "sha1_blocks ctx offset len pos c =
     (if pos < 64 \<and> 64 - pos \<le> unat len then
        bind_r (read_into ctx offset pos (64 - pos) c) (\<lambda>c1.
        bind_r (bsw_32 16 (s1_wbuf c1)) (\<lambda>wb.
        bind_r (compile_ctx (c1\<lparr>s1_wbuf := wb\<rparr>)) (\<lambda>c2.
          sha1_blocks ctx (offset + of_nat (64 - pos)) (len - of_nat (64 - pos)) 0 c2)))
      else Inr (offset, len, pos, c))"
  by auto
termination
proof (relation "measure (\<lambda>(ctx, offset, len, pos, c). unat len)")
  fix ctx :: "'h cr_context" and offset len :: u16 and pos c c1 wb c2
  assume a: "pos < 64 \<and> 64 - pos \<le> unat len"
  then have "unat (of_nat (64 - pos) :: u16) = 64 - pos" by (subst unat_of_nat) simp
  with a have "unat (len - of_nat (64 - pos)) < unat len" by (subst unat_sub) (auto simp: word_le_nat_alt)
  then show "((ctx, offset + of_nat (64 - pos), len - of_nat (64 - pos), 0, c2), ctx, offset, len, pos, c)
    \<in> measure (\<lambda>(ctx, offset, len, pos, c). unat len)" by simp
qed simp

declare sha1_blocks.simps [simp del]

definition sha1_hash :: "'h cr_context \<Rightarrow> u16 \<Rightarrow> u16 \<Rightarrow> sha1_ctx \<Rightarrow> sha1_ctx result" where
  "sha1_hash ctx offset len c =
     (let pos = unat (s1_count0 c AND 63);
          count0 = s1_count0 c + ucast len;
          c1 = c\<lparr>s1_count0 := count0, s1_count1 := (if count0 < ucast len then s1_count1 c + 1 else s1_count1 c)\<rparr>
      in bind_r (sha1_blocks ctx offset len pos c1) (\<lambda>(offset, len, pos, c2). read_into ctx offset pos (unat len) c2))"

definition sha1_end :: "sha1_ctx \<Rightarrow> u8 list result" where
  "sha1_end c =
     (let i = unat (s1_count0 c AND 63); s = 8 * (3 - i mod 4) in
      bind_r (bsw_32 ((i + 3) div 4) (s1_wbuf c)) (\<lambda>wb.
      bind_r (get_word (i div 4) wb) (\<lambda>x.
        let x1 = (x AND ucast (push_bit s (0xffffff80 :: 32 word))) OR signed (push_bit s (0x00000080 :: 32 word));
            wb1 = put_word (i div 4) x1 wb
        in bind_r
             (if 55 < i then
                bind_r (compile_ctx (c\<lparr>s1_wbuf := if i < 60 then put_word 15 0 wb1 else wb1\<rparr>)) (\<lambda>c1. Inr (0, c1))
              else Inr (i div 4 + 1, c\<lparr>s1_wbuf := wb1\<rparr>)) (\<lambda>(j, c1).
           let wb2 = fold (\<lambda>k. put_word k 0) [j ..< 14] (s1_wbuf c1);
               wb3 = put_word 14 (push_bit 3 (s1_count1 c) OR drop_bit 29 (s1_count0 c)) wb2;
               wb4 = put_word 15 (push_bit 3 (s1_count0 c)) wb3
           in bind_r (compile_ctx (c1\<lparr>s1_wbuf := wb4\<rparr>)) (\<lambda>c2.
                Inr (map (\<lambda>i. ucast (drop_bit (8 * (3 - i mod 4)) (s1_hash c2 ! (i div 4)))) [0 ..< 20]))))))"

definition cr_calc_sha1 :: "'h cr_context \<Rightarrow> u16 \<Rightarrow> u16 \<Rightarrow> (u8 list \<times> u8) result" where
  "cr_calc_sha1 ctx offset len =
     bind_r (sha1_hash ctx offset len sha1_begin) (\<lambda>c. bind_r (sha1_end c) (\<lambda>result. Inr (result, 20)))"

section \<open>Words that were never written\<close>

lemma get_word_unset:
  assumes "k < 16" "length wb = 128" "wb ! (8 * k + 7) = None"
  shows "get_word k wb = Inl Undefined_Value"
proof -
  have "take 8 (drop (8 * k) wb) ! 7 = None" using assms by simp
  moreover have "length (take 8 (drop (8 * k) wb)) = 8" using assms by simp
  ultimately have "None \<in> set (take 8 (drop (8 * k) wb))" using nth_mem [of 7 "take 8 (drop (8 * k) wb)"] by simp
  with assms show ?thesis by (simp add: get_word_def Let_def)
qed

definition filled :: "u8 list \<Rightarrow> u8 option list" where
  "filled bs = map Some bs @ replicate (128 - length bs) None"

lemma filled_facts:
  "length bs \<le> 128 \<Longrightarrow> length (filled bs) = 128" "length bs \<le> j \<Longrightarrow> j < 128 \<Longrightarrow> filled bs ! j = None"
  by (simp_all add: filled_def nth_append)

lemma read_into_new:
  assumes "cx_read ctx (cx_handle ctx) offset n = Inr bs" "length bs \<le> 128" "s1_wbuf c = replicate 128 None"
  shows "read_into ctx offset 0 n c = Inr (c\<lparr>s1_wbuf := filled bs\<rparr>)"
  using assms by (simp add: read_into_def filled_def)

lemma bsw_unset:
  assumes "length bs \<le> 8 * i + 7" "i < 16" "length bs \<le> 128"
  shows "bsw_32 (Suc i) (filled bs) = Inl Undefined_Value"
  using get_word_unset [of i "filled bs"] assms by (simp add: filled_facts)

lemma sha1_end_short:
  assumes "length bs < 64" "s1_count0 c = of_nat (length bs)" "s1_wbuf c = filled bs"
  shows "sha1_end c = Inl Undefined_Value"
proof -
  let ?n = "length bs"
  have "s1_count0 c AND 63 = take_bit 6 (s1_count0 c)" by (simp add: take_bit_eq_mask mask_eq_exp_minus_1)
  then have i: "unat (s1_count0 c AND 63) = ?n"
    using assms(1) by (simp add: take_bit_eq_mod unat_mod assms(2) unat_of_nat)
  show ?thesis
  proof (cases "?n = 0")
    case True
    then have "get_word 0 (filled bs) = Inl Undefined_Value" by (intro get_word_unset) (simp_all add: filled_facts)
    with True i show ?thesis by (simp add: sha1_end_def Let_def assms(3))
  next
    case False
    obtain k where k: "(?n + 3) div 4 = Suc k" "?n \<le> 8 * k + 7" "k < 16"
    proof
      show "(?n + 3) div 4 = Suc ((?n - 1) div 4)" "?n \<le> 8 * ((?n - 1) div 4) + 7" "(?n - 1) div 4 < 16"
        using False assms(1) by presburger+
    qed
    then have "bsw_32 ((?n + 3) div 4) (filled bs) = Inl Undefined_Value" using bsw_unset [of bs k] assms(1) by simp
    then show ?thesis by (simp only: sha1_end_def Let_def i assms(3) bind_r_simps)
  qed
qed

text \<open>\<^verbatim>\<open>cr_calc_sha1\<close> never computes a digest on this target. The block of 64 bytes fills half of the word buffer,
  whose words have 64 bits; the words behind it, and a word that is only partly filled, are read before
  anything was written to them - for every message, the empty one included.\<close>
lemma cr_calc_sha1_undefined:
  assumes "cx_read ctx = cr_mem_read" "unat offset + unat len \<le> length (cx_handle ctx)"
  shows "cr_calc_sha1 ctx offset len = Inl Undefined_Value"
proof (cases "64 \<le> unat len")
  case True
  let ?bs = "take 64 (drop (unat offset) (cx_handle ctx))"
  have "cx_read ctx (cx_handle ctx) offset 64 = Inr ?bs" using assms True by (simp add: cr_mem_read_def)
  moreover have "length ?bs = 64" using assms True by simp
  ultimately have "read_into ctx offset 0 64 c = Inr (c\<lparr>s1_wbuf := filled ?bs\<rparr>)" if "s1_wbuf c = replicate 128 None" for c
    using that by (intro read_into_new) simp_all
  moreover have "bsw_32 (Suc 15) (filled ?bs) = Inl Undefined_Value" by (rule bsw_unset) simp_all
  ultimately show ?thesis
    using True by (simp add: cr_calc_sha1_def sha1_hash_def Let_def sha1_begin_def sha1_blocks.simps [of ctx offset len])
next
  case False
  let ?bs = "take (unat len) (drop (unat offset) (cx_handle ctx))"
  have bs: "cx_read ctx (cx_handle ctx) offset (unat len) = Inr ?bs" "length ?bs = unat len"
    using assms by (simp_all add: cr_mem_read_def)
  let ?c = "sha1_begin\<lparr>s1_count0 := ucast len\<rparr>"
  have "sha1_hash ctx offset len sha1_begin = Inr (?c\<lparr>s1_wbuf := filled ?bs\<rparr>)"
    using False read_into_new [OF bs(1), of ?c] bs(2)
    by (simp add: sha1_hash_def Let_def sha1_begin_def sha1_blocks.simps [of ctx offset len])
  moreover have "sha1_end (?c\<lparr>s1_wbuf := filled ?bs\<rparr>) = Inl Undefined_Value"
    by (rule sha1_end_short) (use False bs(2) in \<open>simp_all add: word_unat_eq_iff unat_of_nat unsigned_ucast_eq take_bit_nat_def\<close>)
  ultimately show ?thesis by (simp add: cr_calc_sha1_def)
qed

lemma cr_calc_sha1_undefined_witness:
  "cr_calc_sha1 (cr_init_context [97, 98, 99]) 0 3 = Inl Undefined_Value"
  using cr_calc_sha1_undefined [of "cr_init_context [97, 98, 99]" 0 3] by (simp add: cr_init_context_def)

section \<open>The cycles as a loop of 80 rounds\<close>

text \<open>
  The reference is the same computation without unrolling: a loop of 80 rounds that keeps the five registers in
  order and has all 80 words of the schedule. It works on the 64 bit words that \<^verbatim>\<open>uint32\<close> is on LP64 and with the
  macros of the code, whose rotations are rotations only for words below \<open>2 ^ 32\<close>. It is therefore not the
  SHA-1 of the standard, and neither is \<^verbatim>\<open>sha1_compile\<close> on this target.
\<close>

function sha1_W :: "u64 list \<Rightarrow> nat \<Rightarrow> u64" where
  "sha1_W w t =
     (if t < 16 then w ! t
      else rotl32 (sha1_W w (t - 3) XOR sha1_W w (t - 8) XOR sha1_W w (t - 14) XOR sha1_W w (t - 16)) 1)"
  by auto
termination by (relation "measure snd") auto

declare sha1_W.simps [simp del]

definition sha1_f :: "nat \<Rightarrow> u64 \<Rightarrow> u64 \<Rightarrow> u64 \<Rightarrow> u64" where
  "sha1_f t = (if t < 20 then sha1_ch else if t < 40 then sha1_parity else if t < 60 then sha1_maj else sha1_parity)"

definition sha1_K :: "nat \<Rightarrow> u64" where
  "sha1_K t = (if t < 20 then 0x5a827999 else if t < 40 then 0x6ed9eba1 else if t < 60 then 0x8f1bbcdc else 0xca62c1d6)"

fun sha1_step :: "u64 list \<Rightarrow> nat \<Rightarrow> u64 \<times> u64 \<times> u64 \<times> u64 \<times> u64 \<Rightarrow> u64 \<times> u64 \<times> u64 \<times> u64 \<times> u64" where
  "sha1_step w t (a, b, c, d, e) = (rotl32 a 5 + sha1_f t b c d + e + sha1_K t + sha1_W w t, a, rotl32 b 30, c, d)"

definition sha1_ref_rounds :: "u64 list \<Rightarrow> u64 \<times> u64 \<times> u64 \<times> u64 \<times> u64 \<Rightarrow> u64 \<times> u64 \<times> u64 \<times> u64 \<times> u64" where
  "sha1_ref_rounds w = fold (sha1_step w) [0 ..< 80]"

text \<open>The cycle of number \<open>t\<close>: register \<open>j\<close> is variable \<open>var t j\<close>.\<close>

definition var :: "nat \<Rightarrow> nat \<Rightarrow> nat" where
  "var t j = (j + 4 * t) mod 5"

definition cycle :: "nat \<Rightarrow> sha1_st \<Rightarrow> sha1_st" where
  "cycle t = one_cycle (var t 0) (var t 1) (var t 2) (var t 3) (var t 4) (sha1_f t) (sha1_K t) t"

lemma round_blocks:
  assumes "r < 5"
  shows "sha1_f (5 * j + r) = sha1_f (5 * j)" "sha1_K (5 * j + r) = sha1_K (5 * j)" "var (5 * j + r) m = (m + 4 * r) mod 5"
proof -
  have "5 * j + r < 20 \<longleftrightarrow> 5 * j < 20" "5 * j + r < 40 \<longleftrightarrow> 5 * j < 40" "5 * j + r < 60 \<longleftrightarrow> 5 * j < 60"
    using assms by presburger+
  then show "sha1_f (5 * j + r) = sha1_f (5 * j)" "sha1_K (5 * j + r) = sha1_K (5 * j)" by (simp_all add: sha1_f_def sha1_K_def)
  have "m + 4 * (5 * j + r) = (m + 4 * r) + 5 * (4 * j)" by simp
  then show "var (5 * j + r) m = (m + 4 * r) mod 5" by (simp only: var_def mod_mult_self2)
qed

lemma five_cycle_step:
  "fold cycle [0 ..< 5 * Suc j] s = five_cycle (sha1_f (5 * j)) (sha1_K (5 * j)) (5 * j) (fold cycle [0 ..< 5 * j] s)"
proof -
  have r: "cycle (5 * j) = one_cycle 0 1 2 3 4 (sha1_f (5 * j)) (sha1_K (5 * j)) (5 * j)"
      "cycle (5 * j + 1) = one_cycle 4 0 1 2 3 (sha1_f (5 * j)) (sha1_K (5 * j)) (5 * j + 1)"
      "cycle (5 * j + 2) = one_cycle 3 4 0 1 2 (sha1_f (5 * j)) (sha1_K (5 * j)) (5 * j + 2)"
      "cycle (5 * j + 3) = one_cycle 2 3 4 0 1 (sha1_f (5 * j)) (sha1_K (5 * j)) (5 * j + 3)"
      "cycle (5 * j + 4) = one_cycle 1 2 3 4 0 (sha1_f (5 * j)) (sha1_K (5 * j)) (5 * j + 4)"
    using round_blocks [of 0 j] round_blocks [of 1 j] round_blocks [of 2 j] round_blocks [of 3 j] round_blocks [of 4 j]
    by (simp_all add: cycle_def)
  have "5 * Suc j = Suc (Suc (Suc (Suc (Suc (5 * j)))))" by simp
  then have "[0 ..< 5 * Suc j] = [0 ..< 5 * j] @ [5 * j, 5 * j + 1, 5 * j + 2, 5 * j + 3, 5 * j + 4]"
    by (simp only:) simp
  then show ?thesis by (simp only: fold_append o_apply fold_simps r five_cycle_def Let_def id_apply)
qed

lemma sha1_cycles_fold: "sha1_cycles s = fold cycle [0 ..< 5 * 16] s"
proof -
  have f: "5 * (16 :: nat) = 5 * Suc (Suc (Suc (Suc (Suc (Suc (Suc (Suc (Suc (Suc (Suc (Suc (Suc (Suc (Suc (Suc 0)))))))))))))))"
    by simp
  show ?thesis
    unfolding f five_cycle_step unfolding sha1_cycles_def Let_def
    by (simp add: sha1_f_def sha1_K_def five_cycle_def Let_def)
qed

definition regs :: "nat \<Rightarrow> u64 list \<Rightarrow> u64 \<times> u64 \<times> u64 \<times> u64 \<times> u64" where
  "regs t v = (v ! var t 0, v ! var t 1, v ! var t 2, v ! var t 3, v ! var t 4)"

lemma rotations: "rotr32 x 27 = rotl32 x 5" "rotr32 x 2 = rotl32 x 30"
  by (simp_all add: rotr32_def rotl32_def or.commute)

lemma var_mod: "var t j = (j + 4 * (t mod 5)) mod 5" "var (Suc t) j = (j + 4 * (t mod 5) + 4) mod 5"
proof -
  have t: "t = t mod 5 + 5 * (t div 5)" by simp
  have "j + 4 * t = (j + 4 * (t mod 5)) + 5 * (4 * (t div 5))" for j by presburger
  then show "var t j = (j + 4 * (t mod 5)) mod 5" by (simp only: var_def mod_mult_self2)
  have "j + 4 * Suc t = (j + 4 * (t mod 5) + 4) + 5 * (4 * (t div 5))" for j by presburger
  then show "var (Suc t) j = (j + 4 * (t mod 5) + 4) mod 5" by (simp only: var_def mod_mult_self2)
qed

lemma cycle_regs:
  assumes "length v = 5" "hf t w1 = (sha1_W w t, w2)"
  shows "\<exists>v'. cycle t (v, w1) = (v', w2) \<and> length v' = 5 \<and> regs (Suc t) v' = sha1_step w t (regs t v)"
proof -
  obtain v0 v1 v2 v3 v4 where v: "v = [v0, v1, v2, v3, v4]"
    using assms(1) by (auto simp: numeral_eq_Suc length_Suc_conv)
  have "t mod 5 < 5" by simp
  then consider "t mod 5 = 0" | "t mod 5 = 1" | "t mod 5 = 2" | "t mod 5 = 3" | "t mod 5 = 4" by linarith
  then show ?thesis
    by cases (simp_all add: cycle_def one_cycle_def Let_def assms(2) regs_def v rotations var_mod(1) [of t 0] var_mod(1) [of t "Suc 0"]
        var_mod(1) [of t 2] var_mod(1) [of t 3] var_mod(1) [of t 4] var_mod(2) [of t 0] var_mod(2) [of t "Suc 0"] var_mod(2) [of t 2]
        var_mod(2) [of t 3] var_mod(2) [of t 4] add.assoc add.left_commute)
qed

text \<open>The sixteen words in place: the last sixteen of the schedule.\<close>

definition window :: "u64 list \<Rightarrow> nat \<Rightarrow> u64 list \<Rightarrow> bool" where
  "window w t w1 \<longleftrightarrow> length w1 = 16 \<and> (\<forall>s. max t 16 \<le> s + 16 \<and> s < max t 16 \<longrightarrow> w1 ! (s mod 16) = sha1_W w s)"

lemma hf_window:
  assumes "window w t w1"
  shows "\<exists>w2. hf t w1 = (sha1_W w t, w2) \<and> window w (Suc t) w2"
proof (cases "t < 16")
  case True
  with assms have "hf t w1 = (sha1_W w t, w1)" by (simp add: hf_def window_def)
  moreover have "window w (Suc t) w1" using assms True by (simp add: window_def)
  ultimately show ?thesis by blast
next
  case False
  have w: "w1 ! (s mod 16) = sha1_W w s" if "t \<le> s + 16" "s < t" for s
    using assms False that by (simp add: window_def)
  have m: "(t + 13) mod 16 = (t - 3) mod 16" "(t + 8) mod 16 = (t - 8) mod 16" "(t + 2) mod 16 = (t - 14) mod 16" "t mod 16 = (t - 16) mod 16"
    using False mod_add_self2 [of "t - 3" 16] mod_add_self2 [of "t - 8" 16] mod_add_self2 [of "t - 14" 16] mod_add_self2 [of "t - 16" 16]
    by (simp_all add: add.commute)
  have W: "sha1_W w t = rotl32 (w1 ! ((t + 13) mod 16) XOR w1 ! ((t + 8) mod 16) XOR w1 ! ((t + 2) mod 16) XOR w1 ! (t mod 16)) 1"
    unfolding m using False w [of "t - 3"] w [of "t - 8"] w [of "t - 14"] w [of "t - 16"] by (simp add: sha1_W.simps [of w t])
  let ?w2 = "w1[t mod 16 := sha1_W w t]"
  have "hf t w1 = (sha1_W w t, ?w2)" using False by (simp add: hf_def Let_def W)
  moreover have "?w2 ! (s mod 16) = sha1_W w s" if "Suc t \<le> s + 16" "s < Suc t" for s
  proof (cases "s = t")
    case True
    then show ?thesis using assms by (simp add: window_def)
  next
    case False
    then have "0 < t - s" "t - s < 16" using that by simp_all
    then have "\<not> 16 dvd t - s" using dvd_imp_le by fastforce
    then have "s mod 16 \<noteq> t mod 16" using mod_eq_dvd_iff_nat [of s t 16] that by auto
    then show ?thesis using w [of s] that False by simp
  qed
  then have "window w (Suc t) ?w2" using assms False by (simp add: window_def)
  ultimately show ?thesis by blast
qed

lemma cycles_rounds:
  assumes "length v = 5" "length w = 16"
  shows "\<exists>v' w'. fold cycle [0 ..< t] (v, w) = (v', w') \<and> length v' = 5 \<and> window w t w' \<and>
    regs t v' = fold (sha1_step w) [0 ..< t] (regs 0 v)"
proof (induction t)
  case 0
  have "window w 0 w" using assms(2) by (simp add: window_def sha1_W.simps)
  then show ?case using assms(1) by simp
next
  case (Suc t)
  then obtain v1 w1 where 1: "fold cycle [0 ..< t] (v, w) = (v1, w1)" "length v1 = 5" "window w t w1"
    "regs t v1 = fold (sha1_step w) [0 ..< t] (regs 0 v)" by blast
  from hf_window [OF 1(3)] obtain w2 where 2: "hf t w1 = (sha1_W w t, w2)" "window w (Suc t) w2" by blast
  from cycle_regs [OF 1(2) 2(1)] obtain v2 where "cycle t (v1, w1) = (v2, w2)" "length v2 = 5"
    "regs (Suc t) v2 = sha1_step w t (regs t v1)" by blast
  with 1 2(2) show ?case by simp
qed

text \<open>C34: \<^verbatim>\<open>sha1_compile\<close>, which unrolls the 80 rounds into cycles that rename the five variables instead of moving them
  and keeps only sixteen words of the schedule in place, computes a plain loop of 80 rounds over the same 64 bit words and the
  same macros: five registers that shift, and a schedule of 80 words. It adds the result to the hash. On LP64 neither
  is the SHA-1 of the standard, because the words have 64 bits and the rotation macros assume 32.\<close>
theorem sha1_compile_reference:
  assumes "length w = 16"
  shows "fst (sha1_compile [h0, h1, h2, h3, h4] w) =
    (case sha1_ref_rounds w (h0, h1, h2, h3, h4) of (a, b, c, d, e) \<Rightarrow> [h0 + a, h1 + b, h2 + c, h3 + d, h4 + e])"
proof -
  let ?v = "[h0, h1, h2, h3, h4]"
  obtain v' w' where 1: "fold cycle [0 ..< 80] (?v, w) = (v', w')" "length v' = 5"
    "regs 80 v' = fold (sha1_step w) [0 ..< 80] (regs 0 ?v)"
    using cycles_rounds [of ?v w 80] assms by auto
  obtain v0 v1 v2 v3 v4 where v: "v' = [v0, v1, v2, v3, v4]"
    using 1(2) by (auto simp: numeral_eq_Suc length_Suc_conv)
  have "regs 0 ?v = (h0, h1, h2, h3, h4)" "regs 80 v' = (v0, v1, v2, v3, v4)" by (simp_all add: regs_def var_def v)
  then have "sha1_ref_rounds w (h0, h1, h2, h3, h4) = (v0, v1, v2, v3, v4)" using 1(3) by (simp add: sha1_ref_rounds_def)
  moreover have "sha1_cycles (?v, w) = (v', w')" using 1(1) sha1_cycles_fold [of "(?v, w)"] by simp
  ultimately show ?thesis by (simp add: sha1_compile_def v)
qed

theorem sha1_compile_reference_witness:
  "fst (sha1_compile [1, 2, 3, 4, 5] (replicate 16 7)) =
    (case sha1_ref_rounds (replicate 16 7) (1, 2, 3, 4, 5) of (a, b, c, d, e) \<Rightarrow> [1 + a, 2 + b, 3 + c, 4 + d, 5 + e])"
  by (rule sha1_compile_reference) simp

end
