(* ===== verification/CR_Pandora.thy ===== *)
theory CR_Pandora
  imports Prelude "HOL-Library.Multiset"
begin

text \<open>
  The key generator of \<^verbatim>\<open>crypto/src/cr_pandora.c\<close>: sixteen boxes on buffers of eight bytes, a table of them that every
  byte of the key reorders, and the finalisation of a key by one of eight bit tables. Counters are bytes and wrap.
  The dummy operations on registers have no effect and are left out. A pointer of the table is the
  number of its box, or \<^term>\<open>None\<close> before \<^verbatim>\<open>cr_init_pandora\<close>.
\<close>

section \<open>The boxes\<close>

definition ptable :: "u8 list list" where
  "ptable = [
     [0x01, 0x02, 0x04, 0x08, 0x10, 0x20, 0x40, 0x80],
     [0x04, 0x08, 0x01, 0x10, 0x20, 0x80, 0x02, 0x40],
     [0x08, 0x04, 0x02, 0x01, 0x80, 0x40, 0x20, 0x10],
     [0x02, 0x08, 0x40, 0x10, 0x04, 0x01, 0x80, 0x20],
     [0x80, 0x20, 0x10, 0x01, 0x10, 0x02, 0x04, 0x08],
     [0x40, 0x01, 0x20, 0x80, 0x08, 0x04, 0x08, 0x02],
     [0x20, 0x40, 0x80, 0x04, 0x08, 0x01, 0x02, 0x10],
     [0x10, 0x02, 0x40, 0x08, 0x04, 0x80, 0x20, 0x01]]"

text \<open>Byte \<open>i\<close> of the result collects bit \<open>m i\<close> of every byte, at the place the mask of that byte has.\<close>

definition collect :: "(nat \<Rightarrow> nat) \<Rightarrow> u8 list \<Rightarrow> u8 list \<Rightarrow> u8 list" where
  "collect m bmask buffer =
     map (\<lambda>i. fold (\<lambda>j t. t OR (if bit (buffer ! j) (m i) then bmask ! j else 0)) [0 ..< 8] 0) [0 ..< 8]"

definition sbox_permutate :: "u8 list \<Rightarrow> u8 list \<Rightarrow> u8 list" where
  "sbox_permutate bmask buffer = collect (\<lambda>i. i) bmask buffer"

definition sbox_xor :: "u8 list \<Rightarrow> u8 list \<Rightarrow> u8 list" where
  "sbox_xor xtable buffer = map (\<lambda>i. buffer ! i XOR xtable ! i) [0 ..< 8]"

definition sbox_0 where "sbox_0 = sbox_permutate [0x10, 0x01, 0x08, 0x80, 0x40, 0x20, 0x02, 0x04]"
definition sbox_1 where "sbox_1 = sbox_xor [219, 137, 7, 224, 99, 62, 187, 231]"
definition sbox_2 where "sbox_2 = sbox_xor [232, 190, 186, 126, 241, 177, 59, 254]"
definition sbox_3 where "sbox_3 = sbox_permutate [0x40, 0x80, 0x20, 0x08, 0x04, 0x01, 0x02, 0x10]"
definition sbox_4 where "sbox_4 = sbox_permutate [0x20, 0x80, 0x40, 0x10, 0x04, 0x01, 0x02, 0x08]"
definition sbox_5 where "sbox_5 = sbox_xor [223, 19, 86, 176, 218, 45, 62, 205]"
definition sbox_6 where "sbox_6 = sbox_xor [120, 165, 243, 143, 252, 222, 86, 201]"
definition sbox_7 where "sbox_7 = sbox_permutate [0x80, 0x10, 0x01, 0x20, 0x10, 0x02, 0x04, 0x08]"
definition sbox_8 where "sbox_8 = sbox_permutate [0x10, 0x40, 0x02, 0x04, 0x08, 0x80, 0x20, 0x01]"
definition sbox_9 where "sbox_9 = sbox_xor [221, 231, 188, 167, 243, 66, 210, 197]"
definition sbox_10 where "sbox_10 = sbox_permutate [0x01, 0x02, 0x04, 0x10, 0x08, 0x20, 0x40, 0x80]"
definition sbox_11 where "sbox_11 = sbox_permutate [0x04, 0x20, 0x80, 0x01, 0x10, 0x08, 0x02, 0x40]"
definition sbox_12 where "sbox_12 = sbox_xor [236, 240, 197, 246, 160, 224, 253, 237]"

definition sbox_13 :: "u8 list \<Rightarrow> u8 list" where
  "sbox_13 buffer = map (\<lambda>i. if i < 4 then NOT (buffer ! i) else buffer ! i) [0 ..< 8]"

definition sbox_14 where "sbox_14 = sbox_xor [234, 105, 102, 91, 122, 211, 176, 215]"
definition sbox_15 where "sbox_15 = sbox_xor [180, 187, 192, 169, 244, 52, 227, 161]"

definition sbox_table :: "(u8 list \<Rightarrow> u8 list) list" where
  "sbox_table = [sbox_0, sbox_1, sbox_2, sbox_3, sbox_4, sbox_5, sbox_6, sbox_7,
     sbox_8, sbox_9, sbox_10, sbox_11, sbox_12, sbox_13, sbox_14, sbox_15]"

definition cr_init_pandora :: "nat option list" where
  "cr_init_pandora = map Some [0 ..< 16]"

section \<open>Generating a key\<close>

text \<open>A call through the table on the eight bytes from \<open>i\<close> on.\<close>

definition call_box :: "nat option \<Rightarrow> nat \<Rightarrow> u8 list \<Rightarrow> u8 list result" where
  "call_box f i key =
     (case f of
        None \<Rightarrow> Inl Null_Deref
      | Some n \<Rightarrow>
          if length key < i + 8 then Inl Out_Of_Bounds
          else Inr (take i key @ (sbox_table ! n) (take 8 (drop i key)) @ drop (i + 8) key))"

definition lo4 :: "u8 \<Rightarrow> nat" where "lo4 k = unat (k AND 0x0F)"
definition hi4 :: "u8 \<Rightarrow> nat" where "hi4 k = unat (drop_bit 4 k AND 0x0F)"

definition swap_box :: "u8 \<Rightarrow> nat option list \<Rightarrow> nat option list" where
  "swap_box k pbox = pbox[lo4 k := pbox ! hi4 k, hi4 k := pbox ! lo4 k]"

definition rotate_boxes :: "nat option list \<Rightarrow> nat option list" where
  "rotate_boxes pbox = fst (fold (\<lambda>k (p, temp). (p[k - 1 := temp], p ! (k - 1))) (rev [1 ..< 17]) (pbox, pbox ! 0))"

definition key_step :: "nat \<Rightarrow> nat \<Rightarrow> nat option list \<times> u8 list \<Rightarrow> (nat option list \<times> u8 list) result" where
  "key_step i j = (\<lambda>(pbox, key).
     let index = i + j in
     if length key \<le> index then Inl Out_Of_Bounds
     else
       bind_r (call_box (pbox ! lo4 (key ! index)) i key) (\<lambda>key1.
       let b = key1 ! index; temp = pbox ! lo4 b; pbox1 = swap_box b pbox in
       bind_r (call_box (pbox1 ! hi4 b) i key1) (\<lambda>key2.
       let b2 = key2 ! index; temp2 = pbox1 ! lo4 b2; pbox2 = swap_box b2 pbox1 in
       Inr (if temp2 = temp then rotate_boxes pbox2 else pbox2, key2))))"

fun steps_r :: "('a \<Rightarrow> 'c \<Rightarrow> 'c result) \<Rightarrow> 'a list \<Rightarrow> 'c \<Rightarrow> 'c result" where
  "steps_r f [] c = Inr c"
| "steps_r f (x # xs) c = bind_r (f x c) (steps_r f xs)"

partial_function (option) generate_loop ::
  "u8 \<Rightarrow> u8 \<Rightarrow> nat option list \<times> u8 list \<Rightarrow> (nat option list \<times> u8 list) result option" where
  "generate_loop len i st =
     (if i < len then
        (case steps_r (key_step (unat i)) [0 ..< 8] st of
           Inl e \<Rightarrow> Some (Inl e)
         | Inr st' \<Rightarrow> generate_loop len (i + 8) st')
      else Some (Inr st))"

definition cr_generate_key ::
  "nat option list \<Rightarrow> u8 list \<Rightarrow> u8 list \<Rightarrow> u8 \<Rightarrow> (nat option list \<times> u8 list) result option" where
  "cr_generate_key pbox random key len =
     (if length random < unat len \<or> length key < unat len then Some (Inl Out_Of_Bounds)
      else generate_loop len 0 (pbox, take (unat len) random @ drop (unat len) key))"

section \<open>Finalising a key\<close>

partial_function (option) lrc_loop :: "u8 list \<Rightarrow> u8 \<Rightarrow> u8 \<Rightarrow> u16 \<Rightarrow> u16 result option" where
  "lrc_loop key len i crc =
     (if i < len then
        if length key \<le> unat i + 1 then Some (Inl Out_Of_Bounds)
        else lrc_loop key len (i + 2)
          (crc XOR ((push_bit 8 (ucast (key ! unat i)) AND 0xFF00) OR (ucast (key ! (unat i + 1)) AND 0xFF)))
      else Some (Inr crc))"

definition cr_gen_lrc :: "u8 list \<Rightarrow> u8 \<Rightarrow> u16 result option" where
  "cr_gen_lrc key len = lrc_loop key len 0 0"

partial_function (option) finalize_loop :: "u8 list \<Rightarrow> u8 \<Rightarrow> u8 \<Rightarrow> u8 list \<Rightarrow> u8 list result option" where
  "finalize_loop bmask len i key =
     (if i < len then
        if length key < unat i + 8 then Some (Inl Out_Of_Bounds)
        else finalize_loop bmask len (i + 8)
          (take (unat i) key @ collect (\<lambda>k. 7 - k) bmask (take 8 (drop (unat i) key)) @ drop (unat i + 8) key)
      else Some (Inr key))"

definition cr_finalize_key :: "u8 list \<Rightarrow> u8 \<Rightarrow> u8 \<Rightarrow> (u16 \<times> u8 list) result option" where
  "cr_finalize_key key len seed =
     bind_o (finalize_loop (ptable ! unat (seed AND 7)) len 0 key) (\<lambda>key'.
     bind_o (cr_gen_lrc key' len) (\<lambda>lrc. Some (Inr (lrc, key'))))"

text \<open>
  The search for the seed of a check value; 255 when there is none. The copy \<open>tbuf\<close> is a local array of 16 bytes that
  starts with what the stack holds, a parameter here, and every round copies the key over what the last one left.
\<close>

fun seed_loop :: "u8 list \<Rightarrow> u8 \<Rightarrow> u16 \<Rightarrow> nat list \<Rightarrow> u8 list \<Rightarrow> u8 result option" where
  "seed_loop key len lrc [] tbuf = Some (Inr 255)"
| "seed_loop key len lrc (i # ks) tbuf =
     bind_o (cr_finalize_key (take (unat len) key @ drop (unat len) tbuf) len (of_nat i)) (\<lambda>(l, tbuf').
       if lrc = l then Some (Inr (of_nat i)) else seed_loop key len lrc ks tbuf')"

definition cr_calculate_key :: "u8 list \<Rightarrow> u8 list \<Rightarrow> u8 \<Rightarrow> u16 \<Rightarrow> u8 result option" where
  "cr_calculate_key tbuf key len lrc =
     (if length tbuf < unat len \<or> length key < unat len then Some (Inl Out_Of_Bounds)
      else seed_loop key len lrc [0 ..< 8] tbuf)"

declare generate_loop.simps [code] lrc_loop.simps [code] finalize_loop.simps [code]

section \<open>Boxes keep their size\<close>

lemma length_collect [simp]: "length (collect m bmask buffer) = 8"
  by (simp add: collect_def)

lemma length_sbox_permutate [simp]: "length (sbox_permutate bmask buffer) = 8"
  by (simp add: sbox_permutate_def)

lemma length_sbox_xor [simp]: "length (sbox_xor xtable buffer) = 8"
  by (simp add: sbox_xor_def)

lemmas sbox_defs = sbox_0_def sbox_1_def sbox_2_def sbox_3_def sbox_4_def sbox_5_def sbox_6_def sbox_7_def sbox_8_def
  sbox_9_def sbox_10_def sbox_11_def sbox_12_def sbox_13_def sbox_14_def sbox_15_def

lemma length_sbox_table [simp]: "length sbox_table = 16"
  by (simp add: sbox_table_def)

lemma sbox_table_lengths: "list_all (\<lambda>f. \<forall>b. length (f b) = 8) sbox_table"
  by (simp add: sbox_table_def sbox_defs)

lemma length_sbox [simp]: "n < 16 \<Longrightarrow> length ((sbox_table ! n) b) = 8"
  using sbox_table_lengths by (simp add: list_all_length)

text \<open>The boxes that only mask a block undo themselves.\<close>

lemma sbox_xor_involution:
  assumes "length b = 8"
  shows "sbox_xor x (sbox_xor x b) = b"
  by (rule nth_equalityI) (use assms in \<open>auto simp: sbox_xor_def xor.assoc\<close>)

text \<open>Two bytes of a block with one mask cannot be told apart, so box 7 loses information, as do seeds 4 and 5.\<close>

lemma sbox_7_loses_bytes: "sbox_7 [0, 1, 0, 0, 0, 0, 0, 0] = sbox_7 [0, 0, 0, 0, 1, 0, 0, 0]"
  by code_simp

section \<open>The table stays a permutation of the boxes\<close>

definition box_table :: "nat option list \<Rightarrow> bool" where
  "box_table pbox = (mset pbox = mset cr_init_pandora)"

lemma cr_init_pandora_table: "box_table cr_init_pandora"
  by (simp add: box_table_def)

lemma box_table_length: "box_table p \<Longrightarrow> length p = 16"
  unfolding box_table_def by (drule mset_eq_length) (simp add: cr_init_pandora_def)

lemma box_table_nth:
  assumes "box_table p" "n < 16"
  obtains m where "p ! n = Some m" "m < 16"
proof -
  have "set p = set cr_init_pandora"
    using assms(1) unfolding box_table_def by (rule mset_eq_setD)
  then have "set p = Some ` {0 ..< 16}"
    by (simp add: cr_init_pandora_def)
  with assms box_table_length [of p] nth_mem [of n p] show ?thesis
    by (auto intro: that)
qed

lemma lo4_less [simp]: "lo4 k < 16"
proof -
  have "unat (k AND 0x0F) \<le> unat (0x0F :: u8)"
    by (rule word_le_nat_alt [THEN iffD1]) (rule word_and_le1)
  then show ?thesis
    by (simp add: lo4_def)
qed

lemma hi4_less [simp]: "hi4 k < 16"
  using lo4_less [of "drop_bit 4 k"] by (simp add: lo4_def hi4_def)

lemma swap_box_table: "box_table p \<Longrightarrow> box_table (swap_box k p)"
  using mset_swap [of "hi4 k" p "lo4 k"] box_table_length [of p] by (simp add: box_table_def swap_box_def)

lemma rotate_boxes_eq:
  assumes "length p = 16"
  shows "rotate_boxes p = tl p @ [hd p]"
proof -
  have u: "rev [1 ..< 17] = [16, 15, 14, 13, 12, 11, 10, 9, 8, 7, 6, 5, 4, 3, 2, 1 :: nat]"
    by code_simp
  obtain a0 a1 a2 a3 a4 a5 a6 a7 a8 a9 a10 a11 a12 a13 a14 a15 where "p = [a0, a1, a2, a3, a4, a5, a6, a7, a8, a9, a10, a11, a12, a13, a14, a15]"
    using assms by (auto simp: length_Suc_conv numeral_eq_Suc)
  then show ?thesis
    by (simp add: rotate_boxes_def u [unfolded One_nat_def])
qed

lemma rotate_boxes_table: "box_table p \<Longrightarrow> box_table (rotate_boxes p)"
  using box_table_length [of p] by (cases p) (auto simp: rotate_boxes_eq box_table_def)


section \<open>Generating a key\<close>

lemma steps_r_keeps:
  assumes "\<And>x c. x \<in> set xs \<Longrightarrow> P c \<Longrightarrow> \<exists>c'. f x c = Inr c' \<and> P c'" and "P c"
  shows "\<exists>c'. steps_r f xs c = Inr c' \<and> P c'"
  using assms
proof (induction xs arbitrary: c)
  case (Cons x xs)
  then obtain c' where "f x c = Inr c'" "P c'"
    by (meson list.set_intros(1))
  with Cons show ?case
    by simp
qed simp

text \<open>What generation keeps of a state: the boxes, the size of the buffer and the bytes behind the key.\<close>

definition key_ok :: "nat \<Rightarrow> u8 list \<Rightarrow> nat option list \<times> u8 list \<Rightarrow> bool" where
  "key_ok len rest st = (box_table (fst st) \<and> length (snd st) = len + length rest \<and> drop len (snd st) = rest)"

lemma call_box_keeps:
  assumes "box_table p" "n < 16" "i + 8 \<le> len" "length key = len + length rest" "drop len key = rest"
  obtains key' where "call_box (p ! n) i key = Inr key'" "length key' = len + length rest" "drop len key' = rest"
proof -
  obtain m where m: "p ! n = Some m" "m < 16"
    using box_table_nth [OF assms(1,2)] .
  let ?b = "(sbox_table ! m) (take 8 (drop i key))"
  have "drop len (take i key @ ?b @ drop (i + 8) key) = rest"
    using assms(3-5) m(2) by (simp add: add.commute)
  with assms(3,4) m show ?thesis
    by (intro that [of "take i key @ ?b @ drop (i + 8) key"]) (simp_all add: call_box_def)
qed

lemma key_step_keeps:
  assumes "key_ok len rest st" "i + 8 \<le> len" "j < 8"
  shows "\<exists>st'. key_step i j st = Inr st' \<and> key_ok len rest st'"
proof -
  obtain p key where st: "st = (p, key)"
    by fastforce
  with assms(1) have p: "box_table p" and k: "length key = len + length rest" "drop len key = rest"
    by (simp_all add: key_ok_def)
  obtain key1 where 1: "call_box (p ! lo4 (key ! (i + j))) i key = Inr key1"
    and k1: "length key1 = len + length rest" "drop len key1 = rest"
    using call_box_keeps [OF p lo4_less assms(2) k] .
  let ?p1 = "swap_box (key1 ! (i + j)) p"
  obtain key2 where 2: "call_box (?p1 ! hi4 (key1 ! (i + j))) i key1 = Inr key2"
    and k2: "length key2 = len + length rest" "drop len key2 = rest"
    using call_box_keeps [OF swap_box_table [OF p] hi4_less assms(2) k1] .
  show ?thesis
    using assms(2,3) k(1) p k2
    by (simp add: st key_step_def 1 2 Let_def key_ok_def swap_box_table rotate_boxes_table)
qed

lemma generate_loop_keeps:
  assumes "8 dvd unat len" "unat len \<le> 248" "8 dvd unat i" "unat i \<le> unat len" "key_ok (unat len) rest st"
  shows "\<exists>st'. generate_loop len i st = Some (Inr st') \<and> key_ok (unat len) rest st'"
  using assms(3-5)
proof (induction "unat len - unat i" arbitrary: i st rule: less_induct)
  case less
  show ?case
  proof (cases "i < len")
    case True
    then have lt: "unat i < unat len"
      by (simp add: word_less_nat_alt)
    with assms(1) less.prems(1) have le: "unat i + 8 \<le> unat len"
      by (elim dvdE) simp
    have add: "unat (i + 8) = unat i + 8"
      using le assms(2) by (simp add: unat_word_ariths)
    obtain st' where st': "steps_r (key_step (unat i)) [0 ..< 8] st = Inr st'" "key_ok (unat len) rest st'"
      using steps_r_keeps [of "[0 ..< 8]" "key_ok (unat len) rest" "key_step (unat i)" st]
        key_step_keeps [OF _ le] less.prems(3) by auto
    have "\<exists>st''. generate_loop len (i + 8) st' = Some (Inr st'') \<and> key_ok (unat len) rest st''"
      using less.hyps [of "i + 8" st'] le lt less.prems(1) st'(2) by (simp add: add)
    with True st'(1) show ?thesis
      by (simp add: generate_loop.simps [of len i])
  next
    case False
    with less.prems(3) show ?thesis
      by (simp add: generate_loop.simps [of len i])
  qed
qed




section \<open>Finalising and searching\<close>

lemma multiple_step:
  fixes i len n :: nat
  assumes "n dvd i" "n dvd len" "i < len"
  shows "i + n \<le> len"
  using dvd_imp_le [of n "len - i"] assms by (simp add: dvd_diff_nat)

text \<open>The bytes behind the key have no influence, and come back as they were.\<close>

lemma finalize_loop_total:
  assumes "8 dvd unat len" "unat len \<le> 248" "8 dvd unat i" "length k = unat len"
  shows "\<exists>k'. length k' = unat len \<and> (\<forall>t. finalize_loop bmask len i (k @ t) = Some (Inr (k' @ t)))"
  using assms(3,4)
proof (induction "unat len - unat i" arbitrary: i k rule: less_induct)
  case less
  show ?case
  proof (cases "i < len")
    case True
    then have lt: "unat i < unat len"
      by (simp add: word_less_nat_alt)
    then have le: "unat i + 8 \<le> unat len"
      using multiple_step [OF less.prems(1) assms(1)] by simp
    have add: "unat (i + 8) = unat i + 8"
      using le assms(2) by (simp add: unat_word_ariths)
    let ?k = "take (unat i) k @ collect (\<lambda>k. 7 - k) bmask (take 8 (drop (unat i) k)) @ drop (unat i + 8) k"
    have dec: "unat len - (unat i + 8) < unat len - unat i"
      using lt by simp
    have k: "length ?k = unat len"
      using le less.prems(2) by simp
    obtain k' where k': "length k' = unat len" "\<And>t. finalize_loop bmask len (i + 8) (?k @ t) = Some (Inr (k' @ t))"
      using less.hyps [of "i + 8" ?k, unfolded add, OF dec _ k] less.prems(1) by auto
    have "finalize_loop bmask len i (k @ t) = Some (Inr (k' @ t))" for t
      using True le less.prems(2) k'(2) [of t] by (simp add: finalize_loop.simps [of bmask len i])
    with k'(1) show ?thesis
      by blast
  next
    case False
    with less.prems(2) show ?thesis
      by (intro exI [of _ k]) (simp add: finalize_loop.simps [of bmask len i])
  qed
qed

lemma lrc_loop_total:
  assumes "2 dvd unat len" "2 dvd unat i" "length k = unat len"
  shows "\<exists>l. \<forall>t. lrc_loop (k @ t) len i crc = Some (Inr l)"
  using assms(2)
proof (induction "unat len - unat i" arbitrary: i crc rule: less_induct)
  case less
  show ?case
  proof (cases "i < len")
    case True
    then have lt: "unat i < unat len"
      by (simp add: word_less_nat_alt)
    then have le: "unat i + 2 \<le> unat len"
      using multiple_step [OF less.prems(1) assms(1)] by simp
    moreover have "unat len < 256"
      using unsigned_less [of len] by simp
    ultimately have add: "unat (i + 2) = unat i + 2"
      by (simp add: unat_word_ariths)
    have dec: "unat len - (unat i + 2) < unat len - unat i"
      using lt by simp
    let ?crc = "crc XOR ((push_bit 8 (ucast (k ! unat i)) AND 0xFF00) OR (ucast (k ! (unat i + 1)) AND 0xFF))"
    obtain l where "\<And>t. lrc_loop (k @ t) len (i + 2) ?crc = Some (Inr l)"
      using less.hyps [of "i + 2" ?crc, unfolded add, OF dec] less.prems by auto
    with True le assms(3) show ?thesis
      by (intro exI [of _ l]) (simp add: lrc_loop.simps [of _ len i] nth_append)
  next
    case False
    then show ?thesis
      by (simp add: lrc_loop.simps [of _ len i])
  qed
qed

lemma cr_finalize_key_total:
  assumes "8 dvd unat len" "unat len \<le> 248" "length k = unat len"
  obtains l k' where "length k' = unat len" "\<And>t. cr_finalize_key (k @ t) len seed = Some (Inr (l, k' @ t))"
proof -
  obtain k' where k': "length k' = unat len"
      "\<And>t. finalize_loop (ptable ! unat (seed AND 7)) len 0 (k @ t) = Some (Inr (k' @ t))"
    using finalize_loop_total [OF assms(1,2) _ assms(3), of 0] by auto
  have "2 dvd unat len"
    using assms(1) by (meson dvd_trans even_numeral)
  then obtain l where "\<And>t. lrc_loop (k' @ t) len 0 0 = Some (Inr l)"
    using lrc_loop_total [of len 0 k' 0] k'(1) by auto
  with k' show ?thesis
    by (intro that [of k' l]) (simp_all add: cr_finalize_key_def cr_gen_lrc_def)
qed

text \<open>The seed \<open>s\<close> finalises the key to the check value \<open>lrc\<close>.\<close>

definition seed_matches :: "u8 list \<Rightarrow> u8 \<Rightarrow> u16 \<Rightarrow> nat \<Rightarrow> bool" where
  "seed_matches key len lrc s =
     (case cr_finalize_key (take (unat len) key) len (of_nat s) of Some (Inr (l, _)) \<Rightarrow> lrc = l | _ \<Rightarrow> False)"

lemma seed_loop_find:
  assumes "8 dvd unat len" "unat len \<le> 248" "unat len \<le> length key"
  shows "seed_loop key len lrc ks tbuf =
    Some (Inr (case find (seed_matches key len lrc) ks of None \<Rightarrow> 255 | Some s \<Rightarrow> of_nat s))"
proof (induction ks arbitrary: tbuf)
  case (Cons s ks)
  have "length (take (unat len) key) = unat len"
    using assms(3) by simp
  then obtain l k' where
    "\<And>t. cr_finalize_key (take (unat len) key @ t) len (of_nat s) = Some (Inr (l, k' @ t))"
    using cr_finalize_key_total [OF assms(1,2)] by metis
  from this [of "drop (unat len) tbuf"] this [of "[]"] Cons.IH show ?case
    by (simp add: seed_matches_def)
qed simp

text \<open>for a length that is a multiple of 8, up to the 16 bytes of its buffer, \<open>cr_calculate_key\<close> ends and returns the first of
  the eight seeds that finalises the key to the given check value, and 255 when no seed does. What the
  buffer held before plays no part.\<close>

lemma cr_calculate_key_least:
  assumes "8 dvd unat len" "length tbuf = 16" "unat len \<le> 16" "unat len \<le> length key"
  shows "cr_calculate_key tbuf key len lrc =
    Some (Inr (case find (seed_matches key len lrc) [0 ..< 8] of None \<Rightarrow> 255 | Some s \<Rightarrow> of_nat s))"
  using assms seed_loop_find [of len key lrc "[0 ..< 8]" tbuf] by (simp add: cr_calculate_key_def)

lemma cr_calculate_key_least_witness:
  "cr_calculate_key (replicate 16 9) [1, 2, 3, 4, 5, 6, 7, 8] 8 59731 = Some (Inr 3)"
proof -
  have "find (seed_matches [1, 2, 3, 4, 5, 6, 7, 8] 8 59731) [0 ..< 8] = Some 3"
    by code_simp
  then show ?thesis
    using cr_calculate_key_least [of 8 "replicate 16 9" "[1, 2, 3, 4, 5, 6, 7, 8]" 59731] by simp
qed

text \<open>Beyond 248 the byte counter passes the end of the buffer by wrapping to 0, and finalisation never ends.\<close>

lemma block_index:
  assumes "8 dvd unat (i :: u8)"
  shows "unat i \<le> 248" "8 dvd unat (i + 8)"
proof -
  have "unat i < 256"
    using unsigned_less [of i] by simp
  with multiple_step [OF assms, of 256] show "unat i \<le> 248"
    by simp
  show "8 dvd unat (i + 8)"
    using assms by (simp add: unat_word_ariths dvd_mod)
qed

lemma finalize_loop_short:
  assumes "finalize_loop bmask len i key = Some r"
  shows "8 dvd unat i \<longrightarrow> 256 \<le> length key \<longrightarrow> unat len \<le> 248"
proof (rule finalize_loop.raw_induct [OF _ assms])
  fix loop and bmask key :: "u8 list" and len i :: u8 and r :: "u8 list result"
  assume IH: "\<And>bmask len i key r. loop bmask len i key = Some r \<Longrightarrow>
      8 dvd unat i \<longrightarrow> 256 \<le> length key \<longrightarrow> unat len \<le> 248"
    and r: "(if i < len then
        if length key < unat i + 8 then Some (Inl Out_Of_Bounds)
        else loop bmask len (i + 8)
          (take (unat i) key @ collect (\<lambda>k. 7 - k) bmask (take 8 (drop (unat i) key)) @ drop (unat i + 8) key)
      else Some (Inr key)) = Some r"
  show "8 dvd unat i \<longrightarrow> 256 \<le> length key \<longrightarrow> unat len \<le> 248"
  proof (intro impI)
    assume i: "8 dvd unat i" and k: "256 \<le> length key"
    show "unat len \<le> 248"
    proof (cases "i < len")
      case True
      with r i k block_index [OF i] IH [of bmask len "i + 8"] show ?thesis
        by (fastforce split: if_splits)
    next
      case False
      with block_index(1) [OF i] show ?thesis
        by (simp add: word_less_nat_alt)
    qed
  qed
qed

lemma finalize_loop_diverges:
  assumes "248 < unat len" "256 \<le> length key"
  shows "finalize_loop bmask len 0 key = None"
  using finalize_loop_short [of bmask len 0 key] assms by (cases "finalize_loop bmask len 0 key") auto

end
