(* ===== verification/Spec2Isabelle.thy ===== *)
theory Spec2Isabelle
  imports VM_Machine VM_Stream IL2_Optimizer SP_Switch CR_Check CR_SHA1 CR_Pandora
begin

text \<open>
  A verification library for OrbWeaver: the compiler of the Stack language (\<^verbatim>\<open>StackLib/Stack\<close>), the virtual
  machine that runs its code (\<^verbatim>\<open>StackLib/StackVM\<close>) and the cryptographic library the machine offers to
  programs (\<^verbatim>\<open>StackLib/crypto\<close>).

  \<^bold>\<open>How the program works.\<close> The semantic actions of the parser emit byte code and constants through the code
  generator; the symbol table resolves names and keeps the open jumps. Two optimisers rewrite the code
  buffer, the linker appends the constant pool and makes every operand relative to its instruction. The
  virtual machine fetches from that buffer. Classes and methods of a program are kept in lists of nodes, which the package
  encoder writes to a file together with the code and the package linker reads back. The machine's objects are blocks of a heap of its own, the Midgard heap,
  with a four bit reference count; operands and frames share one array of slots. Programs reach encryption
  and checksums through system calls.

  \<^bold>\<open>Theories.\<close>
  \<^item> \<open>Prelude\<close>: word types, C errors as values, results as sums, shared list lemmas.
  \<^item> \<open>Midgard\<close>: \<^verbatim>\<open>midgard.c\<close>, \<^verbatim>\<open>midgard_apis.c\<close>. A heap is its root, size, headers by address and bytes by
    address; loops over headers are partial functions into \<open>option\<close>. Allocation and release on well-formed
    heaps, disjointness of live blocks in every reachable heap, first fit is complete, the space behind the
    end marker (\<open>heap_rest\<close>). Sizes are 64 bit \<^verbatim>\<open>unsigned long\<close> and their sums wrap: well-formed heaps lie
    below \<open>2 ^ 63\<close> and requests (\<open>request_ok\<close>) are positive and leave room for two headers below \<open>2 ^ 63\<close>, which
    is all the allocator can serve; what a wrapping request does is \<open>m_alloc_wraps\<close>. The locale \<open>allocator\<close>
    states the contract.
  \<^item> \<open>VM_Stream\<close>: \<^verbatim>\<open>vm_stream.c\<close>, paged memory streams and the console stream.
  \<^item> \<open>Sym_Table\<close>: \<^verbatim>\<open>sym_table.c\<close>, the record chain, scopes, references; the locale \<open>first_match\<close>.
  \<^item> \<open>Bytecode\<close>: opcodes, lengths and classes of instructions, operands in big-endian order.
  \<^item> \<open>IL_Streamer\<close>: \<^verbatim>\<open>il_streamer.c\<close>, emission of code, the constant pool (locale \<open>constant_pool\<close>), jump tables,
    and the linker: what linking does to every instruction.
  \<^item> \<open>IL1_Optimizer\<close>, \<open>IL2_Optimizer\<close>: the two optimisers; abstract rewriting of instruction lists, where the
    passes diverge and where they crash.
  \<^item> \<open>PK_Package\<close>: \<^verbatim>\<open>pkg_encoder_apis.c\<close>, \<^verbatim>\<open>pkg_encoder.c\<close>. Classes, interfaces, methods and try-catch blocks are nodes
    of an explicit store, linked by address. What sequences of calls build (\<open>pk_layout\<close>), the encoding of the
    content as nested tag-length-value elements (\<open>enc_package\<close>), and that the encoder, which works in one
    buffer, writes it; method resolution along base classes.
  \<^item> \<open>PK_Linker\<close>: \<^verbatim>\<open>pkg_linker.c\<close>, reading a package file with its position, short reads and 16-bit offsets; the
    round trip from calls to the decoded classes, what is misread, and freeing.
  \<^item> \<open>C_Text\<close>: decimal numbers as C text (\<^verbatim>\<open>atoi\<close>, \<^verbatim>\<open>%d\<close>), used by the compiler and by the machine.
  \<^item> \<open>SP_State\<close>, \<open>SP_Scope\<close>, \<open>SP_Actions\<close>, \<open>SP_Control\<close>, \<open>SP_Lambda\<close>: \<^verbatim>\<open>sem_proto.c\<close>, the actions the parser calls. The state is one
    record of the global variables together with the states of the symbol table, the code generator and the
    package encoder; an action maps it to \<^term>\<open>None\<close>, an error, or a new state and a value, composed by \<^term>\<open>bind_p\<close>. A
    pointer to a symbol record is its address, above the numbers of system calls that share its place in a pending
    instruction. The configuration is that of the compiler \<^verbatim>\<open>glome\<close>, in which \<^verbatim>\<open>sm_printf\<close> is empty.
  \<^item> \<open>SP_Backpatch\<close>: the invariant of open jumps under labels, jumps and loops, and its composition with the linker.
  \<^item> \<open>SP_Lazy\<close>: what flushing a scope of pending instructions appends to the code, and the divergence of cloning.
  \<^item> \<open>SP_Switch\<close>: the jump table that a switch with any sequence of cases leaves in the pool.
  \<^item> \<open>VM_Object\<close>: objects, reference counts, operand stack, frames and the collector of \<^verbatim>\<open>vm_stack.c\<close> and
    \<^verbatim>\<open>vm_stack_apis.c\<close>. The machine is a record; an operation maps a machine to \<^term>\<open>None\<close> (it does not
    return), an error, or a result with the new machine, composed by \<^term>\<open>bind_v\<close>.
  \<^item> \<open>VM_Ops\<close>: operators and comparisons; numbers are decimal text.
  \<^item> \<open>VM_Exec\<close>: every opcode of \<^verbatim>\<open>vm_decode\<close>, the loop, exceptions and try-catch blocks, system calls, function
    objects. From a constant of the source program to the operand stack of the machine.
  \<^item> \<open>VM_Machine\<close>: the abstract machine on byte strings and the simulation (locale \<open>simulation\<close>) by whole
    rounds of the interpreter loop, garbage collection and end test included, with the reference count invariant.
    It covers programs without calls, objects and try-catch blocks; the budget of a round is the space its
    allocations take behind the last block of the heap.
  \<^item> \<open>CR_AES\<close>, \<open>CR_DES\<close>, \<open>CR_Crypt\<close>, \<open>CR_Check\<close>: \<^verbatim>\<open>cr_aes.c\<close>, \<^verbatim>\<open>cr_des.c\<close>, \<^verbatim>\<open>cr_crypt.c\<close>, \<^verbatim>\<open>cr_core.c\<close>, \<^verbatim>\<open>cr_crc.c\<close>,
    \<^verbatim>\<open>cr_mac.c\<close>. Ciphers as functions on byte lists with the locale \<open>block_cipher\<close>, chaining and bulk
    encryption over a storage interface (locale \<open>cr_storage\<close>), checksums against bit-serial references.

  \<^item> \<open>CR_Hash\<close>, \<open>CR_SHA1\<close>: \<^verbatim>\<open>cr_sha256.c\<close>, \<^verbatim>\<open>cr_md5.c\<close>, \<^verbatim>\<open>cr_sha1.c\<close>, with the 64 bit words their types have on this target.
    The locale \<open>block_hash\<close> states how a context consumes bytes and gives the digest as a fold over the padded message; which
    bytes of the input each entry point really hashes; the unrolled cycles of SHA-1 against a plain loop of 80 rounds
    over the same words and macros (which, with 64 bit words, is not the SHA-1 of the standard).
  \<^item> \<open>CR_Pandora\<close>: \<^verbatim>\<open>cr_pandora.c\<close>, boxes, key generation with the table of boxes as a permutation, finalisation and
    the search for a seed.

  \<^bold>\<open>Errors, loops and bounds.\<close> An access outside a buffer, a NULL pointer and the use of a value that was
  never set are error values, so a theorem that excludes them says the C code is free of that fault. Loops
  whose end depends on data are partial functions, and theorems that the code returns state that the value
  is not \<^term>\<open>None\<close>. There is no fuel. Integers have their C width where they wrap. Where the code calls
  \<^verbatim>\<open>memcpy\<close> on overlapping regions or writes behind an array inside its record, the model takes the usual outcome
  (a copy from the lower end, the next fields of the record) and says so at the definition. The configuration
  is that of the interpreter in \<^verbatim>\<open>config.h\<close> on a 64 bit Linux target.

  \<^bold>\<open>Environment.\<close> What the machine calls outside the modelled files is a field of the record \<open>vm_env\<close>: the code
  buffer, the table of system calls, class directory and method tables, native interface calls, floating
  point and casts of the framework, release functions. Theorems that need something of it say so in their
  premises.

  \<^bold>\<open>Not modelled.\<close> The generated scanner and parser, whose tables decide in which order the semantic actions are called: the theorems
  about them hold for every order their premises allow; the actions that open files and directories (\<^verbatim>\<open>sp_import_package\<close>, \<^verbatim>\<open>sp_init\<close>, \<^verbatim>\<open>sp_open\<close>); the APDU script, the assembly listing and the class dump, which only print; opening files and directories; the framework extensions, native calls,
  the C++ wrappers and the web host, which are operating system and network calls; third-party code
  (libcgi, Jansson, WolfSSL, minIni, pthreads-win32).

  \<^bold>\<open>Plan.\<close> Calls and the exception path of the interpreter inside the simulation; the semantic actions for functions
  and lambda expressions under the invariant of open jumps, and the grammar that calls them; then the composition of
  the hash functions with the storage interface of the machine.
\<close>

end
